(* ===== verification/Prelude.thy ===== *)
theory Prelude
  imports Main "HOL-Library.Word" "HOL-Library.Monad_Syntax"
begin

text \<open>
  Shared vocabulary of the development.

  Machine integers are words of the width the C type has on the target (x86-64, LP64):
  \<open>uint8_t\<close>, \<open>uint16_t\<close>, \<open>uint32_t\<close>/\<open>unsigned\<close>, \<open>uint64_t\<close>/\<open>size_t\<close> are the types \<open>u8\<close>,
  \<open>u16\<close>, \<open>u32\<close>, \<open>u64\<close>, so that \<open>+\<close>, \<open>-\<close>, \<open>*\<close> wrap as they do in C.  Plain \<open>char\<close> is signed there:
  reading a byte through a \<open>char *\<close> and using it in 64-bit arithmetic is \<open>char_to_u64\<close> below.

  Memory that the code indexes is a list, and every access is bounds-checked in the model:
  \<open>rd\<close>, \<open>wr\<close>, \<open>rd_bytes\<close> and \<open>wr_bytes\<close> return \<open>None\<close> for an access outside the object, which
  in C is undefined behaviour.  A model function of type \<open>'a option\<close> therefore returns \<open>None\<close>
  when the C function would make such an access (or, for a loop modelled with
  \<open>partial_function (option)\<close>, when it would not return); a theorem that it returns \<open>Some\<close>
  states memory safety and termination at once.
\<close>

unbundle bit_operations_syntax

type_synonym u8 = "8 word"
type_synonym u16 = "16 word"
type_synonym u32 = "32 word"
type_synonym u64 = "64 word"

named_theorems mem_simps \<open>bounds-checked reads and writes\<close>
named_theorems pow2_simps \<open>power-of-two capacities and index masks\<close>

section \<open>Bounds-checked memory\<close>

definition rd :: "'a list \<Rightarrow> nat \<Rightarrow> 'a option" where
  "rd xs i = (if i < length xs then Some (xs ! i) else None)"

definition wr :: "'a list \<Rightarrow> nat \<Rightarrow> 'a \<Rightarrow> 'a list option" where
  "wr xs i v = (if i < length xs then Some (xs[i := v]) else None)"

definition rd_bytes :: "'a list \<Rightarrow> nat \<Rightarrow> nat \<Rightarrow> 'a list option" where
  "rd_bytes m off n = (if off + n \<le> length m then Some (take n (drop off m)) else None)"

definition wr_bytes :: "'a list \<Rightarrow> nat \<Rightarrow> 'a list \<Rightarrow> 'a list option" where
  "wr_bytes m off bs =
     (if off + length bs \<le> length m
      then Some (take off m @ bs @ drop (off + length bs) m) else None)"

lemma rd_Some [simp, mem_simps]: "i < length xs \<Longrightarrow> rd xs i = Some (xs ! i)"
  by (simp add: rd_def)

lemma rd_None [simp, mem_simps]: "length xs \<le> i \<Longrightarrow> rd xs i = None"
  by (simp add: rd_def)

lemma rd_eq_Some: "rd xs i = Some v \<longleftrightarrow> i < length xs \<and> v = xs ! i"
  by (auto simp: rd_def)

lemma wr_Some [simp, mem_simps]: "i < length xs \<Longrightarrow> wr xs i v = Some (xs[i := v])"
  by (simp add: wr_def)

lemma wr_eq_Some: "wr xs i v = Some ys \<longleftrightarrow> i < length xs \<and> ys = xs[i := v]"
  by (auto simp: wr_def)

lemma rd_bytes_Some [simp, mem_simps]:
  "off + n \<le> length m \<Longrightarrow> rd_bytes m off n = Some (take n (drop off m))"
  by (simp add: rd_bytes_def)

lemma rd_bytes_eq_Some:
  "rd_bytes m off n = Some bs \<longleftrightarrow> off + n \<le> length m \<and> bs = take n (drop off m)"
  by (auto simp: rd_bytes_def)

lemma wr_bytes_Some [simp, mem_simps]:
  "off + length bs \<le> length m \<Longrightarrow>
   wr_bytes m off bs = Some (take off m @ bs @ drop (off + length bs) m)"
  by (simp add: wr_bytes_def)

lemma length_wr_bytes: "wr_bytes m off bs = Some m' \<Longrightarrow> length m' = length m"
  by (auto simp: wr_bytes_def split: if_splits)

lemma nth_wr_bytes:
  assumes "wr_bytes m off bs = Some m'" and "i < length m"
  shows "m' ! i = (if off \<le> i \<and> i < off + length bs then bs ! (i - off) else m ! i)"
proof -
  from assms have b: "off + length bs \<le> length m"
    and m': "m' = take off m @ bs @ drop (off + length bs) m"
    by (auto simp: wr_bytes_def split: if_splits)
  show ?thesis using b assms(2)
    by (auto simp: m' nth_append min_def add.commute add.left_commute)
qed

section \<open>Leaving the program\<close>

text \<open>A routine that may call \<open>exit\<close> or \<open>rte_exit\<close> returns an outcome: the exit code, or its result.\<close>

datatype 'a outcome = Exit int | Return 'a

lemma Some_by_case: "(case x of None \<Rightarrow> False | Some y \<Rightarrow> True) \<Longrightarrow> \<exists>y. x = Some y"
  by (cases x) simp_all

section \<open>Loop counters\<close>

text \<open>A counter below its bound does not wrap when it is incremented.\<close>

lemma unat_inc:
  fixes i c :: "'a::len word"
  assumes "i < c"
  shows "unat (i + 1) = Suc (unat i)"
proof -
  have "unat i < unat c" using assms by (simp add: word_less_nat_alt)
  moreover have "unat c < 2 ^ LENGTH('a)" by (rule unsigned_less)
  ultimately have "Suc (unat i) < 2 ^ LENGTH('a)" by linarith
  then show ?thesis by (simp add: unat_word_ariths)
qed

lemma unat_inc_measure:
  fixes i c :: "'a::len word"
  assumes "i < c"
  shows "unat c - unat (i + 1) < unat c - unat i"
  using assms unat_inc [OF assms] by (simp add: word_less_nat_alt)

section \<open>Characters\<close>

text \<open>
  Integer promotion of a plain (signed) \<open>char\<close> to a 64-bit unsigned operand: the byte is
  sign-extended.
\<close>

definition char_to_u64 :: "u8 \<Rightarrow> u64" where
  "char_to_u64 b = scast b"

lemma char_to_u64_inject [simp]: "char_to_u64 x = char_to_u64 y \<longleftrightarrow> x = y"
proof
  have up: "is_up (scast :: u8 \<Rightarrow> u64)" by (simp add: is_up)
  assume "char_to_u64 x = char_to_u64 y"
  then have e: "(scast x :: u64) = scast y" by (simp only: char_to_u64_def)
  have "x = scast (scast x :: u64)" by (rule scast_up_scast_id [OF up, symmetric])
  also have "\<dots> = scast (scast y :: u64)" by (simp only: e)
  also have "\<dots> = y" by (rule scast_up_scast_id [OF up])
  finally show "x = y" .
qed simp

lemma signed_take_bit_byte:
  fixes k :: int
  assumes "0 \<le> k" and "k < 256"
  shows "signed_take_bit 7 k = (if k < 128 then k else k - 256)"
proof (cases "k < 128")
  case True
  then show ?thesis using assms by (simp add: signed_take_bit_int_eq_self)
next
  case False
  have "signed_take_bit 7 k = signed_take_bit 7 (k - 256)"
    by (simp add: signed_take_bit_eq_iff_take_bit_eq take_bit_eq_mod)
  also have "\<dots> = k - 256" using False assms by (simp add: signed_take_bit_int_eq_self)
  finally show ?thesis using False by simp
qed

text \<open>The value of a signed \<open>char\<close>.\<close>

lemma sint_u8: "sint (b::u8) = (if unat b < 128 then int (unat b) else int (unat b) - 256)"
proof -
  define k where "k = unat b"
  have "k < 2 ^ LENGTH(8)" unfolding k_def by (rule unsigned_less)
  then have "int k < 256" by simp
  then have "signed_take_bit 7 (int k) = (if int k < 128 then int k else int k - 256)"
    by (intro signed_take_bit_byte) simp_all
  moreover have "uint b = int k" by (simp add: k_def)
  then have "sint b = signed_take_bit 7 (int k)" by (simp only: sint_uint) simp
  ultimately show ?thesis unfolding k_def [symmetric] by simp
qed

section \<open>Powers of two\<close>

text \<open>Capacities are powers of two; indices are reduced with the mask \<open>capacity - 1\<close>.\<close>

definition pow2_u64 :: "u64 \<Rightarrow> bool" where
  "pow2_u64 c \<longleftrightarrow> (\<exists>n<64. c = 2 ^ n)"

lemma unat_two_power [pow2_simps]:
  assumes "n < 64"
  shows "unat ((2::u64) ^ n) = 2 ^ n"
proof -
  have "(2::nat) ^ n < 2 ^ 64" using assms by (intro power_strict_increasing) auto
  then have "unat (of_nat (2 ^ n) :: u64) = 2 ^ n" by (simp only: unat_of_nat) simp
  then show ?thesis by (simp only: of_nat_power of_nat_numeral)
qed

lemma pow2_unat:
  assumes "pow2_u64 c"
  obtains n where "n < 64" and "c = 2 ^ n" and "unat c = 2 ^ n"
  using assms by (auto simp: pow2_u64_def unat_two_power)

lemma pow2_pos [pow2_simps]: "pow2_u64 c \<Longrightarrow> 0 < unat c"
  by (auto elim!: pow2_unat)

lemma and_mask_two_power: "unat ((x::'a::len word) AND (2 ^ n - 1)) = unat x mod 2 ^ n"
proof -
  have "x AND (2 ^ n - 1) = take_bit n x"
    by (simp only: take_bit_eq_mask mask_eq_exp_minus_1)
  then have "unat (x AND (2 ^ n - 1)) = take_bit n (unat x)"
    by (simp only: unsigned_take_bit_eq)
  then show ?thesis by (simp only: take_bit_eq_mod)
qed

lemma unat_and_mask [pow2_simps]:
  "pow2_u64 c \<Longrightarrow> unat (x AND (c - 1)) = unat x mod unat c"
  by (auto elim!: pow2_unat simp: and_mask_two_power)

lemma unat_add_mod_pow2 [pow2_simps]:
  fixes x y c :: u64
  assumes "pow2_u64 c"
  shows "unat (x + y) mod unat c = (unat x + unat y) mod unat c"
proof -
  from assms obtain n where n: "n < 64" "unat c = 2 ^ n" by (rule pow2_unat)
  then have "(2::nat) ^ n dvd 2 ^ 64" by (intro le_imp_power_dvd) simp
  then show ?thesis by (simp add: unat_word_ariths n(2) mod_mod_cancel)
qed

text \<open>The bit trick \<open>c & (c - 1) == 0\<close>, on naturals first.\<close>

lemma nat_pow2_trick: "(c::nat) \<noteq> 0 \<and> c AND (c - 1) = 0 \<longleftrightarrow> (\<exists>n. c = 2 ^ n)"
proof (induction c rule: less_induct)
  case (less c)
  show ?case
  proof (cases "even c")
    case True
    then obtain d where d: "c = 2 * d" by blast
    show ?thesis
    proof (cases "d = 0")
      case True
      then show ?thesis using d by simp
    next
      case False
      then have e: "c - 1 = 1 + 2 * (d - 1)" using d by simp
      have "c AND (c - 1) = 2 * (d AND (d - 1))"
        unfolding e unfolding d by (simp only: and_rec [of "2 * d"]) simp
      then have "c \<noteq> 0 \<and> c AND (c - 1) = 0 \<longleftrightarrow> (\<exists>n. d = 2 ^ n)"
        using less [of d] d False by simp
      also have "\<dots> \<longleftrightarrow> (\<exists>n. c = 2 ^ n)"
      proof
        assume "\<exists>n. d = 2 ^ n"
        then show "\<exists>n. c = 2 ^ n" using d by (metis power_Suc)
      next
        assume "\<exists>n. c = 2 ^ n"
        then obtain n where "c = 2 ^ n" by blast
        with d show "\<exists>n. d = 2 ^ n" by (cases n) auto
      qed
      finally show ?thesis .
    qed
  next
    case False
    then obtain d where d: "c = 2 * d + 1" using oddE by blast
    have "c AND (c - 1) = c - 1" unfolding d by (simp add: and_rec [of "Suc (2 * d)"])
    moreover have "c - 1 = 0 \<longleftrightarrow> (\<exists>n. c = 2 ^ n)"
    proof
      assume "c - 1 = 0"
      then have "c = 2 ^ 0" using False by (cases c) auto
      then show "\<exists>n. c = 2 ^ n" by blast
    next
      assume "\<exists>n. c = 2 ^ n"
      then obtain n where "c = 2 ^ n" by blast
      with False show "c - 1 = 0" by (cases n) auto
    qed
    ultimately show ?thesis using False by (simp add: odd_pos)
  qed
qed

lemma u64_pow2_trick: "(c::u64) \<noteq> 0 \<and> c AND (c - 1) = 0 \<longleftrightarrow> pow2_u64 c"
proof (cases "c = 0")
  case False
  then have "unat (c - 1) = unat c - 1" by (simp add: unat_minus_one)
  then have "c AND (c - 1) = 0 \<longleftrightarrow> unat c AND (unat c - 1) = 0"
    by (metis unat_0 unat_eq_zero unsigned_and_eq)
  then have "c \<noteq> 0 \<and> c AND (c - 1) = 0 \<longleftrightarrow> (\<exists>n. unat c = 2 ^ n)"
    using False nat_pow2_trick [of "unat c"] by (simp add: unat_eq_zero)
  also have "\<dots> \<longleftrightarrow> pow2_u64 c"
  proof
    assume "\<exists>n. unat c = 2 ^ n"
    then obtain n where n: "unat c = 2 ^ n" by blast
    have "unat c < 2 ^ LENGTH(64)" by (rule unsigned_less)
    then have "(2::nat) ^ n < 2 ^ 64" by (simp add: n)
    then have "n < 64" by (simp only: power_strict_increasing_iff)
    moreover have "c = 2 ^ n"
      using n by (metis of_nat_numeral of_nat_power of_nat_unat ucast_id)
    ultimately show "pow2_u64 c" by (auto simp: pow2_u64_def)
  qed (auto elim!: pow2_unat)
  finally show ?thesis .
qed (auto simp: pow2_u64_def)

section \<open>Signals\<close>

text \<open>The numbers POSIX gives them.\<close>

definition SIGINT :: int where "SIGINT = 2"
definition SIGTERM :: int where "SIGTERM = 15"

end
