(* ===== verification/Fnv.thy ===== *)
theory Fnv
  imports Prelude
begin

text \<open>
  \<open>l2fwd/libsashstore/hash.c\<close>: the FNV hash routines.  A \<open>(char *data, size_t len)\<close> argument
  pair is the list of the \<open>len\<close> bytes it denotes; the callers take that list from their
  buffer with a bounds-checked read.  The lemmas show that one round permutes the 64-bit
  state, that hashing is compositional, that inputs differing in exactly one byte never
  collide, when inputs differing in two successive bytes do, and how far the routines are from
  the published FNV-1 and FNV-1a functions.
\<close>

section \<open>Constants and loops\<close>

definition FNV_BASIS :: u64 where
  "FNV_BASIS = 0xcbf29ce484222325"

definition FNV_PRIME :: u64 where
  "FNV_PRIME = 0x100000001b3"

fun fnv_1_multi :: "u8 list \<Rightarrow> u64 \<Rightarrow> u64" where
  "fnv_1_multi [] state = state"
| "fnv_1_multi (b # data) state =
     fnv_1_multi data ((state * FNV_PRIME) XOR char_to_u64 b)"

fun fnv_1a_multi :: "u8 list \<Rightarrow> u64 \<Rightarrow> u64" where
  "fnv_1a_multi [] state = state"
| "fnv_1a_multi (b # data) state =
     fnv_1a_multi data ((state XOR char_to_u64 b) * FNV_PRIME)"

definition fnv_1 :: "u8 list \<Rightarrow> u64" where
  "fnv_1 data = fnv_1_multi data FNV_BASIS"

text \<open>The source's \<open>fnv_1a\<close> calls \<open>fnv_1_multi\<close>, and so does the model.\<close>

definition fnv_1a :: "u8 list \<Rightarrow> u64" where
  "fnv_1a data = fnv_1_multi data FNV_BASIS"

text \<open>The published functions, which work on unsigned octets.\<close>

fun ref_fnv_1 :: "u8 list \<Rightarrow> u64 \<Rightarrow> u64" where
  "ref_fnv_1 [] h = h"
| "ref_fnv_1 (b # bs) h = ref_fnv_1 bs ((h * 0x100000001b3) XOR ucast b)"

fun ref_fnv_1a :: "u8 list \<Rightarrow> u64 \<Rightarrow> u64" where
  "ref_fnv_1a [] h = h"
| "ref_fnv_1a (b # bs) h = ref_fnv_1a bs ((h XOR ucast b) * 0x100000001b3)"

section \<open>One round permutes the state\<close>

lemma FNV_PRIME_cancel [simp]: "a * FNV_PRIME = b * FNV_PRIME \<longleftrightarrow> a = b"
proof
  let ?i = "0xCE965057AFF6957B :: u64"
  have i: "FNV_PRIME * ?i = 1" by (simp add: FNV_PRIME_def)
  assume e: "a * FNV_PRIME = b * FNV_PRIME"
  have "a = a * (FNV_PRIME * ?i)" unfolding i by simp
  also have "\<dots> = (b * FNV_PRIME) * ?i" by (simp only: e mult.assoc [symmetric])
  also have "\<dots> = b" by (simp only: mult.assoc i mult_1_right)
  finally show "a = b" .
qed simp

lemma xor_right_cancel_u64 [simp]: "(a::u64) XOR x = b XOR x \<longleftrightarrow> a = b"
proof
  assume e: "a XOR x = b XOR x"
  have "a = (a XOR x) XOR x" by (simp add: xor.assoc)
  also have "\<dots> = b" by (simp add: e xor.assoc)
  finally show "a = b" .
qed simp

lemma xor_left_cancel_u64 [simp]: "(x::u64) XOR a = x XOR b \<longleftrightarrow> a = b"
  by (simp add: xor.commute [of x])

lemma fnv_1_multi_state_inject [simp]: "fnv_1_multi bs s = fnv_1_multi bs t \<longleftrightarrow> s = t"
  by (induction bs arbitrary: s t) auto

lemma fnv_1a_multi_state_inject [simp]: "fnv_1a_multi bs s = fnv_1a_multi bs t \<longleftrightarrow> s = t"
  by (induction bs arbitrary: s t) auto

lemma bij_fnv_1_multi: "bij (fnv_1_multi bs)"
proof (rule bijI)
  show "inj (fnv_1_multi bs)" by (rule injI) simp
  then show "surj (fnv_1_multi bs)" by (rule finite_UNIV_inj_surj [rotated]) simp
qed

section \<open>Composition and single-byte differences\<close>

lemma fnv_1_multi_append [simp]:
  "fnv_1_multi (xs @ ys) s = fnv_1_multi ys (fnv_1_multi xs s)"
  by (induction xs arbitrary: s) auto

text \<open>Two inputs that differ in exactly one byte never collide.\<close>

lemma fnv_1_multi_one_byte:
  assumes "x \<noteq> y"
  shows "fnv_1_multi (pre @ x # post) s \<noteq> fnv_1_multi (pre @ y # post) s"
  using assms by simp

lemma fnv_1_multi_list_update:
  assumes "i < length bs" and "v \<noteq> bs ! i"
  shows "fnv_1_multi (bs[i := v]) s \<noteq> fnv_1_multi bs s"
proof -
  have "bs = take i bs @ bs ! i # drop (Suc i) bs" using assms(1) by (rule id_take_nth_drop)
  moreover have "bs[i := v] = take i bs @ v # drop (Suc i) bs"
    using assms(1) by (rule upd_conv_take_nth_drop)
  ultimately show ?thesis using fnv_1_multi_one_byte [OF assms(2)] by metis
qed

section \<open>Two bytes into the same state\<close>

text \<open>
  What two successive bytes do to the hash.  As \<open>char\<close> is signed, a byte from 0x80 on flips the
  upper 56 bits of the state.  If the first byte is below 0x80 and the state is \<open>spread\<close>, the
  two bytes can be read off the hash; two bytes that are both from 0x80 on can collide with two
  bytes below, in every state.
\<close>

lemma drop_bit_char: "drop_bit 7 (char_to_u64 b) = (if bit b 7 then mask 57 else 0)"
  unfolding char_to_u64_def
  by (rule bit_word_eqI) (auto simp: bit_simps min_def)

lemma bit_u8_7: "bit (b :: u8) 7 \<longleftrightarrow> 0x80 \<le> b"
proof -
  have "unat b < 256" using unsigned_less [of b, where ?'a = nat] by simp
  have "bit b 7 \<longleftrightarrow> bit (unat b) 7" by (simp add: bit_simps)
  also have "\<dots> \<longleftrightarrow> odd (unat b div 128)" by (simp add: bit_iff_odd)
  also have "\<dots> \<longleftrightarrow> 128 \<le> unat b"
  proof (cases "128 \<le> unat b")
    case True
    then have "unat b div 128 = 1" using \<open>unat b < 256\<close> by (intro div_nat_eqI) simp_all
    then show ?thesis using True by simp
  qed simp
  finally show ?thesis by (simp add: word_le_nat_alt)
qed

lemma unat_div_128: "unat (drop_bit 7 (w :: u64)) = unat w div 128"
  by (subst unat_drop_bit_eq) (simp add: drop_bit_eq_div)

lemma xor_same_half:
  fixes A A' :: u64
  assumes "A XOR char_to_u64 b = A' XOR char_to_u64 b'" and "bit b 7 = bit b' 7"
  shows "unat A div 128 = unat A' div 128"
proof -
  have "drop_bit 7 (A XOR char_to_u64 b) = drop_bit 7 (A' XOR char_to_u64 b')" by (simp only: assms(1))
  then have "drop_bit 7 A = drop_bit 7 A'" using assms(2) by (simp add: drop_bit_xor drop_bit_char)
  then show ?thesis by (simp only: unat_div_128 [symmetric])
qed

lemma xor_other_half:
  fixes A A' :: u64
  assumes "A XOR char_to_u64 b = A' XOR char_to_u64 b'" and "bit b 7" and "\<not> bit b' 7"
  shows "unat A' div 128 = (2 ^ 64 - 1 - unat A) div 128"
proof -
  have "drop_bit 7 (A XOR char_to_u64 b) = drop_bit 7 (A' XOR char_to_u64 b')" by (simp only: assms(1))
  then have "drop_bit 7 A' = drop_bit 7 A XOR mask 57" using assms(2,3) by (simp add: drop_bit_xor drop_bit_char)
  also have "\<dots> = drop_bit 7 (NOT A)"
    by (rule bit_word_eqI) (auto simp: bit_simps dest: bit_imp_le_length)
  finally have "unat A' div 128 = unat (NOT A) div 128" by (simp only: unat_div_128 [symmetric])
  moreover have "unat (NOT A) = 2 ^ 64 - 1 - unat A"
  proof -
    have "NOT A = - 1 - A" by (simp add: not_eq_complement)
    moreover have "unat (- 1 - A) = unat (- 1 :: u64) - unat A" by (intro unat_sub) simp
    moreover have "unat (- 1 :: u64) = 2 ^ 64 - 1" by (simp add: unsigned_minus_1_eq_mask mask_eq_exp_minus_1)
    ultimately show ?thesis by simp
  qed
  ultimately show ?thesis by simp
qed

lemma xor_low_byte:
  fixes u :: u64
  assumes "\<not> bit c 7"
  shows "unat (u XOR char_to_u64 c) div 128 = unat u div 128"
proof -
  have "drop_bit 7 (u XOR char_to_u64 c) = drop_bit 7 u" using assms by (simp add: drop_bit_xor drop_bit_char)
  then show ?thesis by (simp only: unat_div_128 [symmetric])
qed

lemma unat_mult_prime: "\<exists>m. int (unat (v * FNV_PRIME)) + 2 ^ 64 * m = int (unat v) * 0x100000001b3"
proof -
  have "unat (v * FNV_PRIME) = unat v * 0x100000001b3 mod 2 ^ 64"
    by (simp add: unat_word_ariths FNV_PRIME_def)
  then have "int (unat (v * FNV_PRIME)) = int (unat v) * 0x100000001b3 mod 2 ^ 64" by (simp add: zmod_int)
  then have "int (unat (v * FNV_PRIME)) + 2 ^ 64 * (int (unat v) * 0x100000001b3 div 2 ^ 64) = int (unat v) * 0x100000001b3"
    by (simp only: mod_mult_div_eq)
  then show ?thesis by blast
qed

lemma products_same_half:
  fixes v v' :: u64
  assumes "unat v div 128 = unat v' div 128" and "unat (v * FNV_PRIME) div 128 = unat (v' * FNV_PRIME) div 128"
  shows "v = v'"
proof -
  obtain m m' where m: "int (unat (v * FNV_PRIME)) + 2 ^ 64 * m = int (unat v) * 0x100000001b3"
    "int (unat (v' * FNV_PRIME)) + 2 ^ 64 * m' = int (unat v') * 0x100000001b3"
    using unat_mult_prime by blast
  have close: "\<bar>int x - int y\<bar> < 128" if "x div 128 = y div (128::nat)" for x y using that by linarith
  note d = close [OF assms(1)] close [OF assms(2)]
  have "(m - m') * 2 ^ 64 = (int (unat v) - int (unat v')) * 0x100000001b3 -
      (int (unat (v * FNV_PRIME)) - int (unat (v' * FNV_PRIME)))"
    using m by (simp add: algebra_simps)
  then have "m - m' = 0" using d by (simp add: abs_less_iff)
  then have "(int (unat v) - int (unat v')) * 0x100000001b3 =
      int (unat (v * FNV_PRIME)) - int (unat (v' * FNV_PRIME))" using m by (simp add: algebra_simps)
  then have "int (unat v) - int (unat v') = 0" using d(2) by (simp add: abs_less_iff)
  then have "unat v = unat v'" by (simp only: right_minus_eq of_nat_eq_iff)
  then show ?thesis by (simp only: word_unat_eq_iff)
qed

definition spread :: "u64 \<Rightarrow> bool" where
  "spread u \<longleftrightarrow> (let y = 256 * 435 * (unat u div 128) mod 2 ^ 40 in 200 \<le> y \<and> y + 110700 \<le> 2 ^ 40)"

lemma products_other_half:
  fixes v v' :: u64
  assumes "unat v div 128 = unat u div 128" and "unat v' div 128 = unat u div 128"
    and "unat (v' * FNV_PRIME) div 128 = (2 ^ 64 - 1 - unat (v * FNV_PRIME)) div 128"
  shows "\<not> spread u"
proof
  assume sp: "spread u"
  obtain m m' where m: "int (unat (v * FNV_PRIME)) + 2 ^ 64 * m = int (unat v) * 0x100000001b3"
    "int (unat (v' * FNV_PRIME)) + 2 ^ 64 * m' = int (unat v') * 0x100000001b3"
    using unat_mult_prime by blast
  let ?A = "unat (v * FNV_PRIME)" and ?A' = "unat (v' * FNV_PRIME)" and ?q = "unat u div 128"
  have lt: "?A < 2 ^ 64" using unsigned_less [of "v * FNV_PRIME", where ?'a = nat] by simp
  have "\<bar>int ?A' - int (2 ^ 64 - 1 - ?A)\<bar> < 128" using assms(3) by linarith
  moreover have "int (2 ^ 64 - 1 - ?A) = 2 ^ 64 - 1 - int ?A" using lt by (simp add: of_nat_diff)
  ultimately have e: "\<bar>int ?A + int ?A' + 1 - 2 ^ 64\<bar> < 128" by linarith
  define s where "s = int (unat v mod 128) + int (unat v' mod 128)"
  have s: "0 \<le> s" "s \<le> 254" "int (unat v) + int (unat v') = 256 * int ?q + s"
    unfolding s_def using div_mult_mod_eq [of "unat v" 128] div_mult_mod_eq [of "unat v'" 128] assms(1,2)
    by linarith+
  define y where "y = 256 * 435 * int ?q mod 2 ^ 40"
  define d where "d = 256 * 435 * int ?q div 2 ^ 40"
  have y: "256 * 435 * int ?q = 2 ^ 40 * d + y" unfolding y_def d_def by (rule mult_div_mod_eq [symmetric])
  define n where "n = 256 * 435 * ?q mod 2 ^ 40"
  have "200 \<le> n" "n + 110700 \<le> 1099511627776" using sp by (simp_all add: spread_def Let_def n_def)
  moreover have "y = int n" unfolding y_def n_def by (simp add: zmod_int)
  ultimately have b: "200 \<le> y" "y + 110700 \<le> 2 ^ 40" by simp_all
  have "int ?A + int ?A' + 2 ^ 64 * (m + m') = (256 * int ?q + s) * 0x100000001b3"
    unfolding s(3) [symmetric] using m by (simp add: algebra_simps)
  also have "\<dots> = 2 ^ 40 * (256 * int ?q + s) + (256 * 435 * int ?q + 435 * s)" by (simp add: algebra_simps)
  also have "\<dots> = 2 ^ 40 * (256 * int ?q + s + d) + (y + 435 * s)" unfolding y by (simp add: algebra_simps)
  finally have "2 ^ 40 * (2 ^ 24 * (m + m' + 1) - (256 * int ?q + s + d)) =
      y + 435 * s - (int ?A + int ?A' - 2 ^ 64)" by (simp add: algebra_simps)
  moreover have "0 < y + 435 * s - (int ?A + int ?A' - 2 ^ 64)" "y + 435 * s - (int ?A + int ?A' - 2 ^ 64) < 2 ^ 40"
    using e s b by linarith+
  ultimately have "0 < 2 ^ 40 * (2 ^ 24 * (m + m' + 1) - (256 * int ?q + s + d))"
    "2 ^ 40 * (2 ^ 24 * (m + m' + 1) - (256 * int ?q + s + d)) < 2 ^ 40 * 1" by linarith+
  then have "0 < 2 ^ 24 * (m + m' + 1) - (256 * int ?q + s + d)" "2 ^ 24 * (m + m' + 1) - (256 * int ?q + s + d) < 1"
    by (simp only: zero_less_mult_iff mult_less_cancel_left_pos; simp)+
  then show False by linarith
qed

lemma fnv_pair_inject:
  assumes "spread (s * FNV_PRIME)" and "c < 0x80" and "c' < 0x80"
  shows "fnv_1_multi (c # b # bs) s = fnv_1_multi (c' # b' # bs) s \<longleftrightarrow> c = c' \<and> b = b'"
proof
  let ?u = "s * FNV_PRIME"
  let ?v = "?u XOR char_to_u64 c" and ?v' = "?u XOR char_to_u64 c'"
  have c: "\<not> bit c 7" "\<not> bit c' 7" using assms(2,3) by (simp_all add: bit_u8_7 not_le)
  note h = xor_low_byte [OF c(1), of ?u] xor_low_byte [OF c(2), of ?u]
  assume "fnv_1_multi (c # b # bs) s = fnv_1_multi (c' # b' # bs) s"
  then have e: "?v * FNV_PRIME XOR char_to_u64 b = ?v' * FNV_PRIME XOR char_to_u64 b'" by simp
  have "bit b 7 = bit b' 7"
  proof (rule ccontr)
    assume "bit b 7 \<noteq> bit b' 7"
    then consider "bit b 7" "\<not> bit b' 7" | "bit b' 7" "\<not> bit b 7" by blast
    then show False
    proof cases
      case 1
      from products_other_half [OF h xor_other_half [OF e 1]] assms(1) show False by blast
    next
      case 2
      from products_other_half [OF h(2,1) xor_other_half [OF e [symmetric] 2]] assms(1) show False by blast
    qed
  qed
  from products_same_half [OF _ xor_same_half [OF e this]] h have "?v = ?v'" by simp
  then show "c = c' \<and> b = b'" using e by simp
qed simp

lemma opposite_products:
  fixes w :: u64
  assumes "\<not> bit w 0"
  shows "NOT w * FNV_PRIME XOR char_to_u64 0xfe = (w + 1) * FNV_PRIME XOR char_to_u64 0"
proof -
  have n: "NOT w = - (w + 1)" by (simp add: not_eq_complement)
  let ?A = "(w + 1) * FNV_PRIME"
  have "odd (w + 1)" using assms by (simp add: bit_0)
  then have odd: "odd ?A" by (simp add: FNV_PRIME_def)
  have "NOT w * FNV_PRIME XOR char_to_u64 0xfe = - ?A XOR NOT 1"
    unfolding n by (simp add: char_to_u64_def algebra_simps)
  also have "- ?A = NOT (?A - 1)" by (simp add: not_eq_complement)
  also have "NOT (?A - 1) XOR NOT 1 = (?A - 1) XOR 1" by (simp only: bit.xor_compl_left bit.xor_compl_right bit.double_compl)
  also have "?A - 1 = ?A XOR 1" using odd by (simp add: xor_one_eq)
  also have "(?A XOR 1) XOR 1 = ?A XOR char_to_u64 0" by (simp add: xor.assoc char_to_u64_def)
  finally show ?thesis .
qed

lemma opposite_factors:
  fixes u :: u64
  obtains w where "\<not> bit w 0" and "u XOR char_to_u64 (if even u then 0xff else 0xfc) = NOT w"
    and "u XOR char_to_u64 (if even u then 1 else 2) = w + 1"
proof (cases "even u")
  case True
  have "u XOR NOT 0 = NOT u" by (simp only: bit.xor_compl_right xor.right_neutral)
  moreover have "u XOR 1 = u + 1" using True by (simp add: xor_one_eq)
  ultimately show ?thesis using that [of u] True by (simp add: bit_0 char_to_u64_def)
next
  case False
  let ?w = "u XOR 3"
  have w: "even ?w" using False by (simp add: even_xor_iff)
  have "u XOR 2 = ?w XOR 1" by (simp add: xor.assoc)
  also have "\<dots> = ?w + 1" using w by (simp add: xor_one_eq)
  finally have "u XOR 2 = ?w + 1" .
  moreover have "u XOR NOT 3 = NOT ?w" by (simp only: bit.xor_compl_right)
  ultimately show ?thesis using that [of ?w] False w by (simp add: bit_0 char_to_u64_def)
qed

lemma fnv_pair_collision:
  "fnv_1_multi ((if even (s * FNV_PRIME) then 0xff else 0xfc) # 0xfe # bs) s =
   fnv_1_multi ((if even (s * FNV_PRIME) then 1 else 2) # 0 # bs) s"
proof -
  obtain w where "\<not> bit w 0" "s * FNV_PRIME XOR char_to_u64 (if even (s * FNV_PRIME) then 0xff else 0xfc) = NOT w"
    "s * FNV_PRIME XOR char_to_u64 (if even (s * FNV_PRIME) then 1 else 2) = w + 1"
    by (rule opposite_factors)
  then show ?thesis using opposite_products [of w] by (simp del: even_mult_iff)
qed

section \<open>Relation to the published functions\<close>

lemma char_to_u64_ascii:
  assumes "b < 0x80"
  shows "char_to_u64 b = ucast b"
proof -
  have "unat b < 128" using assms by (simp add: word_less_nat_alt)
  then have "sint b = int (unat b)" by (simp only: sint_u8) simp
  then have "sint b = uint b" by simp
  then show ?thesis by (simp only: char_to_u64_def scast_eq ucast_eq)
qed

lemma fnv_1_multi_ascii:
  "\<forall>b \<in> set bs. b < 0x80 \<Longrightarrow> fnv_1_multi bs s = ref_fnv_1 bs s"
  by (induction bs arbitrary: s) (auto simp: char_to_u64_ascii FNV_PRIME_def)

lemma fnv_1a_multi_ascii:
  "\<forall>b \<in> set bs. b < 0x80 \<Longrightarrow> fnv_1a_multi bs s = ref_fnv_1a bs s"
  by (induction bs arbitrary: s) (auto simp: char_to_u64_ascii FNV_PRIME_def)

lemma fnv_1_not_ref: "fnv_1 [0x80] \<noteq> ref_fnv_1 [0x80] FNV_BASIS"
  by (simp add: fnv_1_def FNV_BASIS_def FNV_PRIME_def char_to_u64_def)

end
