(* ===== verification/Packettool.thy ===== *)
theory Packettool
  imports Fnv
begin

text \<open>
  \<open>l2fwd/libsashstore/packettool.c\<close>: packet offsets, the UDP payload finder and the flow hash.
  A \<open>void *frame\<close> is the list of the bytes that may be read from it (the data room of the
  buffer the packet sits in); a read past its end is \<open>None\<close>.  The code never looks at the
  packet's own length.  The lemmas show when the two routines are defined, what they return on
  every branch, and that the flow hash is a function of the IPv4 addresses, the protocol
  and the ports only, injective in each single byte of them.
\<close>

section \<open>Offsets\<close>

definition ETH_HEADER_LEN :: nat where "ETH_HEADER_LEN = 14"
definition UDP_HEADER_LEN :: nat where "UDP_HEADER_LEN = 8"
definition IPV4_PROTO_OFFSET :: nat where "IPV4_PROTO_OFFSET = 9"
definition IPV4_SRCDST_OFFSET :: nat where "IPV4_SRCDST_OFFSET = 12"
definition IPV4_SRCDST_LEN :: nat where "IPV4_SRCDST_LEN = 8"

lemmas packet_offsets = ETH_HEADER_LEN_def UDP_HEADER_LEN_def IPV4_PROTO_OFFSET_def
  IPV4_SRCDST_OFFSET_def IPV4_SRCDST_LEN_def

section \<open>Header fields\<close>

text \<open>
  \<open>f[ETH_HEADER_LEN] >> 4\<close> on a signed \<open>char\<close> is an arithmetic shift: the upper nibble is
  the version only for bytes below 0x80, and negative above.
\<close>

definition ip_version :: "u8 \<Rightarrow> int" where
  "ip_version b = drop_bit 4 (sint b)"

text \<open>\<open>4 * (f[ETH_HEADER_LEN] & 0xf)\<close>: the length of the IPv4 header in bytes.\<close>

definition ip_header_len :: "u8 \<Rightarrow> nat" where
  "ip_header_len b = 4 * unat (b AND 0xf)"

text \<open>\<open>get_udp_payload\<close> returns a pointer into the frame: here its offset, or NULL (\<open>None\<close>).\<close>

definition get_udp_payload :: "u8 list \<Rightarrow> nat option option" where
  "get_udp_payload frame = do {
     vihl \<leftarrow> rd frame ETH_HEADER_LEN;
     if ip_version vihl \<noteq> 4 then Some None
     else do {
       let v4len = ip_header_len vihl;
       proto \<leftarrow> rd frame (ETH_HEADER_LEN + IPV4_PROTO_OFFSET);
       if proto \<noteq> 17 then Some None
       else Some (Some (ETH_HEADER_LEN + v4len + UDP_HEADER_LEN))
     }
   }"

definition flowhash :: "u8 list \<Rightarrow> u64 option" where
  "flowhash f = do {
     vihl \<leftarrow> rd f ETH_HEADER_LEN;
     if ip_version vihl \<noteq> 4 then Some 0
     else do {
       proto \<leftarrow> rd f (ETH_HEADER_LEN + IPV4_PROTO_OFFSET);
       if proto \<noteq> 6 \<and> proto \<noteq> 17 then Some 0
       else do {
         let v4len = ip_header_len vihl;
         addrs \<leftarrow> rd_bytes f (ETH_HEADER_LEN + IPV4_SRCDST_OFFSET) IPV4_SRCDST_LEN;
         let hash = fnv_1_multi addrs FNV_BASIS;
         prot \<leftarrow> rd_bytes f (ETH_HEADER_LEN + IPV4_PROTO_OFFSET) 1;
         let hash = fnv_1_multi prot hash;
         ports \<leftarrow> rd_bytes f (ETH_HEADER_LEN + v4len) 4;
         Some (fnv_1_multi ports hash)
       }
     }
   }"


section \<open>Header field lemmas\<close>

lemma ip_version_4: "ip_version b = 4 \<longleftrightarrow> unat b div 16 = 4"
proof -
  have "ip_version b = sint b div 16" by (simp only: ip_version_def drop_bit_eq_div) simp
  moreover have "sint b = int (unat b) \<and> unat b < 128 \<or> sint b < 0 \<and> 128 \<le> unat b"
  proof (cases "unat b < 128")
    case True
    then show ?thesis by (simp only: sint_u8 if_True) simp
  next
    case False
    moreover have "unat b < 2 ^ LENGTH(8)" by (rule unsigned_less)
    then have "unat b < 256" by simp
    then have "int (unat b) - 256 < 0" by linarith
    ultimately show ?thesis by (simp only: sint_u8 if_False) simp
  qed
  ultimately show ?thesis by arith
qed

lemma ip_header_len_eq: "ip_header_len b = 4 * (unat b mod 16)"
proof -
  have "unat (b AND (2 ^ 4 - 1)) = unat b mod 2 ^ 4" by (rule and_mask_two_power)
  then have "unat (b AND 0xf) = unat b mod 16" by (simp only: power_numeral) simp
  then show ?thesis by (simp only: ip_header_len_def)
qed

lemma ip_header_len_le: "ip_header_len b \<le> 60"
  unfolding ip_header_len_eq by simp

section \<open>What the flow hash computes\<close>

text \<open>
  The specification: a frame is trackable when it is IPv4 with a TCP or UDP payload, and the
  hashed bytes are the two addresses, the protocol number and the first four bytes after the
  IPv4 header (the two ports).
\<close>

definition trackable :: "u8 list \<Rightarrow> bool" where
  "trackable f \<longleftrightarrow> ip_version (f ! 14) = 4 \<and> (f ! 23 = 6 \<or> f ! 23 = 17)"

definition flow_bytes :: "u8 list \<Rightarrow> u8 list" where
  "flow_bytes f =
     take 8 (drop 26 f) @ [f ! 23] @ take 4 (drop (14 + ip_header_len (f ! 14)) f)"

lemma rd_bytes_1: "i < length f \<Longrightarrow> rd_bytes f i 1 = Some [f ! i]"
  by (simp add: rd_bytes_def take_Suc_conv_app_nth Cons_nth_drop_Suc [symmetric])

text \<open>
  Flowhash stays inside the frame exactly when the frame is long enough for the
  header fields its own branch looks at: the version byte always, the protocol byte for IPv4,
  and for TCP and UDP the addresses and the four bytes behind the announced header length.
\<close>

lemma flowhash_defined_iff:
  "flowhash f \<noteq> None \<longleftrightarrow>
     14 < length f \<and>
     (ip_version (f ! 14) = 4 \<longrightarrow>
        23 < length f \<and>
        (f ! 23 = 6 \<or> f ! 23 = 17 \<longrightarrow>
           34 \<le> length f \<and> 18 + ip_header_len (f ! 14) \<le> length f))"
  by (auto simp: flowhash_def packet_offsets rd_def rd_bytes_def Let_def
      split: if_splits Option.bind_splits)

lemma flowhash_defined_iff_witness:
  "flowhash (replicate 14 0 @ [0x45] @ replicate 8 0 @ [17] @ replicate 14 0) \<noteq> None"
  unfolding flowhash_defined_iff by (simp add: nth_append ip_version_4 ip_header_len_eq)

text \<open>The fold over the bytes, and the frames whose hashed bytes are all inside.\<close>

lemma fnv_1_multi_foldl:
  "fnv_1_multi bs s = foldl (\<lambda>h b. (h * 0x100000001b3) XOR scast b) s bs"
  by (induction bs arbitrary: s) (simp_all add: FNV_PRIME_def char_to_u64_def)

definition hashed_area :: "u8 list \<Rightarrow> bool" where
  "hashed_area f \<longleftrightarrow> 34 \<le> length f \<and> 18 + ip_header_len (f ! 14) \<le> length f"

lemma flowhash_cases:
  "flowhash f =
     (if length f \<le> 14 then None
      else if unat (f ! 14) div 16 \<noteq> 4 then Some 0
      else if length f \<le> 23 then None
      else if f ! 23 \<noteq> 6 \<and> f ! 23 \<noteq> 17 then Some 0
      else if \<not> hashed_area f then None
      else Some (fnv_1_multi (flow_bytes f) FNV_BASIS))"
proof (cases "23 < length f")
  case True
  then have r: "rd_bytes f 23 1 = Some [f ! 23]" by (intro rd_bytes_1) simp
  show ?thesis
    using True r by (auto simp: flowhash_def packet_offsets Let_def flow_bytes_def hashed_area_def rd_def rd_bytes_def ip_version_4)
next
  case False
  then show ?thesis
    by (auto simp: flowhash_def packet_offsets Let_def rd_def rd_bytes_def ip_version_4)
qed

lemma flowhash_eq:
  assumes "78 \<le> length f"
  shows "flowhash f = Some (if trackable f then fnv_1_multi (flow_bytes f) FNV_BASIS else 0)"
proof -
  have r: "rd_bytes f 23 1 = Some [f ! 23]" using assms by (intro rd_bytes_1) simp
  show ?thesis
    using assms ip_header_len_le [of "f ! 14"] r
    by (simp add: flowhash_def packet_offsets Let_def trackable_def flow_bytes_def)
qed

lemma flowhash_Some_len [intro]: "78 \<le> length f \<Longrightarrow> \<exists>h. flowhash f = Some h"
  using flowhash_eq [of f] by blast

section \<open>Which bytes matter\<close>

definition flow_positions :: "u8 list \<Rightarrow> nat set" where
  "flow_positions f = {26..<34} \<union> {14 + ip_header_len (f ! 14)..<18 + ip_header_len (f ! 14)}"

lemma list_update_append_Cons:
  "length xs = n \<Longrightarrow> (xs @ c # zs)[Suc n + j := v] = xs @ c # zs[j := v]"
  by (simp add: list_update_append)

lemma nth_append_Cons_add: "length xs = n \<Longrightarrow> (xs @ c # zs) ! (Suc n + j) = zs ! j"
  by (simp add: nth_append)

lemma take_drop_list_update_in:
  assumes "a \<le> i" and "i < a + n" and "a + n \<le> length f"
  shows "take n (drop a (f[i := v])) = (take n (drop a f))[i - a := v]"
  using assms by (intro nth_equalityI) (auto simp: nth_list_update)

lemma take_drop_list_update_out:
  assumes "i < a \<or> a + n \<le> i"
  shows "take n (drop a (f[i := v])) = take n (drop a f)"
proof (rule nth_equalityI)
  fix j assume "j < length (take n (drop a (f[i := v])))"
  then show "take n (drop a (f[i := v])) ! j = take n (drop a f) ! j"
    using assms by (auto simp: nth_list_update)
qed simp

lemma flow_bytes_list_update:
  assumes "hashed_area f" and "20 \<le> ip_header_len (f ! 14)" and "i \<in> flow_positions f"
  obtains j where "j < length (flow_bytes f)" and "flow_bytes f ! j = f ! i"
    and "flow_bytes (f[i := v]) = (flow_bytes f)[j := v]"
proof -
  let ?h = "ip_header_len (f ! 14)"
  have h: "34 \<le> length f" "18 + ?h \<le> length f" using assms(1) by (simp_all add: hashed_area_def)
  have i: "26 \<le> i" "i < length f" using assms(2,3) h by (auto simp: flow_positions_def)
  have len: "length (flow_bytes f) = 13" using h by (simp add: flow_bytes_def)
  show thesis
  proof (cases "i < 34")
    case True
    then have "flow_bytes (f[i := v]) = (flow_bytes f)[i - 26 := v]"
      using i h assms(2)
      by (simp add: flow_bytes_def list_update_append1 take_drop_list_update_in
          take_drop_list_update_out)
    moreover have "flow_bytes f ! (i - 26) = f ! i"
      using i True h by (auto simp: flow_bytes_def nth_append le_iff_add)
    ultimately show thesis using True i by (intro that [of "i - 26"]) (auto simp: len le_iff_add)
  next
    case False
    then have "14 + ?h \<le> i" "i < 18 + ?h" using assms(3) by (auto simp: flow_positions_def)
    then obtain j where j: "i = 14 + ?h + j" "j < 4" by (auto simp: le_iff_add)
    have l8: "length (take 8 (drop 26 f)) = 8" using h by simp
    have p: "take 4 (drop (14 + ?h) (f[i := v])) = (take 4 (drop (14 + ?h) f))[j := v]"
      using take_drop_list_update_in [of "14 + ?h" i 4 f v] j h by simp
    have "flow_bytes (f[i := v]) = take 8 (drop 26 f) @ f ! 23 # (take 4 (drop (14 + ?h) f))[j := v]"
      using i False by (simp add: flow_bytes_def p take_drop_list_update_out)
    also have "\<dots> = (flow_bytes f)[Suc 8 + j := v]"
      using list_update_append_Cons [OF l8] by (simp add: flow_bytes_def)
    finally have "flow_bytes (f[i := v]) = (flow_bytes f)[Suc 8 + j := v]" .
    moreover have "flow_bytes f ! (Suc 8 + j) = f ! i"
      using nth_append_Cons_add [OF l8] j h by (simp add: flow_bytes_def)
    ultimately show thesis using j by (intro that [of "Suc 8 + j"]) (auto simp: len)
  qed
qed

lemma hashed_area_update: "i \<noteq> 14 \<Longrightarrow> hashed_area (f[i := v]) = hashed_area f"
  by (simp add: hashed_area_def)

text \<open>
  Changing one byte of a tracked frame, other than the version and the protocol, changes its
  hash exactly if the byte belongs to the addresses or the ports: two flows that differ in one
  byte never collide, and every packet of a flow has the hash of the flow, also after its MAC
  addresses were rewritten.
\<close>

lemma flowhash_update_iff:
  assumes "trackable f" and "hashed_area f" and "20 \<le> ip_header_len (f ! 14)" and "i \<noteq> 14" and "i \<noteq> 23"
  shows "flowhash (f[i := v]) = flowhash f \<longleftrightarrow> i \<in> flow_positions f \<longrightarrow> v = f ! i"
proof -
  have n: "34 \<le> length f" using assms(2) by (simp add: hashed_area_def)
  have e: "flowhash g = Some (fnv_1_multi (flow_bytes g) FNV_BASIS)"
    if "trackable g" "hashed_area g" for g
    using that by (auto simp: flowhash_cases trackable_def hashed_area_def ip_version_4)
  have u: "trackable (f[i := v])" "hashed_area (f[i := v])"
    using assms by (simp_all add: trackable_def hashed_area_update)
  show ?thesis
  proof (cases "i \<in> flow_positions f")
    case True
    obtain j where j: "j < length (flow_bytes f)" "flow_bytes f ! j = f ! i"
      "flow_bytes (f[i := v]) = (flow_bytes f)[j := v]"
      using flow_bytes_list_update [OF assms(2,3) True] by blast
    then show ?thesis
      using True fnv_1_multi_list_update [OF j(1), of v FNV_BASIS]
      by (auto simp: e [OF u] e [OF assms(1,2)])
  next
    case False
    then have "flow_bytes (f[i := v]) = flow_bytes f"
      using assms(4,5)
      by (auto simp: flow_bytes_def flow_positions_def take_drop_list_update_out not_less)
    then show ?thesis using False by (simp add: e [OF u] e [OF assms(1,2)])
  qed
qed
text \<open>
  C33: flowhash, with the offsets and the arithmetic of the header formats written out.  It is 0
  for everything that is not IPv4 (upper half of byte 14) with TCP or UDP (byte 23); otherwise
  the header length is four times the lower half of byte 14, and the result is the 64-bit
  FNV-1 fold (with the bytes sign-extended, as \<open>char\<close> is signed) over the two addresses, the
  protocol and the four bytes behind the header.  It reads behind the frame exactly when the
  frame is too short for the fields its branch looks at.  For a header of at least 20 bytes,
  changing one byte other than 14 and 23 changes the hash exactly if the byte belongs to the
  addresses or the ports.
\<close>

theorem flowhash_spec:
  "let hl = 4 * (unat (f ! 14) mod 16); ports = 14 + hl in
   flowhash f =
     (if length f \<le> 14 then None
      else if unat (f ! 14) div 16 \<noteq> 4 then Some 0
      else if length f \<le> 23 then None
      else if f ! 23 \<noteq> 6 \<and> f ! 23 \<noteq> 17 then Some 0
      else if length f < 34 \<or> length f < ports + 4 then None
      else Some (foldl (\<lambda>h b. (h * 0x100000001b3) XOR scast b) 0xcbf29ce484222325
             (take 8 (drop 26 f) @ [f ! 23] @ take 4 (drop ports f)))) \<and>
   (unat (f ! 14) div 16 = 4 \<and> 20 \<le> hl \<and> (f ! 23 = 6 \<or> f ! 23 = 17) \<and> 34 \<le> length f \<and> ports + 4 \<le> length f \<longrightarrow>
     (\<forall>i v. i \<noteq> 14 \<and> i \<noteq> 23 \<longrightarrow>
        (flowhash (f[i := v]) = flowhash f \<longleftrightarrow>
           (26 \<le> i \<and> i < 34 \<or> ports \<le> i \<and> i < ports + 4 \<longrightarrow> v = f ! i))))"
proof -
  have a: "\<not> hashed_area f \<longleftrightarrow> length f < 34 \<or> length f < 14 + ip_header_len (f ! 14) + 4"
    by (auto simp: hashed_area_def)
  have p: "i \<in> flow_positions f \<longleftrightarrow> 26 \<le> i \<and> i < 34 \<or>
      14 + ip_header_len (f ! 14) \<le> i \<and> i < 14 + ip_header_len (f ! 14) + 4" for i
    by (auto simp: flow_positions_def)
  have t: "trackable f \<longleftrightarrow> unat (f ! 14) div 16 = 4 \<and> (f ! 23 = 6 \<or> f ! 23 = 17)"
    by (simp add: trackable_def ip_version_4)
  have b: "fnv_1_multi (flow_bytes f) FNV_BASIS = foldl (\<lambda>h b. (h * 0x100000001b3) XOR scast b) 0xcbf29ce484222325
             (take 8 (drop 26 f) @ [f ! 23] @ take 4 (drop (14 + ip_header_len (f ! 14)) f))"
    by (simp only: fnv_1_multi_foldl FNV_BASIS_def flow_bytes_def)
  let ?hl = "4 * (unat (f ! 14) mod 16)"
  have u: "flowhash (f[i := v]) = flowhash f \<longleftrightarrow>
      (26 \<le> i \<and> i < 34 \<or> 14 + ?hl \<le> i \<and> i < 14 + ?hl + 4 \<longrightarrow> v = f ! i)"
    if "unat (f ! 14) div 16 = 4 \<and> 20 \<le> ?hl \<and> (f ! 23 = 6 \<or> f ! 23 = 17) \<and> 34 \<le> length f \<and> 14 + ?hl + 4 \<le> length f"
      "i \<noteq> 14 \<and> i \<noteq> 23" for i v
    using flowhash_update_iff [of f i v] that unfolding t p ip_header_len_eq hashed_area_def by simp
  show ?thesis
    unfolding Let_def using u by (intro conjI flowhash_cases [of f, unfolded a b ip_header_len_eq]) blast
qed

definition sample_frame :: "u8 list" where
  "sample_frame = replicate 14 0 @ [0x45] @ replicate 8 0 @ [17] @ replicate 54 0"

theorem flowhash_spec_witness:
  "flowhash (sample_frame[29 := 7]) \<noteq> flowhash sample_frame \<and> flowhash (sample_frame[35 := 7]) \<noteq> flowhash sample_frame \<and>
   flowhash (sample_frame[38 := 7]) = flowhash sample_frame \<and> flowhash sample_frame \<noteq> Some 0"
proof -
  let ?f = "sample_frame"
  have f: "?f ! 14 = 0x45" "?f ! 23 = 17" "length ?f = 78" "?f ! 29 = 0" "?f ! 35 = 0"
    by (simp_all add: sample_frame_def nth_append)
  have b: "take 8 (drop 26 ?f) = [0, 0, 0, 0, 0, 0, 0, 0]" "take 4 (drop (14 + 20) ?f) = [0, 0, 0, 0]"
    by (simp_all add: sample_frame_def eval_nat_numeral)
  have h: "4 * (unat (?f ! 14) mod 16) = 20" by (simp add: f)
  note s = flowhash_spec [of ?f, unfolded Let_def h]
  have "flowhash (?f[29 := 7]) \<noteq> flowhash ?f" "flowhash (?f[35 := 7]) \<noteq> flowhash ?f"
    "flowhash (?f[38 := 7]) = flowhash ?f"
    using s [THEN conjunct2] by (simp_all add: f)
  moreover have "flowhash ?f \<noteq> Some 0"
    unfolding s [THEN conjunct1] b f by simp
  ultimately show ?thesis by blast
qed

section \<open>The UDP payload\<close>

text \<open>
  A payload pointer is only returned for IPv4 carrying UDP, and then it is the announced
  IPv4 header plus the eight UDP bytes behind the Ethernet header, at most 82 bytes in; every
  other frame is answered with NULL, and a frame too short for the branch is read out of
  bounds.
\<close>

lemma get_udp_payload_spec:
  "get_udp_payload f =
     (if length f \<le> 14 then None
      else if ip_version (f ! 14) \<noteq> 4 then Some None
      else if length f \<le> 23 then None
      else if f ! 23 \<noteq> 17 then Some None
      else Some (Some (22 + ip_header_len (f ! 14)))) \<and>
   22 + ip_header_len (f ! 14) \<le> 82"
  using ip_header_len_le [of "f ! 14"]
  by (auto simp: get_udp_payload_def packet_offsets rd_def Let_def)

end
