(* ===== verification/Probing.thy ===== *)
theory Probing
  imports Prelude
begin

text \<open>
  The reference theory of open addressing with linear probing, on tables that are lists of
  key/value pairs with one reserved key \<open>e\<close> marking an empty slot.  It is the specification
  the three hash tables of the program (\<open>maglev_hashmap\<close>, \<open>sashstore_hashmap\<close>,
  \<open>dramblast_ht_t\<close>) are refined to: what a probe from the home slot finds, the invariant that
  makes it complete (\<open>wf_probe\<close>), the map a table stands for (\<open>tab_map\<close>) and the two ways a
  table is written.
\<close>

section \<open>Probes and the map of a table\<close>

datatype probe_result = Hit nat | Free nat | Exhausted

text \<open>At most \<open>m\<close> slots from \<open>p\<close> on, with wrap-around.\<close>

primrec probe :: "'k \<Rightarrow> ('k \<times> 'v) list \<Rightarrow> 'k \<Rightarrow> nat \<Rightarrow> nat \<Rightarrow> probe_result" where
  "probe e T k p 0 = Exhausted"
| "probe e T k p (Suc m) =
     (if fst (T ! p) = k then Hit p
      else if fst (T ! p) = e then Free p
      else probe e T k (Suc p mod length T) m)"

definition tab_map :: "'k \<Rightarrow> ('k \<times> 'v) list \<Rightarrow> 'k \<rightharpoonup> 'v" where
  "tab_map e T = map_of (filter (\<lambda>kv. fst kv \<noteq> e) T)"

definition occupied :: "'k \<Rightarrow> ('k \<times> 'v) list \<Rightarrow> nat \<Rightarrow> bool" where
  "occupied e T p \<longleftrightarrow> fst (T ! p) \<noteq> e"

definition unique_keys :: "'k \<Rightarrow> ('k \<times> 'v) list \<Rightarrow> bool" where
  "unique_keys e T \<longleftrightarrow>
     (\<forall>p<length T. \<forall>q<length T. fst (T ! p) = fst (T ! q) \<longrightarrow> occupied e T p \<longrightarrow> p = q)"

text \<open>How far slot \<open>p\<close> is from slot \<open>h\<close>, going forward around a table of \<open>n\<close> slots.\<close>

definition slot_dist :: "nat \<Rightarrow> nat \<Rightarrow> nat \<Rightarrow> nat" where
  "slot_dist n h p = (p + n - h) mod n"

text \<open>No empty slot lies between the home of a stored key and the slot it is stored in.\<close>

definition chained :: "'k \<Rightarrow> ('k \<Rightarrow> nat) \<Rightarrow> ('k \<times> 'v) list \<Rightarrow> bool" where
  "chained e home T \<longleftrightarrow>
     (\<forall>p<length T. occupied e T p \<longrightarrow>
        (\<forall>i < slot_dist (length T) (home (fst (T ! p))) p.
           occupied e T ((home (fst (T ! p)) + i) mod length T)))"

definition wf_probe :: "'k \<Rightarrow> ('k \<Rightarrow> nat) \<Rightarrow> ('k \<times> 'v) list \<Rightarrow> bool" where
  "wf_probe e home T \<longleftrightarrow>
     T \<noteq> [] \<and> (\<forall>k. home k < length T) \<and> unique_keys e T \<and> chained e home T"

section \<open>Distances\<close>

lemma slot_dist_less [simp]: "0 < n \<Longrightarrow> slot_dist n h p < n"
  by (simp add: slot_dist_def)

lemma slot_dist_reaches:
  assumes "h < n" and "p < n"
  shows "(h + slot_dist n h p) mod n = p"
proof (cases "h \<le> p")
  case True
  then obtain d where d: "p = h + d" by (auto simp: le_iff_add)
  then have "slot_dist n h p = d" using assms by (simp add: slot_dist_def)
  then show ?thesis using d assms by simp
next
  case False
  then have "slot_dist n h p = p + n - h" using assms by (simp add: slot_dist_def)
  then have "h + slot_dist n h p = p + n" using False assms by simp
  then show ?thesis using assms by simp
qed

lemma slot_dist_unique:
  assumes "h < n" and "j < n"
  shows "slot_dist n h ((h + j) mod n) = j"
proof (cases "h + j < n")
  case True
  then show ?thesis using assms by (simp add: slot_dist_def)
next
  case False
  then have "(h + j) mod n = h + j - n"
    using assms by (simp add: mod_if)
  then show ?thesis using assms False by (simp add: slot_dist_def)
qed

section \<open>What a probe finds\<close>

lemma probe_outcome:
  assumes "length T = n" and "0 < n"
  shows "case probe e T k ((h + i) mod n) m of
      Hit p \<Rightarrow> \<exists>j\<ge>i. j < i + m \<and> p = (h + j) mod n \<and> fst (T ! p) = k \<and>
        (\<forall>l. i \<le> l \<longrightarrow> l < j \<longrightarrow> fst (T ! ((h + l) mod n)) \<noteq> k \<and> occupied e T ((h + l) mod n))
    | Free p \<Rightarrow> \<exists>j\<ge>i. j < i + m \<and> p = (h + j) mod n \<and> fst (T ! p) = e \<and> fst (T ! p) \<noteq> k \<and>
        (\<forall>l. i \<le> l \<longrightarrow> l < j \<longrightarrow> fst (T ! ((h + l) mod n)) \<noteq> k \<and> occupied e T ((h + l) mod n))
    | Exhausted \<Rightarrow> \<forall>l. i \<le> l \<longrightarrow> l < i + m \<longrightarrow>
        fst (T ! ((h + l) mod n)) \<noteq> k \<and> occupied e T ((h + l) mod n)"
proof (induction m arbitrary: i)
  case 0
  show ?case by simp
next
  case (Suc m)
  let ?p = "(h + i) mod n"
  have s: "Suc ?p mod length T = (h + Suc i) mod n" using assms by (simp add: mod_Suc_eq)
  have step: "l = i \<or> Suc i \<le> l" if "i \<le> l" for l using that by arith
  show ?case
  proof (cases "fst (T ! ?p) = k \<or> fst (T ! ?p) = e")
    case True
    then show ?thesis by (auto simp: occupied_def intro!: exI [of _ i])
  next
    case False
    then have e: "probe e T k ?p (Suc m) = probe e T k ((h + Suc i) mod n) m"
      by (simp only: probe.simps s) simp
    have o: "fst (T ! ?p) \<noteq> k \<and> occupied e T ?p" using False by (simp add: occupied_def)
    show ?thesis unfolding e using Suc.IH [of "Suc i"] o
      by (auto split: probe_result.splits dest: step) (metis Suc_leD add_Suc_right add_Suc step)+
  qed
qed

section \<open>The map of a well-formed table\<close>

lemma tab_map_e [simp]: "tab_map e T e = None"
  by (auto simp: tab_map_def map_of_eq_None_iff)

lemma tab_map_slot:
  assumes "unique_keys e T" and "p < length T" and "occupied e T p"
  shows "tab_map e T (fst (T ! p)) = Some (snd (T ! p))"
proof -
  have "(fst (T ! p), snd (T ! p)) \<in> set (filter (\<lambda>kv. fst kv \<noteq> e) T)"
    using assms by (simp add: occupied_def)
  then obtain v where v: "tab_map e T (fst (T ! p)) = Some v"
    unfolding tab_map_def by (blast dest: weak_map_of_SomeI)
  then have "(fst (T ! p), v) \<in> set T" unfolding tab_map_def by (auto dest: map_of_SomeD)
  then obtain q where q: "q < length T" "T ! q = (fst (T ! p), v)" by (auto simp: in_set_conv_nth)
  then have "fst (T ! p) = fst (T ! q)" by simp
  then have "p = q" using assms q(1) by (simp only: unique_keys_def)
  moreover have "snd (T ! q) = v" using q(2) by (metis snd_conv)
  ultimately have "snd (T ! p) = v" by simp
  then show ?thesis using v by simp
qed

lemma tab_map_Some_iff:
  assumes "unique_keys e T"
  shows "tab_map e T k = Some v \<longleftrightarrow> k \<noteq> e \<and> (\<exists>p<length T. T ! p = (k, v))"
proof
  assume m: "tab_map e T k = Some v"
  then have "(k, v) \<in> set (filter (\<lambda>kv. fst kv \<noteq> e) T)" unfolding tab_map_def by (rule map_of_SomeD)
  then show "k \<noteq> e \<and> (\<exists>p<length T. T ! p = (k, v))" by (auto simp: in_set_conv_nth)
next
  assume "k \<noteq> e \<and> (\<exists>p<length T. T ! p = (k, v))"
  then obtain p where p: "k \<noteq> e" "p < length T" "T ! p = (k, v)" by blast
  then show "tab_map e T k = Some v"
    using tab_map_slot [OF assms p(2)] by (simp add: occupied_def)
qed

lemma tab_map_None_iff:
  assumes "k \<noteq> e"
  shows "tab_map e T k = None \<longleftrightarrow> (\<forall>p<length T. fst (T ! p) \<noteq> k)"
proof
  assume n: "tab_map e T k = None"
  show "\<forall>p<length T. fst (T ! p) \<noteq> k"
  proof (intro allI impI notI)
    fix p assume p: "p < length T" "fst (T ! p) = k"
    then have "k \<in> fst ` set (filter (\<lambda>kv. fst kv \<noteq> e) T)"
      using assms by (intro image_eqI [of _ _ "T ! p"]) auto
    then show False using n by (simp add: tab_map_def map_of_eq_None_iff)
  qed
next
  assume "\<forall>p<length T. fst (T ! p) \<noteq> k"
  then have "k \<notin> fst ` set (filter (\<lambda>kv. fst kv \<noteq> e) T)" by (auto simp: in_set_conv_nth)
  then show "tab_map e T k = None" by (simp add: tab_map_def map_of_eq_None_iff)
qed

lemma map_ext_Some: "(\<And>k v. m k = Some v \<longleftrightarrow> m' k = Some v) \<Longrightarrow> m = m'"
proof
  fix k assume a: "\<And>k v. m k = Some v \<longleftrightarrow> m' k = Some v"
  then show "m k = m' k" by (cases "m' k") (metis not_None_eq, simp)
qed

text \<open>A stored key is found between its home and its slot; nothing there is empty.\<close>

lemma wf_probe_reach:
  assumes "wf_probe e home T" and "p < length T" and "fst (T ! p) = k" and "k \<noteq> e"
  obtains j where "j < length T" and "p = (home k + j) mod length T"
    and "\<forall>i<j. occupied e T ((home k + i) mod length T)"
proof
  let ?j = "slot_dist (length T) (home k) p"
  have n: "0 < length T" "home k < length T" using assms(1) by (auto simp: wf_probe_def)
  then show "?j < length T" by simp
  show "p = (home k + ?j) mod length T" using slot_dist_reaches [OF n(2) assms(2)] by simp
  show "\<forall>i < ?j. occupied e T ((home k + i) mod length T)"
    using assms by (auto simp: wf_probe_def chained_def occupied_def)
qed

section \<open>Probing a well-formed table\<close>

lemma probe_home_outcome:
  assumes "wf_probe e home T"
  shows "case probe e T k (home k) m of
      Hit p \<Rightarrow> \<exists>j<m. p = (home k + j) mod length T \<and> fst (T ! p) = k \<and>
        (\<forall>l<j. fst (T ! ((home k + l) mod length T)) \<noteq> k \<and>
               occupied e T ((home k + l) mod length T))
    | Free p \<Rightarrow> \<exists>j<m. p = (home k + j) mod length T \<and> fst (T ! p) = e \<and> fst (T ! p) \<noteq> k \<and>
        (\<forall>l<j. fst (T ! ((home k + l) mod length T)) \<noteq> k \<and>
               occupied e T ((home k + l) mod length T))
    | Exhausted \<Rightarrow> \<forall>l<m. fst (T ! ((home k + l) mod length T)) \<noteq> k \<and>
        occupied e T ((home k + l) mod length T)"
proof -
  have n: "0 < length T" "home k mod length T = home k" using assms by (auto simp: wf_probe_def)
  show ?thesis using n(2)
      probe_outcome [OF refl n(1), where e = e and k = k and h = "home k" and i = 0 and m = m]
    by (simp split: probe_result.splits)
qed

lemma mod_less_length: "wf_probe e home T \<Longrightarrow> i mod length T < length T"
  by (auto simp: wf_probe_def)

lemma probe_Hit:
  assumes "wf_probe e home T" and "k \<noteq> e" and "probe e T k (home k) m = Hit p"
  shows "p < length T" and "fst (T ! p) = k" and "tab_map e T k = Some (snd (T ! p))"
proof -
  show p: "p < length T" and k: "fst (T ! p) = k"
    using probe_home_outcome [OF assms(1), where k = k and m = m] assms(3) mod_less_length [OF assms(1)] by auto
  then show "tab_map e T k = Some (snd (T ! p))"
    using tab_map_slot [of e T p] assms(1,2) by (auto simp: wf_probe_def occupied_def)
qed

lemma probe_Free:
  assumes "wf_probe e home T" and "k \<noteq> e" and "probe e T k (home k) m = Free p"
  shows "p < length T" and "fst (T ! p) = e" and "tab_map e T k = None"
proof -
  obtain j where j: "p = (home k + j) mod length T" "fst (T ! p) = e"
    "\<forall>l<j. fst (T ! ((home k + l) mod length T)) \<noteq> k"
    using probe_home_outcome [OF assms(1), where k = k and m = m] assms(3) by auto
  then show "p < length T" "fst (T ! p) = e" using mod_less_length [OF assms(1)] by auto
  show "tab_map e T k = None" unfolding tab_map_None_iff [OF assms(2)]
  proof (intro allI impI notI)
    fix q assume q: "q < length T" "fst (T ! q) = k"
    obtain j' where j': "q = (home k + j') mod length T"
      "\<forall>i<j'. occupied e T ((home k + i) mod length T)"
      using wf_probe_reach [OF assms(1) q assms(2)] by blast
    then show False using j q assms(2) by (metis occupied_def linorder_neqE_nat)
  qed
qed

lemma probe_Exhausted:
  assumes "wf_probe e home T" and "k \<noteq> e" and "probe e T k (home k) (length T) = Exhausted"
  shows "tab_map e T k = None" and "\<forall>p<length T. occupied e T p"
proof -
  have all: "fst (T ! p) \<noteq> k \<and> occupied e T p" if "p < length T" for p
  proof -
    have n: "home k < length T" using assms(1) by (simp add: wf_probe_def)
    then have "p = (home k + slot_dist (length T) (home k) p) mod length T"
      using slot_dist_reaches [OF n that] by simp
    moreover have "slot_dist (length T) (home k) p < length T"
      using that by (intro slot_dist_less) auto
    ultimately show ?thesis
      using probe_home_outcome [OF assms(1), where k = k and m = "length T"] assms(3) by fastforce
  qed
  then show "tab_map e T k = None" "\<forall>p<length T. occupied e T p"
    by (auto simp: tab_map_None_iff [OF assms(2)])
qed

text \<open>The three outcomes are decided by the map and by whether a slot is free.\<close>

lemma probe_home_cases:
  assumes "wf_probe e home T" and "k \<noteq> e"
  obtains (Hit) p where "probe e T k (home k) (length T) = Hit p" "p < length T"
      "fst (T ! p) = k" "tab_map e T k = Some (snd (T ! p))"
  | (Free) p where "probe e T k (home k) (length T) = Free p" "p < length T"
      "fst (T ! p) = e" "tab_map e T k = None"
  | (Exhausted) "probe e T k (home k) (length T) = Exhausted" "tab_map e T k = None"
      "\<forall>p<length T. occupied e T p"
  using probe_Hit [OF assms] probe_Free [OF assms] probe_Exhausted [OF assms] by (metis probe_result.exhaust)

section \<open>The two writes\<close>

text \<open>Overwriting the value of a stored key.\<close>

lemma occupied_update_same_key:
  "p < length T \<Longrightarrow> fst (T ! p) = k \<Longrightarrow> fst (T[p := (k, v)] ! q) = fst (T ! q)"
  by (cases "p = q") auto

lemma wf_probe_update:
  assumes "wf_probe e home T" and "p < length T" and "fst (T ! p) = k"
  shows "wf_probe e home (T[p := (k, v)])"
  using assms
  by (simp add: wf_probe_def unique_keys_def chained_def occupied_def
      occupied_update_same_key del: nth_list_update)

lemma tab_map_update:
  assumes "wf_probe e home T" and "p < length T" and "fst (T ! p) = k" and "k \<noteq> e"
  shows "tab_map e (T[p := (k, v)]) = (tab_map e T)(k \<mapsto> v)"
proof (rule map_ext_Some)
  fix k' v'
  have u: "unique_keys e T" "unique_keys e (T[p := (k, v)])"
    using wf_probe_update [OF assms(1-3)] assms(1) by (auto simp: wf_probe_def)
  show "tab_map e (T[p := (k, v)]) k' = Some v' \<longleftrightarrow> ((tab_map e T)(k \<mapsto> v)) k' = Some v'"
  proof (cases "k' = k")
    case True
    have "tab_map e (T[p := (k, v)]) k = Some v"
      unfolding tab_map_Some_iff [OF u(2)] using assms(2,4) by (intro conjI exI [of _ p]) auto
    then show ?thesis using True by auto
  next
    case False
    then have "T[p := (k, v)] ! q = (k', v') \<longleftrightarrow> T ! q = (k', v')" if "q < length T" for q
      using assms(2,3) that by (cases "q = p") auto
    then show ?thesis using False by (auto simp: tab_map_Some_iff u)
  qed
qed

text \<open>
  Storing a new key in an empty slot, when every slot from its home up to there is taken by
  other keys: the situation a probe that ends in \<open>Free\<close> has established.
\<close>

definition room_at :: "'k \<Rightarrow> ('k \<Rightarrow> nat) \<Rightarrow> ('k \<times> 'v) list \<Rightarrow> 'k \<Rightarrow> nat \<Rightarrow> bool" where
  "room_at e home T k p \<longleftrightarrow>
     p < length T \<and> fst (T ! p) = e \<and> k \<noteq> e \<and> tab_map e T k = None \<and>
     (\<forall>i < slot_dist (length T) (home k) p. occupied e T ((home k + i) mod length T))"

lemma occupied_store:
  "p < length T \<Longrightarrow> k \<noteq> e \<Longrightarrow> occupied e (T[p := (k, v)]) q \<longleftrightarrow> q = p \<or> occupied e T q"
  by (cases "q = p") (auto simp: occupied_def)

lemma wf_probe_store:
  assumes wf: "wf_probe e home T" and room: "room_at e home T k p"
  shows "wf_probe e home (T[p := (k, v)])"
proof -
  have p: "p < length T" "k \<noteq> e" "\<not> occupied e T p"
    and new: "\<forall>q<length T. fst (T ! q) \<noteq> k"
    using room tab_map_None_iff [of k e T] by (auto simp: room_at_def occupied_def)
  have key: "fst (T[p := (k, v)] ! q) = (if q = p then k else fst (T ! q))" for q
    using p by auto
  have "unique_keys e (T[p := (k, v)])"
    unfolding unique_keys_def
  proof (intro allI impI)
    fix q r assume "q < length (T[p := (k, v)])" "r < length (T[p := (k, v)])"
      "fst (T[p := (k, v)] ! q) = fst (T[p := (k, v)] ! r)" "occupied e (T[p := (k, v)]) q"
    then show "q = r"
      using wf new by (auto simp: key occupied_store p wf_probe_def unique_keys_def split: if_splits)
  qed
  moreover have "chained e home (T[p := (k, v)])"
    unfolding chained_def
  proof (intro allI impI)
    fix q i assume "q < length (T[p := (k, v)])" "occupied e (T[p := (k, v)]) q"
      "i < slot_dist (length (T[p := (k, v)])) (home (fst (T[p := (k, v)] ! q))) q"
    then show "occupied e (T[p := (k, v)])
        ((home (fst (T[p := (k, v)] ! q)) + i) mod length (T[p := (k, v)]))"
      using wf room
      by (auto simp: key occupied_store p wf_probe_def chained_def room_at_def split: if_splits)
  qed
  ultimately show ?thesis using wf by (simp add: wf_probe_def)
qed

lemma tab_map_store:
  assumes wf: "wf_probe e home T" and room: "room_at e home T k p"
  shows "tab_map e (T[p := (k, v)]) = (tab_map e T)(k \<mapsto> v)"
proof (rule map_ext_Some)
  fix k' v'
  have p: "p < length T" "k \<noteq> e" "fst (T ! p) = e" "tab_map e T k = None"
    using room by (auto simp: room_at_def)
  have u: "unique_keys e T" "unique_keys e (T[p := (k, v)])"
    using wf wf_probe_store [OF wf room] by (auto simp: wf_probe_def)
  show "tab_map e (T[p := (k, v)]) k' = Some v' \<longleftrightarrow> ((tab_map e T)(k \<mapsto> v)) k' = Some v'"
  proof (cases "k' = k")
    case True
    have "tab_map e (T[p := (k, v)]) k = Some v"
      unfolding tab_map_Some_iff [OF u(2)] using p by (intro conjI exI [of _ p]) auto
    then show ?thesis using True by auto
  next
    case False
    then have "k' \<noteq> e \<Longrightarrow> T[p := (k, v)] ! q = (k', v') \<longleftrightarrow> T ! q = (k', v')" if "q < length T" for q
      using p that by (cases "q = p") auto
    then show ?thesis using False by (auto simp: tab_map_Some_iff u)
  qed
qed

lemma probe_Free_room:
  assumes "wf_probe e home T" and "k \<noteq> e" and "probe e T k (home k) (length T) = Free p"
  shows "room_at e home T k p"
proof -
  obtain j where j: "j < length T" "p = (home k + j) mod length T"
    "\<forall>l<j. occupied e T ((home k + l) mod length T)"
    using probe_home_outcome [OF assms(1), where k = k and m = "length T"] assms(3) by auto
  moreover have "slot_dist (length T) (home k) p = j"
    using j assms(1) slot_dist_unique [of "home k" "length T" j] by (simp add: wf_probe_def)
  ultimately show ?thesis using probe_Free [OF assms] assms(2) by (simp add: room_at_def)
qed

lemma wf_probe_empty:
  assumes "\<And>p. p < length T \<Longrightarrow> fst (T ! p) = e" and "T \<noteq> []" and "\<And>k. home k < length T"
  shows "wf_probe e home T" and "tab_map e T = Map.empty"
proof -
  have "\<forall>kv\<in>set T. fst kv = e" using assms(1) by (simp add: all_set_conv_all_nth)
  then show "tab_map e T = Map.empty" by (simp add: tab_map_def filter_empty_conv)
  show "wf_probe e home T"
    using assms by (auto simp: wf_probe_def unique_keys_def chained_def occupied_def)
qed

text \<open>A value written next to an empty key changes nothing the table stands for.\<close>

lemma tab_map_empty_key:
  assumes "wf_probe e home T" and "p < length T" and "fst (T ! p) = e"
  shows "tab_map e (T[p := (e, v)]) = tab_map e T"
proof (rule map_ext_Some)
  fix k' v'
  have u: "unique_keys e T" "unique_keys e (T[p := (e, v)])"
    using wf_probe_update [OF assms(1-3)] assms(1) by (auto simp: wf_probe_def)
  have "k' \<noteq> e \<Longrightarrow> T[p := (e, v)] ! q = (k', v') \<longleftrightarrow> T ! q = (k', v')" if "q < length T" for q
    using assms(2,3) that by (cases "q = p") auto
  then show "tab_map e (T[p := (e, v)]) k' = Some v' \<longleftrightarrow> tab_map e T k' = Some v'"
    by (auto simp: tab_map_Some_iff u)
qed

section \<open>Tables that several cores write\<close>

text \<open>
  What the cores may rely on: a slot that is taken keeps its key.  A core that looks for a key
  has passed the slots from its home on; none of them was empty or had the key, and this
  stays so.
\<close>

definition grows :: "'k \<Rightarrow> ('k \<times> 'v) list \<Rightarrow> ('k \<times> 'v) list \<Rightarrow> bool" where
  "grows e T T' \<longleftrightarrow> length T' = length T \<and> (\<forall>p<length T. occupied e T p \<longrightarrow> fst (T' ! p) = fst (T ! p))"

definition passed :: "'k \<Rightarrow> ('k \<Rightarrow> nat) \<Rightarrow> ('k \<times> 'v) list \<Rightarrow> 'k \<Rightarrow> nat \<Rightarrow> bool" where
  "passed e home T k m \<longleftrightarrow>
     (\<forall>l<m. occupied e T ((home k + l) mod length T) \<and> fst (T ! ((home k + l) mod length T)) \<noteq> k)"

lemma grows_refl [simp]: "grows e T T"
  by (simp add: grows_def)

lemma grows_update: "fst (T ! p) = e \<or> fst (T ! p) = k \<Longrightarrow> grows e T (T[p := (k, v)])"
  by (cases "p < length T") (auto simp: grows_def occupied_def nth_list_update)

lemma grows_occupied: "grows e T T' \<Longrightarrow> p < length T \<Longrightarrow> occupied e T p \<Longrightarrow> occupied e T' p"
  by (simp add: grows_def occupied_def)

lemma passed_0 [simp]: "passed e home T k 0"
  by (simp add: passed_def)

lemma passed_Suc:
  "passed e home T k (Suc m) \<longleftrightarrow> passed e home T k m \<and>
     occupied e T ((home k + m) mod length T) \<and> fst (T ! ((home k + m) mod length T)) \<noteq> k"
  by (auto simp: passed_def less_Suc_eq)

lemma passed_grows:
  assumes "passed e home T k m" and "grows e T T'" and "T \<noteq> []"
  shows "passed e home T' k m"
  using assms by (auto simp: passed_def grows_def occupied_def)

lemma passed_room:
  assumes wf: "wf_probe e home T" and "passed e home T k m" and "m < length T" and "k \<noteq> e"
    and "fst (T ! ((home k + m) mod length T)) = e"
  shows "room_at e home T k ((home k + m) mod length T)"
proof -
  have "tab_map e T k = None"
    unfolding tab_map_None_iff [OF assms(4)]
  proof (intro allI impI notI)
    fix q assume q: "q < length T" "fst (T ! q) = k"
    obtain j where j: "q = (home k + j) mod length T" "\<forall>i<j. occupied e T ((home k + i) mod length T)"
      using wf_probe_reach [OF wf q assms(4)] by blast
    consider "j < m" | "j = m" | "m < j" by linarith
    then show False using assms(2,4,5) j q(2) by cases (auto simp: passed_def occupied_def)
  qed
  moreover have "slot_dist (length T) (home k) ((home k + m) mod length T) = m"
    using wf assms(3) slot_dist_unique [of "home k" "length T" m] by (simp add: wf_probe_def)
  ultimately show ?thesis
    using assms mod_less_length [OF wf] by (simp add: room_at_def passed_def)
qed

lemma passed_all:
  assumes "wf_probe e home T" and "passed e home T k (length T)" and "k \<noteq> e"
  shows "tab_map e T k = None" and "\<forall>p<length T. occupied e T p"
proof -
  have all: "fst (T ! p) \<noteq> k \<and> occupied e T p" if "p < length T" for p
  proof -
    have h: "home k < length T" using assms(1) by (simp add: wf_probe_def)
    have "slot_dist (length T) (home k) p < length T" using that by (intro slot_dist_less) auto
    then show ?thesis using assms(2) slot_dist_reaches [OF h that] by (auto simp: passed_def)
  qed
  then show "tab_map e T k = None" "\<forall>p<length T. occupied e T p"
    by (auto simp: tab_map_None_iff [OF assms(3)])
qed

text \<open>How many keys are stored, and when the table is full.\<close>

lemma card_dom_tab_map:
  assumes "unique_keys e T"
  shows "card (dom (tab_map e T)) = card {p. p < length T \<and> occupied e T p}"
proof -
  let ?P = "{p. p < length T \<and> occupied e T p}"
  have "dom (tab_map e T) = (\<lambda>p. fst (T ! p)) ` ?P"
  proof (intro set_eqI iffI)
    fix k assume "k \<in> dom (tab_map e T)"
    then obtain v where "tab_map e T k = Some v" by blast
    then show "k \<in> (\<lambda>p. fst (T ! p)) ` ?P"
      unfolding tab_map_Some_iff [OF assms] by (force simp: occupied_def)
  next
    fix k assume "k \<in> (\<lambda>p. fst (T ! p)) ` ?P"
    then show "k \<in> dom (tab_map e T)" using tab_map_slot [OF assms] by auto
  qed
  moreover have "inj_on (\<lambda>p. fst (T ! p)) ?P"
    using assms unfolding inj_on_def unique_keys_def by blast
  ultimately show ?thesis by (simp add: card_image)
qed

lemma card_dom_full:
  assumes "unique_keys e T"
  shows "card (dom (tab_map e T)) < length T \<longleftrightarrow> (\<exists>p<length T. \<not> occupied e T p)"
proof -
  let ?P = "{p. p < length T \<and> occupied e T p}"
  have fin: "finite {..<length T}" and sub: "?P \<subseteq> {..<length T}" by auto
  have "card ?P < length T \<longleftrightarrow> ?P \<noteq> {..<length T}"
  proof
    assume "card ?P < length T"
    then have "card ?P \<noteq> card {..<length T}" by simp
    then show "?P \<noteq> {..<length T}" by metis
  next
    assume "?P \<noteq> {..<length T}"
    then have "?P \<subset> {..<length T}" using sub by blast
    then have "card ?P < card {..<length T}" by (rule psubset_card_mono [OF fin])
    then show "card ?P < length T" by simp
  qed
  also have "?P \<noteq> {..<length T} \<longleftrightarrow> (\<exists>p<length T. \<not> occupied e T p)" by (simp add: set_eq_iff) blast
  finally show ?thesis unfolding card_dom_tab_map [OF assms] .
qed

end
