(* ===== verification/Flow_Table.thy ===== *)
theory Flow_Table
  imports Prelude
begin

text \<open>
  The contract between the connection tables and their users, as locales.

  \<open>table_insert\<close> is what a caller of an insert routine relies on: it returns (no access out of
  bounds, no endless probe), it either stores the pair or reports failure, failure changes
  nothing and only happens for a key that is not stored, and the table stays well formed.
  \<open>table_store\<close> adds the lookup that returns a pointer to the stored pair.  The tables of
  \<open>hashmap.c\<close> and \<open>dramblast.c\<close> are shown to satisfy them by interpretation, in the theories
  that model them.
\<close>

text \<open>A caller inserting one pair after the other and collecting the return codes.\<close>

fun insert_all ::
  "('t \<Rightarrow> 'k \<Rightarrow> 'v \<Rightarrow> ('r \<times> 't) option) \<Rightarrow> 't \<Rightarrow> ('k \<times> 'v) list \<Rightarrow> ('r list \<times> 't) option"
where
  "insert_all ins t [] = Some ([], t)"
| "insert_all ins t ((k, v) # kvs) = do {
     (r, t') \<leftarrow> ins t k v;
     (rs, t'') \<leftarrow> insert_all ins t' kvs;
     Some (r # rs, t'')
   }"

locale table_insert =
  fixes inv :: "'t \<Rightarrow> bool"
    and abs :: "'t \<Rightarrow> 'k \<Rightarrow> 'v option"
    and valid_key :: "'k \<Rightarrow> bool"
    and valid_val :: "'v \<Rightarrow> bool"
    and ins :: "'t \<Rightarrow> 'k \<Rightarrow> 'v \<Rightarrow> ('r \<times> 't) option"
    and ok :: "'r \<Rightarrow> bool"
  assumes ins_returns: "inv t \<Longrightarrow> valid_key k \<Longrightarrow> valid_val v \<Longrightarrow> \<exists>r t'. ins t k v = Some (r, t')"
    and ins_inv: "inv t \<Longrightarrow> valid_key k \<Longrightarrow> valid_val v \<Longrightarrow> ins t k v = Some (r, t') \<Longrightarrow> inv t'"
    and ins_ok: "inv t \<Longrightarrow> valid_key k \<Longrightarrow> valid_val v \<Longrightarrow> ins t k v = Some (r, t') \<Longrightarrow> ok r \<Longrightarrow>
      abs t' = (abs t)(k \<mapsto> v)"
    and ins_fail: "inv t \<Longrightarrow> valid_key k \<Longrightarrow> valid_val v \<Longrightarrow> ins t k v = Some (r, t') \<Longrightarrow> \<not> ok r \<Longrightarrow>
      t' = t \<and> abs t k = None"
begin

lemma ins_mono:
  assumes "inv t" "valid_key k" "valid_val v" "ins t k v = Some (r, t')"
  shows "dom (abs t) \<subseteq> dom (abs t')"
  using ins_ok [OF assms] ins_fail [OF assms] by (cases "ok r") auto

lemma ins_other:
  assumes "inv t" "valid_key k" "valid_val v" "ins t k v = Some (r, t')" "k' \<noteq> k"
  shows "abs t' k' = abs t k'"
  using ins_ok [OF assms(1-4)] ins_fail [OF assms(1-4)] assms(5) by (cases "ok r") auto

lemma ins_present_succeeds:
  assumes "inv t" "valid_key k" "valid_val v" "ins t k v = Some (r, t')" "k \<in> dom (abs t)"
  shows "ok r"
  using ins_fail [OF assms(1-4)] assms(5) by (cases "ok r") auto

lemma insert_all_returns:
  assumes "inv t" and "\<forall>(k, v) \<in> set kvs. valid_key k \<and> valid_val v"
  shows "\<exists>rs t'. insert_all ins t kvs = Some (rs, t') \<and> inv t' \<and> length rs = length kvs \<and>
    dom (abs t) \<subseteq> dom (abs t')"
  using assms
proof (induction kvs arbitrary: t)
  case Nil
  then show ?case by simp
next
  case (Cons kv kvs)
  obtain k v where kv: "kv = (k, v)" by force
  then have v: "valid_key k" "valid_val v" using Cons.prems by auto
  obtain r t' where s: "ins t k v = Some (r, t')" using ins_returns [OF Cons.prems(1) v] by blast
  have "inv t'" using ins_inv [OF Cons.prems(1) v s] .
  then obtain rs t'' where "insert_all ins t' kvs = Some (rs, t'')" "inv t''"
      "length rs = length kvs" "dom (abs t') \<subseteq> dom (abs t'')"
    using Cons.IH [of t'] Cons.prems(2) by auto
  then show ?case using s kv ins_mono [OF Cons.prems(1) v s] by auto
qed

text \<open>Every pair of a sequence with distinct keys that was accepted is there at the end.\<close>

lemma insert_all_stored:
  assumes "inv t" and "\<forall>(k, v) \<in> set kvs. valid_key k \<and> valid_val v"
    and "insert_all ins t kvs = Some (rs, t')" and "distinct (map fst kvs)"
    and "i < length kvs" and "ok (rs ! i)"
  shows "abs t' (fst (kvs ! i)) = Some (snd (kvs ! i))"
  using assms
proof (induction kvs arbitrary: t rs i)
  case Nil
  then show ?case by simp
next
  case (Cons kv kvs)
  obtain k v where kv: "kv = (k, v)" by force
  then have v: "valid_key k" "valid_val v" using Cons.prems by auto
  obtain r t1 rs' where s: "ins t k v = Some (r, t1)" and
    rest: "insert_all ins t1 kvs = Some (rs', t')" and rs: "rs = r # rs'"
    using Cons.prems(3) kv by (auto split: Option.bind_splits)
  have inv1: "inv t1" using ins_inv [OF Cons.prems(1) v s] .
  have keep: "abs t' k = abs t1 k" if "k \<notin> fst ` set kvs"
    using inv1 rest that Cons.prems(2)
  proof (induction kvs arbitrary: t1 rs')
    case (Cons a kvs)
    obtain k2 v2 where a: "a = (k2, v2)" by force
    then have v2: "valid_key k2" "valid_val v2" using Cons.prems by auto
    obtain r2 t2 rs2 where s2: "ins t1 k2 v2 = Some (r2, t2)" "insert_all ins t2 kvs = Some (rs2, t')"
      using Cons.prems(2) a by (auto split: Option.bind_splits)
    have "abs t' k = abs t2 k"
      using Cons.IH [OF ins_inv [OF Cons.prems(1) v2 s2(1)] s2(2)] Cons.prems a by auto
    then show ?case using ins_other [OF Cons.prems(1) v2 s2(1)] Cons.prems(3) a by auto
  qed simp
  show ?case
  proof (cases i)
    case 0
    then show ?thesis
      using keep Cons.prems(4,6) ins_ok [OF Cons.prems(1) v s] kv rs by (auto simp: image_iff)
  next
    case (Suc j)
    then show ?thesis using Cons.IH [OF inv1 _ rest] Cons.prems kv rs by auto
  qed
qed

end

locale table_store = table_insert inv abs valid_key valid_val ins ok
  for inv :: "'t \<Rightarrow> bool"
    and abs :: "'t \<Rightarrow> 'k \<Rightarrow> 'v option"
    and valid_key :: "'k \<Rightarrow> bool"
    and valid_val :: "'v \<Rightarrow> bool"
    and ins :: "'t \<Rightarrow> 'k \<Rightarrow> 'v \<Rightarrow> ('r \<times> 't) option"
    and ok :: "'r \<Rightarrow> bool" +
  fixes get :: "'t \<Rightarrow> 'k \<Rightarrow> 'p option option"
    and deref :: "'t \<Rightarrow> 'p \<Rightarrow> 'v option"
  assumes get_absent: "inv t \<Longrightarrow> valid_key k \<Longrightarrow> abs t k = None \<Longrightarrow> get t k = Some None"
    and get_present: "inv t \<Longrightarrow> valid_key k \<Longrightarrow> abs t k = Some v \<Longrightarrow>
      \<exists>p. get t k = Some (Some p) \<and> deref t p = Some v"
begin

lemma get_returns: "inv t \<Longrightarrow> valid_key k \<Longrightarrow> \<exists>r. get t k = Some r"
  using get_absent get_present by (cases "abs t k") blast+

lemma get_None_iff: "inv t \<Longrightarrow> valid_key k \<Longrightarrow> get t k = Some None \<longleftrightarrow> abs t k = None"
  using get_absent get_present by (cases "abs t k") fastforce+

lemma get_Some_deref:
  "inv t \<Longrightarrow> valid_key k \<Longrightarrow> get t k = Some (Some p) \<Longrightarrow> deref t p = abs t k \<and> abs t k \<noteq> None"
  using get_absent get_present by (cases "abs t k") fastforce+

lemma read_your_write:
  assumes "inv t" "valid_key k" "valid_val v" "ins t k v = Some (r, t')" "ok r"
  shows "\<exists>p. get t' k = Some (Some p) \<and> deref t' p = Some v"
  using get_present [OF ins_inv [OF assms(1-4)] assms(2)] ins_ok [OF assms] by simp

lemma get_other:
  assumes "inv t" "valid_key k" "valid_val v" "ins t k v = Some (r, t')" "valid_key k'" "k' \<noteq> k"
    and "get t k' = Some (Some p)"
  shows "\<exists>q. get t' k' = Some (Some q) \<and> deref t' q = deref t p"
proof -
  have "abs t' k' = abs t k'" using ins_other [OF assms(1-4) assms(6)] .
  moreover have "deref t p = abs t k'" "abs t k' \<noteq> None"
    using get_Some_deref [OF assms(1,5,7)] by auto
  ultimately show ?thesis using get_present [OF ins_inv [OF assms(1-4)] assms(5)] by auto
qed

end

end
