(* ===== verification/Hashmap.thy ===== *)
theory Hashmap
  imports Fnv Probing Flow_Table
begin

text \<open>
  \<open>l2fwd/libsashstore/hashmap.c\<close> and \<open>hashmap.h\<close>: the Maglev connection table (the
  table of the key-value store is in \<open>Sash_Table\<close>).  The array \<open>pairs\<close> is a list of records; the global \<open>CAPACITY\<close> is an argument.  The hash
  instruction \<open>_mm_crc32_u64\<close> is the parameter \<open>crc\<close> (any function of seed and key).  The
  model is sequential: one core runs the routine, so the compare-and-swap sees the slot the
  test before it saw.  \<open>maglev_hashmap_insert\<close> and \<open>maglev_hashmap_get\<close> are shown to be the
  two ends of a probe in the sense of \<open>Probing\<close>, and to satisfy the contract of
  \<open>Flow_Table\<close>.
\<close>

section \<open>Data and operations\<close>

record maglev_kv_pair =
  mkey :: u64
  mvalue :: u64

record maglev_hashmap =
  mpairs :: "maglev_kv_pair list"

definition maglev_hash :: "(u64 \<Rightarrow> u64 \<Rightarrow> u64) \<Rightarrow> u64 \<Rightarrow> u64" where
  "maglev_hash crc k = crc 0 k"

text \<open>
  \<open>__sync_bool_compare_and_swap\<close> on the 16 bytes of a slot, expecting all zero: the new
  array, when the swap happened.
\<close>

definition maglev_cas ::
  "maglev_kv_pair list \<Rightarrow> nat \<Rightarrow> maglev_kv_pair \<Rightarrow> maglev_kv_pair list option" where
  "maglev_cas ps p new =
     (if mkey (ps ! p) = 0 \<and> mvalue (ps ! p) = 0 then Some (ps[p := new]) else None)"

function maglev_insert_loop ::
  "u64 \<Rightarrow> maglev_hashmap \<Rightarrow> u64 \<Rightarrow> u64 \<Rightarrow> u64 \<Rightarrow> u64 \<Rightarrow> (int \<times> maglev_hashmap) option" where
  "maglev_insert_loop CAPACITY hm key val hash i =
     (if i < CAPACITY then
        let probe = hash + i; p = unat (probe AND (CAPACITY - 1)) in
        case rd (mpairs hm) p of
          None \<Rightarrow> None
        | Some pair \<Rightarrow>
            (case (if mkey pair = 0
                   then maglev_cas (mpairs hm) p \<lparr>mkey = key, mvalue = val\<rparr> else None) of
               Some ps \<Rightarrow> Some (0, hm\<lparr>mpairs := ps\<rparr>)
             | None \<Rightarrow>
                 if mkey pair = key
                 then Some (0, hm\<lparr>mpairs := (mpairs hm)[p := pair\<lparr>mvalue := val\<rparr>]\<rparr>)
                 else maglev_insert_loop CAPACITY hm key val hash (i + 1))
      else Some (-1, hm))"
  by pat_completeness auto
termination
  by (relation "measure (\<lambda>(c, m, k, v, h, i). unat c - unat i)")
    (auto intro: unat_inc_measure)


declare maglev_insert_loop.simps [simp del]

definition maglev_hashmap_insert ::
  "(u64 \<Rightarrow> u64 \<Rightarrow> u64) \<Rightarrow> u64 \<Rightarrow> maglev_hashmap \<Rightarrow> u64 \<Rightarrow> u64 \<Rightarrow> (int \<times> maglev_hashmap) option" where
  "maglev_hashmap_insert crc CAPACITY hm key val =
     (if key = 0 then Some (-1, hm)
      else
        let hash = maglev_hash crc key AND (CAPACITY - 1)
        in maglev_insert_loop CAPACITY hm key val hash 0)"

text \<open>\<open>maglev_hashmap_get\<close> returns a pointer into \<open>pairs\<close>: the index of the pair, or NULL.\<close>

function maglev_get_loop ::
  "u64 \<Rightarrow> maglev_hashmap \<Rightarrow> u64 \<Rightarrow> u64 \<Rightarrow> u64 \<Rightarrow> nat option option" where
  "maglev_get_loop CAPACITY hm key hash i =
     (if i < CAPACITY then
        let probe = hash + i; p = unat (probe AND (CAPACITY - 1)) in
        case rd (mpairs hm) p of
          None \<Rightarrow> None
        | Some pair \<Rightarrow>
            if mkey pair = 0 then Some None
            else if mkey pair = key then Some (Some p)
            else maglev_get_loop CAPACITY hm key hash (i + 1)
      else Some None)"
  by pat_completeness auto
termination
  by (relation "measure (\<lambda>(c, m, k, h, i). unat c - unat i)") (auto intro: unat_inc_measure)

declare maglev_get_loop.simps [simp del]

definition maglev_hashmap_get ::
  "(u64 \<Rightarrow> u64 \<Rightarrow> u64) \<Rightarrow> u64 \<Rightarrow> maglev_hashmap \<Rightarrow> u64 \<Rightarrow> nat option option" where
  "maglev_hashmap_get crc CAPACITY hm key =
     (let hash = maglev_hash crc key AND (CAPACITY - 1)
      in maglev_get_loop CAPACITY hm key hash 0)"

section \<open>The table as a probing table\<close>

definition mview :: "maglev_hashmap \<Rightarrow> (u64 \<times> u64) list" where
  "mview hm = List.map (\<lambda>kv. (mkey kv, mvalue kv)) (mpairs hm)"

definition mhome :: "(u64 \<Rightarrow> u64 \<Rightarrow> u64) \<Rightarrow> u64 \<Rightarrow> u64 \<Rightarrow> nat" where
  "mhome crc CAPACITY k = unat (maglev_hash crc k AND (CAPACITY - 1))"

text \<open>
  The invariant: the array has the advertised power-of-two size, an empty slot is all zero
  (what the compare-and-swap tests), keys are unique and every key can be reached from its home.
\<close>

definition maglev_inv :: "(u64 \<Rightarrow> u64 \<Rightarrow> u64) \<Rightarrow> u64 \<Rightarrow> maglev_hashmap \<Rightarrow> bool" where
  "maglev_inv crc CAPACITY hm \<longleftrightarrow>
     pow2_u64 CAPACITY \<and> length (mpairs hm) = unat CAPACITY \<and>
     (\<forall>kv \<in> set (mpairs hm). mkey kv = 0 \<longrightarrow> mvalue kv = 0) \<and>
     wf_probe 0 (mhome crc CAPACITY) (mview hm)"

definition maglev_map :: "maglev_hashmap \<Rightarrow> u64 \<rightharpoonup> u64" where
  "maglev_map hm = tab_map 0 (mview hm)"

lemma length_mview [simp]: "length (mview hm) = length (mpairs hm)"
  by (simp add: mview_def)

lemma nth_mview [simp]:
  "p < length (mpairs hm) \<Longrightarrow> mview hm ! p = (mkey (mpairs hm ! p), mvalue (mpairs hm ! p))"
  by (simp add: mview_def)

lemma mview_update [simp]:
  "mview (hm\<lparr>mpairs := (mpairs hm)[p := kv]\<rparr>) = (mview hm)[p := (mkey kv, mvalue kv)]"
  by (simp add: mview_def map_update)

lemma mhome_less: "pow2_u64 c \<Longrightarrow> mhome crc c k < unat c"
  by (simp add: mhome_def pow2_simps)

text \<open>The slot the loops look at in round \<open>i\<close>.\<close>

lemma masked_slot:
  assumes "pow2_u64 c" and "h < c"
  shows "unat ((h + i) AND (c - 1)) = (unat h + unat i) mod unat c"
  using assms by (simp add: pow2_simps)

lemma masked_slot_next:
  assumes "pow2_u64 c" and "i < c"
  shows "unat ((h + (i + 1)) AND (c - 1)) = Suc (unat ((h + i) AND (c - 1))) mod unat c"
  using assms by (simp add: pow2_simps unat_inc mod_Suc_eq)

lemma maglev_get_loop_probe:
  assumes "pow2_u64 c" and "length (mpairs hm) = unat c" and "key \<noteq> 0" and "i \<le> c"
  shows "maglev_get_loop c hm key hash i =
    Some (case probe 0 (mview hm) key (unat ((hash + i) AND (c - 1))) (unat c - unat i) of
            Hit p \<Rightarrow> Some p | Free p \<Rightarrow> None | Exhausted \<Rightarrow> None)"
  using assms(4)
proof (induction "unat c - unat i" arbitrary: i)
  case 0
  then have "i = c" by (simp add: word_le_nat_alt word_unat_eq_iff)
  then show ?case by (simp add: maglev_get_loop.simps)
next
  case (Suc m)
  let ?p = "unat ((hash + i) AND (c - 1))"
  have lt: "i < c" using Suc.hyps(2) by (simp add: word_less_nat_alt)
  have p: "?p < length (mpairs hm)" using assms(1,2) by (simp add: pow2_simps)
  have m: "m = unat c - unat (i + 1)" using Suc.hyps(2) unat_inc [OF lt] by simp
  have le: "i + 1 \<le> c" using lt by (simp add: inc_le)
  have "maglev_get_loop c hm key hash i =
     (if mkey (mpairs hm ! ?p) = 0 then Some None
      else if mkey (mpairs hm ! ?p) = key then Some (Some ?p)
      else maglev_get_loop c hm key hash (i + 1))"
    using lt p by (subst maglev_get_loop.simps) (simp add: Let_def)
  then show ?case
    using Suc.hyps(1) [OF m le] p assms(2,3) masked_slot_next [OF assms(1) lt]
    by (simp add: Suc.hyps(2) [symmetric] m)
qed


text \<open>
  The insert loop writes where a probe ends: over the value of a hit, into a free slot with
  the compare-and-swap, nowhere when every slot was tried.
\<close>

definition mstore :: "maglev_hashmap \<Rightarrow> nat \<Rightarrow> u64 \<Rightarrow> u64 \<Rightarrow> maglev_hashmap" where
  "mstore hm p key val = hm\<lparr>mpairs := (mpairs hm)[p := \<lparr>mkey = key, mvalue = val\<rparr>]\<rparr>"

lemma maglev_kv_update: "mkey kv = k \<Longrightarrow> kv\<lparr>mvalue := v\<rparr> = \<lparr>mkey = k, mvalue = v\<rparr>"
  by (cases kv) simp

lemma maglev_insert_loop_probe:
  assumes "pow2_u64 c" and "length (mpairs hm) = unat c" and "key \<noteq> 0" and "i \<le> c"
    and "\<forall>kv \<in> set (mpairs hm). mkey kv = 0 \<longrightarrow> mvalue kv = 0"
  shows "maglev_insert_loop c hm key val hash i =
    Some (case probe 0 (mview hm) key (unat ((hash + i) AND (c - 1))) (unat c - unat i) of
            Hit p \<Rightarrow> (0, mstore hm p key val)
          | Free p \<Rightarrow> (0, mstore hm p key val)
          | Exhausted \<Rightarrow> (-1, hm))"
  using assms(4)
proof (induction "unat c - unat i" arbitrary: i)
  case 0
  then have "i = c" by (simp add: word_le_nat_alt word_unat_eq_iff)
  then show ?case by (simp add: maglev_insert_loop.simps)
next
  case (Suc m)
  let ?p = "unat ((hash + i) AND (c - 1))"
  let ?kv = "mpairs hm ! ?p"
  have lt: "i < c" using Suc.hyps(2) by (simp add: word_less_nat_alt)
  have p: "?p < length (mpairs hm)" using assms(1,2) by (simp add: pow2_simps)
  have m: "m = unat c - unat (i + 1)" using Suc.hyps(2) unat_inc [OF lt] by simp
  have le: "i + 1 \<le> c" using lt by (simp add: inc_le)
  have clean: "mkey ?kv = 0 \<Longrightarrow> mvalue ?kv = 0" using p assms(5) by simp
  have "maglev_insert_loop c hm key val hash i =
     (if mkey ?kv = 0 \<or> mkey ?kv = key then Some (0, mstore hm ?p key val)
      else maglev_insert_loop c hm key val hash (i + 1))"
    using lt p clean
    by (subst maglev_insert_loop.simps)
      (auto simp: Let_def maglev_cas_def mstore_def maglev_kv_update split: option.splits)
  then show ?case
    using Suc.hyps(1) [OF m le] p assms(2,3) masked_slot_next [OF assms(1) lt]
    by (simp add: Suc.hyps(2) [symmetric] m)
qed

lemma mview_mstore [simp]: "mview (mstore hm p k v) = (mview hm)[p := (k, v)]"
  by (simp add: mstore_def)

lemma maglev_get_probe:
  assumes "maglev_inv crc c hm" and "key \<noteq> 0"
  shows "maglev_hashmap_get crc c hm key =
    Some (case probe 0 (mview hm) key (mhome crc c key) (length (mview hm)) of
            Hit p \<Rightarrow> Some p | Free p \<Rightarrow> None | Exhausted \<Rightarrow> None)"
  using assms maglev_get_loop_probe [of c hm key 0 "maglev_hash crc key AND (c - 1)"]
  by (auto simp: maglev_hashmap_get_def maglev_inv_def mhome_def Let_def and.assoc)

lemma maglev_insert_probe:
  assumes "maglev_inv crc c hm" and "key \<noteq> 0"
  shows "maglev_hashmap_insert crc c hm key val =
    Some (case probe 0 (mview hm) key (mhome crc c key) (length (mview hm)) of
            Hit p \<Rightarrow> (0, mstore hm p key val)
          | Free p \<Rightarrow> (0, mstore hm p key val)
          | Exhausted \<Rightarrow> (-1, hm))"
  using assms maglev_insert_loop_probe [of c hm key 0 val "maglev_hash crc key AND (c - 1)"]
  by (auto simp: maglev_hashmap_insert_def maglev_inv_def mhome_def Let_def and.assoc)

section \<open>Correctness\<close>

lemma maglev_inv_mstore:
  assumes "maglev_inv crc c hm" and "wf_probe 0 (mhome crc c) ((mview hm)[p := (k, v)])" and "k \<noteq> 0"
  shows "maglev_inv crc c (mstore hm p k v)"
  using assms by (auto simp: maglev_inv_def mstore_def mview_def map_update dest!: subsetD [OF set_update_subset_insert])

text \<open>
  An insert of a non-zero key binds exactly this key, or leaves the table, which then is full
  and does not hold the key, as it was.
\<close>

lemma maglev_insert_cases:
  assumes "maglev_inv crc CAPACITY hm" and "key \<noteq> 0"
  shows "\<exists>rc hm'. maglev_hashmap_insert crc CAPACITY hm key val = Some (rc, hm') \<and>
    maglev_inv crc CAPACITY hm' \<and>
    (rc = 0 \<and> maglev_map hm' = (maglev_map hm)(key \<mapsto> val) \<or>
     rc = -1 \<and> hm' = hm \<and> maglev_map hm key = None \<and> (\<forall>kv \<in> set (mpairs hm). mkey kv \<noteq> 0))"
proof -
  have wf: "wf_probe 0 (mhome crc CAPACITY) (mview hm)" using assms(1) by (simp add: maglev_inv_def)
  from wf assms(2) show ?thesis
  proof (cases rule: probe_home_cases)
    case (Hit p)
    then have "maglev_inv crc CAPACITY (mstore hm p key val)"
      using assms wf_probe_update [OF wf Hit(2,3)] by (intro maglev_inv_mstore)
    then show ?thesis
      using Hit tab_map_update [OF wf Hit(2,3) assms(2)]
      by (simp add: maglev_insert_probe [OF assms] maglev_map_def)
  next
    case (Free p)
    have room: "room_at 0 (mhome crc CAPACITY) (mview hm) key p"
      using probe_Free_room [OF wf assms(2) Free(1)] .
    then have "maglev_inv crc CAPACITY (mstore hm p key val)"
      using assms wf_probe_store [OF wf room] by (intro maglev_inv_mstore)
    then show ?thesis
      using Free tab_map_store [OF wf room]
      by (simp add: maglev_insert_probe [OF assms] maglev_map_def)
  next
    case Exhausted
    then have "\<forall>kv \<in> set (mpairs hm). mkey kv \<noteq> 0"
      by (auto simp: occupied_def in_set_conv_nth)
    then show ?thesis
      using Exhausted assms(1) by (simp add: maglev_insert_probe [OF assms] maglev_map_def)
  qed
qed

lemma maglev_get_cases:
  assumes "maglev_inv crc CAPACITY hm" and "key \<noteq> 0"
  shows "maglev_map hm key = None \<and> maglev_hashmap_get crc CAPACITY hm key = Some None \<or>
    (\<exists>p < length (mpairs hm). maglev_hashmap_get crc CAPACITY hm key = Some (Some p) \<and>
      mkey (mpairs hm ! p) = key \<and> maglev_map hm key = Some (mvalue (mpairs hm ! p)))"
proof -
  have wf: "wf_probe 0 (mhome crc CAPACITY) (mview hm)" using assms(1) by (simp add: maglev_inv_def)
  from wf assms(2) show ?thesis
    by (cases rule: probe_home_cases) (auto simp: maglev_get_probe [OF assms] maglev_map_def)
qed

section \<open>The contract of the connection table\<close>

definition maglev_deref :: "maglev_hashmap \<Rightarrow> nat \<Rightarrow> u64 option" where
  "maglev_deref hm p = map_option mvalue (rd (mpairs hm) p)"

interpretation maglev_table: table_store "maglev_inv crc CAPACITY" maglev_map "\<lambda>k. k \<noteq> 0"
    "\<lambda>_. True" "maglev_hashmap_insert crc CAPACITY" "\<lambda>rc. \<not> rc < 0"
    "maglev_hashmap_get crc CAPACITY" maglev_deref
  for crc CAPACITY
proof unfold_locales
  fix t k v r t'
  assume a: "maglev_inv crc CAPACITY t" "k \<noteq> (0::u64)"
  show "\<exists>r t'. maglev_hashmap_insert crc CAPACITY t k v = Some (r, t')"
    using maglev_insert_cases [OF a, of v] by blast
  assume i: "maglev_hashmap_insert crc CAPACITY t k v = Some (r, t')"
  show "maglev_inv crc CAPACITY t'" using maglev_insert_cases [OF a, of v] i by auto
  show "\<not> r < 0 \<Longrightarrow> maglev_map t' = (maglev_map t)(k \<mapsto> v)"
    using maglev_insert_cases [OF a, of v] i by auto
  show "\<not> \<not> r < 0 \<Longrightarrow> t' = t \<and> maglev_map t k = None"
    using maglev_insert_cases [OF a, of v] i by auto
next
  fix t k v
  assume a: "maglev_inv crc CAPACITY t" "k \<noteq> (0::u64)"
  show "maglev_map t k = None \<Longrightarrow> maglev_hashmap_get crc CAPACITY t k = Some None"
    using maglev_get_cases [OF a] by auto
  show "maglev_map t k = Some v \<Longrightarrow>
      \<exists>p. maglev_hashmap_get crc CAPACITY t k = Some (Some p) \<and> maglev_deref t p = Some v"
    using maglev_get_cases [OF a] by (auto simp: maglev_deref_def)
qed

text \<open>
  C30: inserting a non-zero key into a well-formed connection table returns without leaving the
  array and keeps the table well formed.  On 0, a lookup of the key points to the value and the
  lookups of all other keys read the values they read before; on -1, the table is unchanged,
  every slot is taken and a lookup of the key is NULL.
\<close>

theorem maglev_insert_get:
  assumes "maglev_inv crc CAPACITY hm" and "key \<noteq> 0"
  shows "\<exists>rc hm'. maglev_hashmap_insert crc CAPACITY hm key val = Some (rc, hm') \<and>
    maglev_inv crc CAPACITY hm' \<and>
    (rc = 0 \<and>
     (\<exists>p. maglev_hashmap_get crc CAPACITY hm' key = Some (Some p) \<and>
        maglev_deref hm' p = Some val) \<and>
     (\<forall>key' p'. key' \<noteq> 0 \<longrightarrow> key' \<noteq> key \<longrightarrow>
        maglev_hashmap_get crc CAPACITY hm key' = Some (Some p') \<longrightarrow>
        (\<exists>q. maglev_hashmap_get crc CAPACITY hm' key' = Some (Some q) \<and>
           maglev_deref hm' q = maglev_deref hm p')) \<and>
     (\<forall>key'. key' \<noteq> 0 \<longrightarrow> key' \<noteq> key \<longrightarrow>
        maglev_hashmap_get crc CAPACITY hm key' = Some None \<longrightarrow>
        maglev_hashmap_get crc CAPACITY hm' key' = Some None) \<or>
     rc = -1 \<and> hm' = hm \<and> (\<forall>kv \<in> set (mpairs hm). mkey kv \<noteq> 0) \<and>
     maglev_hashmap_get crc CAPACITY hm key = Some None)"
proof -
  obtain rc hm' where i: "maglev_hashmap_insert crc CAPACITY hm key val = Some (rc, hm')"
    and inv: "maglev_inv crc CAPACITY hm'"
    and c: "rc = 0 \<or> rc = -1 \<and> hm' = hm \<and> maglev_map hm key = None \<and>
      (\<forall>kv \<in> set (mpairs hm). mkey kv \<noteq> 0)"
    using maglev_insert_cases [OF assms, of val] by blast
  show ?thesis
  proof (cases "rc = 0")
    case True
    then show ?thesis
      using i inv maglev_table.read_your_write [OF assms TrueI i]
        maglev_table.get_other [OF assms TrueI i] maglev_table.ins_other [OF assms TrueI i]
        maglev_table.get_None_iff [OF assms(1)] maglev_table.get_None_iff [OF inv]
      by auto
  next
    case False
    then show ?thesis using i inv c assms maglev_table.get_absent [OF assms] by auto
  qed
qed

definition sample_table :: maglev_hashmap where
  "sample_table = \<lparr>mpairs = replicate 4 \<lparr>mkey = 0, mvalue = 0\<rparr>\<rparr>"

lemma maglev_inv_zeroed:
  assumes "pow2_u64 c"
  shows "maglev_inv crc c \<lparr>mpairs = replicate (unat c) \<lparr>mkey = 0, mvalue = 0\<rparr>\<rparr>"
    and "maglev_map \<lparr>mpairs = replicate (unat c) \<lparr>mkey = 0, mvalue = 0\<rparr>\<rparr> = Map.empty"
proof -
  let ?m = "\<lparr>mpairs = replicate (unat c) \<lparr>mkey = 0, mvalue = 0\<rparr>\<rparr>"
  have "mview ?m \<noteq> []" using pow2_pos [OF assms] by (simp add: mview_def)
  moreover have "\<And>p. p < length (mview ?m) \<Longrightarrow> fst (mview ?m ! p) = 0" by (simp add: mview_def)
  moreover have "\<And>k. mhome crc c k < length (mview ?m)" using assms by (simp add: mhome_less)
  ultimately show "maglev_inv crc c ?m" "maglev_map ?m = Map.empty"
    using assms wf_probe_empty [of "mview ?m" 0] by (auto simp: maglev_inv_def maglev_map_def)
qed

lemma maglev_inv_sample: "maglev_inv crc 4 sample_table"
proof -
  have "pow2_u64 4" unfolding pow2_u64_def by (rule exI [of _ 2]) simp
  from maglev_inv_zeroed(1) [OF this] show ?thesis by (simp add: sample_table_def)
qed

theorem maglev_insert_get_witness:
  "\<exists>rc hm'. maglev_hashmap_insert (\<lambda>s k. k) 4 sample_table 7 255 = Some (rc, hm') \<and>
    maglev_inv (\<lambda>s k. k) 4 hm'"
  using maglev_insert_get [OF maglev_inv_sample, of 7 "\<lambda>s k. k" 255] by auto

end
