(* ===== verification/Sash_Table.thy ===== *)
theory Sash_Table
  imports Fnv Probing Flow_Table
begin

text \<open>
  \<open>l2fwd/libsashstore/hashmap.c\<close> and \<open>hashmap.h\<close>: the table of the key-value store.  Keys and
  values are blocks of 64 bytes, the empty marker is the all-zero key, the home slot is the
  full 64-bit FNV-1 hash modulo the capacity.  The probe counter \<open>hash + i\<close> wraps at
  \<open>2 ^ 64\<close>, which a power-of-two capacity absorbs.  Both routines are refined to \<open>Probing\<close>, the
  contract of \<open>Flow_Table\<close> is discharged.
\<close>

section \<open>Data and operations\<close>

definition KEY_SIZE :: nat where "KEY_SIZE = 64"
definition VALUE_SIZE :: nat where "VALUE_SIZE = 64"

record sashstore_kv_pair =
  skey :: "u8 list"
  sval :: "u8 list"

record sashstore_hashmap =
  spairs :: "sashstore_kv_pair list"

definition empty_key :: "u8 list" where
  "empty_key = replicate KEY_SIZE 0"

text \<open>
  Both routines return a pointer to a pair: its index, or NULL (\<open>None\<close>).  \<open>memcmp\<close> of
  two \<open>KEY_SIZE\<close> blocks is equality of the lists, \<open>memcpy\<close> into a block replaces it.
\<close>

function sashstore_insert_loop ::
  "u64 \<Rightarrow> sashstore_hashmap \<Rightarrow> u8 list \<Rightarrow> u8 list \<Rightarrow> u64 \<Rightarrow> u64 \<Rightarrow>
     (nat option \<times> sashstore_hashmap) option" where
  "sashstore_insert_loop CAPACITY hm key val hash i =
     (if i < CAPACITY then
        let probe = hash + i; p = unat (probe mod CAPACITY) in
        case rd (spairs hm) p of
          None \<Rightarrow> None
        | Some pair \<Rightarrow>
            if skey pair = key \<or> skey pair = empty_key
            then Some (Some p, hm\<lparr>spairs := (spairs hm)[p := pair\<lparr>skey := key, sval := val\<rparr>]\<rparr>)
            else sashstore_insert_loop CAPACITY hm key val hash (i + 1)
      else Some (None, hm))"
  by pat_completeness auto
termination
  by (relation "measure (\<lambda>(c, m, k, v, h, i). unat c - unat i)") (auto intro: unat_inc_measure)

definition sashstore_hashmap_insert ::
  "u64 \<Rightarrow> sashstore_hashmap \<Rightarrow> u8 list \<Rightarrow> u8 list \<Rightarrow> (nat option \<times> sashstore_hashmap) option" where
  "sashstore_hashmap_insert CAPACITY hm key val =
     (let hash = fnv_1 key in sashstore_insert_loop CAPACITY hm key val hash 0)"

function sashstore_get_loop ::
  "u64 \<Rightarrow> sashstore_hashmap \<Rightarrow> u8 list \<Rightarrow> u64 \<Rightarrow> u64 \<Rightarrow> nat option option" where
  "sashstore_get_loop CAPACITY hm key hash i =
     (if i < CAPACITY then
        let probe = hash + i; p = unat (probe mod CAPACITY) in
        case rd (spairs hm) p of
          None \<Rightarrow> None
        | Some pair \<Rightarrow>
            if skey pair = empty_key then Some None
            else if skey pair = key then Some (Some p)
            else sashstore_get_loop CAPACITY hm key hash (i + 1)
      else Some None)"
  by pat_completeness auto
termination
  by (relation "measure (\<lambda>(c, m, k, h, i). unat c - unat i)") (auto intro: unat_inc_measure)

declare sashstore_insert_loop.simps [simp del] sashstore_get_loop.simps [simp del]

definition sashstore_hashmap_get :: "u64 \<Rightarrow> sashstore_hashmap \<Rightarrow> u8 list \<Rightarrow> nat option option" where
  "sashstore_hashmap_get CAPACITY hm key =
     (let hash = fnv_1 key in sashstore_get_loop CAPACITY hm key hash 0)"

section \<open>The table as a probing table\<close>

definition sview :: "sashstore_hashmap \<Rightarrow> (u8 list \<times> u8 list) list" where
  "sview hm = List.map (\<lambda>kv. (skey kv, sval kv)) (spairs hm)"

definition shome :: "u64 \<Rightarrow> u8 list \<Rightarrow> nat" where
  "shome CAPACITY k = unat (fnv_1 k mod CAPACITY)"

definition sash_inv :: "u64 \<Rightarrow> sashstore_hashmap \<Rightarrow> bool" where
  "sash_inv CAPACITY hm \<longleftrightarrow>
     pow2_u64 CAPACITY \<and> length (spairs hm) = unat CAPACITY \<and>
     (\<forall>kv \<in> set (spairs hm). length (skey kv) = KEY_SIZE \<and> length (sval kv) = VALUE_SIZE) \<and>
     wf_probe empty_key (shome CAPACITY) (sview hm)"

definition sash_map :: "sashstore_hashmap \<Rightarrow> u8 list \<rightharpoonup> u8 list" where
  "sash_map hm = tab_map empty_key (sview hm)"

definition sash_key :: "u8 list \<Rightarrow> bool" where
  "sash_key k \<longleftrightarrow> length k = KEY_SIZE \<and> k \<noteq> empty_key"

definition sash_val :: "u8 list \<Rightarrow> bool" where
  "sash_val v \<longleftrightarrow> length v = VALUE_SIZE"

definition sash_deref :: "sashstore_hashmap \<Rightarrow> nat \<Rightarrow> u8 list option" where
  "sash_deref hm p = map_option sval (rd (spairs hm) p)"

definition sstore :: "sashstore_hashmap \<Rightarrow> nat \<Rightarrow> u8 list \<Rightarrow> u8 list \<Rightarrow> sashstore_hashmap" where
  "sstore hm p key val = hm\<lparr>spairs := (spairs hm)[p := \<lparr>skey = key, sval = val\<rparr>]\<rparr>"

lemma length_sview [simp]: "length (sview hm) = length (spairs hm)"
  by (simp add: sview_def)

lemma nth_sview [simp]:
  "p < length (spairs hm) \<Longrightarrow> sview hm ! p = (skey (spairs hm ! p), sval (spairs hm ! p))"
  by (simp add: sview_def)

lemma sview_sstore [simp]: "sview (sstore hm p k v) = (sview hm)[p := (k, v)]"
  by (simp add: sview_def sstore_def map_update)

lemma sash_kv_update: "kv\<lparr>skey := k, sval := v\<rparr> = \<lparr>skey = k, sval = v\<rparr>"
  by (cases kv) simp

lemma mod_slot: "pow2_u64 c \<Longrightarrow> unat ((h + i) mod c) = (unat h + unat i) mod unat c"
  for h i c :: u64
  by (simp add: unat_mod pow2_simps)

lemma mod_slot_next:
  "pow2_u64 c \<Longrightarrow> i < c \<Longrightarrow> unat ((h + (i + 1)) mod c) = Suc (unat ((h + i) mod c)) mod unat c"
  for h i c :: u64
  by (simp add: mod_slot unat_inc mod_Suc_eq)

lemma sashstore_get_loop_probe:
  assumes "pow2_u64 c" and "length (spairs hm) = unat c" and "key \<noteq> empty_key" and "i \<le> c"
  shows "sashstore_get_loop c hm key hash i =
    Some (case probe empty_key (sview hm) key (unat ((hash + i) mod c)) (unat c - unat i) of
            Hit p \<Rightarrow> Some p | Free p \<Rightarrow> None | Exhausted \<Rightarrow> None)"
  using assms(4)
proof (induction "unat c - unat i" arbitrary: i)
  case 0
  then have "i = c" by (simp add: word_le_nat_alt word_unat_eq_iff)
  then show ?case by (simp add: sashstore_get_loop.simps)
next
  case (Suc m)
  let ?p = "unat ((hash + i) mod c)"
  have lt: "i < c" using Suc.hyps(2) by (simp add: word_less_nat_alt)
  have p: "?p < length (spairs hm)" using assms(1,2) by (simp add: mod_slot pow2_pos)
  have m: "m = unat c - unat (i + 1)" using Suc.hyps(2) unat_inc [OF lt] by simp
  have le: "i + 1 \<le> c" using lt by (simp add: inc_le)
  have "sashstore_get_loop c hm key hash i =
     (if skey (spairs hm ! ?p) = empty_key then Some None
      else if skey (spairs hm ! ?p) = key then Some (Some ?p)
      else sashstore_get_loop c hm key hash (i + 1))"
    using lt p by (subst sashstore_get_loop.simps) (simp add: Let_def)
  then show ?case
    using Suc.hyps(1) [OF m le] p assms(2,3) mod_slot_next [OF assms(1) lt]
    by (simp add: Suc.hyps(2) [symmetric] m)
qed

lemma sashstore_insert_loop_probe:
  assumes "pow2_u64 c" and "length (spairs hm) = unat c" and "i \<le> c"
  shows "sashstore_insert_loop c hm key val hash i =
    Some (case probe empty_key (sview hm) key (unat ((hash + i) mod c)) (unat c - unat i) of
            Hit p \<Rightarrow> (Some p, sstore hm p key val)
          | Free p \<Rightarrow> (Some p, sstore hm p key val)
          | Exhausted \<Rightarrow> (None, hm))"
  using assms(3)
proof (induction "unat c - unat i" arbitrary: i)
  case 0
  then have "i = c" by (simp add: word_le_nat_alt word_unat_eq_iff)
  then show ?case by (simp add: sashstore_insert_loop.simps)
next
  case (Suc m)
  let ?p = "unat ((hash + i) mod c)"
  have lt: "i < c" using Suc.hyps(2) by (simp add: word_less_nat_alt)
  have p: "?p < length (spairs hm)" using assms(1,2) by (simp add: mod_slot pow2_pos)
  have m: "m = unat c - unat (i + 1)" using Suc.hyps(2) unat_inc [OF lt] by simp
  have le: "i + 1 \<le> c" using lt by (simp add: inc_le)
  have "sashstore_insert_loop c hm key val hash i =
     (if skey (spairs hm ! ?p) = key \<or> skey (spairs hm ! ?p) = empty_key
      then Some (Some ?p, sstore hm ?p key val)
      else sashstore_insert_loop c hm key val hash (i + 1))"
    using lt p by (subst sashstore_insert_loop.simps) (simp add: Let_def sstore_def sash_kv_update)
  then show ?case
    using Suc.hyps(1) [OF m le] p assms(2) mod_slot_next [OF assms(1) lt]
    by (simp add: Suc.hyps(2) [symmetric] m)
qed

lemma sash_get_probe:
  assumes "sash_inv c hm" and "key \<noteq> empty_key"
  shows "sashstore_hashmap_get c hm key =
    Some (case probe empty_key (sview hm) key (shome c key) (length (sview hm)) of
            Hit p \<Rightarrow> Some p | Free p \<Rightarrow> None | Exhausted \<Rightarrow> None)"
  using assms sashstore_get_loop_probe [of c hm key 0 "fnv_1 key"]
  by (auto simp: sashstore_hashmap_get_def sash_inv_def shome_def Let_def)

lemma sash_insert_probe:
  assumes "sash_inv c hm"
  shows "sashstore_hashmap_insert c hm key val =
    Some (case probe empty_key (sview hm) key (shome c key) (length (sview hm)) of
            Hit p \<Rightarrow> (Some p, sstore hm p key val)
          | Free p \<Rightarrow> (Some p, sstore hm p key val)
          | Exhausted \<Rightarrow> (None, hm))"
  using assms sashstore_insert_loop_probe [of c hm 0 key val "fnv_1 key"]
  by (auto simp: sashstore_hashmap_insert_def sash_inv_def shome_def Let_def)

section \<open>Correctness\<close>

lemma sash_inv_sstore:
  assumes "sash_inv c hm" and "wf_probe empty_key (shome c) ((sview hm)[p := (k, v)])"
    and "sash_key k" and "sash_val v"
  shows "sash_inv c (sstore hm p k v)"
  using assms
  by (auto simp: sash_inv_def sstore_def sview_def map_update sash_key_def sash_val_def
      dest!: subsetD [OF set_update_subset_insert])

lemma sash_insert_cases:
  assumes "sash_inv CAPACITY hm" and "sash_key key" and "sash_val val"
  shows "\<exists>r hm'. sashstore_hashmap_insert CAPACITY hm key val = Some (r, hm') \<and>
    sash_inv CAPACITY hm' \<and>
    ((\<exists>p < length (spairs hm'). r = Some p \<and> spairs hm' ! p = \<lparr>skey = key, sval = val\<rparr>) \<and>
       sash_map hm' = (sash_map hm)(key \<mapsto> val) \<or>
     r = None \<and> hm' = hm \<and> sash_map hm key = None \<and> (\<forall>kv \<in> set (spairs hm). skey kv \<noteq> empty_key))"
proof -
  have wf: "wf_probe empty_key (shome CAPACITY) (sview hm)" and ne: "key \<noteq> empty_key"
    using assms(1,2) by (auto simp: sash_inv_def sash_key_def)
  from wf ne show ?thesis
  proof (cases rule: probe_home_cases)
    case (Hit p)
    then have "sash_inv CAPACITY (sstore hm p key val)"
      using assms wf_probe_update [OF wf Hit(2,3)] by (intro sash_inv_sstore)
    then show ?thesis
      using Hit tab_map_update [OF wf Hit(2,3) ne]
      by (simp add: sash_insert_probe [OF assms(1)] sash_map_def) (simp add: sstore_def)
  next
    case (Free p)
    have room: "room_at empty_key (shome CAPACITY) (sview hm) key p"
      using probe_Free_room [OF wf ne Free(1)] .
    then have "sash_inv CAPACITY (sstore hm p key val)"
      using assms wf_probe_store [OF wf room] by (intro sash_inv_sstore)
    then show ?thesis
      using Free tab_map_store [OF wf room]
      by (simp add: sash_insert_probe [OF assms(1)] sash_map_def) (simp add: sstore_def)
  next
    case Exhausted
    then have "\<forall>kv \<in> set (spairs hm). skey kv \<noteq> empty_key"
      by (auto simp: occupied_def in_set_conv_nth)
    then show ?thesis
      using Exhausted assms(1) by (simp add: sash_insert_probe [OF assms(1)] sash_map_def)
  qed
qed

lemma sash_get_cases:
  assumes "sash_inv CAPACITY hm" and "sash_key key"
  shows "sash_map hm key = None \<and> sashstore_hashmap_get CAPACITY hm key = Some None \<or>
    (\<exists>p < length (spairs hm). sashstore_hashmap_get CAPACITY hm key = Some (Some p) \<and>
      skey (spairs hm ! p) = key \<and> sash_map hm key = Some (sval (spairs hm ! p)))"
proof -
  have wf: "wf_probe empty_key (shome CAPACITY) (sview hm)" and ne: "key \<noteq> empty_key"
    using assms(1,2) by (auto simp: sash_inv_def sash_key_def)
  from wf ne show ?thesis
    by (cases rule: probe_home_cases) (auto simp: sash_get_probe [OF assms(1) ne] sash_map_def)
qed

text \<open>The key that marks empty slots: an insert overwrites a value no lookup ever returns.\<close>

lemma sash_insert_empty_key:
  assumes "sash_inv CAPACITY hm" and "sash_val val"
  shows "\<exists>r hm'. sashstore_hashmap_insert CAPACITY hm empty_key val = Some (r, hm') \<and>
    sash_inv CAPACITY hm' \<and> sash_map hm' = sash_map hm \<and> (r = None \<longrightarrow> hm' = hm)"
proof -
  let ?pr = "probe empty_key (sview hm) empty_key (shome CAPACITY empty_key) (length (sview hm))"
  have wf: "wf_probe empty_key (shome CAPACITY) (sview hm)" using assms(1) by (simp add: sash_inv_def)
  have "sash_inv CAPACITY (sstore hm p empty_key val) \<and> sash_map (sstore hm p empty_key val) = sash_map hm"
    if "?pr = Hit p \<or> ?pr = Free p" for p
  proof -
    have p: "p < length (sview hm)" "fst (sview hm ! p) = empty_key"
      using probe_home_outcome [OF wf, where k = empty_key and m = "length (sview hm)"] that
        mod_less_length [OF wf] by (auto split: probe_result.splits)
    have "sash_inv CAPACITY (sstore hm p empty_key val)"
      using assms wf_probe_update [OF wf p]
      by (auto simp: sash_inv_def sstore_def sview_def map_update sash_val_def empty_key_def
          dest!: subsetD [OF set_update_subset_insert])
    then show ?thesis using tab_map_empty_key [OF wf p] by (simp add: sash_map_def)
  qed
  then show ?thesis
    using assms(1) by (auto simp: sash_insert_probe [OF assms(1)] split: probe_result.splits)
qed

lemma sash_get_loop_empty_key:
  assumes "pow2_u64 c" and "length (spairs hm) = unat c"
  shows "sashstore_get_loop c hm empty_key hash i = Some None"
proof (induction "unat c - unat i" arbitrary: i rule: less_induct)
  case less
  show ?case
  proof (cases "i < c")
    case True
    then have "unat ((hash + i) mod c) < length (spairs hm)" using assms by (simp add: mod_slot pow2_pos)
    then show ?thesis
      using less [OF unat_inc_measure [OF True]] by (subst sashstore_get_loop.simps) (simp add: Let_def)
  qed (simp add: sashstore_get_loop.simps)
qed

lemma sash_get_empty_key:
  "sash_inv CAPACITY hm \<Longrightarrow> sashstore_hashmap_get CAPACITY hm empty_key = Some None"
  by (simp add: sashstore_hashmap_get_def sash_inv_def sash_get_loop_empty_key Let_def)

interpretation sash_store: table_store "sash_inv CAPACITY" sash_map sash_key sash_val
    "sashstore_hashmap_insert CAPACITY" "\<lambda>r. r \<noteq> None" "sashstore_hashmap_get CAPACITY" sash_deref
  for CAPACITY
proof unfold_locales
  fix t k v r t'
  assume a: "sash_inv CAPACITY t" "sash_key k" "sash_val v"
  show "\<exists>r t'. sashstore_hashmap_insert CAPACITY t k v = Some (r, t')"
    using sash_insert_cases [OF a] by blast
  assume i: "sashstore_hashmap_insert CAPACITY t k v = Some (r, t')"
  show "sash_inv CAPACITY t'" using sash_insert_cases [OF a] i by auto
  show "r \<noteq> None \<Longrightarrow> sash_map t' = (sash_map t)(k \<mapsto> v)" using sash_insert_cases [OF a] i by auto
  show "\<not> r \<noteq> None \<Longrightarrow> t' = t \<and> sash_map t k = None" using sash_insert_cases [OF a] i by auto
next
  fix t k v
  assume a: "sash_inv CAPACITY t" "sash_key k"
  show "sash_map t k = None \<Longrightarrow> sashstore_hashmap_get CAPACITY t k = Some None"
    using sash_get_cases [OF a] by auto
  show "sash_map t k = Some v \<Longrightarrow>
      \<exists>p. sashstore_hashmap_get CAPACITY t k = Some (Some p) \<and> sash_deref t p = Some v"
    using sash_get_cases [OF a] by (auto simp: sash_deref_def)
qed

lemma sash_inv_zeroed:
  assumes "pow2_u64 c"
  shows "sash_inv c \<lparr>spairs = replicate (unat c) \<lparr>skey = empty_key, sval = replicate VALUE_SIZE 0\<rparr>\<rparr>"
    and "sash_map \<lparr>spairs = replicate (unat c) \<lparr>skey = empty_key, sval = replicate VALUE_SIZE 0\<rparr>\<rparr>
      = Map.empty"
proof -
  let ?m = "\<lparr>spairs = replicate (unat c) \<lparr>skey = empty_key, sval = replicate VALUE_SIZE 0\<rparr>\<rparr>"
  have "sview ?m \<noteq> []" using pow2_pos [OF assms] by (simp add: sview_def)
  moreover have "\<And>p. p < length (sview ?m) \<Longrightarrow> fst (sview ?m ! p) = empty_key"
    by (simp add: sview_def)
  moreover have "\<And>k. shome c k < length (sview ?m)"
    using pow2_pos [OF assms] by (simp add: shome_def unat_mod)
  ultimately show "sash_inv c ?m" "sash_map ?m = Map.empty"
    using assms wf_probe_empty [of "sview ?m" empty_key]
    by (auto simp: sash_inv_def sash_map_def empty_key_def)
qed

text \<open>
  An all-zero table accepts pairs with distinct non-zero keys one after the other without
  ever leaving the array, and afterwards a lookup of every pair whose insert returned a pointer
  finds its value.
\<close>

lemma sashstore_inserts_then_gets:
  assumes "pow2_u64 CAPACITY"
    and "\<forall>(k, v) \<in> set kvs. sash_key k \<and> sash_val v" and "distinct (List.map fst kvs)"
  shows "\<exists>rs hm. insert_all (sashstore_hashmap_insert CAPACITY)
      \<lparr>spairs = replicate (unat CAPACITY) \<lparr>skey = empty_key, sval = replicate VALUE_SIZE 0\<rparr>\<rparr> kvs
      = Some (rs, hm) \<and> length rs = length kvs \<and>
    (\<forall>i < length kvs. rs ! i \<noteq> None \<longrightarrow>
      (\<exists>p. sashstore_hashmap_get CAPACITY hm (fst (kvs ! i)) = Some (Some p) \<and>
         sash_deref hm p = Some (snd (kvs ! i))))"
proof -
  note inv = sash_inv_zeroed(1) [OF assms(1)]
  obtain rs hm where r: "insert_all (sashstore_hashmap_insert CAPACITY)
      \<lparr>spairs = replicate (unat CAPACITY) \<lparr>skey = empty_key, sval = replicate VALUE_SIZE 0\<rparr>\<rparr> kvs
      = Some (rs, hm)" "sash_inv CAPACITY hm" "length rs = length kvs"
    using sash_store.insert_all_returns [OF inv assms(2)] by blast
  have "\<exists>p. sashstore_hashmap_get CAPACITY hm (fst (kvs ! i)) = Some (Some p) \<and>
      sash_deref hm p = Some (snd (kvs ! i))" if "i < length kvs" "rs ! i \<noteq> None" for i
  proof -
    have "sash_map hm (fst (kvs ! i)) = Some (snd (kvs ! i))"
      using sash_store.insert_all_stored [OF inv assms(2) r(1) assms(3) that] .
    moreover have "sash_key (fst (kvs ! i))" using assms(2) that(1) by (auto simp: case_prod_beta)
    ultimately show ?thesis using sash_store.get_present [OF r(2)] by blast
  qed
  then show ?thesis using r by blast
qed

lemma sashstore_inserts_then_gets_witness:
  "\<exists>rs hm. insert_all (sashstore_hashmap_insert 4)
      \<lparr>spairs = replicate (unat (4::u64)) \<lparr>skey = empty_key, sval = replicate VALUE_SIZE 0\<rparr>\<rparr>
      [(replicate 64 1, replicate 64 2)] = Some (rs, hm) \<and> length rs = 1"
proof -
  have "pow2_u64 4" unfolding pow2_u64_def by (rule exI [of _ 2]) simp
  moreover have "replicate 64 (1::u8) \<noteq> replicate 64 0" by (simp add: replicate_eq_replicate)
  ultimately show ?thesis
    using sashstore_inserts_then_gets [of 4 "[(replicate 64 1, replicate 64 2)]"]
    by (auto simp: sash_key_def sash_val_def empty_key_def KEY_SIZE_def VALUE_SIZE_def)
qed

end
