(* ===== verification/Sashstore.thy ===== *)
theory Sashstore
  imports Packettool Sash_Table
begin

text \<open>
  \<open>l2fwd/libsashstore/sashstore.c\<close>: the key-value store's request handler.  Requests are parsed
  and answered in place, so the frame is a byte list that the handler returns updated, and a
  packed struct is the list of its field offsets, counted from the UDP payload.  The file-level
  table and counters are a record.

  The key of a GET response is copied from a request field that overlaps it, with \<open>memcpy\<close>: what
  the destination then holds is not defined by C and is the parameter \<open>overlap\<close>.
\<close>

section \<open>Layouts\<close>

definition sizeof_header :: nat where "sizeof_header = 4 + 2 + 2 + 2"

text \<open>\<open>request_hdr\<close>: the mode string follows the header; \<open>&hdr[1]\<close> is where the request proper starts.\<close>

definition off_mode_str :: nat where "off_mode_str = sizeof_header"
definition sizeof_request_hdr :: nat where "sizeof_request_hdr = sizeof_header + 4"

definition off_set_key :: nat where "off_set_key = sizeof_request_hdr"
definition off_set_value :: nat where "off_set_value = off_set_key + KEY_SIZE + 1 + 4 + 4 + 2"
definition off_get_key :: nat where "off_get_key = sizeof_request_hdr"

text \<open>Strings without their terminating NUL, except the two that are copied with it.\<close>

definition SET_MODE :: "u8 list" where "SET_MODE = [115, 101, 116, 32]"
definition GET_MODE :: "u8 list" where "GET_MODE = [103, 101, 116, 32]"
definition STORED :: "u8 list" where "STORED = [83, 84, 79, 82, 69, 68]"
definition VALUE :: "u8 list" where "VALUE = [86, 65, 76, 85, 69]"
definition END :: "u8 list" where "END = [69, 78, 68]"
definition NOT_STORED :: "u8 list" where "NOT_STORED = [78, 79, 84, 95, 83, 84, 79, 82, 69, 68, 0]"
definition NOT_FOUND :: "u8 list" where "NOT_FOUND = [78, 79, 84, 95, 70, 79, 85, 78, 68, 0]"

definition off_set_response_value :: nat where "off_set_response_value = sizeof_header"
definition sizeof_set_response :: nat where "sizeof_set_response = sizeof_header + length STORED + 2"

definition off_value_str :: nat where "off_value_str = sizeof_header"
definition off_response_key :: nat where "off_response_key = off_value_str + length VALUE + 1"
definition off_response_value :: nat where "off_response_value = off_response_key + KEY_SIZE + 1 + 4 + 4 + 2"
definition off_end_str :: nat where "off_end_str = off_response_value + VALUE_SIZE + 2"
definition sizeof_get_response :: nat where "sizeof_get_response = off_end_str + length END + 2"

lemmas layouts = sizeof_header_def off_mode_str_def sizeof_request_hdr_def off_set_key_def
  off_set_value_def off_get_key_def off_set_response_value_def sizeof_set_response_def off_value_str_def
  off_response_key_def off_response_value_def off_end_str_def sizeof_get_response_def

lemmas literals = SET_MODE_def GET_MODE_def STORED_def VALUE_def END_def NOT_STORED_def NOT_FOUND_def

section \<open>State and operations\<close>

record sash_state =
  kvstore :: sashstore_hashmap
  total_set :: u64
  total_get :: u64
  total_stored :: u64
  total_not_stored :: u64
  total_retrieved :: u64
  total_not_found :: u64

definition memcpy_within ::
  "(u8 list \<Rightarrow> nat \<Rightarrow> nat \<Rightarrow> nat \<Rightarrow> u8 list) \<Rightarrow> u8 list \<Rightarrow> nat \<Rightarrow> nat \<Rightarrow> nat \<Rightarrow> u8 list option" where
  "memcpy_within overlap m dst src n = do {
     s \<leftarrow> rd_bytes m src n;
     wr_bytes m dst (if dst + n \<le> src \<or> src + n \<le> dst then s else overlap m dst src n)
   }"

text \<open>
  The handler: the value of \<open>ret\<close>, the frame and the state after it.  The value of a SET is
  fetched before the insert here, and by the insert in the code.  The last branch prints the
  mode string up to its NUL.
\<close>

definition handle_network_request ::
  "(u8 list \<Rightarrow> nat \<Rightarrow> nat \<Rightarrow> nat \<Rightarrow> u8 list) \<Rightarrow> u64 \<Rightarrow> sash_state \<Rightarrow> u8 list \<Rightarrow> nat \<Rightarrow>
     (int \<times> u8 list \<times> sash_state) option" where
  "handle_network_request overlap CAPACITY st frame payload = do {
     mode_str \<leftarrow> rd_bytes frame (payload + off_mode_str) 4;
     if mode_str = SET_MODE then do {
       key \<leftarrow> rd_bytes frame (payload + off_set_key) KEY_SIZE;
       val \<leftarrow> rd_bytes frame (payload + off_set_value) VALUE_SIZE;
       (pair, hm) \<leftarrow> sashstore_hashmap_insert CAPACITY (kvstore st) key val;
       let st = st\<lparr>kvstore := hm\<rparr>;
       case pair of
         Some p \<Rightarrow> do {
           frame' \<leftarrow> wr_bytes frame (payload + off_set_response_value) STORED;
           Some (int sizeof_set_response, frame',
                 st\<lparr>total_stored := total_stored st + 1, total_set := total_set st + 1\<rparr>)
         }
       | None \<Rightarrow> do {
           frame' \<leftarrow> wr_bytes frame payload NOT_STORED;
           Some (int (length NOT_STORED - 1), frame',
                 st\<lparr>total_not_stored := total_not_stored st + 1, total_set := total_set st + 1\<rparr>)
         }
     }
     else if mode_str = GET_MODE then do {
       key \<leftarrow> rd_bytes frame (payload + off_get_key) KEY_SIZE;
       pair \<leftarrow> sashstore_hashmap_get CAPACITY (kvstore st) key;
       case pair of
         Some p \<Rightarrow> do {
           frame1 \<leftarrow> wr_bytes frame (payload + off_value_str) VALUE;
           frame2 \<leftarrow> memcpy_within overlap frame1 (payload + off_response_key) (payload + off_get_key) KEY_SIZE;
           val \<leftarrow> sash_deref (kvstore st) p;
           frame3 \<leftarrow> wr_bytes frame2 (payload + off_response_value) val;
           frame4 \<leftarrow> wr_bytes frame3 (payload + off_end_str) END;
           Some (int sizeof_get_response, frame4,
                 st\<lparr>total_retrieved := total_retrieved st + 1, total_get := total_get st + 1\<rparr>)
         }
       | None \<Rightarrow> do {
           frame' \<leftarrow> wr_bytes frame payload NOT_FOUND;
           Some (int (length NOT_FOUND - 1), frame',
                 st\<lparr>total_not_found := total_not_found st + 1, total_get := total_get st + 1\<rparr>)
         }
     }
     else if 0 \<in> set (drop (payload + off_mode_str) frame) then Some (-1, frame, st)
     else None
   }"

text \<open>The frame's length is passed in and ignored.\<close>

definition sashstore_process_frame ::
  "(u8 list \<Rightarrow> nat \<Rightarrow> nat \<Rightarrow> nat \<Rightarrow> u8 list) \<Rightarrow> u64 \<Rightarrow> sash_state \<Rightarrow> u8 list \<Rightarrow> u64 \<Rightarrow>
     (int \<times> u8 list \<times> sash_state) option" where
  "sashstore_process_frame overlap CAPACITY st frame len = do {
     payload \<leftarrow> get_udp_payload frame;
     case payload of
       Some p \<Rightarrow> handle_network_request overlap CAPACITY st frame p
     | None \<Rightarrow> Some (-1, frame, st)
   }"

text \<open>The slots come from \<open>aligned_alloc\<close> as they are; the counters are not touched.\<close>

definition sashstore_init ::
  "(u64 \<Rightarrow> sashstore_kv_pair list option) \<Rightarrow> u64 \<Rightarrow> sash_state \<Rightarrow> sash_state outcome" where
  "sashstore_init alloc CAPACITY st =
     (let size = CAPACITY * 128 in
      case alloc size of
        None \<Rightarrow> Exit 1
      | Some ps \<Rightarrow> Return (st\<lparr>kvstore := \<lparr>spairs = ps\<rparr>\<rparr>))"

section \<open>The branches\<close>

definition store_full :: "sashstore_hashmap \<Rightarrow> bool" where
  "store_full hm \<longleftrightarrow> (\<forall>kv \<in> set (spairs hm). skey kv \<noteq> empty_key)"

definition sash_ok :: "u64 \<Rightarrow> sash_state \<Rightarrow> bool" where
  "sash_ok CAPACITY st \<longleftrightarrow> sash_inv CAPACITY (kvstore st)"

text \<open>What \<open>memcpy\<close> is documented to do in any case: it writes \<open>n\<close> bytes.\<close>

definition memcpy_length :: "(u8 list \<Rightarrow> nat \<Rightarrow> nat \<Rightarrow> nat \<Rightarrow> u8 list) \<Rightarrow> bool" where
  "memcpy_length overlap \<longleftrightarrow> (\<forall>m dst src n. length (overlap m dst src n) = n)"

definition bytes_at :: "u8 list \<Rightarrow> nat \<Rightarrow> nat \<Rightarrow> u8 list" where
  "bytes_at m off n = take n (drop off m)"

lemma bytes_at_rd: "off + n \<le> length m \<Longrightarrow> rd_bytes m off n = Some (bytes_at m off n)"
  by (simp add: bytes_at_def)

lemma length_bytes_at: "off + n \<le> length m \<Longrightarrow> length (bytes_at m off n) = n"
  by (simp add: bytes_at_def)

lemma bytes_at_wr_same:
  assumes "wr_bytes m off bs = Some m'"
  shows "bytes_at m' off (length bs) = bs"
  using assms by (auto simp: bytes_at_def wr_bytes_def min_def split: if_splits)

lemma bytes_at_wr_other:
  assumes "wr_bytes m off bs = Some m'" and "o' + n \<le> off \<or> off + length bs \<le> o'" and "o' + n \<le> length m"
  shows "bytes_at m' o' n = bytes_at m o' n"
proof (rule nth_equalityI)
  have l: "length m' = length m" by (rule length_wr_bytes [OF assms(1)])
  then show "length (bytes_at m' o' n) = length (bytes_at m o' n)" by (simp add: bytes_at_def)
  fix i assume "i < length (bytes_at m' o' n)"
  then have i: "i < n" by (simp add: bytes_at_def)
  then show "bytes_at m' o' n ! i = bytes_at m o' n ! i"
    using nth_wr_bytes [OF assms(1), of "o' + i"] assms(2,3) l by (auto simp: bytes_at_def)
qed

text \<open>Insert and lookup for any 64-byte key, the all-zero one included.\<close>

lemma set_any_key:
  assumes "sash_ok CAPACITY st" and "length key = KEY_SIZE" and "length val = VALUE_SIZE"
  shows "\<exists>r hm. sashstore_hashmap_insert CAPACITY (kvstore st) key val = Some (r, hm) \<and> sash_inv CAPACITY hm \<and>
    (if r = None then hm = kvstore st \<and> (key \<noteq> empty_key \<longrightarrow> store_full hm)
     else sash_map hm = (if key = empty_key then sash_map (kvstore st) else (sash_map (kvstore st))(key \<mapsto> val)))"
proof (cases "key = empty_key")
  case True
  have "sash_inv CAPACITY (kvstore st)" "sash_val val" using assms by (auto simp: sash_ok_def sash_val_def)
  from sash_insert_empty_key [OF this] show ?thesis using True by (metis (full_types))
next
  case False
  then have "sash_key key" "sash_val val" using assms(2,3) by (auto simp: sash_key_def sash_val_def)
  then show ?thesis
    using sash_insert_cases [of CAPACITY "kvstore st" key val] assms(1) False
    by (auto simp: sash_ok_def store_full_def)
qed

lemma get_any_key:
  assumes "sash_ok CAPACITY st" and "length key = KEY_SIZE"
  shows "\<exists>r. sashstore_hashmap_get CAPACITY (kvstore st) key = Some r \<and>
    (case r of
       None \<Rightarrow> sash_map (kvstore st) key = None
     | Some p \<Rightarrow> \<exists>v. sash_deref (kvstore st) p = Some v \<and> sash_map (kvstore st) key = Some v \<and>
         length v = VALUE_SIZE)"
proof (cases "key = empty_key")
  case True
  then show ?thesis
    using sash_get_empty_key [of CAPACITY "kvstore st"] assms by (auto simp: sash_ok_def sash_map_def)
next
  case False
  then have "sash_key key" using assms(2) by (auto simp: sash_key_def)
  moreover have "\<forall>kv \<in> set (spairs (kvstore st)). length (sval kv) = VALUE_SIZE"
    using assms(1) by (auto simp: sash_ok_def sash_inv_def)
  ultimately show ?thesis
    using sash_get_cases [of CAPACITY "kvstore st" key] assms(1)
    by (auto simp: sash_ok_def sash_deref_def)
qed

lemma set_request_cases:
  assumes ok: "sash_ok CAPACITY st" and room: "payload + 162 \<le> length frame"
    and mode: "bytes_at frame (payload + 10) 4 = SET_MODE"
  defines "key \<equiv> bytes_at frame (payload + 14) 64" and "val \<equiv> bytes_at frame (payload + 89) 64"
  shows "\<exists>hm frame'.
    sash_inv CAPACITY hm \<and> length frame' = length frame \<and>
    (sash_map hm = (if key = empty_key then sash_map (kvstore st) else (sash_map (kvstore st))(key \<mapsto> val)) \<and>
     wr_bytes frame (payload + 10) STORED = Some frame' \<and>
     handle_network_request overlap CAPACITY st frame payload = Some (18, frame',
       st\<lparr>kvstore := hm, total_stored := total_stored st + 1, total_set := total_set st + 1\<rparr>) \<or>
     hm = kvstore st \<and> (key \<noteq> empty_key \<longrightarrow> store_full hm) \<and>
     wr_bytes frame payload NOT_STORED = Some frame' \<and>
     handle_network_request overlap CAPACITY st frame payload = Some (10, frame',
       st\<lparr>total_not_stored := total_not_stored st + 1, total_set := total_set st + 1\<rparr>))"
proof -
  have len: "length key = KEY_SIZE" "length val = VALUE_SIZE"
    using room by (simp_all add: key_def val_def length_bytes_at KEY_SIZE_def VALUE_SIZE_def)
  obtain r hm where r: "sashstore_hashmap_insert CAPACITY (kvstore st) key val = Some (r, hm)" "sash_inv CAPACITY hm"
    "if r = None then hm = kvstore st \<and> (key \<noteq> empty_key \<longrightarrow> store_full hm)
     else sash_map hm = (if key = empty_key then sash_map (kvstore st) else (sash_map (kvstore st))(key \<mapsto> val))"
    using set_any_key [OF ok len] by blast
  have rd: "rd_bytes frame (payload + 10) 4 = Some SET_MODE" "rd_bytes frame (payload + 14) 64 = Some key"
    "rd_bytes frame (payload + 89) 64 = Some val"
    using room mode by (simp_all add: key_def val_def bytes_at_def)
  obtain f1 where f1: "wr_bytes frame (payload + 10) STORED = Some f1"
    using room by (simp add: STORED_def)
  obtain f2 where f2: "wr_bytes frame payload NOT_STORED = Some f2"
    using room by (simp add: NOT_STORED_def)
  have offs: "off_mode_str = 10" "off_set_key = 14" "off_set_value = 89" "off_set_response_value = 10"
    "sizeof_set_response = 18" "length NOT_STORED = 11"
    by (simp_all add: layouts KEY_SIZE_def STORED_def NOT_STORED_def)
  show ?thesis
  proof (cases r)
    case None
    then have e: "hm = kvstore st" "key \<noteq> empty_key \<longrightarrow> store_full hm" using r(3) by auto
    then have "handle_network_request overlap CAPACITY st frame payload = Some (10, f2,
       st\<lparr>total_not_stored := total_not_stored st + 1, total_set := total_set st + 1\<rparr>)"
      using rd r(1) f2 None e(1)
      by (simp add: handle_network_request_def offs KEY_SIZE_def VALUE_SIZE_def)
    then show ?thesis using f2 r(2) e length_wr_bytes [OF f2] by blast
  next
    case (Some p)
    then have "handle_network_request overlap CAPACITY st frame payload = Some (18, f1,
       st\<lparr>kvstore := hm, total_stored := total_stored st + 1, total_set := total_set st + 1\<rparr>)"
      using rd r(1) f1
      by (simp add: handle_network_request_def offs KEY_SIZE_def VALUE_SIZE_def)
    moreover have "sash_map hm = (if key = empty_key then sash_map (kvstore st) else (sash_map (kvstore st))(key \<mapsto> val))"
      using r(3) Some by simp
    ultimately show ?thesis using f1 r(2) length_wr_bytes [OF f1] by blast
  qed
qed

lemma get_request_cases:
  assumes ok: "sash_ok CAPACITY st" and room: "payload + 162 \<le> length frame"
    and mode: "bytes_at frame (payload + 10) 4 = GET_MODE" and ol: "memcpy_length overlap"
  defines "key \<equiv> bytes_at frame (payload + 14) 64"
  shows "(\<exists>v frame1 frame2 frame3 frame4. sash_map (kvstore st) key = Some v \<and> length v = 64 \<and>
     wr_bytes frame (payload + 10) VALUE = Some frame1 \<and>
     wr_bytes frame1 (payload + 16) (overlap frame1 (payload + 16) (payload + 14) 64) = Some frame2 \<and>
     wr_bytes frame2 (payload + 91) v = Some frame3 \<and> wr_bytes frame3 (payload + 157) END = Some frame4 \<and>
     handle_network_request overlap CAPACITY st frame payload = Some (162, frame4,
       st\<lparr>total_retrieved := total_retrieved st + 1, total_get := total_get st + 1\<rparr>)) \<or>
    (\<exists>frame'. sash_map (kvstore st) key = None \<and> wr_bytes frame payload NOT_FOUND = Some frame' \<and>
     handle_network_request overlap CAPACITY st frame payload = Some (9, frame',
       st\<lparr>total_not_found := total_not_found st + 1, total_get := total_get st + 1\<rparr>))"
proof -
  have len: "length key = KEY_SIZE" using room by (simp add: key_def length_bytes_at KEY_SIZE_def)
  obtain r where r: "sashstore_hashmap_get CAPACITY (kvstore st) key = Some r"
    "case r of
       None \<Rightarrow> sash_map (kvstore st) key = None
     | Some p \<Rightarrow> \<exists>v. sash_deref (kvstore st) p = Some v \<and> sash_map (kvstore st) key = Some v \<and> length v = VALUE_SIZE"
    using get_any_key [OF ok len] by blast
  have rd: "rd_bytes frame (payload + 10) 4 = Some GET_MODE" "rd_bytes frame (payload + 14) 64 = Some key"
    using room mode by (simp_all add: key_def bytes_at_def)
  have modes: "GET_MODE \<noteq> SET_MODE" by (simp add: literals)
  have offs: "off_mode_str = 10" "off_get_key = 14" "off_value_str = 10" "off_response_key = 16"
    "off_response_value = 91" "off_end_str = 157" "sizeof_get_response = 162" "length NOT_FOUND = 10"
    by (simp_all add: layouts KEY_SIZE_def VALUE_SIZE_def VALUE_def END_def NOT_FOUND_def)
  show ?thesis
  proof (cases r)
    case None
    obtain f where f: "wr_bytes frame payload NOT_FOUND = Some f" using room by (simp add: NOT_FOUND_def)
    have "handle_network_request overlap CAPACITY st frame payload = Some (9, f,
       st\<lparr>total_not_found := total_not_found st + 1, total_get := total_get st + 1\<rparr>)"
      using rd r(1) None modes f by (simp add: handle_network_request_def offs KEY_SIZE_def)
    then show ?thesis using f r(2) None by simp
  next
    case (Some p)
    then obtain v where v: "sash_deref (kvstore st) p = Some v" "sash_map (kvstore st) key = Some v" "length v = 64"
      using r(2) by (auto simp: VALUE_SIZE_def)
    obtain f1 where f1: "wr_bytes frame (payload + 10) VALUE = Some f1"
      using room by (simp add: VALUE_def)
    note l1 = length_wr_bytes [OF f1]
    let ?o = "overlap f1 (payload + 16) (payload + 14) 64"
    have o: "length ?o = 64" using ol by (simp add: memcpy_length_def)
    then obtain f2 where f2: "wr_bytes f1 (payload + 16) ?o = Some f2" using room l1 by simp
    note l2 = length_wr_bytes [OF f2]
    obtain f3 where f3: "wr_bytes f2 (payload + 91) v = Some f3" using room l1 l2 v(3) by simp
    note l3 = length_wr_bytes [OF f3]
    obtain f4 where f4: "wr_bytes f3 (payload + 157) END = Some f4"
      using room l1 l2 l3 by (simp add: END_def)
    have "memcpy_within overlap f1 (payload + 16) (payload + 14) 64 = Some f2"
      using f2 l1 room by (simp add: memcpy_within_def)
    then have "handle_network_request overlap CAPACITY st frame payload = Some (162, f4,
       st\<lparr>total_retrieved := total_retrieved st + 1, total_get := total_get st + 1\<rparr>)"
      using rd r(1) Some modes f1 f3 f4 v(1)
      by (simp add: handle_network_request_def offs KEY_SIZE_def)
    then show ?thesis using v f1 f2 f3 f4 by blast
  qed
qed

lemma other_request_cases:
  assumes "payload + 162 \<le> length frame"
    and "bytes_at frame (payload + 10) 4 \<notin> {SET_MODE, GET_MODE}"
  shows "handle_network_request overlap CAPACITY st frame payload =
    (if 0 \<in> set (drop (payload + 10) frame) then Some (-1, frame, st) else None)"
  using assms by (simp add: handle_network_request_def layouts bytes_at_def)

section \<open>Correctness\<close>

text \<open>A write of at most \<open>n\<close> bytes at an offset changes nothing outside.\<close>

lemma wr_bytes_outside:
  assumes "wr_bytes m off bs = Some m'" and "lo \<le> off" and "off + length bs \<le> hi"
    and "i < length m" and "i < lo \<or> hi \<le> i"
  shows "m' ! i = m ! i"
  using nth_wr_bytes [OF assms(1,4)] assms by auto

lemma request_total:
  assumes ok: "sash_ok CAPACITY st" and room: "payload + 162 \<le> length frame" and ol: "memcpy_length overlap"
    and mode: "bytes_at frame (payload + 10) 4 \<in> {SET_MODE, GET_MODE}"
  shows "\<exists>ret frame' st'. handle_network_request overlap CAPACITY st frame payload = Some (ret, frame', st') \<and>
    sash_ok CAPACITY st' \<and> length frame' = length frame \<and>
    ret \<in> (if bytes_at frame (payload + 10) 4 = SET_MODE then {18, 10} else {162, 9}) \<and>
    (\<forall>i<length frame. i < payload \<or> payload + 162 \<le> i \<longrightarrow> frame' ! i = frame ! i)"
proof -
  have ne: "GET_MODE \<noteq> SET_MODE" by (simp add: literals)
  consider (set) "bytes_at frame (payload + 10) 4 = SET_MODE" | (get) "bytes_at frame (payload + 10) 4 = GET_MODE"
    using mode by blast
  then show ?thesis
  proof cases
    case set
    obtain hm frame' where inv: "sash_inv CAPACITY hm" "length frame' = length frame" and
      c: "wr_bytes frame (payload + 10) STORED = Some frame' \<and>
        handle_network_request overlap CAPACITY st frame payload = Some (18, frame',
          st\<lparr>kvstore := hm, total_stored := total_stored st + 1, total_set := total_set st + 1\<rparr>) \<or>
       wr_bytes frame payload NOT_STORED = Some frame' \<and>
        handle_network_request overlap CAPACITY st frame payload = Some (10, frame',
          st\<lparr>total_not_stored := total_not_stored st + 1, total_set := total_set st + 1\<rparr>)"
      using set_request_cases [OF ok room set] by blast
    have "\<forall>i<length frame. i < payload \<or> payload + 162 \<le> i \<longrightarrow> frame' ! i = frame ! i"
      using c wr_bytes_outside [of frame "payload + 10" STORED frame' payload "payload + 162"]
        wr_bytes_outside [of frame payload NOT_STORED frame' payload "payload + 162"]
      by (auto simp: STORED_def NOT_STORED_def)
    then show ?thesis using c inv ok set by (elim disjE conjE) (auto simp: sash_ok_def)
  next
    case get
    from get_request_cases [OF ok room get ol] show ?thesis
    proof (elim disjE exE conjE)
      fix v frame1 frame2 frame3 frame4
      assume w: "length v = 64" "wr_bytes frame (payload + 10) VALUE = Some frame1"
        "wr_bytes frame1 (payload + 16) (overlap frame1 (payload + 16) (payload + 14) 64) = Some frame2"
        "wr_bytes frame2 (payload + 91) v = Some frame3" "wr_bytes frame3 (payload + 157) END = Some frame4"
        and h: "handle_network_request overlap CAPACITY st frame payload = Some (162, frame4,
          st\<lparr>total_retrieved := total_retrieved st + 1, total_get := total_get st + 1\<rparr>)"
      note l = length_wr_bytes [OF w(2)] length_wr_bytes [OF w(3)] length_wr_bytes [OF w(4)] length_wr_bytes [OF w(5)]
      have o: "length (overlap frame1 (payload + 16) (payload + 14) 64) = 64" using ol by (simp add: memcpy_length_def)
      have "frame4 ! i = frame ! i" if i: "i < length frame" "i < payload \<or> payload + 162 \<le> i" for i
        using i l o w(1) wr_bytes_outside [OF w(2), of payload "payload + 162" i]
          wr_bytes_outside [OF w(3), of payload "payload + 162" i]
          wr_bytes_outside [OF w(4), of payload "payload + 162" i]
          wr_bytes_outside [OF w(5), of payload "payload + 162" i]
        by (simp add: VALUE_def END_def)
      then show ?thesis using h l ok get ne by (auto simp: sash_ok_def)
    next
      fix frame'
      assume w: "wr_bytes frame payload NOT_FOUND = Some frame'"
        and h: "handle_network_request overlap CAPACITY st frame payload = Some (9, frame',
          st\<lparr>total_not_found := total_not_found st + 1, total_get := total_get st + 1\<rparr>)"
      have "frame' ! i = frame ! i" if "i < length frame" "i < payload \<or> payload + 162 \<le> i" for i
        using wr_bytes_outside [OF w, of payload "payload + 162" i] that by (simp add: NOT_FOUND_def)
      then show ?thesis using h length_wr_bytes [OF w] ok get ne by (auto simp: sash_ok_def)
    qed
  qed
qed

lemma payload_cases:
  assumes "24 \<le> length frame"
  obtains "get_udp_payload frame = Some None"
    | "get_udp_payload frame = Some (Some (22 + 4 * (unat (frame ! 14) mod 16)))"
  using assms get_udp_payload_spec [of frame] unfolding ip_header_len_eq by (auto split: if_splits)

text \<open>
  C31: what a frame of any content, in a buffer of 244 bytes or more, can do.  Without a UDP
  payload nothing changes and the result is -1.  With one, at an offset of at most 82, a request
  that starts with the mode string of SET or GET is handled without an access out of bounds: the
  table stays well formed, the buffer keeps its size, the result is a response length of the
  mode, and only the 162 bytes from the start of the payload can change.  With any other mode
  string nothing changes and the result is -1 if a NUL byte stops the print of the mode string
  inside the buffer, and without one the print reads behind the buffer.
\<close>

theorem sashstore_process_frame_safe:
  assumes "sash_ok CAPACITY st" and "memcpy_length overlap" and "244 \<le> length frame"
  shows "case get_udp_payload frame of
      None \<Rightarrow> False
    | Some None \<Rightarrow> sashstore_process_frame overlap CAPACITY st frame len = Some (-1, frame, st)
    | Some (Some p) \<Rightarrow> p = 22 + 4 * (unat (frame ! 14) mod 16) \<and>
        (let mode = take 4 (drop (p + 10) frame); run = sashstore_process_frame overlap CAPACITY st frame len in
         if mode = SET_MODE \<or> mode = GET_MODE then
           (\<exists>ret frame' st'. run = Some (ret, frame', st') \<and>
             sash_ok CAPACITY st' \<and> length frame' = length frame \<and>
             ret \<in> (if mode = SET_MODE then {18, 10} else {162, 9}) \<and>
             (\<forall>i<length frame. i < p \<or> p + 162 \<le> i \<longrightarrow> frame' ! i = frame ! i))
         else run = (if 0 \<in> set (drop (p + 10) frame) then Some (-1, frame, st) else None))"
proof -
  have "24 \<le> length frame" using assms(3) by simp
  then show ?thesis
  proof (cases rule: payload_cases)
    case 1
    then show ?thesis by (simp add: sashstore_process_frame_def)
  next
    case 2
    let ?p = "22 + 4 * (unat (frame ! 14) mod 16)"
    have room: "?p + 162 \<le> length frame" using assms(3) by simp
    have run: "sashstore_process_frame overlap CAPACITY st frame len = handle_network_request overlap CAPACITY st frame ?p"
      using 2 by (simp add: sashstore_process_frame_def)
    have b: "take 4 (drop (?p + 10) frame) = bytes_at frame (?p + 10) 4" by (simp only: bytes_at_def)
    show ?thesis
      unfolding 2 option.case b Let_def run
      using request_total [OF assms(1) room assms(2)] other_request_cases [OF room, of overlap CAPACITY st] by simp
  qed
qed

text \<open>An IPv4/UDP frame with a request of a given mode, key and value in a buffer of 256 bytes.\<close>

definition request_frame :: "u8 list \<Rightarrow> u8 list \<Rightarrow> u8 list \<Rightarrow> u8 list" where
  "request_frame mode key val =
     replicate 14 0 @ [0x45] @ replicate 8 0 @ [17] @ replicate 18 0 @
     replicate 10 0 @ mode @ key @ replicate 11 0 @ val @ replicate 61 0"

definition zero_store :: "u64 \<Rightarrow> sash_state" where
  "zero_store c = \<lparr>kvstore = \<lparr>spairs = replicate (unat c) \<lparr>skey = empty_key, sval = replicate VALUE_SIZE 0\<rparr>\<rparr>,
     total_set = 0, total_get = 0, total_stored = 0, total_not_stored = 0, total_retrieved = 0, total_not_found = 0\<rparr>"

lemma zero_store_ok: "pow2_u64 c \<Longrightarrow> sash_ok c (zero_store c)"
  using sash_inv_zeroed(1) by (simp add: sash_ok_def zero_store_def)

lemma pow2_u64_4: "pow2_u64 4"
  unfolding pow2_u64_def by (intro exI [of _ 2]) simp

text \<open>\<open>memcpy\<close> as most C libraries implement it on overlapping regions here: like \<open>memmove\<close>.\<close>

definition memmove :: "u8 list \<Rightarrow> nat \<Rightarrow> nat \<Rightarrow> nat \<Rightarrow> u8 list" where
  "memmove m dst src n = take n (drop src m @ replicate n 0)"

lemma memmove_length: "memcpy_length memmove"
  by (auto simp: memcpy_length_def memmove_def min_def)

theorem sashstore_process_frame_safe_witness:
  "(\<exists>ret frame' st'. sashstore_process_frame memmove 4 (zero_store 4)
      (request_frame SET_MODE (replicate 64 7) (replicate 64 9)) 256 = Some (ret, frame', st') \<and>
    sash_ok 4 st' \<and> length frame' = 256 \<and> frame' ! 41 = 0) \<and>
   sashstore_process_frame memmove 4 (zero_store 4) (replicate 14 0 @ [0x45] @ replicate 8 0 @ [17] @ replicate 232 1) 256 = None"
proof
  let ?f = "request_frame SET_MODE (replicate 64 7) (replicate 64 9)"
  have f: "length ?f = 256" "?f ! 14 = 0x45" "?f ! 23 = 17" "?f ! 41 = 0"
    by (simp_all add: request_frame_def SET_MODE_def nth_append)
  then have p: "get_udp_payload ?f = Some (Some 42)"
    by (simp add: get_udp_payload_def packet_offsets Let_def ip_version_4 ip_header_len_eq)
  have m: "take 4 (drop (42 + 10) ?f) = SET_MODE" by (simp add: request_frame_def SET_MODE_def)
  have "244 \<le> length ?f" using f by simp
  from sashstore_process_frame_safe [OF zero_store_ok [OF pow2_u64_4] memmove_length this, of 256]
  show "\<exists>ret frame' st'. sashstore_process_frame memmove 4 (zero_store 4) ?f 256 = Some (ret, frame', st') \<and>
    sash_ok 4 st' \<and> length frame' = 256 \<and> frame' ! 41 = 0"
    unfolding p option.case Let_def m using f by auto
next
  let ?f = "replicate 14 0 @ [0x45] @ replicate 8 0 @ [17] @ replicate 232 (1::u8)"
  have f: "length ?f = 256" "?f ! 14 = 0x45" "?f ! 23 = 17" by (simp_all add: nth_append)
  then have p: "get_udp_payload ?f = Some (Some 42)"
    by (simp add: get_udp_payload_def packet_offsets Let_def ip_version_4 ip_header_len_eq)
  have d: "drop (42 + 10) ?f = replicate 204 1" by simp
  have t: "take 4 (replicate 204 (1::u8)) = [1, 1, 1, 1]" by (simp add: numeral_eq_Suc)
  have m: "take 4 (replicate 204 (1::u8)) \<noteq> SET_MODE" "take 4 (replicate 204 (1::u8)) \<noteq> GET_MODE"
    unfolding t by (simp_all add: SET_MODE_def GET_MODE_def)
  have "244 \<le> length ?f" by simp
  from sashstore_process_frame_safe [OF zero_store_ok [OF pow2_u64_4] memmove_length this, of 256]
  show "sashstore_process_frame memmove 4 (zero_store 4) ?f 256 = None"
    unfolding p option.case Let_def d using m by simp
qed

text \<open>
  C32: a value set is the value got.  If a SET request for a key that is not all zero is answered
  with the 18-byte success response, then a GET request for that key, in any frame, is answered
  with the 162-byte response that has the value sent, between the strings VALUE and END,
  whatever happens to the key field.
\<close>

theorem sashstore_set_then_get:
  assumes "sash_ok CAPACITY st" and "memcpy_length overlap"
    and "p + 162 \<le> length f" and "bytes_at f (p + 10) 4 = SET_MODE"
    and "handle_network_request overlap CAPACITY st f p = Some (18, f', st')"
    and "q + 162 \<le> length g" and "bytes_at g (q + 10) 4 = GET_MODE"
    and "bytes_at g (q + 14) 64 = bytes_at f (p + 14) 64" and "bytes_at f (p + 14) 64 \<noteq> empty_key"
  shows "\<exists>g' st''. handle_network_request overlap CAPACITY st' g q = Some (162, g', st'') \<and>
    bytes_at g' (q + 91) 64 = bytes_at f (p + 89) 64 \<and>
    bytes_at g' (q + 10) 5 = VALUE \<and> bytes_at g' (q + 157) 3 = END \<and> kvstore st'' = kvstore st'"
proof -
  let ?key = "bytes_at g (q + 14) 64"
  have ok': "sash_ok CAPACITY st'" "sash_map (kvstore st') ?key = Some (bytes_at f (p + 89) 64)"
    using set_request_cases [OF assms(1,3,4), of overlap] assms(5,8,9) by (auto simp: sash_ok_def)
  then obtain v frame1 frame2 frame3 frame4 where w: "v = bytes_at f (p + 89) 64" "length v = 64"
      "wr_bytes g (q + 10) VALUE = Some frame1"
      "wr_bytes frame1 (q + 16) (overlap frame1 (q + 16) (q + 14) 64) = Some frame2"
      "wr_bytes frame2 (q + 91) v = Some frame3" "wr_bytes frame3 (q + 157) END = Some frame4"
    and h: "handle_network_request overlap CAPACITY st' g q = Some (162, frame4,
        st'\<lparr>total_retrieved := total_retrieved st' + 1, total_get := total_get st' + 1\<rparr>)"
    using get_request_cases [OF ok'(1) assms(6,7,2)] by fastforce
  note l = length_wr_bytes [OF w(3)] length_wr_bytes [OF w(4)] length_wr_bytes [OF w(5)] length_wr_bytes [OF w(6)]
  have o: "length (overlap frame1 (q + 16) (q + 14) 64) = 64" using assms(2) by (simp add: memcpy_length_def)
  have len: "length VALUE = 5" "length END = 3" by (simp_all add: literals)
  have "bytes_at frame4 (q + 157) 3 = END" using bytes_at_wr_same [OF w(6)] by (simp only: len)
  moreover have "bytes_at frame4 (q + 91) 64 = v"
    using bytes_at_wr_other [OF w(6), of "q + 91" 64] bytes_at_wr_same [OF w(5)] l w(2) assms(6) by simp
  moreover have "bytes_at frame4 (q + 10) 5 = VALUE"
    using bytes_at_wr_other [OF w(6), of "q + 10" 5] bytes_at_wr_other [OF w(5), of "q + 10" 5]
      bytes_at_wr_other [OF w(4), of "q + 10" 5] bytes_at_wr_same [OF w(3), unfolded len] l assms(6)
    by simp
  ultimately show ?thesis using h w(1) by auto
qed

lemma request_frame_fields:
  assumes "length mode = 4" and "length key = 64" and "length val = 64"
  shows "length (request_frame mode key val) = 256" and "bytes_at (request_frame mode key val) 52 4 = mode"
    and "bytes_at (request_frame mode key val) 56 64 = key" and "bytes_at (request_frame mode key val) 131 64 = val"
  using assms by (simp_all add: request_frame_def bytes_at_def)

theorem sashstore_set_then_get_witness:
  defines "f \<equiv> request_frame SET_MODE (replicate 64 7) (replicate 64 9)"
    and "g \<equiv> request_frame GET_MODE (replicate 64 7) (replicate 64 0)"
  shows "\<exists>f' st' g' st''. handle_network_request memmove 4 (zero_store 4) f 42 = Some (18, f', st') \<and>
    handle_network_request memmove 4 st' g 42 = Some (162, g', st'') \<and>
    bytes_at g' 133 64 = replicate 64 9"
proof -
  have k: "replicate 64 (7::u8) \<noteq> empty_key" by (simp add: empty_key_def KEY_SIZE_def replicate_eq_replicate)
  have "\<not> store_full (kvstore (zero_store 4))" by (simp add: store_full_def zero_store_def empty_key_def)
  then obtain f' st' where h: "handle_network_request memmove 4 (zero_store 4) f 42 = Some (18, f', st')"
    using set_request_cases [OF zero_store_ok [OF pow2_u64_4], of 42 f memmove] k
    by (auto simp: f_def request_frame_fields SET_MODE_def)
  from sashstore_set_then_get [OF zero_store_ok [OF pow2_u64_4] memmove_length _ _ this, of 42 g] k h
  show ?thesis by (simp add: f_def g_def request_frame_fields SET_MODE_def GET_MODE_def) blast
qed

definition counters_ok :: "sash_state \<Rightarrow> bool" where
  "counters_ok st \<longleftrightarrow>
     total_set st = total_stored st + total_not_stored st \<and>
     total_get st = total_retrieved st + total_not_found st"

lemma handle_counters:
  assumes "handle_network_request overlap CAPACITY st frame p = Some (ret, frame', st')" and "counters_ok st"
  shows "counters_ok st'"
  using assms
  by (auto simp: handle_network_request_def counters_ok_def Let_def
      split: Option.bind_splits if_splits option.splits)

text \<open>A run of frames, each handled in a buffer of its own.\<close>

fun sashstore_run ::
  "(u8 list \<Rightarrow> nat \<Rightarrow> nat \<Rightarrow> nat \<Rightarrow> u8 list) \<Rightarrow> u64 \<Rightarrow> sash_state \<Rightarrow> u8 list list \<Rightarrow>
     (int list \<times> sash_state) option" where
  "sashstore_run overlap CAPACITY st [] = Some ([], st)"
| "sashstore_run overlap CAPACITY st (f # fs) = do {
     (ret, f', st') \<leftarrow> sashstore_process_frame overlap CAPACITY st f (of_nat (length f));
     (rets, st'') \<leftarrow> sashstore_run overlap CAPACITY st' fs;
     Some (ret # rets, st'')
   }"

text \<open>
  The counters add up.  In every run of requests, each of which may succeed or fail in any
  way, the SET total is the sum of stored and not stored, the GET total that of retrieved and
  not found (64-bit sums, as the code keeps them).
\<close>

lemma sashstore_counters:
  assumes "sashstore_run overlap CAPACITY st frames = Some (rets, st')"
    and "total_set st = total_stored st + total_not_stored st"
    and "total_get st = total_retrieved st + total_not_found st"
  shows "total_set st' = total_stored st' + total_not_stored st' \<and>
    total_get st' = total_retrieved st' + total_not_found st'"
proof -
  have "counters_ok st'" if "counters_ok st"
    using assms(1) that
  proof (induction frames arbitrary: st rets)
    case (Cons f fs)
    obtain ret f' st1 rets' where f: "sashstore_process_frame overlap CAPACITY st f (of_nat (length f)) =
        Some (ret, f', st1)" "sashstore_run overlap CAPACITY st1 fs = Some (rets', st')"
      using Cons.prems(1) by (auto split: Option.bind_splits)
    have "counters_ok st1"
      using f(1) Cons.prems(2) handle_counters
      by (auto simp: sashstore_process_frame_def split: Option.bind_splits option.splits)
    then show ?case using Cons.IH f(2) by blast
  qed simp
  then show ?thesis using assms(2,3) by (simp add: counters_ok_def)
qed

lemma sashstore_counters_witness:
  "\<exists>rets st'. sashstore_run memmove 4 (zero_store 4) [replicate 24 0] = Some (rets, st') \<and>
    total_get st' = total_retrieved st' + total_not_found st'"
proof -
  have "ip_version 0 \<noteq> 4" by (simp add: ip_version_def)
  then have r: "sashstore_run memmove 4 (zero_store 4) [replicate 24 0] = Some ([-1], zero_store 4)"
    by (simp add: sashstore_process_frame_def get_udp_payload_def packet_offsets)
  have z: "total_set (zero_store 4) = total_stored (zero_store 4) + total_not_stored (zero_store 4)"
    "total_get (zero_store 4) = total_retrieved (zero_store 4) + total_not_found (zero_store 4)"
    by (simp_all add: zero_store_def)
  show ?thesis using sashstore_counters [OF r z] r by blast
qed

text \<open>
  The key a GET response echoes is not the key asked for.  The string VALUE is written first,
  and its last byte is the first byte of the request's key; with a \<open>memcpy\<close> that copies forward
  over the overlap as \<open>memmove\<close> does, every successful response carries the letter E followed by
  the other 63 bytes of the key.
\<close>

lemma sashstore_get_echoes_clobbered_key:
  assumes "sash_ok CAPACITY st" and "p + 162 \<le> length f" and "bytes_at f (p + 10) 4 = GET_MODE"
    and "handle_network_request memmove CAPACITY st f p = Some (162, f', st')"
  shows "bytes_at f' (p + 16) 64 = 0x45 # tl (bytes_at f (p + 14) 64)"
proof -
  obtain v frame1 frame2 frame3 where w: "length v = 64"
      "wr_bytes f (p + 10) VALUE = Some frame1"
      "wr_bytes frame1 (p + 16) (memmove frame1 (p + 16) (p + 14) 64) = Some frame2"
      "wr_bytes frame2 (p + 91) v = Some frame3" "wr_bytes frame3 (p + 157) END = Some f'"
    using get_request_cases [OF assms(1-3) memmove_length] assms(4) by auto
  note l = length_wr_bytes [OF w(2)] length_wr_bytes [OF w(3)] length_wr_bytes [OF w(4)] length_wr_bytes [OF w(5)]
  have len: "length VALUE = 5" "length (memmove frame1 (p + 16) (p + 14) 64) = 64"
    using memmove_length by (simp_all add: VALUE_def memcpy_length_def)
  have "bytes_at f' (p + 16) 64 = bytes_at frame1 (p + 14) 64"
    using bytes_at_wr_other [OF w(5), of "p + 16" 64] bytes_at_wr_other [OF w(4), of "p + 16" 64]
      bytes_at_wr_same [OF w(3), unfolded len] l assms(2)
    by (simp add: memmove_def bytes_at_def)
  also have "\<dots> = 0x45 # tl (bytes_at f (p + 14) 64)"
  proof (rule nth_equalityI)
    show "length (bytes_at frame1 (p + 14) 64) = length (0x45 # tl (bytes_at f (p + 14) 64))"
      using l assms(2) by (simp add: bytes_at_def)
    fix i assume "i < length (bytes_at frame1 (p + 14) 64)"
    then have i: "i < 64" by (simp add: bytes_at_def)
    have "frame1 ! (p + 14 + i) = (if i = 0 then 0x45 else f ! (p + 14 + i))"
      using nth_wr_bytes [OF w(2), of "p + 14 + i"] i assms(2) by (simp add: VALUE_def)
    then show "bytes_at frame1 (p + 14) 64 ! i = (0x45 # tl (bytes_at f (p + 14) 64)) ! i"
      using i l assms(2) by (cases i) (simp_all add: bytes_at_def nth_tl)
  qed
  finally show ?thesis .
qed

lemma sashstore_get_echoes_clobbered_key_witness:
  defines "f \<equiv> request_frame SET_MODE (replicate 64 7) (replicate 64 9)"
    and "g \<equiv> request_frame GET_MODE (replicate 64 7) (replicate 64 0)"
  shows "\<exists>f' st' g' st''. handle_network_request memmove 4 (zero_store 4) f 42 = Some (18, f', st') \<and>
    handle_network_request memmove 4 st' g 42 = Some (162, g', st'') \<and>
    bytes_at g' 58 64 = 0x45 # replicate 63 7"
proof -
  have k: "replicate 64 (7::u8) \<noteq> empty_key" by (simp add: empty_key_def KEY_SIZE_def replicate_eq_replicate)
  have "\<not> store_full (kvstore (zero_store 4))" by (simp add: store_full_def zero_store_def empty_key_def)
  then obtain hm f' where h: "sash_inv 4 hm" "sash_map hm (replicate 64 7) = Some (replicate 64 9)"
    "handle_network_request memmove 4 (zero_store 4) f 42 = Some (18, f', (zero_store 4)
       \<lparr>kvstore := hm, total_stored := total_stored (zero_store 4) + 1, total_set := total_set (zero_store 4) + 1\<rparr>)"
    using set_request_cases [OF zero_store_ok [OF pow2_u64_4], of 42 f memmove] k
    by (auto simp: f_def request_frame_fields SET_MODE_def)
  let ?st = "(zero_store 4)
       \<lparr>kvstore := hm, total_stored := total_stored (zero_store 4) + 1, total_set := total_set (zero_store 4) + 1\<rparr>"
  have ok: "sash_ok 4 ?st" using h(1) by (simp add: sash_ok_def)
  have g: "42 + 162 \<le> length g" "bytes_at g (42 + 10) 4 = GET_MODE"
    by (simp_all add: g_def request_frame_fields GET_MODE_def)
  obtain g' st'' where r: "handle_network_request memmove 4 ?st g 42 = Some (162, g', st'')"
    using get_request_cases [OF ok g memmove_length] h(2) by (auto simp: g_def request_frame_fields GET_MODE_def)
  have "bytes_at g' 58 64 = 0x45 # replicate 63 7"
    using sashstore_get_echoes_clobbered_key [OF ok g r] by (simp add: g_def request_frame_fields GET_MODE_def)
  then show ?thesis using h(3) r by blast
qed

text \<open>
  Initialisation does not empty the table.  If the memory it is given holds a pair in every
  slot (as a heap block that was used before may), the first lookup of that key succeeds and
  returns a value that was never set.
\<close>

lemma sashstore_init_serves_garbage:
  assumes "CAPACITY \<noteq> 0" and "key \<noteq> empty_key"
  shows "\<exists>st' p. sashstore_init (\<lambda>size. Some (replicate (unat CAPACITY) \<lparr>skey = key, sval = val\<rparr>)) CAPACITY st
      = Return st' \<and>
    sashstore_hashmap_get CAPACITY (kvstore st') key = Some (Some p) \<and> sash_deref (kvstore st') p = Some val"
proof -
  let ?hm = "\<lparr>spairs = replicate (unat CAPACITY) \<lparr>skey = key, sval = val\<rparr>\<rparr>"
  let ?p = "unat (fnv_1 key mod CAPACITY)"
  have p: "?p < unat CAPACITY" using assms(1) by (simp add: unat_mod unat_gt_0)
  then have "sashstore_hashmap_get CAPACITY ?hm key = Some (Some ?p)" "sash_deref ?hm ?p = Some val"
    using assms by (simp_all add: sashstore_hashmap_get_def sashstore_get_loop.simps [of _ _ _ _ 0]
        Let_def word_gt_0 sash_deref_def)
  then show ?thesis by (simp add: sashstore_init_def)
qed

lemma sashstore_init_serves_garbage_witness:
  "\<exists>st' p. sashstore_init (\<lambda>size. Some (replicate 4 \<lparr>skey = replicate 64 7, sval = replicate 64 9\<rparr>)) 4 (zero_store 4)
      = Return st' \<and> sashstore_hashmap_get 4 (kvstore st') (replicate 64 7) = Some (Some p) \<and>
    sash_deref (kvstore st') p = Some (replicate 64 9)"
proof -
  have "replicate 64 (7::u8) \<noteq> empty_key" by (simp add: empty_key_def KEY_SIZE_def replicate_eq_replicate)
  from sashstore_init_serves_garbage [OF _ this, of 4 "replicate 64 9" "zero_store 4"] show ?thesis by simp
qed

end
