(* ===== verification/Conshash.thy ===== *)
theory Conshash
  imports Fnv
begin

text \<open>
  \<open>l2fwd/libsashstore/conshash.c\<close> and \<open>conshash.h\<close>: the backend lookup table.
  \<open>populate_lut\<close> fills the whole table with the fake backend address 0xff and returns; the
  model stops where the code returns.  An entry is an \<open>int64_t\<close>, kept as its 64-bit pattern.
\<close>

definition TABLE_SIZE :: nat where "TABLE_SIZE = 65537"

type_synonym LookUpTable = "u64 list"

text \<open>The loop \<open>for (i = from; i < TABLE_SIZE; ++i) lut[i] = v\<close>.\<close>

function fill_lut :: "u64 \<Rightarrow> LookUpTable \<Rightarrow> nat \<Rightarrow> LookUpTable option" where
  "fill_lut v lut i =
     (if i < TABLE_SIZE then do { lut' \<leftarrow> wr lut i v; fill_lut v lut' (Suc i) } else Some lut)"
  by pat_completeness auto
termination
  by (relation "measure (\<lambda>(v, l, i). TABLE_SIZE - i)") auto

declare fill_lut.simps [simp del]

definition populate_lut :: "LookUpTable \<Rightarrow> LookUpTable option" where
  "populate_lut lut = fill_lut 0xff lut 0"

lemma fill_lut_eq:
  assumes "length lut = TABLE_SIZE" and "i \<le> TABLE_SIZE"
  shows "fill_lut v lut i = Some (take i lut @ replicate (TABLE_SIZE - i) v)"
  using assms
proof (induction "TABLE_SIZE - i" arbitrary: i lut)
  case 0
  then show ?case by (simp add: fill_lut.simps)
next
  case (Suc m)
  then have lt: "i < TABLE_SIZE" by simp
  have "fill_lut v lut i = fill_lut v (lut[i := v]) (Suc i)"
    using lt Suc.prems(1) by (subst fill_lut.simps) simp
  also have "\<dots> = Some (take (Suc i) (lut[i := v]) @ replicate (TABLE_SIZE - Suc i) v)"
    using Suc.hyps lt Suc.prems(1) by (intro Suc.hyps(1)) auto
  also have "take (Suc i) (lut[i := v]) = take i lut @ [v]"
    using lt Suc.prems(1) by (simp add: take_Suc_conv_app_nth)
  also have "replicate (TABLE_SIZE - i) v = v # replicate (TABLE_SIZE - Suc i) v"
    using lt by (simp add: Suc_diff_Suc flip: replicate_Suc)
  ultimately show ?case by simp
qed

lemma populate_lut_eq:
  "length lut = TABLE_SIZE \<Longrightarrow> populate_lut lut = Some (replicate TABLE_SIZE 0xff)"
  by (simp add: populate_lut_def fill_lut_eq)

end
