(* ===== verification/Maglev.thy ===== *)
theory Maglev
  imports Packettool Conshash Hashmap
begin

text \<open>
  \<open>l2fwd/libsashstore/maglev.c\<close>: one packet through the Maglev load balancer, and its
  initialisation.  The two file-level variables are the state; \<open>aligned_alloc\<close> is the parameter
  \<open>alloc\<close>, which maps a size in bytes to NULL or to a block of that size with any contents.
\<close>

section \<open>State and operations\<close>

record maglev_state =
  maglev_conntrack :: maglev_hashmap
  maglev_lookup :: LookUpTable

definition maglev_process_frame ::
  "(u64 \<Rightarrow> u64 \<Rightarrow> u64) \<Rightarrow> u64 \<Rightarrow> u8 list \<Rightarrow> maglev_state \<Rightarrow> (u64 \<times> maglev_state) option" where
  "maglev_process_frame crc CAPACITY frame st = do {
     hash \<leftarrow> flowhash frame;
     if hash > 0 then do {
       cached \<leftarrow> maglev_hashmap_get crc CAPACITY (maglev_conntrack st) hash;
       case cached of
         None \<Rightarrow> do {
           backend \<leftarrow> rd (maglev_lookup st) (unat hash mod TABLE_SIZE);
           (rc, hm) \<leftarrow> maglev_hashmap_insert crc CAPACITY (maglev_conntrack st) hash backend;
           let st' = st\<lparr>maglev_conntrack := hm\<rparr>;
           if rc < 0 then Some (0, st') else Some (backend, st')
         }
       | Some pair \<Rightarrow> do {
           backend \<leftarrow> maglev_deref (maglev_conntrack st) pair;
           Some (backend, st)
         }
     }
     else Some (0, st)
   }"

function maglev_zero :: "u64 \<Rightarrow> maglev_kv_pair list \<Rightarrow> u64 \<Rightarrow> maglev_kv_pair list option" where
  "maglev_zero CAPACITY ps i =
     (if i < CAPACITY then do {
        ps' \<leftarrow> wr ps (unat i) \<lparr>mkey = 0, mvalue = 0\<rparr>;
        maglev_zero CAPACITY ps' (i + 1)
      }
      else Some ps)"
  by pat_completeness auto
termination
  by (relation "measure (\<lambda>(c, ps, i). unat c - unat i)") (auto intro: unat_inc_measure)

declare maglev_zero.simps [simp del]

definition maglev_init ::
  "(u64 \<Rightarrow> maglev_kv_pair list option) \<Rightarrow> u64 \<Rightarrow> maglev_state \<Rightarrow> maglev_state outcome option" where
  "maglev_init alloc CAPACITY st =
     (case alloc (CAPACITY * 16) of
        None \<Rightarrow> Some (Exit 1)
      | Some ps \<Rightarrow> do {
          ps' \<leftarrow> maglev_zero CAPACITY ps 0;
          lut \<leftarrow> populate_lut (maglev_lookup st);
          Some (Return \<lparr>maglev_conntrack = \<lparr>mpairs = ps'\<rparr>, maglev_lookup = lut\<rparr>)
        })"

text \<open>The packets of one core, in order.\<close>

fun maglev_run ::
  "(u64 \<Rightarrow> u64 \<Rightarrow> u64) \<Rightarrow> u64 \<Rightarrow> u8 list list \<Rightarrow> maglev_state \<Rightarrow> (u64 list \<times> maglev_state) option" where
  "maglev_run crc CAPACITY [] st = Some ([], st)"
| "maglev_run crc CAPACITY (f # fs) st = do {
     (b, st') \<leftarrow> maglev_process_frame crc CAPACITY f st;
     (bs, st'') \<leftarrow> maglev_run crc CAPACITY fs st';
     Some (b # bs, st'')
   }"

section \<open>One packet\<close>

definition maglev_ok :: "(u64 \<Rightarrow> u64 \<Rightarrow> u64) \<Rightarrow> u64 \<Rightarrow> maglev_state \<Rightarrow> bool" where
  "maglev_ok crc CAPACITY st \<longleftrightarrow>
     maglev_inv crc CAPACITY (maglev_conntrack st) \<and> length (maglev_lookup st) = TABLE_SIZE"

definition flows :: "maglev_state \<Rightarrow> u64 \<rightharpoonup> u64" where
  "flows st = maglev_map (maglev_conntrack st)"

definition lut_backend :: "maglev_state \<Rightarrow> u64 \<Rightarrow> u64" where
  "lut_backend st hash = maglev_lookup st ! (unat hash mod TABLE_SIZE)"

lemma u64_gt_0 [simp]: "(0::u64) < h \<longleftrightarrow> h \<noteq> 0"
  by (simp add: word_gt_0)

lemma lut_index: "unat h mod TABLE_SIZE < TABLE_SIZE"
  by (simp add: TABLE_SIZE_def)

text \<open>
  What a packet does to the map of tracked flows: nothing for an untracked or known flow, and
  for a new flow the backend of the lookup table, unless the table is full.
\<close>

lemma maglev_process_cases:
  assumes ok: "maglev_ok crc CAPACITY st" and h: "flowhash f = Some h"
  shows "\<exists>b st'. maglev_process_frame crc CAPACITY f st = Some (b, st') \<and>
    maglev_ok crc CAPACITY st' \<and> maglev_lookup st' = maglev_lookup st \<and>
    (h = 0 \<and> b = 0 \<and> st' = st \<or>
     h \<noteq> 0 \<and> flows st h = Some b \<and> st' = st \<or>
     h \<noteq> 0 \<and> flows st h = None \<and> b = lut_backend st h \<and> flows st' = (flows st)(h \<mapsto> b) \<or>
     h \<noteq> 0 \<and> flows st h = None \<and> b = 0 \<and> st' = st \<and>
       (\<forall>kv \<in> set (mpairs (maglev_conntrack st)). mkey kv \<noteq> 0))"
proof (cases "h = 0")
  case True
  then show ?thesis using ok h by (simp add: maglev_process_frame_def)
next
  case False
  have inv: "maglev_inv crc CAPACITY (maglev_conntrack st)"
    and len: "length (maglev_lookup st) = TABLE_SIZE"
    using ok by (auto simp: maglev_ok_def)
  show ?thesis
  proof (cases "flows st h")
    case (Some v)
    then have "maglev_map (maglev_conntrack st) h = Some v" by (simp add: flows_def)
    then obtain p where "maglev_hashmap_get crc CAPACITY (maglev_conntrack st) h = Some (Some p)"
      "maglev_deref (maglev_conntrack st) p = Some v"
      using maglev_table.get_present [OF inv False] by blast
    then show ?thesis using Some ok h False by (simp add: maglev_process_frame_def)
  next
    case None
    then have m: "maglev_map (maglev_conntrack st) h = None" by (simp add: flows_def)
    then have g: "maglev_hashmap_get crc CAPACITY (maglev_conntrack st) h = Some None"
      using maglev_table.get_absent [OF inv False] by simp
    obtain rc hm where i: "maglev_hashmap_insert crc CAPACITY (maglev_conntrack st) h (lut_backend st h)
        = Some (rc, hm)" and inv': "maglev_inv crc CAPACITY hm" and
      c: "rc = 0 \<and> maglev_map hm = (maglev_map (maglev_conntrack st))(h \<mapsto> lut_backend st h) \<or>
        rc = -1 \<and> hm = maglev_conntrack st \<and>
        (\<forall>kv \<in> set (mpairs (maglev_conntrack st)). mkey kv \<noteq> 0)"
      using maglev_insert_cases [OF inv False, of "lut_backend st h"] by blast
    have "maglev_process_frame crc CAPACITY f st =
        Some (if rc < 0 then 0 else lut_backend st h, st\<lparr>maglev_conntrack := hm\<rparr>)"
      using h False g i len lut_index [of h] by (simp add: maglev_process_frame_def lut_backend_def)
    then show ?thesis using c None False inv' len by (auto simp: maglev_ok_def flows_def)
  qed
qed

lemma maglev_process_keeps:
  assumes "maglev_ok crc CAPACITY st" and "maglev_process_frame crc CAPACITY f st = Some (b, st')"
  shows "maglev_ok crc CAPACITY st'" and "flows st h = Some v \<Longrightarrow> flows st' h = Some v"
proof -
  obtain h' where h': "flowhash f = Some h'"
    using assms(2) by (cases "flowhash f") (auto simp: maglev_process_frame_def)
  show "maglev_ok crc CAPACITY st'" "flows st h = Some v \<Longrightarrow> flows st' h = Some v"
    using maglev_process_cases [OF assms(1) h'] assms(2) by (auto split: if_splits)
qed

section \<open>Runs\<close>

lemma maglev_run_returns:
  assumes "maglev_ok crc CAPACITY st" and "\<forall>f \<in> set fs. 78 \<le> length f"
  shows "\<exists>bs st'. maglev_run crc CAPACITY fs st = Some (bs, st') \<and> length bs = length fs \<and>
    maglev_ok crc CAPACITY st'"
  using assms
proof (induction fs arbitrary: st)
  case Nil
  then show ?case by simp
next
  case (Cons f fs)
  obtain h where "flowhash f = Some h" using flowhash_Some_len [of f] Cons.prems(2) by auto
  then obtain b st1 where "maglev_process_frame crc CAPACITY f st = Some (b, st1)"
    "maglev_ok crc CAPACITY st1" using maglev_process_cases [OF Cons.prems(1)] by blast
  then show ?case using Cons.IH [of st1] Cons.prems(2) by auto
qed

lemma maglev_run_known_flow:
  assumes "maglev_ok crc CAPACITY st" and "maglev_run crc CAPACITY fs st = Some (bs, st')"
    and "flows st h = Some v" and "h \<noteq> 0" and "i < length fs" and "flowhash (fs ! i) = Some h"
  shows "bs ! i = v"
  using assms
proof (induction fs arbitrary: st bs i)
  case Nil
  then show ?case by simp
next
  case (Cons f fs)
  obtain b st1 bs1 where s: "maglev_process_frame crc CAPACITY f st = Some (b, st1)"
    and r: "maglev_run crc CAPACITY fs st1 = Some (bs1, st')" and bs: "bs = b # bs1"
    using Cons.prems(2) by (auto split: Option.bind_splits)
  note keep = maglev_process_keeps [OF Cons.prems(1) s]
  show ?case
  proof (cases i)
    case 0
    then have "flowhash f = Some h" using Cons.prems(6) by simp
    then show ?thesis
      using maglev_process_cases [OF Cons.prems(1)] s Cons.prems(3,4) bs 0 by fastforce
  next
    case (Suc j)
    then show ?thesis
      using Cons.IH [OF keep(1) r keep(2) [OF Cons.prems(3)]] Cons.prems bs by auto
  qed
qed

text \<open>
  C21: connection affinity.  In any sequence of packets through maglev_process_frame, starting
  from any well-formed state, all packets with the same non-zero flow hash get the same
  backend from the first one that gets a backend at all.
\<close>

theorem maglev_affinity:
  assumes "maglev_ok crc CAPACITY st" and "maglev_run crc CAPACITY fs st = Some (bs, st')"
    and "i < j" and "j < length fs"
    and "flowhash (fs ! i) = Some h" and "flowhash (fs ! j) = Some h" and "bs ! i \<noteq> 0"
  shows "bs ! j = bs ! i"
  using assms
proof (induction fs arbitrary: st bs i j)
  case Nil
  then show ?case by simp
next
  case (Cons f fs)
  obtain b st1 bs1 where s: "maglev_process_frame crc CAPACITY f st = Some (b, st1)"
    and r: "maglev_run crc CAPACITY fs st1 = Some (bs1, st')" and bs: "bs = b # bs1"
    using Cons.prems(2) by (auto split: Option.bind_splits)
  have ok1: "maglev_ok crc CAPACITY st1" using maglev_process_keeps(1) [OF Cons.prems(1) s] .
  obtain j' where j: "j = Suc j'" using Cons.prems(3) by (cases j) auto
  show ?case
  proof (cases i)
    case 0
    then have "flowhash f = Some h" and "b \<noteq> 0" using Cons.prems(5,7) bs by auto
    then have "h \<noteq> 0" and "flows st1 h = Some b"
      using maglev_process_cases [OF Cons.prems(1), of f h] s by auto
    then show ?thesis
      using maglev_run_known_flow [OF ok1 r] Cons.prems(4,6) j 0 bs by auto
  next
    case (Suc i')
    then show ?thesis using Cons.IH [OF ok1 r] Cons.prems bs j by auto
  qed
qed

text \<open>
  A packet of a flow that is not tracked yet gets the backend of the lookup table entry its
  hash selects and is tracked from then on, unless every slot of the table is taken: then it
  gets the invalid backend 0 and nothing is stored.  Packets without a flow hash get 0, packets
  of tracked flows their stored backend, and neither changes the state.
\<close>

lemma maglev_process_frame_spec:
  assumes "maglev_ok crc CAPACITY st" and "flowhash f = Some h"
  shows "\<exists>b st'. maglev_process_frame crc CAPACITY f st = Some (b, st') \<and>
    maglev_ok crc CAPACITY st' \<and>
    (if h = 0 then b = 0 \<and> st' = st
     else case flows st h of
         Some v \<Rightarrow> b = v \<and> st' = st
       | None \<Rightarrow>
           b = maglev_lookup st ! (unat h mod TABLE_SIZE) \<and> flows st' = (flows st)(h \<mapsto> b) \<or>
           b = 0 \<and> st' = st \<and> (\<forall>kv \<in> set (mpairs (maglev_conntrack st)). mkey kv \<noteq> 0))"
  using maglev_process_cases [OF assms] unfolding lut_backend_def
  by (elim exE conjE) (auto split: option.splits)

section \<open>Initialisation\<close>

lemma maglev_zero_eq:
  assumes "length ps = unat c" and "i \<le> c"
  shows "maglev_zero c ps i =
    Some (take (unat i) ps @ replicate (unat c - unat i) \<lparr>mkey = 0, mvalue = 0\<rparr>)"
  using assms
proof (induction "unat c - unat i" arbitrary: i ps)
  case 0
  then have "i = c" by (simp add: word_le_nat_alt word_unat_eq_iff)
  then show ?case using 0 by (simp add: maglev_zero.simps)
next
  case (Suc m)
  let ?z = "\<lparr>mkey = 0, mvalue = 0\<rparr>"
  have lt: "i < c" using Suc.hyps(2) by (simp add: word_less_nat_alt)
  then have ltn: "unat i < unat c" by (simp add: word_less_nat_alt)
  have m: "m = unat c - unat (i + 1)" using Suc.hyps(2) unat_inc [OF lt] by simp
  have le: "i + 1 \<le> c" using lt by (simp add: inc_le)
  have "maglev_zero c ps i = maglev_zero c (ps[unat i := ?z]) (i + 1)"
    using lt ltn Suc.prems(1) by (subst maglev_zero.simps) simp
  also have "\<dots> = Some (take (unat (i + 1)) (ps[unat i := ?z]) @ replicate (unat c - unat (i + 1)) ?z)"
    using Suc.prems(1) le by (intro Suc.hyps(1) [OF m]) auto
  also have "take (unat (i + 1)) (ps[unat i := ?z]) = take (unat i) ps @ [?z]"
    using ltn Suc.prems(1) unat_inc [OF lt] by (simp add: take_Suc_conv_app_nth)
  also have "replicate (unat c - unat i) ?z = ?z # replicate (unat c - unat (i + 1)) ?z"
    using ltn unat_inc [OF lt] by (simp add: Suc_diff_Suc flip: replicate_Suc)
  ultimately show ?case by simp
qed

lemma maglev_init_cases:
  assumes "pow2_u64 CAPACITY" and "CAPACITY \<le> 2 ^ 32"
    and "length (maglev_lookup st) = TABLE_SIZE"
    and "\<And>n ps. alloc n = Some ps \<Longrightarrow> length ps * 16 = unat n"
  shows "case alloc (CAPACITY * 16) of
      None \<Rightarrow> maglev_init alloc CAPACITY st = Some (Exit 1)
    | Some ps \<Rightarrow> \<exists>st'. maglev_init alloc CAPACITY st = Some (Return st') \<and>
        maglev_ok crc CAPACITY st' \<and> flows st' = Map.empty \<and>
        maglev_lookup st' = replicate TABLE_SIZE 0xff"
proof (cases "alloc (CAPACITY * 16)")
  case None
  then show ?thesis by (simp add: maglev_init_def)
next
  case (Some ps)
  have "unat CAPACITY \<le> 2 ^ 32" using assms(2) by (simp add: word_le_nat_alt)
  then have "unat (CAPACITY * 16) = unat CAPACITY * 16" by (simp add: unat_word_ariths)
  then have len: "length ps = unat CAPACITY" using assms(4) [OF Some] by simp
  then have "maglev_init alloc CAPACITY st = Some (Return
      \<lparr>maglev_conntrack = \<lparr>mpairs = replicate (unat CAPACITY) \<lparr>mkey = 0, mvalue = 0\<rparr>\<rparr>,
       maglev_lookup = replicate TABLE_SIZE 0xff\<rparr>)"
    using Some assms(3) by (simp add: maglev_init_def maglev_zero_eq populate_lut_eq)
  then show ?thesis
    using Some maglev_inv_zeroed [OF assms(1)] by (simp add: maglev_ok_def flows_def)
qed

text \<open>
  Maglev_init exits with code 1 when the allocation fails; otherwise, whatever the memory
  held, it establishes the invariant every packet relies on, with no flow tracked and every
  entry of the lookup table equal to 0xff.  aligned_alloc is only assumed to return a block of
  the size it is asked for.
\<close>

lemma maglev_init_spec:
  assumes "pow2_u64 CAPACITY" and "CAPACITY \<le> 2 ^ 32"
    and "length (maglev_lookup st) = TABLE_SIZE"
    and "\<And>n ps. alloc n = Some ps \<Longrightarrow> length ps * 16 = unat n"
  shows "case alloc (CAPACITY * 16) of
      None \<Rightarrow> maglev_init alloc CAPACITY st = Some (Exit 1)
    | Some ps \<Rightarrow> \<exists>st'. maglev_init alloc CAPACITY st = Some (Return st') \<and>
        maglev_ok crc CAPACITY st' \<and> flows st' = Map.empty \<and>
        maglev_lookup st' = replicate TABLE_SIZE 0xff"
  using assms by (rule maglev_init_cases)

definition sample_maglev :: maglev_state where
  "sample_maglev = \<lparr>maglev_conntrack = sample_table, maglev_lookup = replicate TABLE_SIZE 0xff\<rparr>"

lemma maglev_ok_sample: "maglev_ok crc 4 sample_maglev"
  by (simp add: maglev_ok_def sample_maglev_def maglev_inv_sample)

lemma maglev_init_spec_witness:
  "\<exists>st'. maglev_init (\<lambda>n. if unat n mod 16 = 0
        then Some (replicate (unat n div 16) \<lparr>mkey = 9, mvalue = 9\<rparr>) else None) 4 sample_maglev
      = Some (Return st') \<and> flows st' = Map.empty"
proof -
  let ?alloc = "\<lambda>n::u64. if unat n mod 16 = 0
    then Some (replicate (unat n div 16) \<lparr>mkey = 9, mvalue = 9\<rparr>) else None"
  have p: "pow2_u64 4" unfolding pow2_u64_def by (rule exI [of _ 2]) simp
  have a: "length ps * 16 = unat n" if "?alloc n = Some ps" for n ps
    using that by (auto split: if_splits)
  have "case ?alloc (4 * 16) of
      None \<Rightarrow> maglev_init ?alloc 4 sample_maglev = Some (Exit 1)
    | Some ps \<Rightarrow> \<exists>st'. maglev_init ?alloc 4 sample_maglev = Some (Return st') \<and>
        maglev_ok (\<lambda>s k. k) 4 st' \<and> flows st' = Map.empty \<and>
        maglev_lookup st' = replicate TABLE_SIZE 0xff"
    by (rule maglev_init_spec [OF p _ _ a]) (simp_all add: sample_maglev_def)
  then show ?thesis by auto
qed

lemma sample_frame_hash: "flowhash sample_frame = Some 15920412775097656206"
  by code_simp

lemma flows_sample: "flows sample_maglev = Map.empty"
proof -
  have "pow2_u64 4" unfolding pow2_u64_def by (rule exI [of _ 2]) simp
  from maglev_inv_zeroed(2) [OF this] show ?thesis
    by (simp add: flows_def sample_maglev_def sample_table_def)
qed

lemma sample_first:
  assumes "flowhash f = Some h" and "h \<noteq> 0"
    and "maglev_process_frame crc 4 f sample_maglev = Some (b, st')"
  shows "b = 0xff"
proof -
  have "\<exists>kv \<in> set (mpairs (maglev_conntrack sample_maglev)). mkey kv = 0"
    by (simp add: sample_maglev_def sample_table_def)
  moreover have "lut_backend sample_maglev h = 0xff"
    using lut_index [of h] by (simp add: lut_backend_def sample_maglev_def)
  ultimately show ?thesis
    using maglev_process_cases [OF maglev_ok_sample assms(1), of crc] assms(2,3) flows_sample
    by auto
qed

theorem maglev_affinity_witness:
  "\<exists>bs st'. maglev_run (\<lambda>s k. k) 4 [sample_frame, sample_frame] sample_maglev = Some (bs, st') \<and>
    bs ! 0 = 0xff \<and> bs ! 1 = 0xff"
proof -
  have "\<forall>f \<in> set [sample_frame, sample_frame]. 78 \<le> length f" by (simp add: sample_frame_def)
  then obtain bs st' where r: "maglev_run (\<lambda>s k. k) 4 [sample_frame, sample_frame] sample_maglev
      = Some (bs, st')" using maglev_run_returns [OF maglev_ok_sample] by blast
  then have b0: "bs ! 0 = 0xff"
    using sample_first [OF sample_frame_hash] by (auto split: Option.bind_splits)
  then have "bs ! 1 = bs ! 0"
    by (intro maglev_affinity [OF maglev_ok_sample r, where h = 15920412775097656206])
      (simp_all add: sample_frame_hash)
  then show ?thesis using r b0 by simp
qed

lemma maglev_process_frame_spec_witness:
  "\<exists>b st'. maglev_process_frame (\<lambda>s k. k) 4 sample_frame sample_maglev = Some (b, st') \<and> b = 0xff"
  using maglev_process_frame_spec [OF maglev_ok_sample sample_frame_hash, of "\<lambda>s k. k"]
    sample_first [OF sample_frame_hash, of "\<lambda>s k. k"] by auto

end
