(* ===== verification/Dram_Queue.thy ===== *)
theory Dram_Queue
  imports Probing
begin

text \<open>
  \<open>l2fwd/libsashstore/dramblast.h\<close> and the queue helpers of \<open>dramblast.c\<close>: the data types of the
  DRAMBlast table and the per-core ring of pending lookups.  Head, tail and size of a ring are
  32-bit words, reduced with \<open>size - 1\<close> as the code does it.  The ring is shown to be a FIFO
  queue of at most \<open>size - 1\<close> items; \<open>queue_bank\<close> is the contract the lookup loop relies on.
\<close>

section \<open>Data\<close>

record dramblast_kv =
  kv_k :: u64
  kv_v :: u64

record dramblast_result =
  res_v :: u64
  res_id :: u32
  res_status :: u32

record dramblast_arg =
  arg_k :: u64
  arg_id :: u32

record dramblast_queue_item =
  item_k :: u64
  item_idx :: u64
  item_visit_count :: u64
  item_id :: u32

text \<open>A ring of requests; \<open>Casht\<close> has rings of other items.\<close>

record 'i request_ring =
  find_queue :: "'i list"
  find_queue_head :: u32
  find_queue_tail :: u32
  find_queue_size :: u32

type_synonym dramblast_queue = "dramblast_queue_item request_ring"

record dramblast_ht =
  ht_table :: "dramblast_kv list"
  ht_len :: u64
  ht_queues :: "dramblast_queue list"

definition DRAMBLAST_FOUND :: u32 where "DRAMBLAST_FOUND = 0"
definition DRAMBLAST_ABSENT :: u32 where "DRAMBLAST_ABSENT = 1"
definition DRAMBLAST_TABLE_FULL :: u32 where "DRAMBLAST_TABLE_FULL = 2"

definition DRAMBLAST_FIND_QUEUE_SIZE :: u32 where "DRAMBLAST_FIND_QUEUE_SIZE = 64"

section \<open>Operations\<close>

definition dramblast_get_queue_sz :: "dramblast_ht \<Rightarrow> nat \<Rightarrow> u32 option" where
  "dramblast_get_queue_sz ht tid = do {
     q \<leftarrow> rd (ht_queues ht) tid;
     Some ((find_queue_head q - find_queue_tail q) AND (find_queue_size q - 1))
   }"

definition dramblast_push_queue ::
  "dramblast_ht \<Rightarrow> u64 \<Rightarrow> u64 \<Rightarrow> u64 \<Rightarrow> u32 \<Rightarrow> nat \<Rightarrow> dramblast_ht option" where
  "dramblast_push_queue ht idx k visit_count iid tid = do {
     q \<leftarrow> rd (ht_queues ht) tid;
     fq \<leftarrow> wr (find_queue q) (unat (find_queue_head q))
            \<lparr>item_k = k, item_idx = idx, item_visit_count = visit_count, item_id = iid\<rparr>;
     let q' = q\<lparr>find_queue := fq,
                find_queue_head := (find_queue_head q + 1) AND (find_queue_size q - 1)\<rparr>;
     Some (ht\<lparr>ht_queues := (ht_queues ht)[tid := q']\<rparr>)
   }"

text \<open>
  The code returns a pointer to the slot it leaves behind; its callers read the slot before the
  next push, so the model returns the item.
\<close>

definition dramblast_pop_queue :: "dramblast_ht \<Rightarrow> nat \<Rightarrow> (dramblast_queue_item \<times> dramblast_ht) option" where
  "dramblast_pop_queue ht tid = do {
     q \<leftarrow> rd (ht_queues ht) tid;
     queue_tail_slot \<leftarrow> rd (find_queue q) (unat (find_queue_tail q));
     let q' = q\<lparr>find_queue_tail := (find_queue_tail q + 1) AND (find_queue_size q - 1)\<rparr>;
     Some (queue_tail_slot, ht\<lparr>ht_queues := (ht_queues ht)[tid := q']\<rparr>)
   }"

section \<open>The contract\<close>

text \<open>Pushing a list of items, popping a number of them.\<close>

fun push_all :: "('s \<Rightarrow> nat \<Rightarrow> 'a \<Rightarrow> 's option) \<Rightarrow> 's \<Rightarrow> nat \<Rightarrow> 'a list \<Rightarrow> 's option" where
  "push_all push s i [] = Some s"
| "push_all push s i (x # xs) = do { s' \<leftarrow> push s i x; push_all push s' i xs }"

fun pop_many :: "('s \<Rightarrow> nat \<Rightarrow> ('a \<times> 's) option) \<Rightarrow> 's \<Rightarrow> nat \<Rightarrow> nat \<Rightarrow> ('a list \<times> 's) option" where
  "pop_many pop s i 0 = Some ([], s)"
| "pop_many pop s i (Suc n) =
     do { (x, s') \<leftarrow> pop s i; (xs, s'') \<leftarrow> pop_many pop s' i n; Some (x # xs, s'') }"

locale queue_bank =
  fixes qinv :: "'s \<Rightarrow> nat \<Rightarrow> bool"
    and items :: "'s \<Rightarrow> nat \<Rightarrow> 'a list"
    and cap :: "'s \<Rightarrow> nat \<Rightarrow> nat"
    and qsize :: "'s \<Rightarrow> nat \<Rightarrow> u32 option"
    and push :: "'s \<Rightarrow> nat \<Rightarrow> 'a \<Rightarrow> 's option"
    and pop :: "'s \<Rightarrow> nat \<Rightarrow> ('a \<times> 's) option"
  assumes qsize_items: "qinv s i \<Longrightarrow> \<exists>n. qsize s i = Some n \<and> unat n = length (items s i)"
    and items_bound: "qinv s i \<Longrightarrow> length (items s i) < cap s i"
    and push_items: "qinv s i \<Longrightarrow> Suc (length (items s i)) < cap s i \<Longrightarrow>
      \<exists>s'. push s i x = Some s' \<and> qinv s' i \<and> items s' i = items s i @ [x] \<and> cap s' i = cap s i"
    and pop_items: "qinv s i \<Longrightarrow> items s i = x # xs \<Longrightarrow>
      \<exists>s'. pop s i = Some (x, s') \<and> qinv s' i \<and> items s' i = xs \<and> cap s' i = cap s i"
begin

lemma push_all_items:
  assumes "qinv s i" and "length (items s i) + length xs < cap s i"
  shows "\<exists>s'. push_all push s i xs = Some s' \<and> qinv s' i \<and> items s' i = items s i @ xs \<and>
    cap s' i = cap s i"
  using assms
proof (induction xs arbitrary: s)
  case Nil
  then show ?case by simp
next
  case (Cons x xs)
  obtain s' where s': "push s i x = Some s'" "qinv s' i" "items s' i = items s i @ [x]"
    "cap s' i = cap s i" using push_items [OF Cons.prems(1), of x] Cons.prems(2) by auto
  then show ?case using Cons.IH [OF s'(2)] Cons.prems(2) by auto
qed

lemma pop_many_items:
  assumes "qinv s i" and "items s i = xs @ ys"
  shows "\<exists>s'. pop_many pop s i (length xs) = Some (xs, s') \<and> qinv s' i \<and> items s' i = ys \<and>
    cap s' i = cap s i"
  using assms
proof (induction xs arbitrary: s)
  case Nil
  then show ?case by simp
next
  case (Cons x xs)
  obtain s' where s': "pop s i = Some (x, s')" "qinv s' i" "items s' i = xs @ ys" "cap s' i = cap s i"
    using pop_items [OF Cons.prems(1), of x "xs @ ys"] Cons.prems(2) by auto
  then show ?case using Cons.IH [OF s'(2,3)] by auto
qed

text \<open>First in, first out.\<close>

lemma fifo:
  assumes "qinv s i" and "items s i = []" and "length xs < cap s i"
  shows "\<exists>s' s''. push_all push s i xs = Some s' \<and> pop_many pop s' i (length xs) = Some (xs, s'') \<and>
    qinv s'' i \<and> items s'' i = []"
  using push_all_items [OF assms(1), of xs] pop_many_items [of _ i xs "[]"] assms(2,3) by fastforce

end

section \<open>The rings satisfy the contract\<close>

definition ring_ok :: "'i request_ring \<Rightarrow> bool" where
  "ring_ok q \<longleftrightarrow>
     (\<exists>n<32. find_queue_size q = 2 ^ n) \<and> length (find_queue q) = unat (find_queue_size q) \<and>
     find_queue_head q < find_queue_size q \<and> find_queue_tail q < find_queue_size q"

definition ring_len :: "'i request_ring \<Rightarrow> nat" where
  "ring_len q = slot_dist (unat (find_queue_size q)) (unat (find_queue_tail q)) (unat (find_queue_head q))"

definition ring_items :: "'i request_ring \<Rightarrow> 'i list" where
  "ring_items q =
     List.map (\<lambda>i. find_queue q ! ((unat (find_queue_tail q) + i) mod unat (find_queue_size q)))
       [0..<ring_len q]"

lemma unat_two_power32:
  assumes "n < 32"
  shows "unat ((2::u32) ^ n) = 2 ^ n"
proof -
  have "(2::nat) ^ n < 2 ^ 32" using assms by (intro power_strict_increasing) auto
  then have "unat (of_nat (2 ^ n) :: u32) = 2 ^ n" by (simp only: unat_of_nat) simp
  then show ?thesis by (simp only: of_nat_power of_nat_numeral)
qed

lemma ring_mask:
  assumes "ring_ok q"
  shows "unat (x AND (find_queue_size q - 1)) = unat x mod unat (find_queue_size q)"
  using assms by (auto simp: ring_ok_def and_mask_two_power unat_two_power32)

lemma ring_size_dvd:
  assumes "ring_ok q"
  shows "unat (find_queue_size q) dvd 2 ^ 32"
proof -
  obtain n where n: "n < 32" "find_queue_size q = 2 ^ n" using assms by (auto simp: ring_ok_def)
  then have "(2::nat) ^ n dvd 2 ^ 32" by (intro le_imp_power_dvd) simp
  then show ?thesis by (simp only: n(2) unat_two_power32 [OF n(1)])
qed

lemma unat_diff_mod:
  fixes x y :: u32
  assumes "n dvd 2 ^ 32" and "unat y < n"
  shows "unat (x - y) mod n = (unat x + n - unat y) mod n"
proof -
  obtain m where m: "2 ^ 32 = n * m" using assms(1) by (auto simp: dvd_def)
  have b: "unat x < 2 ^ LENGTH(32)" by (rule unsigned_less)
  have "n \<le> 2 ^ 32" using assms(1) by (rule dvd_imp_le) simp
  then have y: "unat y \<le> 2 ^ 32" using assms(2) by simp
  have "unat (x - y) = (unat x + (2 ^ 32 - unat y)) mod 2 ^ 32"
    using b y by (auto simp: unat_sub_if' mod_if)
  then have "unat (x - y) mod n = (unat x + (2 ^ 32 - unat y)) mod n"
    using assms(1) by (simp add: mod_mod_cancel)
  also have "2 ^ 32 - unat y = (n - unat y) + n * (m - 1)"
    using m assms(2) by (cases m) auto
  also have "(unat x + ((n - unat y) + n * (m - 1))) mod n = (unat x + (n - unat y)) mod n"
    by (simp flip: add.assoc)
  finally show ?thesis using assms(2) by simp
qed

lemma ring_nat:
  assumes "ring_ok q"
  shows "0 < unat (find_queue_size q)"
    and "unat (find_queue_head q) < unat (find_queue_size q)"
    and "unat (find_queue_tail q) < unat (find_queue_size q)"
    and "length (find_queue q) = unat (find_queue_size q)"
  using assms by (auto simp: ring_ok_def word_less_nat_alt)

lemma ring_len_less: "ring_ok q \<Longrightarrow> ring_len q < unat (find_queue_size q)"
  using ring_nat(1) [of q] by (simp add: ring_len_def)

lemma length_ring_items [simp]: "length (ring_items q) = ring_len q"
  by (simp add: ring_items_def)

lemma ring_head:
  "ring_ok q \<Longrightarrow>
   unat (find_queue_head q) = (unat (find_queue_tail q) + ring_len q) mod unat (find_queue_size q)"
  using slot_dist_reaches [OF ring_nat(3,2) [of q]] by (simp add: ring_len_def)

lemma slot_inject:
  assumes "t < n" and "i < n" and "j < n" and "(t + i) mod n = (t + j) mod n"
  shows "i = (j::nat)"
  using slot_dist_unique [OF assms(1,2)] slot_dist_unique [OF assms(1,3)] assms(4) by metis

definition push_ring :: "'i request_ring \<Rightarrow> 'i \<Rightarrow> 'i request_ring" where
  "push_ring q it = q\<lparr>find_queue := (find_queue q)[unat (find_queue_head q) := it],
     find_queue_head := (find_queue_head q + 1) AND (find_queue_size q - 1)\<rparr>"

definition pop_ring :: "'i request_ring \<Rightarrow> 'i request_ring" where
  "pop_ring q = q\<lparr>find_queue_tail := (find_queue_tail q + 1) AND (find_queue_size q - 1)\<rparr>"

lemma unat_inc_ring:
  assumes "ring_ok q" and "x < find_queue_size q"
  shows "unat ((x + 1) AND (find_queue_size q - 1)) = Suc (unat x) mod unat (find_queue_size q)"
  using unat_inc [OF assms(2)] by (simp add: ring_mask [OF assms(1)])

lemma push_ring_ok:
  assumes "ring_ok q"
  shows "ring_ok (push_ring q it)"
proof -
  have "Suc (unat (find_queue_head q)) mod unat (find_queue_size q) < unat (find_queue_size q)"
    using ring_nat(1) [OF assms] by simp
  then show ?thesis
    using assms unat_inc_ring [OF assms, of "find_queue_head q"]
    by (auto simp: ring_ok_def push_ring_def word_less_nat_alt)
qed

lemma pop_ring_ok:
  assumes "ring_ok q"
  shows "ring_ok (pop_ring q)"
proof -
  have "Suc (unat (find_queue_tail q)) mod unat (find_queue_size q) < unat (find_queue_size q)"
    using ring_nat(1) [OF assms] by simp
  then show ?thesis
    using assms unat_inc_ring [OF assms, of "find_queue_tail q"]
    by (auto simp: ring_ok_def pop_ring_def word_less_nat_alt)
qed

lemma push_ring_items:
  assumes ok: "ring_ok q" and room: "Suc (ring_len q) < unat (find_queue_size q)"
  shows "ring_items (push_ring q it) = ring_items q @ [it]"
proof -
  let ?n = "unat (find_queue_size q)" and ?t = "unat (find_queue_tail q)" and ?l = "ring_len q"
  have h: "unat (find_queue_head (push_ring q it)) = (?t + Suc ?l) mod ?n"
    using unat_inc_ring [OF ok, of "find_queue_head q"] ok ring_head [OF ok]
    by (simp add: push_ring_def ring_ok_def mod_Suc_eq)
  have len: "ring_len (push_ring q it) = Suc ?l"
    using slot_dist_unique [OF ring_nat(3) [OF ok] room] h
    unfolding ring_len_def by (simp add: push_ring_def)
  have old: "(find_queue q)[unat (find_queue_head q) := it] ! ((?t + i) mod ?n)
      = find_queue q ! ((?t + i) mod ?n)" if "i < ?l" for i
  proof -
    have "(?t + i) mod ?n \<noteq> unat (find_queue_head q)"
      using slot_inject [OF ring_nat(3) [OF ok], of i ?l] ring_head [OF ok] that room by auto
    then show ?thesis by simp
  qed
  have new: "(find_queue q)[unat (find_queue_head q) := it] ! ((?t + ?l) mod ?n) = it"
    using ring_head [OF ok] ring_nat [OF ok] by simp
  have "find_queue (push_ring q it) = (find_queue q)[unat (find_queue_head q) := it]"
    "unat (find_queue_tail (push_ring q it)) = ?t" "unat (find_queue_size (push_ring q it)) = ?n"
    by (simp_all add: push_ring_def)
  then show ?thesis unfolding ring_items_def len using old new by simp
qed

lemma pop_ring_items:
  assumes ok: "ring_ok q" and ne: "ring_items q = x # xs"
  shows "find_queue q ! unat (find_queue_tail q) = x" and "ring_items (pop_ring q) = xs"
proof -
  let ?n = "unat (find_queue_size q)" and ?t = "unat (find_queue_tail q)"
  have l: "ring_len q = Suc (length xs)" using ne by (metis length_Cons length_ring_items)
  then have "ring_items q ! 0 = find_queue q ! (?t mod ?n)"
    by (simp add: ring_items_def del: upt_Suc)
  then show "find_queue q ! ?t = x" using ne ring_nat(3) [OF ok] by simp
  have t: "unat (find_queue_tail (pop_ring q)) = Suc ?t mod ?n"
    using unat_inc_ring [OF ok, of "find_queue_tail q"] ok by (simp add: pop_ring_def ring_ok_def)
  have "unat (find_queue_head q) = (Suc ?t mod ?n + length xs) mod ?n"
    using ring_head [OF ok] l by (simp add: mod_add_left_eq)
  then have len: "ring_len (pop_ring q) = length xs"
    using slot_dist_unique [of "Suc ?t mod ?n" ?n "length xs"] t l ring_len_less [OF ok] ring_nat(1) [OF ok]
    unfolding ring_len_def by (simp add: pop_ring_def)
  show "ring_items (pop_ring q) = xs"
  proof (rule nth_equalityI)
    show "length (ring_items (pop_ring q)) = length xs" by (simp add: len)
    fix i assume "i < length (ring_items (pop_ring q))"
    then have i: "i < length xs" by (simp add: len)
    have "ring_items (pop_ring q) ! i = find_queue q ! ((Suc ?t mod ?n + i) mod ?n)"
      using i t by (simp add: ring_items_def len) (simp add: pop_ring_def)
    also have "\<dots> = ring_items q ! Suc i"
      using i l by (simp add: ring_items_def mod_add_left_eq del: upt_Suc)
    finally show "ring_items (pop_ring q) ! i = xs ! i" using ne by simp
  qed
qed

text \<open>The operations on the queues of a table.\<close>

definition queue_ok :: "dramblast_ht \<Rightarrow> nat \<Rightarrow> bool" where
  "queue_ok ht tid \<longleftrightarrow> tid < length (ht_queues ht) \<and> ring_ok (ht_queues ht ! tid)"

definition pending :: "dramblast_ht \<Rightarrow> nat \<Rightarrow> dramblast_queue_item list" where
  "pending ht tid = ring_items (ht_queues ht ! tid)"

definition queue_cap :: "dramblast_ht \<Rightarrow> nat \<Rightarrow> nat" where
  "queue_cap ht tid = unat (find_queue_size (ht_queues ht ! tid))"

definition push_item :: "dramblast_ht \<Rightarrow> nat \<Rightarrow> dramblast_queue_item \<Rightarrow> dramblast_ht option" where
  "push_item ht tid it =
     dramblast_push_queue ht (item_idx it) (item_k it) (item_visit_count it) (item_id it) tid"

definition set_queue :: "dramblast_ht \<Rightarrow> nat \<Rightarrow> dramblast_queue \<Rightarrow> dramblast_ht" where
  "set_queue ht tid q = ht\<lparr>ht_queues := (ht_queues ht)[tid := q]\<rparr>"

lemma push_item_eq:
  assumes "queue_ok ht tid"
  shows "push_item ht tid it = Some (set_queue ht tid (push_ring (ht_queues ht ! tid) it))"
  using assms ring_nat [of "ht_queues ht ! tid"]
  by (cases it) (simp add: queue_ok_def push_item_def dramblast_push_queue_def push_ring_def set_queue_def)

lemma pop_queue_eq:
  assumes "queue_ok ht tid"
  shows "dramblast_pop_queue ht tid =
    Some (find_queue (ht_queues ht ! tid) ! unat (find_queue_tail (ht_queues ht ! tid)),
          set_queue ht tid (pop_ring (ht_queues ht ! tid)))"
  using assms ring_nat [of "ht_queues ht ! tid"]
  by (simp add: queue_ok_def dramblast_pop_queue_def pop_ring_def set_queue_def)

lemma queue_size_eq:
  assumes "queue_ok ht tid"
  shows "\<exists>n. dramblast_get_queue_sz ht tid = Some n \<and> unat n = length (pending ht tid)"
proof -
  let ?q = "ht_queues ht ! tid"
  have ok: "ring_ok ?q" and t: "tid < length (ht_queues ht)" using assms by (auto simp: queue_ok_def)
  have "unat ((find_queue_head ?q - find_queue_tail ?q) AND (find_queue_size ?q - 1)) = ring_len ?q"
    using unat_diff_mod [OF ring_size_dvd [OF ok] ring_nat(3) [OF ok]]
    by (simp add: ring_mask [OF ok] ring_len_def slot_dist_def)
  then show ?thesis using t by (simp add: dramblast_get_queue_sz_def pending_def)
qed

lemma set_queue_simps [simp]:
  "ht_table (set_queue ht tid q) = ht_table ht"
  "ht_len (set_queue ht tid q) = ht_len ht"
  "length (ht_queues (set_queue ht tid q)) = length (ht_queues ht)"
  "tid < length (ht_queues ht) \<Longrightarrow> ht_queues (set_queue ht tid q) ! tid = q"
  "tid' \<noteq> tid \<Longrightarrow> ht_queues (set_queue ht tid q) ! tid' = ht_queues ht ! tid'"
  by (simp_all add: set_queue_def)

lemma queue_size_ring_simps [simp]:
  "find_queue_size (push_ring q it) = find_queue_size q"
  "find_queue_size (pop_ring q) = find_queue_size q"
  by (simp_all add: push_ring_def pop_ring_def)

interpretation dram_rings: queue_bank queue_ok pending queue_cap dramblast_get_queue_sz
    push_item dramblast_pop_queue
proof unfold_locales
  fix s i
  assume ok: "queue_ok s i"
  then have r: "ring_ok (ht_queues s ! i)" "i < length (ht_queues s)" by (auto simp: queue_ok_def)
  show "\<exists>n. dramblast_get_queue_sz s i = Some n \<and> unat n = length (pending s i)"
    by (rule queue_size_eq [OF ok])
  show "length (pending s i) < queue_cap s i"
    using ring_len_less [OF r(1)] by (simp add: pending_def queue_cap_def)
  show "\<exists>s'. push_item s i x = Some s' \<and> queue_ok s' i \<and> pending s' i = pending s i @ [x] \<and>
      queue_cap s' i = queue_cap s i"
    if "Suc (length (pending s i)) < queue_cap s i" for x
    using push_item_eq [OF ok] push_ring_items [OF r(1)] push_ring_ok [OF r(1)] r that
    by (simp add: pending_def queue_cap_def queue_ok_def)
  show "\<exists>s'. dramblast_pop_queue s i = Some (x, s') \<and> queue_ok s' i \<and> pending s' i = xs \<and>
      queue_cap s' i = queue_cap s i"
    if "pending s i = x # xs" for x xs
    using pop_queue_eq [OF ok] pop_ring_items [OF r(1)] pop_ring_ok [OF r(1)] r that
    by (simp add: pending_def queue_cap_def queue_ok_def)
qed

text \<open>The rings never touch the table, its size or another core's ring.\<close>

definition same_but_queue :: "nat \<Rightarrow> dramblast_ht \<Rightarrow> dramblast_ht \<Rightarrow> bool" where
  "same_but_queue tid ht ht' \<longleftrightarrow>
     ht_table ht' = ht_table ht \<and> ht_len ht' = ht_len ht \<and>
     length (ht_queues ht') = length (ht_queues ht) \<and>
     (\<forall>t. t \<noteq> tid \<longrightarrow> ht_queues ht' ! t = ht_queues ht ! t)"

lemma same_but_queue_refl [simp]: "same_but_queue tid ht ht"
  by (simp add: same_but_queue_def)

lemma same_but_queue_trans:
  "same_but_queue tid a b \<Longrightarrow> same_but_queue tid b c \<Longrightarrow> same_but_queue tid a c"
  by (auto simp: same_but_queue_def)

lemma push_item_same: "push_item ht tid it = Some ht' \<Longrightarrow> same_but_queue tid ht ht'"
  by (auto simp: push_item_def dramblast_push_queue_def same_but_queue_def Let_def
      split: Option.bind_splits)

lemma pop_queue_same: "dramblast_pop_queue ht tid = Some (it, ht') \<Longrightarrow> same_but_queue tid ht ht'"
  by (auto simp: dramblast_pop_queue_def same_but_queue_def Let_def split: Option.bind_splits)

text \<open>
  C26: an empty ring of a core, wherever its head and tail stand, takes any list of fewer items
  than its size; the ring then reports exactly that many items, popping as many returns them
  in the order they were pushed, and leaves the ring empty again.
\<close>

theorem dramblast_queue_fifo:
  assumes "queue_ok ht tid" and "pending ht tid = []" and "length its < queue_cap ht tid"
  shows "\<exists>ht1 ht2 n. push_all push_item ht tid its = Some ht1 \<and>
    dramblast_get_queue_sz ht1 tid = Some n \<and> unat n = length its \<and>
    pop_many dramblast_pop_queue ht1 tid (length its) = Some (its, ht2) \<and>
    dramblast_get_queue_sz ht2 tid = Some 0"
proof -
  obtain ht1 where p: "push_all push_item ht tid its = Some ht1" "queue_ok ht1 tid"
    "pending ht1 tid = its" using dram_rings.push_all_items [OF assms(1), of its] assms(2,3) by auto
  obtain ht2 where q: "pop_many dramblast_pop_queue ht1 tid (length its) = Some (its, ht2)"
    "queue_ok ht2 tid" "pending ht2 tid = []"
    using dram_rings.pop_many_items [OF p(2), of its "[]"] p(3) by auto
  obtain n where n: "dramblast_get_queue_sz ht1 tid = Some n" "unat n = length its"
    using dram_rings.qsize_items [OF p(2)] p(3) by auto
  obtain m where "dramblast_get_queue_sz ht2 tid = Some m" "unat m = 0"
    using dram_rings.qsize_items [OF q(2)] q(3) by auto
  then show ?thesis using p(1) q(1) n by (auto simp: unat_eq_zero)
qed

text \<open>A ring whose head and tail both stand at \<open>at\<close>.\<close>

definition fresh_ring :: "u32 \<Rightarrow> dramblast_queue" where
  "fresh_ring at = \<lparr>find_queue = replicate 64 \<lparr>item_k = 0, item_idx = 0, item_visit_count = 0, item_id = 0\<rparr>,
     find_queue_head = at, find_queue_tail = at, find_queue_size = DRAMBLAST_FIND_QUEUE_SIZE\<rparr>"

lemma fresh_ring_ok:
  assumes "at < 64"
  shows "ring_ok (fresh_ring at)" and "ring_items (fresh_ring at) = []"
proof -
  have "(64::u32) = 2 ^ 6" by simp
  then show "ring_ok (fresh_ring at)" using assms
    by (auto simp: ring_ok_def fresh_ring_def DRAMBLAST_FIND_QUEUE_SIZE_def intro!: exI [of _ 6])
  show "ring_items (fresh_ring at) = []"
    by (simp add: ring_items_def ring_len_def fresh_ring_def slot_dist_def DRAMBLAST_FIND_QUEUE_SIZE_def)
qed

definition sample_items :: "dramblast_queue_item list" where
  "sample_items =
     List.map (\<lambda>i. \<lparr>item_k = i, item_idx = 0, item_visit_count = 0, item_id = 0\<rparr>) [1, 2, 3]"

theorem dramblast_queue_fifo_witness:
  "\<exists>ht1 ht2. push_all push_item \<lparr>ht_table = [], ht_len = 0, ht_queues = [fresh_ring 62]\<rparr> 0
      sample_items = Some ht1 \<and> pop_many dramblast_pop_queue ht1 0 3 = Some (sample_items, ht2)"
proof -
  let ?ht = "\<lparr>ht_table = [], ht_len = 0, ht_queues = [fresh_ring 62]\<rparr>"
  have "ring_ok (fresh_ring 62)" "ring_items (fresh_ring 62) = []"
    by (rule fresh_ring_ok, simp)+
  then have "queue_ok ?ht 0" "pending ?ht 0 = []" by (simp_all add: queue_ok_def pending_def)
  moreover have "queue_cap ?ht 0 = 64"
    by (simp add: queue_cap_def fresh_ring_def DRAMBLAST_FIND_QUEUE_SIZE_def)
  moreover have "length sample_items = 3" by (simp add: sample_items_def)
  ultimately show ?thesis using dramblast_queue_fifo [of ?ht 0 sample_items] by force
qed

end
