(* ===== verification/Dramblast.thy ===== *)
theory Dramblast
  imports Dram_Queue Flow_Table
begin

text \<open>
  \<open>l2fwd/libsashstore/dramblast.c\<close>, the bucket hash and the insert routine.  The CRC instruction
  is the parameter \<open>crc\<close>; the prefetch instruction has no effect on the state and is left out.
  The \<open>goto try_insert\<close> loop is a \<open>partial_function\<close>, so that termination is a theorem.  The
  insert is refined to \<open>Probing\<close>: buckets of four slots only matter for the home slot, which
  is a multiple of four.
\<close>

section \<open>Hash\<close>

definition DRAMBLAST_BUCKET_IDX_MASK :: u64 where
  "DRAMBLAST_BUCKET_IDX_MASK = NOT 0x3"

definition dramblast_hash :: "(u64 \<Rightarrow> u64 \<Rightarrow> u64) \<Rightarrow> dramblast_ht \<Rightarrow> u64 \<Rightarrow> u64" where
  "dramblast_hash crc ht k =
     (let hash = crc 0 k in (hash AND (ht_len ht - 1)) AND DRAMBLAST_BUCKET_IDX_MASK)"

section \<open>Insert\<close>

text \<open>The 16-byte compare-and-swap on a slot, expecting all zero.\<close>

definition dramblast_cas ::
  "dramblast_kv list \<Rightarrow> nat \<Rightarrow> dramblast_kv \<Rightarrow> dramblast_kv list option" where
  "dramblast_cas T p new =
     (if kv_k (T ! p) = 0 \<and> kv_v (T ! p) = 0 then Some (T[p := new]) else None)"

partial_function (option) try_insert ::
  "dramblast_ht \<Rightarrow> u64 \<Rightarrow> u64 \<Rightarrow> u64 \<Rightarrow> u64 \<Rightarrow> (int \<times> dramblast_ht) option" where
  "try_insert ht k v idx count =
     (case rd (ht_table ht) (unat idx) of
        None \<Rightarrow> None
      | Some kv \<Rightarrow>
          let count = count + 1 in
          (case (if kv_k kv = 0
                 then dramblast_cas (ht_table ht) (unat idx) \<lparr>kv_k = k, kv_v = v\<rparr> else None) of
             Some T \<Rightarrow> Some (0, ht\<lparr>ht_table := T\<rparr>)
           | None \<Rightarrow>
               if kv_k kv = k
               then Some (0, ht\<lparr>ht_table := (ht_table ht)[unat idx := kv\<lparr>kv_v := v\<rparr>]\<rparr>)
               else
                 let idx = (idx + 1) AND (ht_len ht - 1) in
                 if count \<ge> ht_len ht then Some (-1, ht)
                 else try_insert ht k v idx count))"

definition dramblast_insert_one ::
  "(u64 \<Rightarrow> u64 \<Rightarrow> u64) \<Rightarrow> dramblast_ht \<Rightarrow> u64 \<Rightarrow> u64 \<Rightarrow> (int \<times> dramblast_ht) option" where
  "dramblast_insert_one crc ht k v =
     (let idx = dramblast_hash crc ht k; count = 0
      in if k = 0 then Some (-1, ht) else try_insert ht k v idx count)"

section \<open>Index arithmetic\<close>

lemma unat_and_not_3: "unat (x AND NOT 3) = 4 * (unat x div 4)" for x :: u64
proof -
  have "x = (x AND NOT 3) + (x AND 3)"
    by (subst disjunctive_add) (auto simp: bit_simps simp flip: and.left_commute bit.conj_disj_distrib)
  then have "x AND NOT 3 = x - (x AND 3)" by (metis add_diff_cancel_right')
  moreover have "x AND 3 \<le> x" by (rule word_and_le2)
  ultimately have "unat (x AND NOT 3) = unat x - unat (x AND 3)" by (simp add: unat_sub)
  also have "unat (x AND 3) = unat x mod 4" using and_mask_two_power [of x 2] by simp
  finally show ?thesis by (simp add: minus_mod_eq_mult_div)
qed

section \<open>The table as a probing table\<close>

definition dview :: "dramblast_ht \<Rightarrow> (u64 \<times> u64) list" where
  "dview ht = List.map (\<lambda>kv. (kv_k kv, kv_v kv)) (ht_table ht)"

definition dhome :: "(u64 \<Rightarrow> u64 \<Rightarrow> u64) \<Rightarrow> u64 \<Rightarrow> u64 \<Rightarrow> nat" where
  "dhome crc len k = unat ((crc 0 k AND (len - 1)) AND DRAMBLAST_BUCKET_IDX_MASK)"

definition dram_map :: "dramblast_ht \<Rightarrow> u64 \<rightharpoonup> u64" where
  "dram_map ht = tab_map 0 (dview ht)"

definition dram_inv :: "(u64 \<Rightarrow> u64 \<Rightarrow> u64) \<Rightarrow> dramblast_ht \<Rightarrow> bool" where
  "dram_inv crc ht \<longleftrightarrow>
     pow2_u64 (ht_len ht) \<and> length (ht_table ht) = unat (ht_len ht) \<and>
     (\<forall>kv \<in> set (ht_table ht). kv_k kv = 0 \<longrightarrow> kv_v kv = 0) \<and>
     wf_probe 0 (dhome crc (ht_len ht)) (dview ht)"

definition dstore :: "dramblast_ht \<Rightarrow> nat \<Rightarrow> u64 \<Rightarrow> u64 \<Rightarrow> dramblast_ht" where
  "dstore ht p k v = ht\<lparr>ht_table := (ht_table ht)[p := \<lparr>kv_k = k, kv_v = v\<rparr>]\<rparr>"

lemma length_dview [simp]: "length (dview ht) = length (ht_table ht)"
  by (simp add: dview_def)

lemma nth_dview [simp]:
  "p < length (ht_table ht) \<Longrightarrow> dview ht ! p = (kv_k (ht_table ht ! p), kv_v (ht_table ht ! p))"
  by (simp add: dview_def)

lemma dstore_simps [simp]:
  "dview (dstore ht p k v) = (dview ht)[p := (k, v)]"
  "ht_len (dstore ht p k v) = ht_len ht"
  "ht_queues (dstore ht p k v) = ht_queues ht"
  "length (ht_table (dstore ht p k v)) = length (ht_table ht)"
  by (simp_all add: dview_def dstore_def map_update)

lemma dhome_eq: "pow2_u64 len \<Longrightarrow> dhome crc len k = 4 * (unat (crc 0 k) mod unat len div 4)"
  by (simp only: dhome_def DRAMBLAST_BUCKET_IDX_MASK_def unat_and_not_3 unat_and_mask)

lemma dhome_less:
  assumes "pow2_u64 len"
  shows "dhome crc len k < unat len"
proof -
  have "unat (crc 0 k) mod unat len < unat len" using pow2_pos [OF assms] by simp
  then show ?thesis unfolding dhome_eq [OF assms] by linarith
qed

lemma dhome_dvd: "pow2_u64 len \<Longrightarrow> 4 dvd dhome crc len k"
  by (simp add: dhome_eq)

lemma dramblast_hash_home: "unat (dramblast_hash crc ht k) = dhome crc (ht_len ht) k"
  by (simp add: dramblast_hash_def dhome_def)

lemma dram_kv_update: "kv_k kv = k \<Longrightarrow> kv\<lparr>kv_v := v\<rparr> = \<lparr>kv_k = k, kv_v = v\<rparr>"
  by (cases kv) simp

section \<open>Insert as a probe\<close>

lemma try_insert_probe:
  assumes "pow2_u64 (ht_len ht)" and "length (ht_table ht) = unat (ht_len ht)"
    and "\<forall>kv \<in> set (ht_table ht). kv_k kv = 0 \<longrightarrow> kv_v kv = 0" and "k \<noteq> 0"
    and "idx < ht_len ht" and "unat count + Suc m = unat (ht_len ht)"
  shows "try_insert ht k v idx count =
    Some (case probe 0 (dview ht) k (unat idx) (Suc m) of
            Hit p \<Rightarrow> (0, dstore ht p k v)
          | Free p \<Rightarrow> (0, dstore ht p k v)
          | Exhausted \<Rightarrow> (-1, ht))"
  using assms(5,6)
proof (induction m arbitrary: idx count)
  case (0 idx count)
  let ?kv = "ht_table ht ! unat idx"
  have p: "unat idx < length (ht_table ht)" using 0 assms(2) by (simp add: word_less_nat_alt)
  have clean: "kv_k ?kv = 0 \<Longrightarrow> kv_v ?kv = 0" using p assms(3) by simp
  have lt: "count < ht_len ht" using 0 by (simp add: word_less_nat_alt)
  have c: "ht_len ht \<le> count + 1" using 0 unat_inc [OF lt] by (simp add: word_le_nat_alt)
  then show ?case
    using p clean assms(4)
    by (subst try_insert.simps)
      (auto simp: Let_def dramblast_cas_def dstore_def dram_kv_update split: option.splits)
next
  case (Suc m)
  let ?kv = "ht_table ht ! unat idx"
  let ?next = "(idx + 1) AND (ht_len ht - 1)"
  have p: "unat idx < length (ht_table ht)" using Suc.prems assms(2) by (simp add: word_less_nat_alt)
  have clean: "kv_k ?kv = 0 \<Longrightarrow> kv_v ?kv = 0" using p assms(3) by simp
  have lt: "count < ht_len ht" using Suc.prems by (simp add: word_less_nat_alt)
  have c: "unat (count + 1) + Suc m = unat (ht_len ht)" using Suc.prems unat_inc [OF lt] by simp
  then have nle: "\<not> ht_len ht \<le> count + 1" by (simp add: word_le_nat_alt)
  have nx: "unat ?next = Suc (unat idx) mod unat (ht_len ht)"
    using unat_inc [OF Suc.prems(1)] by (simp add: pow2_simps assms(1))
  then have "?next < ht_len ht" using pow2_pos [OF assms(1)] by (simp add: word_less_nat_alt)
  note IH = Suc.IH [OF this c]
  have "try_insert ht k v idx count =
     (if kv_k ?kv = 0 \<or> kv_k ?kv = k then Some (0, dstore ht (unat idx) k v)
      else try_insert ht k v ?next (count + 1))"
    using p clean nle
    by (subst try_insert.simps)
      (auto simp: Let_def dramblast_cas_def dstore_def dram_kv_update split: option.splits)
  then show ?case using IH p assms(2,4) nx by simp
qed

lemma dram_insert_probe:
  assumes "dram_inv crc ht" and "k \<noteq> 0"
  shows "dramblast_insert_one crc ht k v =
    Some (case probe 0 (dview ht) k (dhome crc (ht_len ht) k) (length (dview ht)) of
            Hit p \<Rightarrow> (0, dstore ht p k v)
          | Free p \<Rightarrow> (0, dstore ht p k v)
          | Exhausted \<Rightarrow> (-1, ht))"
proof -
  have i: "pow2_u64 (ht_len ht)" "length (ht_table ht) = unat (ht_len ht)"
    "\<forall>kv \<in> set (ht_table ht). kv_k kv = 0 \<longrightarrow> kv_v kv = 0"
    using assms(1) by (auto simp: dram_inv_def)
  obtain m where m: "unat (ht_len ht) = Suc m" using pow2_pos [OF i(1)] by (cases "unat (ht_len ht)") auto
  have "dramblast_hash crc ht k < ht_len ht"
    using dhome_less [OF i(1)] by (simp add: word_less_nat_alt dramblast_hash_home)
  from try_insert_probe [OF i assms(2) this, of 0 m v] show ?thesis
    using m i(2) assms(2) by (simp add: dramblast_insert_one_def dramblast_hash_home)
qed

section \<open>Correctness of the insert\<close>

lemma dram_inv_dstore:
  assumes "dram_inv crc ht" and "wf_probe 0 (dhome crc (ht_len ht)) ((dview ht)[p := (k, v)])" and "k \<noteq> 0"
  shows "dram_inv crc (dstore ht p k v)"
  using assms by (auto simp: dram_inv_def)
    (auto simp: dstore_def dest!: subsetD [OF set_update_subset_insert])

lemma dram_insert_cases:
  assumes "dram_inv crc ht" and "k \<noteq> 0"
  shows "\<exists>rc ht'. dramblast_insert_one crc ht k v = Some (rc, ht') \<and> dram_inv crc ht' \<and>
    ht_len ht' = ht_len ht \<and> ht_queues ht' = ht_queues ht \<and>
    (rc = 0 \<and> dram_map ht' = (dram_map ht)(k \<mapsto> v) \<and>
       (k \<in> dom (dram_map ht) \<or> (\<exists>kv \<in> set (ht_table ht). kv_k kv = 0)) \<or>
     rc = -1 \<and> ht' = ht \<and> dram_map ht k = None \<and> (\<forall>kv \<in> set (ht_table ht). kv_k kv \<noteq> 0))"
proof -
  have wf: "wf_probe 0 (dhome crc (ht_len ht)) (dview ht)" using assms(1) by (simp add: dram_inv_def)
  from wf assms(2) show ?thesis
  proof (cases rule: probe_home_cases)
    case (Hit p)
    then have "dram_inv crc (dstore ht p k v)"
      using assms wf_probe_update [OF wf Hit(2,3)] by (intro dram_inv_dstore)
    then show ?thesis
      using Hit tab_map_update [OF wf Hit(2,3) assms(2)]
      by (simp add: dram_insert_probe [OF assms] dram_map_def dom_def)
  next
    case (Free p)
    have room: "room_at 0 (dhome crc (ht_len ht)) (dview ht) k p"
      using probe_Free_room [OF wf assms(2) Free(1)] .
    then have "dram_inv crc (dstore ht p k v)"
      using assms wf_probe_store [OF wf room] by (intro dram_inv_dstore)
    moreover have "\<exists>kv \<in> set (ht_table ht). kv_k kv = 0"
      using Free(2,3) by (intro bexI [of _ "ht_table ht ! p"]) auto
    ultimately show ?thesis
      using Free tab_map_store [OF wf room]
      by (simp add: dram_insert_probe [OF assms] dram_map_def)
  next
    case Exhausted
    then have "\<forall>kv \<in> set (ht_table ht). kv_k kv \<noteq> 0"
      by (auto simp: occupied_def in_set_conv_nth)
    then show ?thesis
      using Exhausted assms(1) by (simp add: dram_insert_probe [OF assms] dram_map_def)
  qed
qed

interpretation dram_table: table_insert "dram_inv crc" dram_map "\<lambda>k. k \<noteq> 0" "\<lambda>_. True"
    "dramblast_insert_one crc" "\<lambda>rc. \<not> rc < 0" for crc
proof unfold_locales
  fix t k v r t'
  assume a: "dram_inv crc t" "k \<noteq> (0::u64)"
  show "\<exists>r t'. dramblast_insert_one crc t k v = Some (r, t')"
    using dram_insert_cases [OF a, of v] by blast
  assume i: "dramblast_insert_one crc t k v = Some (r, t')"
  show "dram_inv crc t'" using dram_insert_cases [OF a, of v] i by auto
  show "\<not> r < 0 \<Longrightarrow> dram_map t' = (dram_map t)(k \<mapsto> v)"
    using dram_insert_cases [OF a, of v] i by auto
  show "\<not> \<not> r < 0 \<Longrightarrow> t' = t \<and> dram_map t k = None"
    using dram_insert_cases [OF a, of v] i by auto
qed

lemma dram_insert_zero_key: "dramblast_insert_one crc ht 0 v = Some (-1, ht)"
  by (simp add: dramblast_insert_one_def)

text \<open>
  C24: on a well-formed table \<open>dramblast_insert_one\<close> always returns.  It rejects the key zero
  and, leaving the table alone, a new key when every slot is taken; in every other case it
  returns 0 and the table stands for its old map with the pair added or overwritten, still
  well formed, its size and the rings untouched.
\<close>

theorem dramblast_insert_one_spec:
  assumes "dram_inv crc ht"
  shows "\<exists>rc ht'. dramblast_insert_one crc ht k v = Some (rc, ht') \<and> dram_inv crc ht' \<and>
    ht_len ht' = ht_len ht \<and> ht_queues ht' = ht_queues ht \<and>
    (if k \<noteq> 0 \<and> (k \<in> dom (dram_map ht) \<or> (\<exists>kv \<in> set (ht_table ht). kv_k kv = 0))
     then rc = 0 \<and> dram_map ht' = (dram_map ht)(k \<mapsto> v)
     else rc = -1 \<and> ht' = ht)"
proof (cases "k = 0")
  case True
  then show ?thesis using assms by (simp add: dram_insert_zero_key)
next
  case False
  from dram_insert_cases [OF assms False, of v] show ?thesis using False by fastforce
qed

text \<open>The fresh table of a given size.\<close>

definition fresh_ht :: "u64 \<Rightarrow> dramblast_queue list \<Rightarrow> dramblast_ht" where
  "fresh_ht len qs = \<lparr>ht_table = replicate (unat len) \<lparr>kv_k = 0, kv_v = 0\<rparr>, ht_len = len, ht_queues = qs\<rparr>"

lemma fresh_ht_inv:
  assumes "pow2_u64 len"
  shows "dram_inv crc (fresh_ht len qs)" and "dram_map (fresh_ht len qs) = Map.empty"
proof -
  have "wf_probe 0 (dhome crc len) (dview (fresh_ht len qs))"
    "tab_map 0 (dview (fresh_ht len qs)) = Map.empty"
    using pow2_pos [OF assms] dhome_less [OF assms]
    by (intro wf_probe_empty; force simp: fresh_ht_def dview_def)+
  then show "dram_inv crc (fresh_ht len qs)" "dram_map (fresh_ht len qs) = Map.empty"
    using assms by (auto simp: dram_inv_def dram_map_def fresh_ht_def)
qed

lemma pow2_u64_8: "pow2_u64 8"
  unfolding pow2_u64_def by (intro exI [of _ 3]) simp

theorem dramblast_insert_one_spec_witness:
  "\<exists>rc ht'. dramblast_insert_one (\<lambda>_ k. k) (fresh_ht 8 []) 5 7 = Some (rc, ht') \<and> rc = 0 \<and>
    dram_map ht' 5 = Some 7"
  using dramblast_insert_one_spec [OF fresh_ht_inv(1) [OF pow2_u64_8], of "\<lambda>_ k. k" "[]" 5 7]
  by (auto simp: fresh_ht_def)

end
