(* ===== verification/Dram_Find.thy ===== *)
theory Dram_Find
  imports Dramblast "HOL-Library.Multiset"
begin

text \<open>
  \<open>l2fwd/libsashstore/dramblast.c\<close>, the batched lookup \<open>dramblast_find_batch_sync\<close>.  The AVX-512
  instructions it uses are defined lane by lane, as documented for them: a 64-byte bucket is the
  list of its eight 64-bit lanes, key and value of four slots alternating, a lane mask is an
  8-bit word.

  The lemmas reduce one bucket probe to the four slots it covers, show that the interleaved
  batch computes exactly what looking up one key after the other computes
  (\<open>lookup_from\<close>), and relate that to the map the table stands for.
\<close>

section \<open>Vector instructions\<close>

definition DRAMBLAST_SIMD_KEY_MASK :: u8 where
  "DRAMBLAST_SIMD_KEY_MASK = 0b01010101"

text \<open>
  \<open>_mm512_load_si512\<close> of the bucket at slot \<open>idx\<close>: the address must be 64-byte aligned (a
  multiple of four slots in an aligned table) and the eight lanes inside the table.
\<close>

definition mm512_load_bucket :: "dramblast_kv list \<Rightarrow> nat \<Rightarrow> u64 list option" where
  "mm512_load_bucket T idx =
     (if 4 dvd idx
      then do {
        kvs \<leftarrow> rd_bytes T idx 4;
        Some (concat (List.map (\<lambda>kv. [kv_k kv, kv_v kv]) kvs))
      }
      else None)"

definition mm512_set1_epi64 :: "u64 \<Rightarrow> u64 list" where
  "mm512_set1_epi64 x = replicate 8 x"

definition mm512_mask_cmpeq_epu64_mask :: "u8 \<Rightarrow> u64 list \<Rightarrow> u64 list \<Rightarrow> u8" where
  "mm512_mask_cmpeq_epu64_mask m a b = m AND horner_sum of_bool 2 (map2 (=) a b)"

definition builtin_ctz :: "u8 \<Rightarrow> nat" where
  "builtin_ctz m = length (takeWhile (\<lambda>i. \<not> bit m i) [0..<8])"

section \<open>The lookup\<close>

text \<open>
  The loop body after the pop: a result, or the next bucket and visit count to queue again.
\<close>

definition dramblast_probe ::
  "dramblast_ht \<Rightarrow> dramblast_queue_item \<Rightarrow> (dramblast_result + u64 \<times> u64) option" where
  "dramblast_probe ht queue_tail_slot = do {
     let idx = item_idx queue_tail_slot;
     let cnt = item_visit_count queue_tail_slot;
     cacheline \<leftarrow> mm512_load_bucket (ht_table ht) (unat idx);
     let key_vector = mm512_set1_epi64 (item_k queue_tail_slot);
     let zero_vector = mm512_set1_epi64 0;
     let key_cmp = mm512_mask_cmpeq_epu64_mask DRAMBLAST_SIMD_KEY_MASK cacheline key_vector;
     if key_cmp > 0 then do {
       let offset = builtin_ctz key_cmp;
       v \<leftarrow> rd cacheline (offset + 1);
       Some (Inl \<lparr>res_v = v, res_id = item_id queue_tail_slot, res_status = DRAMBLAST_FOUND\<rparr>)
     }
     else do {
       let cnt = cnt + 4;
       if cnt \<ge> ht_len ht then
         Some (Inl \<lparr>res_v = 0, res_id = item_id queue_tail_slot, res_status = DRAMBLAST_TABLE_FULL\<rparr>)
       else do {
         let ept_cmp = mm512_mask_cmpeq_epu64_mask DRAMBLAST_SIMD_KEY_MASK cacheline zero_vector;
         if ept_cmp = 0 then do {
           let idx = idx + 4;
           let idx = idx AND (ht_len ht - 1);
           let idx = idx AND DRAMBLAST_BUCKET_IDX_MASK;
           Some (Inr (idx, cnt))
         }
         else
           Some (Inl \<lparr>res_v = 0, res_id = item_id queue_tail_slot, res_status = DRAMBLAST_ABSENT\<rparr>)
       }
     }
   }"

text \<open>The inner loop: push requests while there are any and the ring has room.\<close>

function dramblast_fill ::
  "(u64 \<Rightarrow> u64 \<Rightarrow> u64) \<Rightarrow> dramblast_ht \<Rightarrow> dramblast_arg list \<Rightarrow> nat \<Rightarrow> nat \<Rightarrow>
     (dramblast_ht \<times> nat) option" where
  "dramblast_fill crc ht args args_head tid =
     (if args_head < length args then do {
        sz \<leftarrow> dramblast_get_queue_sz ht tid;
        if sz < DRAMBLAST_FIND_QUEUE_SIZE - 1 then do {
          let arg = args ! args_head;
          let idx = dramblast_hash crc ht (arg_k arg);
          ht' \<leftarrow> dramblast_push_queue ht idx (arg_k arg) 0 (arg_id arg) tid;
          dramblast_fill crc ht' args (Suc args_head) tid
        }
        else Some (ht, args_head)
      }
      else Some (ht, args_head))"
  by pat_completeness auto
termination
  by (relation "measure (\<lambda>(crc, ht, args, h, tid). length args - h)") auto

declare dramblast_fill.simps [simp del]

text \<open>
  The outer loop.  The results written so far are the list \<open>results\<close>, so \<open>result_head\<close> is its
  length; the caller's array has room for \<open>args_len\<close> of them.
\<close>

partial_function (option) dramblast_find_loop ::
  "(u64 \<Rightarrow> u64 \<Rightarrow> u64) \<Rightarrow> dramblast_ht \<Rightarrow> dramblast_arg list \<Rightarrow> nat \<Rightarrow> dramblast_result list \<Rightarrow> nat \<Rightarrow>
     (dramblast_result list \<times> dramblast_ht) option" where
  "dramblast_find_loop crc ht args args_head results tid =
     (if length results < length args then do {
        (ht1, args_head') \<leftarrow> dramblast_fill crc ht args args_head tid;
        (queue_tail_slot, ht2) \<leftarrow> dramblast_pop_queue ht1 tid;
        r \<leftarrow> dramblast_probe ht2 queue_tail_slot;
        case r of
          Inl result \<Rightarrow> dramblast_find_loop crc ht2 args args_head' (results @ [result]) tid
        | Inr (idx, cnt) \<Rightarrow> do {
            ht3 \<leftarrow> dramblast_push_queue ht2 idx (item_k queue_tail_slot) cnt
                     (item_id queue_tail_slot) tid;
            dramblast_find_loop crc ht3 args args_head' results tid
          }
      }
      else Some (results, ht))"

definition dramblast_find_batch_sync ::
  "(u64 \<Rightarrow> u64 \<Rightarrow> u64) \<Rightarrow> dramblast_ht \<Rightarrow> dramblast_arg list \<Rightarrow> nat \<Rightarrow>
     (dramblast_result list \<times> dramblast_ht) option" where
  "dramblast_find_batch_sync crc ht args tid = dramblast_find_loop crc ht args 0 [] tid"

section \<open>One bucket\<close>

lemma bit_cmpeq:
  assumes "length a = 8" and "length b = 8" and "i < 8"
  shows "bit (mm512_mask_cmpeq_epu64_mask m a b) i \<longleftrightarrow> bit m i \<and> a ! i = b ! i"
  using assms
  by (simp add: mm512_mask_cmpeq_epu64_mask_def bit_and_iff bit_horner_sum_bit_word_iff)

lemma bit_key_mask:
  "bit DRAMBLAST_SIMD_KEY_MASK 0" "\<not> bit DRAMBLAST_SIMD_KEY_MASK 1"
  "bit DRAMBLAST_SIMD_KEY_MASK 2" "\<not> bit DRAMBLAST_SIMD_KEY_MASK 3"
  "bit DRAMBLAST_SIMD_KEY_MASK 4" "\<not> bit DRAMBLAST_SIMD_KEY_MASK 5"
  "bit DRAMBLAST_SIMD_KEY_MASK 6" "\<not> bit DRAMBLAST_SIMD_KEY_MASK 7"
  by (simp_all add: DRAMBLAST_SIMD_KEY_MASK_def)

lemma upt_8: "[0..<8] = [0, 1, 2, 3, 4, 5, 6, 7]"
  by (simp add: upt_rec)

lemma upt_4: "[0..<4] = [0, 1, 2, 3]"
  by (simp add: upt_rec)

lemma u8_zero_iff: "(m::u8) = 0 \<longleftrightarrow> (\<forall>i \<in> set [0..<8]. \<not> bit m i)"
  by (auto simp: bit_eq_iff)

text \<open>The comparison looks at the four key lanes only, and finds the first match.\<close>

lemma cmpeq_key_lanes:
  fixes k0 k1 k2 k3 v0 v1 v2 v3 x :: u64
  defines "m \<equiv> mm512_mask_cmpeq_epu64_mask DRAMBLAST_SIMD_KEY_MASK
    [k0, v0, k1, v1, k2, v2, k3, v3] (mm512_set1_epi64 x)"
  shows "m = 0 \<longleftrightarrow> k0 \<noteq> x \<and> k1 \<noteq> x \<and> k2 \<noteq> x \<and> k3 \<noteq> x"
    and "builtin_ctz m =
      (if k0 = x then 0 else if k1 = x then 2 else if k2 = x then 4 else if k3 = x then 6 else 8)"
proof -
  have bits: "bit m 0 = (k0 = x)" "bit m 1 = False" "bit m 2 = (k1 = x)" "bit m 3 = False"
    "bit m 4 = (k2 = x)" "bit m 5 = False" "bit m 6 = (k3 = x)" "bit m 7 = False"
    unfolding m_def using bit_key_mask
    by (simp_all add: bit_cmpeq mm512_set1_epi64_def nth_Cons')
  show "m = 0 \<longleftrightarrow> k0 \<noteq> x \<and> k1 \<noteq> x \<and> k2 \<noteq> x \<and> k3 \<noteq> x"
    unfolding u8_zero_iff upt_8 using bits by auto
  show "builtin_ctz m =
      (if k0 = x then 0 else if k1 = x then 2 else if k2 = x then 4 else if k3 = x then 6 else 8)"
    unfolding builtin_ctz_def upt_8 using bits by simp
qed

lemma load_bucket_lanes:
  assumes "4 dvd idx" and "idx + 4 \<le> length T"
  shows "mm512_load_bucket T idx = Some
    [kv_k (T ! idx), kv_v (T ! idx), kv_k (T ! (idx + 1)), kv_v (T ! (idx + 1)),
     kv_k (T ! (idx + 2)), kv_v (T ! (idx + 2)), kv_k (T ! (idx + 3)), kv_v (T ! (idx + 3))]"
proof -
  have "take 4 (drop idx T) = [T ! idx, T ! (idx + 1), T ! (idx + 2), T ! (idx + 3)]"
    using assms(2)
    by (intro nth_equalityI) (auto simp: less_Suc_eq numeral_eq_Suc)
  then show ?thesis using assms by (simp add: mm512_load_bucket_def)
qed

text \<open>
  The specification of a bucket: the first of its four slots that holds the key, whether one of
  them is empty, and the number of the following bucket.
\<close>

definition bucket_hit :: "(u64 \<times> u64) list \<Rightarrow> u64 \<Rightarrow> nat \<Rightarrow> u64 option" where
  "bucket_hit T k b = map_option (\<lambda>j. snd (T ! (b + j))) (find (\<lambda>j. fst (T ! (b + j)) = k) [0..<4])"

definition bucket_has_empty :: "(u64 \<times> u64) list \<Rightarrow> nat \<Rightarrow> bool" where
  "bucket_has_empty T b \<longleftrightarrow> (\<exists>j \<in> set [0..<4]. fst (T ! (b + j)) = 0)"

definition next_bucket :: "dramblast_ht \<Rightarrow> u64 \<Rightarrow> u64" where
  "next_bucket ht idx = ((idx + 4) AND (ht_len ht - 1)) AND DRAMBLAST_BUCKET_IDX_MASK"

lemma dramblast_probe_bucket:
  assumes "4 dvd unat (item_idx it)" and "unat (item_idx it) + 4 \<le> length (ht_table ht)"
  shows "dramblast_probe ht it = Some
    (case bucket_hit (dview ht) (item_k it) (unat (item_idx it)) of
       Some v \<Rightarrow> Inl \<lparr>res_v = v, res_id = item_id it, res_status = DRAMBLAST_FOUND\<rparr>
     | None \<Rightarrow>
         if ht_len ht \<le> item_visit_count it + 4
         then Inl \<lparr>res_v = 0, res_id = item_id it, res_status = DRAMBLAST_TABLE_FULL\<rparr>
         else if bucket_has_empty (dview ht) (unat (item_idx it))
         then Inl \<lparr>res_v = 0, res_id = item_id it, res_status = DRAMBLAST_ABSENT\<rparr>
         else Inr (next_bucket ht (item_idx it), item_visit_count it + 4))"
proof -
  have gt: "(0::u8) < m \<longleftrightarrow> m \<noteq> 0" for m by (simp add: word_gt_0)
  show ?thesis
    using assms
    by (simp add: dramblast_probe_def load_bucket_lanes cmpeq_key_lanes Let_def bucket_hit_def
        bucket_has_empty_def upt_4 next_bucket_def gt)
qed

section \<open>Looking up one key\<close>

text \<open>At most \<open>m\<close> buckets from \<open>b\<close> on; the last one is not searched for an empty slot.\<close>

fun lookup_from :: "(u64 \<times> u64) list \<Rightarrow> u64 \<Rightarrow> nat \<Rightarrow> nat \<Rightarrow> u64 \<times> u32" where
  "lookup_from T k b 0 = (0, DRAMBLAST_TABLE_FULL)"
| "lookup_from T k b (Suc m) =
     (case bucket_hit T k b of
        Some v \<Rightarrow> (v, DRAMBLAST_FOUND)
      | None \<Rightarrow>
          if m = 0 then (0, DRAMBLAST_TABLE_FULL)
          else if bucket_has_empty T b then (0, DRAMBLAST_ABSENT)
          else lookup_from T k ((b + 4) mod length T) m)"

definition geometry_ok :: "dramblast_ht \<Rightarrow> bool" where
  "geometry_ok ht \<longleftrightarrow>
     pow2_u64 (ht_len ht) \<and> 4 \<le> unat (ht_len ht) \<and> length (ht_table ht) = unat (ht_len ht)"

definition item_ok :: "dramblast_ht \<Rightarrow> dramblast_queue_item \<Rightarrow> bool" where
  "item_ok ht it \<longleftrightarrow>
     4 dvd unat (item_idx it) \<and> unat (item_idx it) < unat (ht_len ht) \<and>
     4 dvd unat (item_visit_count it) \<and> unat (item_visit_count it) < unat (ht_len ht)"

definition buckets_left :: "dramblast_ht \<Rightarrow> dramblast_queue_item \<Rightarrow> nat" where
  "buckets_left ht it = (unat (ht_len ht) - unat (item_visit_count it)) div 4"

definition resolve :: "dramblast_ht \<Rightarrow> dramblast_queue_item \<Rightarrow> dramblast_result" where
  "resolve ht it =
     (let (v, st) = lookup_from (dview ht) (item_k it) (unat (item_idx it)) (buckets_left ht it)
      in \<lparr>res_v = v, res_id = item_id it, res_status = st\<rparr>)"

definition arg_item :: "(u64 \<Rightarrow> u64 \<Rightarrow> u64) \<Rightarrow> dramblast_ht \<Rightarrow> dramblast_arg \<Rightarrow> dramblast_queue_item" where
  "arg_item crc ht a =
     \<lparr>item_k = arg_k a, item_idx = dramblast_hash crc ht (arg_k a), item_visit_count = 0,
      item_id = arg_id a\<rparr>"

lemma geometry_dvd:
  assumes "geometry_ok ht"
  shows "4 dvd unat (ht_len ht)"
proof -
  obtain n where n: "n < 64" "unat (ht_len ht) = 2 ^ n"
    using assms by (auto simp: geometry_ok_def elim: pow2_unat)
  then have "2 ^ 2 \<le> (2::nat) ^ n" using assms by (simp add: geometry_ok_def)
  then have "2 \<le> n" by (simp only: power_increasing_iff)
  then have "(2::nat) ^ 2 dvd 2 ^ n" by (rule le_imp_power_dvd)
  then show ?thesis by (simp add: n(2))
qed

lemma four_step: "4 dvd a \<Longrightarrow> 4 dvd b \<Longrightarrow> a < b \<Longrightarrow> a + 4 \<le> (b::nat)"
  by (auto simp: dvd_def)

lemma buckets_left_pos:
  assumes "geometry_ok ht" and "item_ok ht it"
  shows "0 < buckets_left ht it"
proof -
  have "unat (item_visit_count it) + 4 \<le> unat (ht_len ht)"
    using assms geometry_dvd by (intro four_step) (auto simp: item_ok_def)
  then show ?thesis by (simp add: buckets_left_def div_greater_zero_iff)
qed

lemma next_bucket_nat:
  assumes "geometry_ok ht" and "item_ok ht it"
  shows "unat (next_bucket ht (item_idx it)) = (unat (item_idx it) + 4) mod unat (ht_len ht)"
    and "4 dvd unat (next_bucket ht (item_idx it))"
proof -
  have p: "pow2_u64 (ht_len ht)" using assms(1) by (simp add: geometry_ok_def)
  have "unat ((item_idx it + 4) AND (ht_len ht - 1)) = (unat (item_idx it) + 4) mod unat (ht_len ht)"
    using p by (simp add: pow2_simps)
  moreover have "4 dvd (unat (item_idx it) + 4) mod unat (ht_len ht)"
    using assms(2) geometry_dvd [OF assms(1)] by (simp add: item_ok_def dvd_mod)
  ultimately show "unat (next_bucket ht (item_idx it)) = (unat (item_idx it) + 4) mod unat (ht_len ht)"
    "4 dvd unat (next_bucket ht (item_idx it))"
    unfolding next_bucket_def DRAMBLAST_BUCKET_IDX_MASK_def unat_and_not_3 by auto
qed

lemma unat_add_4:
  fixes c n :: u64
  assumes "unat c + 4 \<le> unat n"
  shows "unat (c + 4) = unat c + 4"
proof -
  have "unat n < 2 ^ LENGTH(64)" by (rule unsigned_less)
  then have "unat c + 4 < 2 ^ 64" using assms by simp
  then show ?thesis by (simp add: unat_word_ariths)
qed

text \<open>One probe either resolves an item or moves it on without changing its resolution.\<close>

lemma dramblast_probe_step:
  assumes g: "geometry_ok ht" and it: "item_ok ht it"
  shows "dramblast_probe ht it = Some (Inl (resolve ht it)) \<or>
    (\<exists>idx cnt. dramblast_probe ht it = Some (Inr (idx, cnt)) \<and>
      item_ok ht (it\<lparr>item_idx := idx, item_visit_count := cnt\<rparr>) \<and>
      resolve ht (it\<lparr>item_idx := idx, item_visit_count := cnt\<rparr>) = resolve ht it \<and>
      buckets_left ht it = Suc (buckets_left ht (it\<lparr>item_idx := idx, item_visit_count := cnt\<rparr>)))"
proof -
  let ?n = "unat (ht_len ht)" and ?c = "item_visit_count it"
  have n4: "4 dvd ?n" by (rule geometry_dvd [OF g])
  have len: "length (ht_table ht) = ?n" using g by (simp add: geometry_ok_def)
  have i4: "unat (item_idx it) + 4 \<le> length (ht_table ht)" and c4: "unat ?c + 4 \<le> ?n"
    using it n4 len by (auto simp: item_ok_def intro: four_step)
  obtain m where m: "?n = unat ?c + 4 * Suc m"
  proof -
    have "4 dvd ?n - (unat ?c + 4)" using n4 it by (simp add: item_ok_def)
    then obtain e where "?n - (unat ?c + 4) = 4 * e" by (rule dvdE)
    then show thesis using c4 that [of e] by simp
  qed
  have left: "buckets_left ht it = Suc m" using m by (simp add: buckets_left_def)
  have last: "ht_len ht \<le> ?c + 4 \<longleftrightarrow> m = 0"
    using unat_add_4 [OF c4] m by (simp add: word_le_nat_alt)
  note probe = dramblast_probe_bucket [of it ht, OF _ i4]
  have dvd: "4 dvd unat (item_idx it)" using it by (simp add: item_ok_def)
  show ?thesis
  proof (cases "bucket_hit (dview ht) (item_k it) (unat (item_idx it)) = None \<and> m \<noteq> 0 \<and>
      \<not> bucket_has_empty (dview ht) (unat (item_idx it))")
    case False
    then have "dramblast_probe ht it = Some (Inl (resolve ht it))"
      unfolding probe [OF dvd] by (auto simp: resolve_def left last split: option.splits)
    then show ?thesis ..
  next
    case True
    let ?it' = "it\<lparr>item_idx := next_bucket ht (item_idx it), item_visit_count := ?c + 4\<rparr>"
    have "dramblast_probe ht it = Some (Inr (next_bucket ht (item_idx it), ?c + 4))"
      using True unfolding probe [OF dvd] by (simp add: last)
    moreover have left': "buckets_left ht ?it' = m"
      using m unat_add_4 [OF c4] by (simp add: buckets_left_def)
    moreover have "item_ok ht ?it'"
      using True m unat_add_4 [OF c4] next_bucket_nat [OF g it] it g
      by (simp add: item_ok_def geometry_ok_def pow2_pos)
    moreover have "resolve ht ?it' = resolve ht it"
      using True next_bucket_nat [OF g it] len by (simp add: resolve_def left left')
    ultimately show ?thesis using left by auto
  qed
qed

section \<open>The batch\<close>

lemma same_but_queue_cong:
  assumes "same_but_queue tid ht ht'"
  shows "resolve ht' = resolve ht" and "item_ok ht' = item_ok ht" and "arg_item crc ht' = arg_item crc ht"
    and "buckets_left ht' = buckets_left ht" and "geometry_ok ht' = geometry_ok ht"
  using assms
  by (auto simp: same_but_queue_def resolve_def item_ok_def arg_item_def buckets_left_def
      geometry_ok_def dview_def dramblast_hash_def fun_eq_iff)

lemma arg_item_ok:
  assumes "geometry_ok ht"
  shows "item_ok ht (arg_item crc ht a)" and "buckets_left ht (arg_item crc ht a) = unat (ht_len ht) div 4"
proof -
  have p: "pow2_u64 (ht_len ht)" using assms by (simp add: geometry_ok_def)
  show "item_ok ht (arg_item crc ht a)"
    using dhome_dvd [OF p] dhome_less [OF p] pow2_pos [OF p]
    by (simp add: item_ok_def arg_item_def dramblast_hash_home)
  show "buckets_left ht (arg_item crc ht a) = unat (ht_len ht) div 4"
    by (simp add: buckets_left_def arg_item_def)
qed

lemma push_arg:
  "dramblast_push_queue ht (dramblast_hash crc ht (arg_k a)) (arg_k a) 0 (arg_id a) tid
     = push_item ht tid (arg_item crc ht a)"
  by (simp add: push_item_def arg_item_def)

text \<open>
  The state of the batch between two turns of the outer loop: \<open>h\<close> requests were taken, each of
  them is either answered or waiting in the ring.
\<close>

definition batch_inv :: "dramblast_ht \<Rightarrow> dramblast_arg list \<Rightarrow> nat \<Rightarrow> dramblast_result list \<Rightarrow> nat \<Rightarrow> bool" where
  "batch_inv ht args h results tid \<longleftrightarrow>
     geometry_ok ht \<and> queue_ok ht tid \<and> queue_cap ht tid = 64 \<and>
     (\<forall>it \<in> set (pending ht tid). item_ok ht it) \<and>
     h \<le> length args \<and> length results + length (pending ht tid) = h"

text \<open>The requests not answered yet: those in the ring, then those not taken.\<close>

definition todo ::
  "(u64 \<Rightarrow> u64 \<Rightarrow> u64) \<Rightarrow> dramblast_ht \<Rightarrow> dramblast_arg list \<Rightarrow> nat \<Rightarrow> nat \<Rightarrow> dramblast_queue_item list" where
  "todo crc ht args h tid = pending ht tid @ List.map (arg_item crc ht) (drop h args)"

lemma dramblast_fill_spec:
  assumes "batch_inv ht args h results tid"
  shows "\<exists>ht' h'. dramblast_fill crc ht args h tid = Some (ht', h') \<and> batch_inv ht' args h' results tid \<and>
    same_but_queue tid ht ht' \<and> todo crc ht' args h' tid = todo crc ht args h tid \<and>
    (h' = length args \<or> length (pending ht' tid) = 63)"
  using assms
proof (induction "length args - h" arbitrary: ht h)
  case 0
  then have "h = length args" by (simp add: batch_inv_def)
  then show ?case using 0 by (auto simp: dramblast_fill.simps)
next
  case (Suc d)
  have lt: "h < length args" using Suc.hyps(2) by simp
  have q: "queue_ok ht tid" and cap: "queue_cap ht tid = 64" and g: "geometry_ok ht"
    and its: "\<forall>it \<in> set (pending ht tid). item_ok ht it"
    and cnt: "length results + length (pending ht tid) = h"
    using Suc.prems by (auto simp: batch_inv_def)
  obtain n where n: "dramblast_get_queue_sz ht tid = Some n" "unat n = length (pending ht tid)"
    using dram_rings.qsize_items [OF q] by blast
  have full: "n < DRAMBLAST_FIND_QUEUE_SIZE - 1 \<longleftrightarrow> length (pending ht tid) < 63"
    using n(2) by (simp add: DRAMBLAST_FIND_QUEUE_SIZE_def word_less_nat_alt)
  show ?case
  proof (cases "length (pending ht tid) < 63")
    case False
    then have "length (pending ht tid) = 63"
      using dram_rings.items_bound [OF q] cap by simp
    moreover have "dramblast_fill crc ht args h tid = Some (ht, h)"
      using lt n(1) full False by (subst dramblast_fill.simps) simp
    ultimately show ?thesis using Suc.prems by auto
  next
    case True
    let ?it = "arg_item crc ht (args ! h)"
    obtain ht1 where p: "push_item ht tid ?it = Some ht1" "queue_ok ht1 tid"
      "pending ht1 tid = pending ht tid @ [?it]" "queue_cap ht1 tid = queue_cap ht tid"
      using dram_rings.push_items [OF q, of ?it] True cap by auto
    have s: "same_but_queue tid ht ht1" by (rule push_item_same [OF p(1)])
    note cong = same_but_queue_cong [OF s]
    have inv1: "batch_inv ht1 args (Suc h) results tid"
      using lt p cap g its cnt arg_item_ok [OF g] by (auto simp: batch_inv_def cong)
    have d: "d = length args - Suc h" using Suc.hyps(2) by simp
    have todo: "todo crc ht1 args (Suc h) tid = todo crc ht args h tid"
      using lt p(3) by (simp add: todo_def cong Cons_nth_drop_Suc flip: list.map(2))
    have "dramblast_fill crc ht args h tid = dramblast_fill crc ht1 args (Suc h) tid"
      using lt n(1) full True p(1) by (subst dramblast_fill.simps) (simp add: push_arg Let_def)
    then show ?thesis
      using Suc.hyps(1) [OF d inv1] same_but_queue_trans [OF s] todo by auto
  qed
qed

lemma dramblast_find_loop_spec:
  assumes "batch_inv ht args h results tid"
  shows "\<exists>results' ht'. dramblast_find_loop crc ht args h results tid = Some (results', ht') \<and>
    mset results' = mset results + mset (List.map (resolve ht) (todo crc ht args h tid)) \<and>
    same_but_queue tid ht ht' \<and> batch_inv ht' args (length args) results' tid \<and> pending ht' tid = []"
  using assms
proof (induction "sum_list (List.map (buckets_left ht) (todo crc ht args h tid))"
    arbitrary: ht h results rule: less_induct)
  case less
  show ?case
  proof (cases "length results < length args")
    case False
    moreover have "length results + length (pending ht tid) = h" "h \<le> length args"
      using less.prems by (auto simp: batch_inv_def)
    ultimately have "h = length args" "length (pending ht tid) = 0" by linarith+
    then show ?thesis
      using False less.prems by (subst dramblast_find_loop.simps) (auto simp: todo_def)
  next
    case True
    obtain ht1 h1 where f: "dramblast_fill crc ht args h tid = Some (ht1, h1)"
      "batch_inv ht1 args h1 results tid" "same_but_queue tid ht ht1"
      "todo crc ht1 args h1 tid = todo crc ht args h tid"
      "h1 = length args \<or> length (pending ht1 tid) = 63"
      using dramblast_fill_spec [OF less.prems, of crc] by blast
    then obtain it Q where Q: "pending ht1 tid = it # Q"
      using True by (cases "pending ht1 tid") (auto simp: batch_inv_def)
    have g: "geometry_ok ht1" and q: "queue_ok ht1 tid" and it: "item_ok ht1 it"
      and cap: "queue_cap ht1 tid = 64" and bound: "length Q < 63"
      using f(2) Q dram_rings.items_bound [of ht1 tid] by (auto simp: batch_inv_def)
    obtain ht2 where p: "dramblast_pop_queue ht1 tid = Some (it, ht2)" "queue_ok ht2 tid"
      "pending ht2 tid = Q" "queue_cap ht2 tid = 64"
      using dram_rings.pop_items [OF q Q] cap by auto
    have s2: "same_but_queue tid ht ht2"
      by (rule same_but_queue_trans [OF f(3) pop_queue_same [OF p(1)]])
    note c1 = same_but_queue_cong [OF f(3)] and c2 = same_but_queue_cong [OF s2]
    have todo2: "todo crc ht args h tid = it # todo crc ht2 args h1 tid"
      using f(4) Q p(3) by (simp add: todo_def c1 c2)
    have inv2: "batch_inv ht2 args h1 (results @ [r]) tid" for r
      using f(2) Q p by (auto simp: batch_inv_def c1 c2)
    have g2: "geometry_ok ht2" and it2: "item_ok ht2 it" using g it by (simp_all add: c1 c2)
    from dramblast_probe_step [OF g2 it2] show ?thesis
    proof (elim disjE exE conjE)
      assume pr: "dramblast_probe ht2 it = Some (Inl (resolve ht2 it))"
      have "0 < buckets_left ht it"
        using buckets_left_pos [OF g it] by (simp add: c1)
      then have "sum_list (List.map (buckets_left ht2) (todo crc ht2 args h1 tid))
          < sum_list (List.map (buckets_left ht) (todo crc ht args h tid))"
        by (simp add: todo2 c2)
      note IH = less.hyps [OF this inv2]
      have "dramblast_find_loop crc ht args h results tid =
          dramblast_find_loop crc ht2 args h1 (results @ [resolve ht2 it]) tid"
        using True f(1) p(1) pr by (subst dramblast_find_loop.simps) simp
      then show ?thesis
        using IH same_but_queue_trans [OF s2] by (force simp: todo2 c2)
    next
      fix idx cnt
      let ?it' = "it\<lparr>item_idx := idx, item_visit_count := cnt\<rparr>"
      assume pr: "dramblast_probe ht2 it = Some (Inr (idx, cnt))" and ok': "item_ok ht2 ?it'"
        and res': "resolve ht2 ?it' = resolve ht2 it"
        and left': "buckets_left ht2 it = Suc (buckets_left ht2 ?it')"
      obtain ht3 where p3: "push_item ht2 tid ?it' = Some ht3" "queue_ok ht3 tid"
        "pending ht3 tid = Q @ [?it']" "queue_cap ht3 tid = 64"
        using dram_rings.push_items [OF p(2), of ?it'] p(3,4) bound by auto
      have s3: "same_but_queue tid ht ht3"
        by (rule same_but_queue_trans [OF s2 push_item_same [OF p3(1)]])
      note c3 = same_but_queue_cong [OF s3]
      have inv3: "batch_inv ht3 args h1 results tid"
        using inv2 p p3 ok' by (auto simp: batch_inv_def c2 c3)
      have perm: "mset (todo crc ht3 args h1 tid) = add_mset ?it' (mset (todo crc ht2 args h1 tid))"
        using p3(3) p(3) by (simp add: todo_def c2 c3)
      have left3: "sum_list (List.map (buckets_left ht) (todo crc ht3 args h1 tid)) =
          buckets_left ht ?it' + sum_list (List.map (buckets_left ht) (todo crc ht2 args h1 tid))"
        using p3(3) p(3) by (simp add: todo_def c2 c3)
      then have "sum_list (List.map (buckets_left ht3) (todo crc ht3 args h1 tid))
          < sum_list (List.map (buckets_left ht) (todo crc ht args h tid))"
        using left' by (simp add: todo2 c2 c3)
      note IH = less.hyps [OF this inv3]
      have "mset (List.map (resolve ht) (todo crc ht3 args h1 tid)) =
          mset (List.map (resolve ht) (todo crc ht args h tid))"
        using res' perm by (simp add: todo2 c2 mset_map)
      moreover have "dramblast_find_loop crc ht args h results tid =
          dramblast_find_loop crc ht3 args h1 results tid"
        using True f(1) p(1) pr p3(1) by (subst dramblast_find_loop.simps) (simp add: push_item_def)
      ultimately show ?thesis
        using IH same_but_queue_trans [OF s3] by (force simp: c3)
    qed
  qed
qed

end
