(* ===== verification/Dram_Lookup.thy ===== *)
theory Dram_Lookup
  imports Dram_Find
begin

text \<open>
  What the batched lookup of \<open>l2fwd/libsashstore/dramblast.c\<close> answers, in terms of the map the
  table stands for.  \<open>Dram_Find\<close> reduced the batch to one bucket walk per request; here the
  walk is followed over a well-formed table.  Every statement about the lookup of a stored
  key, of an absent key and of the key zero is derived from \<open>lookup_from_answer\<close>.
\<close>

section \<open>The bucket walk by slots\<close>

lemma bucket_slot:
  assumes "4 dvd n" and "4 dvd h" and "4 dvd i" and "j < 4" and "0 < n"
  shows "(h + i) mod n + j = (h + (i + j)) mod (n::nat)"
proof -
  have "4 dvd (h + i) mod n" using assms by (simp add: dvd_mod)
  moreover have "(h + i) mod n < n" using assms(5) by simp
  ultimately have "(h + i) mod n + j < n"
    using assms(1,4) four_step [of "(h + i) mod n" n] by simp
  then have "((h + i) mod n + j) mod n = (h + i) mod n + j" by simp
  then show ?thesis by (simp add: mod_add_left_eq add.assoc)
qed

lemma bucket_hit_None_iff:
  "bucket_hit T k b = None \<longleftrightarrow> (\<forall>j<4. fst (T ! (b + j)) \<noteq> k)"
  by (auto simp: bucket_hit_def find_None_iff)

lemma bucket_hit_first:
  assumes "j < 4" and "fst (T ! (b + j)) = k" and "\<forall>l<j. fst (T ! (b + l)) \<noteq> k"
  shows "bucket_hit T k b = Some (snd (T ! (b + j)))"
proof -
  have "find (\<lambda>j. fst (T ! (b + j)) = k) [0..<4] = Some j"
    using assms by (auto simp: find_Some_iff intro!: exI [of _ j])
  then show ?thesis by (simp add: bucket_hit_def)
qed

lemma bucket_has_empty_iff: "bucket_has_empty T b \<longleftrightarrow> (\<exists>j<4. fst (T ! (b + j)) = 0)"
  by (auto simp: bucket_has_empty_def)

text \<open>A key stored \<open>d\<close> slots from its home is found, if no slot before it is empty.\<close>

lemma lookup_from_found:
  assumes "4 dvd n" and "length T = n" and "4 dvd h" and "4 dvd i" and "i + 4 * m = n"
    and "i \<le> d" and "d < n" and "fst (T ! ((h + d) mod n)) = k"
    and "\<forall>l. i \<le> l \<longrightarrow> l < d \<longrightarrow> fst (T ! ((h + l) mod n)) \<noteq> k \<and> fst (T ! ((h + l) mod n)) \<noteq> 0"
  shows "lookup_from T k ((h + i) mod n) m = (snd (T ! ((h + d) mod n)), DRAMBLAST_FOUND)"
  using assms(4-)
proof (induction m arbitrary: i)
  case 0
  then show ?case by simp
next
  case (Suc m)
  have n: "0 < n" using Suc.prems by simp
  note slot = bucket_slot [OF assms(1,3) Suc.prems(1) _ n]
  show ?case
  proof (cases "d < i + 4")
    case True
    define j where "j = d - i"
    have j: "j < 4" "d = i + j" using True Suc.prems(3) by (auto simp: j_def)
    have "bucket_hit T k ((h + i) mod n) = Some (snd (T ! ((h + d) mod n)))"
      using bucket_hit_first [of j T "(h + i) mod n" k] slot Suc.prems(5,6) j by simp
    then show ?thesis by simp
  next
    case False
    have before: "fst (T ! ((h + i) mod n + j)) \<noteq> k \<and> fst (T ! ((h + i) mod n + j)) \<noteq> 0" if "j < 4" for j
    proof -
      have "i \<le> i + j" "i + j < d" using that False by linarith+
      then show ?thesis unfolding slot [OF that] using Suc.prems(6) by blast
    qed
    have "bucket_hit T k ((h + i) mod n) = None" "\<not> bucket_has_empty T ((h + i) mod n)"
      unfolding bucket_hit_None_iff bucket_has_empty_iff using before by blast+
    moreover have "m \<noteq> 0" using False Suc.prems(2,4) by auto
    ultimately have "lookup_from T k ((h + i) mod n) (Suc m) = lookup_from T k ((h + (i + 4)) mod n) m"
      using assms(2) by (simp add: mod_add_left_eq add.assoc)
    moreover have "lookup_from T k ((h + (i + 4)) mod n) m = (snd (T ! ((h + d) mod n)), DRAMBLAST_FOUND)"
    proof (rule Suc.IH)
      show "4 dvd i + 4" "i + 4 + 4 * m = n" "i + 4 \<le> d" using Suc.prems(1,2) False by simp_all
      show "\<forall>l. i + 4 \<le> l \<longrightarrow> l < d \<longrightarrow>
          fst (T ! ((h + l) mod n)) \<noteq> k \<and> fst (T ! ((h + l) mod n)) \<noteq> 0"
        using Suc.prems(6) add_leD1 [of i 4] by blast
    qed (use Suc.prems(4,5) in auto)
    ultimately show ?thesis by simp
  qed
qed

text \<open>A key that is nowhere: an empty slot before the last bucket decides the answer.\<close>

lemma lookup_from_missing:
  assumes "4 dvd n" and "length T = n" and "4 dvd h" and "4 dvd i" and "i + 4 * m = n"
    and "\<forall>l. i \<le> l \<longrightarrow> l < n \<longrightarrow> fst (T ! ((h + l) mod n)) \<noteq> k"
  shows "lookup_from T k ((h + i) mod n) m =
    (0, if \<exists>l. i \<le> l \<and> l + 4 < n \<and> fst (T ! ((h + l) mod n)) = 0 then DRAMBLAST_ABSENT
        else DRAMBLAST_TABLE_FULL)"
  using assms(4-)
proof (induction m arbitrary: i)
  case 0
  then show ?case by auto
next
  case (Suc m)
  have n: "0 < n" using Suc.prems by simp
  note slot = bucket_slot [OF assms(1,3) Suc.prems(1) _ n]
  have none: "bucket_hit T k ((h + i) mod n) = None"
    unfolding bucket_hit_None_iff
  proof (intro allI impI)
    fix j :: nat assume j: "j < 4"
    then have "i + j < n" using Suc.prems(2) by simp
    then show "fst (T ! ((h + i) mod n + j)) \<noteq> k" using slot [OF j] Suc.prems(3) by simp
  qed
  have he: "bucket_has_empty T ((h + i) mod n) \<longleftrightarrow> (\<exists>l. i \<le> l \<and> l < i + 4 \<and> fst (T ! ((h + l) mod n)) = 0)"
  proof -
    have "(\<exists>j<4. P (i + j)) \<longleftrightarrow> (\<exists>l. i \<le> l \<and> l < i + 4 \<and> P l)" for P
      by (metis add_less_cancel_left le_add1 le_add_diff_inverse)
    from this [of "\<lambda>l. fst (T ! ((h + l) mod n)) = 0"] show ?thesis
      by (simp add: bucket_has_empty_iff slot cong: conj_cong)
  qed
  show ?case
  proof (cases "m = 0")
    case True
    then show ?thesis using none Suc.prems(2) by auto
  next
    case False
    then have lt: "i + 4 < n" using Suc.prems(2) by simp
    have rest: "lookup_from T k ((h + (i + 4)) mod n) m =
      (0, if \<exists>l. i + 4 \<le> l \<and> l + 4 < n \<and> fst (T ! ((h + l) mod n)) = 0 then DRAMBLAST_ABSENT
        else DRAMBLAST_TABLE_FULL)"
      using Suc.IH [of "i + 4"] Suc.prems by simp
    have "(\<exists>l. i \<le> l \<and> l + 4 < n \<and> P l) \<longleftrightarrow>
        (\<exists>l. i \<le> l \<and> l < i + 4 \<and> P l) \<or> (\<exists>l. i + 4 \<le> l \<and> l + 4 < n \<and> P l)" for P
    proof
      assume "\<exists>l. i \<le> l \<and> l + 4 < n \<and> P l"
      then show "(\<exists>l. i \<le> l \<and> l < i + 4 \<and> P l) \<or> (\<exists>l. i + 4 \<le> l \<and> l + 4 < n \<and> P l)"
        by (metis linorder_not_less)
    next
      have first: "l + 4 < n" if "l < i + 4" for l
        using that False Suc.prems(2) by (cases m) auto
      assume "(\<exists>l. i \<le> l \<and> l < i + 4 \<and> P l) \<or> (\<exists>l. i + 4 \<le> l \<and> l + 4 < n \<and> P l)"
      then show "\<exists>l. i \<le> l \<and> l + 4 < n \<and> P l"
        using first by (meson le_add1 order.trans)
    qed
    note split = this [of "\<lambda>l. fst (T ! ((h + l) mod n)) = 0"]
    define A B where AB: "A = (\<exists>l. i \<le> l \<and> l < i + 4 \<and> fst (T ! ((h + l) mod n)) = 0)"
      "B = (\<exists>l. i + 4 \<le> l \<and> l + 4 < n \<and> fst (T ! ((h + l) mod n)) = 0)"
    have "lookup_from T k ((h + i) mod n) (Suc m) =
      (if bucket_has_empty T ((h + i) mod n) then (0, DRAMBLAST_ABSENT)
       else lookup_from T k ((h + (i + 4)) mod n) m)"
      using none False assms(2) by (simp add: mod_add_left_eq add.assoc)
    then show ?thesis unfolding he split rest AB [symmetric] by (cases A; cases B) simp_all
  qed
qed

section \<open>The answer\<close>

text \<open>
  The specification of the lookup of one key: found with its value; otherwise absent if one of
  the slots before the last bucket is empty, undecided if none is.  The key zero finds the
  first empty slot instead, whose value is zero in a well-formed table.
\<close>

definition dram_answer :: "(u64 \<Rightarrow> u64 \<Rightarrow> u64) \<Rightarrow> dramblast_ht \<Rightarrow> u64 \<Rightarrow> u64 \<times> u32" where
  "dram_answer crc ht k =
     (let n = length (ht_table ht); slot = (\<lambda>i. ht_table ht ! ((dhome crc (ht_len ht) k + i) mod n)) in
      case dram_map ht k of
        Some v \<Rightarrow> (v, DRAMBLAST_FOUND)
      | None \<Rightarrow>
          (0, if k = 0 \<and> (\<exists>i \<in> set [0..<n]. kv_k (slot i) = 0) then DRAMBLAST_FOUND
              else if \<exists>i \<in> set [0..<n - 4]. kv_k (slot i) = 0 then DRAMBLAST_ABSENT
              else DRAMBLAST_TABLE_FULL))"

definition dram_result :: "(u64 \<Rightarrow> u64 \<Rightarrow> u64) \<Rightarrow> dramblast_ht \<Rightarrow> dramblast_arg \<Rightarrow> dramblast_result" where
  "dram_result crc ht a =
     (let (v, st) = dram_answer crc ht (arg_k a)
      in \<lparr>res_v = v, res_id = arg_id a, res_status = st\<rparr>)"

lemma dram_inv_geometry: "dram_inv crc ht \<Longrightarrow> 4 \<le> unat (ht_len ht) \<Longrightarrow> geometry_ok ht"
  by (simp add: dram_inv_def geometry_ok_def)

lemma dview_slot:
  assumes "dram_inv crc ht"
  shows "dview ht ! ((h + i) mod length (ht_table ht)) =
    (kv_k (ht_table ht ! ((h + i) mod length (ht_table ht))), kv_v (ht_table ht ! ((h + i) mod length (ht_table ht))))"
proof -
  have "0 < length (ht_table ht)" using assms by (auto simp: dram_inv_def intro: pow2_pos)
  then show ?thesis by simp
qed

lemma lookup_from_answer:
  assumes inv: "dram_inv crc ht" and len: "4 \<le> unat (ht_len ht)"
  shows "lookup_from (dview ht) k (dhome crc (ht_len ht) k) (unat (ht_len ht) div 4) = dram_answer crc ht k"
proof -
  let ?n = "length (ht_table ht)" and ?h = "dhome crc (ht_len ht) k"
  have p: "pow2_u64 (ht_len ht)" and n: "?n = unat (ht_len ht)"
    and wf: "wf_probe 0 (dhome crc (ht_len ht)) (dview ht)"
    and clean: "\<forall>kv \<in> set (ht_table ht). kv_k kv = 0 \<longrightarrow> kv_v kv = 0"
    using inv by (auto simp: dram_inv_def)
  have n4: "4 dvd ?n" and all: "0 + 4 * (?n div 4) = ?n"
    using geometry_dvd [OF dram_inv_geometry [OF inv len]] by (auto simp: n)
  have h: "4 dvd ?h" "?h < ?n" "?h mod ?n = ?h" "0 < ?n"
    using dhome_dvd [OF p] dhome_less [OF p] pow2_pos [OF p] by (simp_all add: n)
  note slot = dview_slot [OF inv, of ?h]
  note missing = lookup_from_missing [OF n4 length_dview h(1) _ all, of k]
  note found = lookup_from_found [OF n4 length_dview h(1) _ all, of _ k]
  show ?thesis
  proof (cases "dram_map ht k")
    case (Some v)
    then obtain q where q: "k \<noteq> 0" "q < ?n" "dview ht ! q = (k, v)"
      using wf tab_map_Some_iff [of 0 "dview ht" k v] by (auto simp: dram_map_def wf_probe_def)
    then obtain d where d: "d < ?n" "q = (?h + d) mod ?n" "\<forall>i<d. occupied 0 (dview ht) ((?h + i) mod ?n)"
      using wf_probe_reach [OF wf, of q k] by auto
    have "fst (dview ht ! ((?h + l) mod ?n)) \<noteq> k" if "l < d" for l
    proof
      assume "fst (dview ht ! ((?h + l) mod ?n)) = k"
      then have "(?h + l) mod ?n = (?h + d) mod ?n"
        using wf q d h(4) by (auto simp: wf_probe_def unique_keys_def occupied_def)
      then show False using slot_inject [OF h(2), of l d] that d(1) by simp
    qed
    then show ?thesis
      using found [of d] d q h by (simp add: dram_answer_def Some n occupied_def)
  next
    case None
    show ?thesis
    proof (cases "k = 0 \<and> (\<exists>i<?n. kv_k (ht_table ht ! ((?h + i) mod ?n)) = 0)")
      case True
      define d where "d = (LEAST i. kv_k (ht_table ht ! ((?h + i) mod ?n)) = 0)"
      have d: "kv_k (ht_table ht ! ((?h + d) mod ?n)) = 0" "d < ?n"
        "\<And>i. i < d \<Longrightarrow> kv_k (ht_table ht ! ((?h + i) mod ?n)) \<noteq> 0"
        using True unfolding d_def by (auto intro: LeastI dest: not_less_Least)
          (metis (mono_tags, lifting) LeastI_ex Least_le order.strict_trans1)
      have "kv_v (ht_table ht ! ((?h + d) mod ?n)) = 0" using clean d(1) h(4) by simp
      then show ?thesis
        using found [of d] d True h slot None by (auto simp: dram_answer_def n Let_def)
    next
      case False
      have "fst (dview ht ! ((?h + l) mod ?n)) \<noteq> k" if "l < ?n" for l
      proof (cases "k = 0")
        case True
        then show ?thesis using False that slot by simp
      next
        case nz: False
        then show ?thesis
          using None tab_map_None_iff [OF nz, of "dview ht"] h(4) by (simp add: dram_map_def)
      qed
      moreover have "(\<exists>l. 0 \<le> l \<and> l + 4 < ?n \<and> P l) \<longleftrightarrow> (\<exists>i \<in> set [0..<?n - 4]. P i)" for P
        by (auto simp: less_diff_conv)
      ultimately show ?thesis
        using missing False None h slot by (auto simp: dram_answer_def n Let_def)
    qed
  qed
qed

lemma resolve_arg_item:
  assumes "dram_inv crc ht" and "4 \<le> unat (ht_len ht)"
  shows "resolve ht (arg_item crc ht a) = dram_result crc ht a"
  using lookup_from_answer [OF assms, of "arg_k a"] arg_item_ok [OF dram_inv_geometry [OF assms]]
  by (simp add: resolve_def dram_result_def arg_item_def dramblast_hash_home)

section \<open>Batches\<close>

text \<open>A table a core may start a batch on: well formed, four slots at least, its ring empty.\<close>

definition dram_ready :: "(u64 \<Rightarrow> u64 \<Rightarrow> u64) \<Rightarrow> dramblast_ht \<Rightarrow> nat \<Rightarrow> bool" where
  "dram_ready crc ht tid \<longleftrightarrow>
     dram_inv crc ht \<and> 4 \<le> unat (ht_len ht) \<and>
     queue_ok ht tid \<and> queue_cap ht tid = 64 \<and> pending ht tid = []"

lemma dram_inv_same: "same_but_queue tid ht ht' \<Longrightarrow> dram_inv crc ht' = dram_inv crc ht"
  by (simp add: same_but_queue_def dram_inv_def dview_def)

lemma dram_map_same: "same_but_queue tid ht ht' \<Longrightarrow> dram_map ht' = dram_map ht"
  by (simp add: same_but_queue_def dram_map_def dview_def)

lemma find_batch_answers:
  assumes "dram_ready crc ht tid"
  shows "\<exists>results ht'. dramblast_find_batch_sync crc ht args tid = Some (results, ht') \<and>
    mset results = mset (List.map (dram_result crc ht) args) \<and> length results = length args \<and>
    same_but_queue tid ht ht' \<and> dram_ready crc ht' tid"
proof -
  have r: "dram_inv crc ht" "4 \<le> unat (ht_len ht)" "queue_ok ht tid" "queue_cap ht tid = 64" "pending ht tid = []"
    using assms by (auto simp: dram_ready_def)
  then have "batch_inv ht args 0 [] tid"
    using dram_inv_geometry by (simp add: batch_inv_def)
  from dramblast_find_loop_spec [OF this, of crc] obtain results ht'
    where f: "dramblast_find_loop crc ht args 0 [] tid = Some (results, ht')"
      "mset results = mset (List.map (resolve ht) (List.map (arg_item crc ht) args))"
      "same_but_queue tid ht ht'" "batch_inv ht' args (length args) results tid" "pending ht' tid = []"
    using r(5) by (auto simp: todo_def)
  moreover have "List.map (resolve ht) (List.map (arg_item crc ht) args) = List.map (dram_result crc ht) args"
    using resolve_arg_item [OF r(1,2)] by simp
  moreover have "dram_ready crc ht' tid"
    using f(3,4,5) r dram_inv_same [OF f(3)] by (auto simp: dram_ready_def batch_inv_def geometry_ok_def)
  ultimately show ?thesis
    unfolding dramblast_find_batch_sync_def by (metis length_map mset_eq_length)
qed

lemma find_one_answer:
  assumes "dram_ready crc ht tid"
  shows "\<exists>ht'. dramblast_find_batch_sync crc ht [a] tid = Some ([dram_result crc ht a], ht') \<and>
    same_but_queue tid ht ht' \<and> dram_ready crc ht' tid"
  using find_batch_answers [OF assms, of "[a]"] by auto

lemma insert_ready:
  assumes "dram_ready crc ht tid" and "k \<noteq> 0" and "dramblast_insert_one crc ht k v = Some (rc, ht')"
  shows "dram_ready crc ht' tid"
  using assms dram_insert_cases [of crc ht k v]
  by (auto simp: dram_ready_def queue_ok_def queue_cap_def pending_def)

lemma insert_all_ready:
  assumes "dram_ready crc ht tid" and "\<forall>(k, v) \<in> set kvs. k \<noteq> 0"
    and "insert_all (dramblast_insert_one crc) ht kvs = Some (rcs, ht')"
  shows "dram_ready crc ht' tid"
  using assms
proof (induction kvs arbitrary: ht rcs)
  case (Cons kv kvs)
  obtain k v rc ht1 rcs' where "kv = (k, v)" "dramblast_insert_one crc ht k v = Some (rc, ht1)"
    "insert_all (dramblast_insert_one crc) ht1 kvs = Some (rcs', ht')"
    using Cons.prems(3) by (cases kv) (auto split: Option.bind_splits)
  then show ?case using Cons.IH [of ht1 rcs'] insert_ready [of crc ht tid k] Cons.prems(1,2) by auto
qed simp

lemma fresh_ht_ready:
  assumes "pow2_u64 len" and "4 \<le> unat len" and "tid < length qs" and "ring_ok (qs ! tid)"
    and "ring_items (qs ! tid) = []" and "find_queue_size (qs ! tid) = 64"
  shows "dram_ready crc (fresh_ht len qs) tid"
  using assms fresh_ht_inv(1) [OF assms(1), of crc qs]
  by (simp add: dram_ready_def queue_ok_def queue_cap_def pending_def fresh_ht_def)

lemma sample_ready: "dram_ready (\<lambda>_ k. k) (fresh_ht 8 [fresh_ring 62]) 0"
  using fresh_ring_ok [of 62] fresh_ht_ready [OF pow2_u64_8, of 0 "[fresh_ring 62]" "\<lambda>_ k. k"]
  by (simp add: fresh_ring_def DRAMBLAST_FIND_QUEUE_SIZE_def)

section \<open>What the batched lookup guarantees\<close>

text \<open>One request alone.\<close>

definition find_single ::
  "(u64 \<Rightarrow> u64 \<Rightarrow> u64) \<Rightarrow> dramblast_ht \<Rightarrow> nat \<Rightarrow> dramblast_arg \<Rightarrow> dramblast_result option" where
  "find_single crc ht tid a =
     (case dramblast_find_batch_sync crc ht [a] tid of Some ([r], ht') \<Rightarrow> Some r | _ \<Rightarrow> None)"

text \<open>
  C13: batching is transparent.  However many requests a batch holds, however often the ring of
  64 slots fills and requests are queued again, \<open>dramblast_find_batch_sync\<close> returns (the loop
  ends, no access is out of bounds), and its results are, up to their order, those of running
  every request as a batch of its own.  The table is not written and the ring is left empty.
\<close>

theorem dramblast_batch_equals_singles:
  assumes "dram_ready crc ht tid"
  shows "\<exists>results ht'. dramblast_find_batch_sync crc ht args tid = Some (results, ht') \<and>
    mset (List.map Some results) = mset (List.map (find_single crc ht tid) args) \<and>
    ht_table ht' = ht_table ht \<and> dramblast_get_queue_sz ht' tid = Some 0"
proof -
  obtain results ht' where r: "dramblast_find_batch_sync crc ht args tid = Some (results, ht')"
    "mset results = mset (List.map (dram_result crc ht) args)"
    "same_but_queue tid ht ht'" "dram_ready crc ht' tid"
    using find_batch_answers [OF assms] by blast
  have "find_single crc ht tid a = Some (dram_result crc ht a)" for a
    using find_one_answer [OF assms, of a] by (auto simp: find_single_def)
  then have "find_single crc ht tid = (\<lambda>a. Some (dram_result crc ht a))" by blast
  then have "mset (List.map Some results) = mset (List.map (find_single crc ht tid) args)"
    using r(2) by (simp add: mset_map multiset.map_comp comp_def)
  moreover have "dramblast_get_queue_sz ht' tid = Some 0"
    using r(4) dram_rings.qsize_items [of ht' tid] by (auto simp: dram_ready_def unat_eq_zero)
  ultimately show ?thesis using r(1,3) by (auto simp: same_but_queue_def)
qed

theorem dramblast_batch_equals_singles_witness:
  "\<exists>results ht'. dramblast_find_batch_sync (\<lambda>_ k. k) (fresh_ht 8 [fresh_ring 62])
      [\<lparr>arg_k = 5, arg_id = 1\<rparr>, \<lparr>arg_k = 9, arg_id = 2\<rparr>] 0 = Some (results, ht') \<and> length results = 2"
proof -
  let ?args = "[\<lparr>arg_k = 5, arg_id = 1\<rparr>, \<lparr>arg_k = 9, arg_id = 2\<rparr>]"
  from dramblast_batch_equals_singles [OF sample_ready,
      of "[\<lparr>arg_k = 5, arg_id = 1\<rparr>, \<lparr>arg_k = 9, arg_id = 2\<rparr>]"]
  obtain results ht' where "dramblast_find_batch_sync (\<lambda>_ k. k) (fresh_ht 8 [fresh_ring 62])
      [\<lparr>arg_k = 5, arg_id = 1\<rparr>, \<lparr>arg_k = 9, arg_id = 2\<rparr>] 0 = Some (results, ht')"
    "mset (List.map Some results) = mset (List.map (find_single (\<lambda>_ k. k) (fresh_ht 8 [fresh_ring 62]) 0)
      [\<lparr>arg_k = 5, arg_id = 1\<rparr>, \<lparr>arg_k = 9, arg_id = 2\<rparr>])" by blast
  moreover from this(2) have "length (List.map Some results) =
      length (List.map (find_single (\<lambda>_ k. k) (fresh_ht 8 [fresh_ring 62]) 0) ?args)"
    by (rule mset_eq_length)
  ultimately show ?thesis by (intro exI conjI) (assumption | simp add: numeral_2_eq_2)+
qed

text \<open>
  C5: the three status codes tell the truth.  For a non-zero key the lookup reports
  \<open>DRAMBLAST_FOUND\<close> with the stored value exactly if the key is in the table; otherwise it
  reports \<open>DRAMBLAST_ABSENT\<close> exactly if one of the slots it may still search for an empty one
  (all but the last bucket of the cycle that starts at the home bucket) is empty, and
  \<open>DRAMBLAST_TABLE_FULL\<close> if not.  The key zero never yields a value other than 0.
\<close>

theorem dramblast_find_status:
  assumes "dram_ready crc ht tid"
  shows "\<exists>r ht'. dramblast_find_batch_sync crc ht [\<lparr>arg_k = k, arg_id = i\<rparr>] tid = Some ([r], ht') \<and>
    res_id r = i \<and>
    (if k = 0 then res_v r = 0
     else case dram_map ht k of
       Some v \<Rightarrow> res_status r = DRAMBLAST_FOUND \<and> res_v r = v
     | None \<Rightarrow> res_v r = 0 \<and> res_status r =
         (if \<exists>j \<in> set [0..<length (ht_table ht) - 4].
               kv_k (ht_table ht ! ((unat (dramblast_hash crc ht k) + j) mod length (ht_table ht))) = 0
          then DRAMBLAST_ABSENT else DRAMBLAST_TABLE_FULL))"
proof -
  have z: "dram_map ht 0 = None" by (simp add: dram_map_def)
  obtain ht' where "dramblast_find_batch_sync crc ht [\<lparr>arg_k = k, arg_id = i\<rparr>] tid =
      Some ([dram_result crc ht \<lparr>arg_k = k, arg_id = i\<rparr>], ht')"
    using find_one_answer [OF assms] by blast
  then show ?thesis
    using z by (auto simp: dram_result_def dram_answer_def dramblast_hash_home Let_def split: option.splits)
qed

theorem dramblast_find_status_witness:
  "\<exists>r ht'. dramblast_find_batch_sync (\<lambda>_ k. k) (fresh_ht 8 [fresh_ring 62])
      [\<lparr>arg_k = 5, arg_id = 1\<rparr>] 0 = Some ([r], ht') \<and> res_status r = DRAMBLAST_ABSENT"
  using dramblast_find_status [OF sample_ready, of 5 1] fresh_ht_inv(2) [OF pow2_u64_8]
    exI [of "\<lambda>j. j < (4::nat)" 0]
  by (auto simp: fresh_ht_def dramblast_hash_def DRAMBLAST_BUCKET_IDX_MASK_def)

text \<open>
  C27: what was inserted is found.  After a run of successful inserts of distinct non-zero keys,
  a batch that asks for any of those keys, in any order and as often as it likes, answers every
  request with \<open>DRAMBLAST_FOUND\<close> and the value inserted for its key.
\<close>

theorem dramblast_insert_then_find:
  assumes "dram_ready crc ht tid" and "\<forall>(k, v) \<in> set kvs. k \<noteq> 0" and "distinct (List.map fst kvs)"
    and "insert_all (dramblast_insert_one crc) ht kvs = Some (rcs, ht1)" and "\<forall>rc \<in> set rcs. rc = 0"
    and "arg_k ` set args \<subseteq> fst ` set kvs"
  shows "\<exists>results ht2. dramblast_find_batch_sync crc ht1 args tid = Some (results, ht2) \<and>
    mset results = mset (List.map (\<lambda>a.
      \<lparr>res_v = the (map_of kvs (arg_k a)), res_id = arg_id a, res_status = DRAMBLAST_FOUND\<rparr>) args)"
proof -
  have inv: "dram_inv crc ht" using assms(1) by (simp add: dram_ready_def)
  have len: "length rcs = length kvs"
    using dram_table.insert_all_returns [OF inv, of kvs] assms(2,4) by auto
  have "dram_result crc ht1 a =
      \<lparr>res_v = the (map_of kvs (arg_k a)), res_id = arg_id a, res_status = DRAMBLAST_FOUND\<rparr>"
    if a: "a \<in> set args" for a
  proof -
    obtain i where i: "i < length kvs" "fst (kvs ! i) = arg_k a"
      using assms(6) a by (force simp: in_set_conv_nth image_iff)
    have "rcs ! i = 0" using assms(5) i(1) len by simp
    then have "dram_map ht1 (arg_k a) = Some (snd (kvs ! i))"
      using dram_table.insert_all_stored [OF inv _ assms(4,3) i(1)] assms(2) i(2) by auto
    moreover have "map_of kvs (arg_k a) = Some (snd (kvs ! i))"
      using assms(3) i by (metis map_of_eq_Some_iff nth_mem prod.collapse)
    ultimately show ?thesis by (simp add: dram_result_def dram_answer_def)
  qed
  then have eq: "List.map (dram_result crc ht1) args = List.map (\<lambda>a.
      \<lparr>res_v = the (map_of kvs (arg_k a)), res_id = arg_id a, res_status = DRAMBLAST_FOUND\<rparr>) args"
    by simp
  show ?thesis
    using find_batch_answers [OF insert_all_ready [OF assms(1,2,4)], of args] unfolding eq by blast
qed

lemma sample_inserts:
  defines "ht \<equiv> fresh_ht 8 [fresh_ring 62]"
  shows "insert_all (dramblast_insert_one (\<lambda>_ k. k)) ht [(5, 50), (13, 60)] =
    Some ([0, 0], dstore (dstore ht 4 5 50) 5 13 60)"
proof -
  have h: "dramblast_hash (\<lambda>_ k. k) ht 5 = 4" "dramblast_hash (\<lambda>_ k. k) (dstore ht 4 5 50) 13 = 4"
    by (simp_all add: ht_def fresh_ht_def dramblast_hash_def DRAMBLAST_BUCKET_IDX_MASK_def)
  have "try_insert ht 5 50 4 0 = Some (0, dstore ht 4 5 50)"
    by (subst try_insert.simps) (simp add: ht_def fresh_ht_def dstore_def dramblast_cas_def)
  moreover have "try_insert (dstore ht 4 5 50) 13 60 4 0 = try_insert (dstore ht 4 5 50) 13 60 5 1"
    by (subst try_insert.simps) (simp add: ht_def fresh_ht_def dstore_def word_le_nat_alt)
  moreover have "\<dots> = Some (0, dstore (dstore ht 4 5 50) 5 13 60)"
    by (subst try_insert.simps) (simp add: ht_def fresh_ht_def dstore_def dramblast_cas_def)
  ultimately show ?thesis by (simp add: dramblast_insert_one_def h)
qed

theorem dramblast_insert_then_find_witness:
  "\<exists>rcs ht1 results ht2.
    insert_all (dramblast_insert_one (\<lambda>_ k. k)) (fresh_ht 8 [fresh_ring 62]) [(5, 50), (13, 60)] =
      Some (rcs, ht1) \<and>
    dramblast_find_batch_sync (\<lambda>_ k. k) ht1 [\<lparr>arg_k = 13, arg_id = 7\<rparr>] 0 = Some (results, ht2) \<and>
    results = [\<lparr>res_v = 60, res_id = 7, res_status = DRAMBLAST_FOUND\<rparr>]"
  using dramblast_insert_then_find [OF sample_ready _ _ sample_inserts,
      of "[\<lparr>arg_k = 13, arg_id = 7\<rparr>]"] sample_inserts
  by auto

end
