(* ===== verification/Dram_Frames.thy ===== *)
theory Dram_Frames
  imports Dram_Lookup Conshash
begin

text \<open>
  \<open>l2fwd/libsashstore/dramblast.c\<close>, the per-batch handler \<open>dramblast_process_frames\<close>: one
  batched lookup, then for every result an insert of the backend of the lookup table for the
  flows that are new.  The C code reaches the table and the lookup table through file-level
  variables; here they are arguments, and the caller's array \<open>ret\<close> is returned updated.
\<close>

section \<open>The handler\<close>

text \<open>
  One result: the backend to report and the table after the possible insert.
\<close>

definition dramblast_frame ::
  "(u64 \<Rightarrow> u64 \<Rightarrow> u64) \<Rightarrow> LookUpTable \<Rightarrow> dramblast_arg list \<Rightarrow> dramblast_ht \<Rightarrow> dramblast_result \<Rightarrow>
     (u64 \<times> dramblast_ht) option" where
  "dramblast_frame crc dramblast_backends args ht result =
     (if res_status result = DRAMBLAST_ABSENT then do {
        arg \<leftarrow> rd args (unat (res_id result));
        let client_hash = arg_k arg;
        backend_mac_addr \<leftarrow> rd dramblast_backends (unat client_hash mod TABLE_SIZE);
        (rc, ht') \<leftarrow> dramblast_insert_one crc ht client_hash backend_mac_addr;
        Some (if rc < 0 then 0 else backend_mac_addr, ht')
      }
      else if res_status result = DRAMBLAST_TABLE_FULL then Some (0, ht)
      else Some (res_v result, ht))"

fun dramblast_report ::
  "(u64 \<Rightarrow> u64 \<Rightarrow> u64) \<Rightarrow> LookUpTable \<Rightarrow> dramblast_arg list \<Rightarrow> u64 list \<Rightarrow> dramblast_ht \<Rightarrow>
     dramblast_result list \<Rightarrow> (u64 list \<times> dramblast_ht) option" where
  "dramblast_report crc dramblast_backends args ret ht [] = Some (ret, ht)"
| "dramblast_report crc dramblast_backends args ret ht (result # results) = do {
     (backend_mac_addr, ht') \<leftarrow> dramblast_frame crc dramblast_backends args ht result;
     ret' \<leftarrow> wr ret (unat (res_id result)) backend_mac_addr;
     dramblast_report crc dramblast_backends args ret' ht' results
   }"

text \<open>
  The result array comes from \<open>aligned_alloc\<close> and is not checked: without it the first result
  written is an access through NULL.
\<close>

definition dramblast_process_frames ::
  "(u64 \<Rightarrow> u64 \<Rightarrow> u64) \<Rightarrow> bool \<Rightarrow> LookUpTable \<Rightarrow> dramblast_ht \<Rightarrow> dramblast_arg list \<Rightarrow> u64 list \<Rightarrow> nat \<Rightarrow>
     (u64 list \<times> dramblast_ht) outcome option" where
  "dramblast_process_frames crc results_allocated dramblast_backends ht args ret tid = do {
     (results, ht') \<leftarrow> (if results_allocated \<or> args = []
                        then dramblast_find_batch_sync crc ht args tid else None);
     if length results \<noteq> length args then Some (Exit (-1))
     else do {
       (ret', ht'') \<leftarrow> dramblast_report crc dramblast_backends args ret ht' results;
       Some (Return (ret', ht''))
     }
   }"

section \<open>What a batch does to the table\<close>

definition table_full :: "dramblast_ht \<Rightarrow> bool" where
  "table_full ht \<longleftrightarrow> (\<forall>kv \<in> set (ht_table ht). kv_k kv \<noteq> 0)"

text \<open>The lookup of \<open>k\<close> sees no empty slot before the last bucket of its cycle.\<close>

definition gives_up :: "(u64 \<Rightarrow> u64 \<Rightarrow> u64) \<Rightarrow> dramblast_ht \<Rightarrow> u64 \<Rightarrow> bool" where
  "gives_up crc ht k \<longleftrightarrow> (\<forall>j \<in> set [0..<length (ht_table ht) - 4].
     kv_k (ht_table ht ! ((dhome crc (ht_len ht) k + j) mod length (ht_table ht))) \<noteq> 0)"

definition backend_of :: "LookUpTable \<Rightarrow> u64 \<Rightarrow> u64" where
  "backend_of lut k = lut ! (unat k mod TABLE_SIZE)"

text \<open>Every flow is mapped as before, or is a new one of \<open>ks\<close> mapped by the lookup table.\<close>

definition grown :: "LookUpTable \<Rightarrow> u64 set \<Rightarrow> dramblast_ht \<Rightarrow> dramblast_ht \<Rightarrow> bool" where
  "grown lut ks ht ht' \<longleftrightarrow> (\<forall>k. dram_map ht' k = dram_map ht k \<or>
     dram_map ht k = None \<and> k \<in> ks \<and> dram_map ht' k = Some (backend_of lut k))"

definition frame_outcome ::
  "(u64 \<Rightarrow> u64 \<Rightarrow> u64) \<Rightarrow> LookUpTable \<Rightarrow> dramblast_ht \<Rightarrow> dramblast_ht \<Rightarrow> u64 \<Rightarrow> u64 \<Rightarrow> bool" where
  "frame_outcome crc lut ht ht' k b \<longleftrightarrow>
     (case dram_map ht k of
        Some v \<Rightarrow> b = v
      | None \<Rightarrow>
          if gives_up crc ht k then b = 0
          else b = backend_of lut k \<and> dram_map ht' k = Some b \<or> b = 0 \<and> table_full ht')"

lemma grown_refl [simp]: "grown lut ks ht ht"
  by (simp add: grown_def)

lemma grown_submap: "grown lut ks ht ht' \<Longrightarrow> dram_map ht k = Some v \<Longrightarrow> dram_map ht' k = Some v"
  by (auto simp: grown_def dest: spec [of _ k])

lemma grown_mono: "grown lut ks ht ht' \<Longrightarrow> ks \<subseteq> ks' \<Longrightarrow> grown lut ks' ht ht'"
  unfolding grown_def by blast

lemma grown_trans: "grown lut ks a b \<Longrightarrow> grown lut ks b c \<Longrightarrow> grown lut ks a c"
  unfolding grown_def by metis

lemma grown_outcome:
  assumes "grown lut ks ht1 ht2" and "table_full ht1 \<Longrightarrow> table_full ht2" and "frame_outcome crc lut ht ht1 k b"
  shows "frame_outcome crc lut ht ht2 k b"
  using assms grown_submap [OF assms(1), of k]
  by (auto simp: frame_outcome_def split: option.splits if_splits)

lemma table_full_dstore: "table_full ht \<Longrightarrow> k \<noteq> 0 \<Longrightarrow> table_full (dstore ht p k v)"
  by (auto simp: table_full_def dstore_def dest!: subsetD [OF set_update_subset_insert])

lemma insert_keeps_full:
  assumes "dram_inv crc ht" and "dramblast_insert_one crc ht k v = Some (rc, ht')" and "table_full ht"
  shows "table_full ht'"
proof (cases "k = 0")
  case True
  then show ?thesis using assms by (simp add: dram_insert_zero_key)
next
  case False
  then show ?thesis
    using assms(2,3) dram_insert_probe [OF assms(1) False, of v] table_full_dstore
    by (auto split: probe_result.splits)
qed

lemma insert_backend:
  assumes inv: "dram_inv crc ht" and g: "grown lut ks ht0 ht" and k: "k \<in> ks" "k \<noteq> 0"
    and new: "dram_map ht0 k = None"
  shows "\<exists>rc ht'. dramblast_insert_one crc ht k (backend_of lut k) = Some (rc, ht') \<and>
    dram_inv crc ht' \<and> ht_len ht' = ht_len ht \<and> ht_queues ht' = ht_queues ht \<and>
    grown lut ks ht ht' \<and>
    (\<not> rc < 0 \<and> dram_map ht' k = Some (backend_of lut k) \<or> rc < 0 \<and> table_full ht')"
proof -
  have old: "dram_map ht k = None \<or> dram_map ht k = Some (backend_of lut k)"
    using g new by (auto simp: grown_def dest: spec [of _ k])
  obtain rc ht' where i: "dramblast_insert_one crc ht k (backend_of lut k) = Some (rc, ht')"
    "dram_inv crc ht'" "ht_len ht' = ht_len ht" "ht_queues ht' = ht_queues ht"
    "rc = 0 \<and> dram_map ht' = (dram_map ht)(k \<mapsto> backend_of lut k) \<or>
     rc = -1 \<and> ht' = ht \<and> (\<forall>kv \<in> set (ht_table ht). kv_k kv \<noteq> 0)"
    using dram_insert_cases [OF inv k(2), of "backend_of lut k"] by blast
  from i(5) have "grown lut ks ht ht'" using old k(1) by (auto simp: grown_def split: if_splits)
  then show ?thesis using i by (auto simp: table_full_def)
qed

section \<open>One result, and all of them\<close>

lemma dram_result_status:
  assumes "arg_k a \<noteq> 0"
  shows "res_id (dram_result crc ht a) = arg_id a"
    and "case dram_map ht (arg_k a) of
        Some v \<Rightarrow> res_v (dram_result crc ht a) = v \<and> res_status (dram_result crc ht a) = DRAMBLAST_FOUND
      | None \<Rightarrow> res_status (dram_result crc ht a) =
          (if gives_up crc ht (arg_k a) then DRAMBLAST_TABLE_FULL else DRAMBLAST_ABSENT)"
  using assms
  by (auto simp: dram_result_def dram_answer_def gives_up_def Let_def split: option.splits prod.splits)

lemma status_codes: "DRAMBLAST_FOUND \<noteq> DRAMBLAST_ABSENT" "DRAMBLAST_TABLE_FULL \<noteq> DRAMBLAST_ABSENT"
  "DRAMBLAST_FOUND \<noteq> DRAMBLAST_TABLE_FULL"
  by (simp_all add: DRAMBLAST_FOUND_def DRAMBLAST_ABSENT_def DRAMBLAST_TABLE_FULL_def)

lemma dramblast_frame_outcome:
  assumes inv: "dram_inv crc ht" and g: "grown lut ks ht0 ht" and lut: "length lut = TABLE_SIZE"
    and a: "a \<in> set args" "rd args (unat (arg_id a)) = Some a" "arg_k a \<in> ks" "arg_k a \<noteq> 0"
  shows "\<exists>b ht'. dramblast_frame crc lut args ht (dram_result crc ht0 a) = Some (b, ht') \<and>
    dram_inv crc ht' \<and> ht_len ht' = ht_len ht \<and> ht_queues ht' = ht_queues ht \<and>
    grown lut ks ht ht' \<and> (table_full ht \<longrightarrow> table_full ht') \<and> frame_outcome crc lut ht0 ht' (arg_k a) b"
proof (cases "dram_map ht0 (arg_k a)")
  case (Some v)
  then show ?thesis
    using dram_result_status [OF a(4), of crc ht0] inv
    by (simp add: dramblast_frame_def status_codes frame_outcome_def)
next
  case None
  show ?thesis
  proof (cases "gives_up crc ht0 (arg_k a)")
    case True
    then show ?thesis
      using dram_result_status [OF a(4), of crc ht0] inv None
      by (simp add: dramblast_frame_def status_codes frame_outcome_def)
  next
    case False
    have rd: "rd lut (unat (arg_k a) mod TABLE_SIZE) = Some (backend_of lut (arg_k a))"
      using lut by (simp add: backend_of_def TABLE_SIZE_def)
    obtain rc ht' where i: "dramblast_insert_one crc ht (arg_k a) (backend_of lut (arg_k a)) = Some (rc, ht')"
      "dram_inv crc ht'" "ht_len ht' = ht_len ht" "ht_queues ht' = ht_queues ht" "grown lut ks ht ht'"
      "\<not> rc < 0 \<and> dram_map ht' (arg_k a) = Some (backend_of lut (arg_k a)) \<or> rc < 0 \<and> table_full ht'"
      using insert_backend [OF inv g a(3,4) None] by blast
    have "dramblast_frame crc lut args ht (dram_result crc ht0 a) =
        Some (if rc < 0 then 0 else backend_of lut (arg_k a), ht')"
      using dram_result_status [OF a(4), of crc ht0] None False a(2) rd i(1)
      by (simp add: dramblast_frame_def Let_def)
    then show ?thesis
      using i insert_keeps_full [OF inv i(1)] None False by (auto simp: frame_outcome_def)
  qed
qed

lemma dramblast_report_spec:
  assumes "dram_inv crc ht" and "grown lut ks ht0 ht" and "length lut = TABLE_SIZE"
    and "\<forall>a \<in> set as. rd args (unat (arg_id a)) = Some a \<and> a \<in> set args \<and> arg_k a \<in> ks \<and> arg_k a \<noteq> 0 \<and>
      unat (arg_id a) < length ret"
    and "distinct (List.map arg_id as)"
  shows "\<exists>ret' ht'. dramblast_report crc lut args ret ht (List.map (dram_result crc ht0) as) = Some (ret', ht') \<and>
    dram_inv crc ht' \<and> ht_len ht' = ht_len ht \<and> ht_queues ht' = ht_queues ht \<and> grown lut ks ht ht' \<and>
    (table_full ht \<longrightarrow> table_full ht') \<and> length ret' = length ret \<and>
    (\<forall>a \<in> set as. frame_outcome crc lut ht0 ht' (arg_k a) (ret' ! unat (arg_id a))) \<and>
    (\<forall>i. i \<notin> (\<lambda>a. unat (arg_id a)) ` set as \<longrightarrow> ret' ! i = ret ! i)"
  using assms
proof (induction as arbitrary: ht ret)
  case Nil
  then show ?case by simp
next
  case (Cons a as)
  have a: "a \<in> set args" "rd args (unat (arg_id a)) = Some a" "arg_k a \<in> ks" "arg_k a \<noteq> 0"
    "unat (arg_id a) < length ret" using Cons.prems(4) by auto
  obtain b ht1 where f: "dramblast_frame crc lut args ht (dram_result crc ht0 a) = Some (b, ht1)"
    "dram_inv crc ht1" "ht_len ht1 = ht_len ht" "ht_queues ht1 = ht_queues ht" "grown lut ks ht ht1"
    "table_full ht \<longrightarrow> table_full ht1" "frame_outcome crc lut ht0 ht1 (arg_k a) b"
    using dramblast_frame_outcome [OF Cons.prems(1-3) a(1-4)] by blast
  let ?ret1 = "ret[unat (arg_id a) := b]"
  have "\<forall>a \<in> set as. rd args (unat (arg_id a)) = Some a \<and> a \<in> set args \<and> arg_k a \<in> ks \<and> arg_k a \<noteq> 0 \<and>
      unat (arg_id a) < length ?ret1" using Cons.prems(4) by simp
  from Cons.IH [OF f(2) grown_trans [OF Cons.prems(2) f(5)] Cons.prems(3) this] Cons.prems(5)
  obtain ret' ht' where r: "dramblast_report crc lut args ?ret1 ht1 (List.map (dram_result crc ht0) as) =
      Some (ret', ht')" "dram_inv crc ht'" "ht_len ht' = ht_len ht1" "ht_queues ht' = ht_queues ht1"
    "grown lut ks ht1 ht'" "table_full ht1 \<longrightarrow> table_full ht'" "length ret' = length ret"
    "\<forall>a \<in> set as. frame_outcome crc lut ht0 ht' (arg_k a) (ret' ! unat (arg_id a))"
    "\<forall>i. i \<notin> (\<lambda>a. unat (arg_id a)) ` set as \<longrightarrow> ret' ! i = ?ret1 ! i" by auto
  have "unat (arg_id a) \<notin> (\<lambda>a. unat (arg_id a)) ` set as"
    using Cons.prems(5) by (auto simp: image_iff word_unat_eq_iff)
  then have "ret' ! unat (arg_id a) = b" using r(9) a(5) by simp
  moreover have "frame_outcome crc lut ht0 ht' (arg_k a) b"
    using grown_outcome [OF r(5) _ f(7)] r(6) by blast
  moreover have "dramblast_report crc lut args ret ht (List.map (dram_result crc ht0) (a # as)) = Some (ret', ht')"
    using f(1) r(1) a(4,5) by (simp add: dram_result_status(1))
  ultimately show ?case
    using f r grown_trans [OF f(5) r(5)] by auto
qed

section \<open>The batch\<close>

text \<open>The requests as the forwarding loop builds them: keys of trackable packets, ids in order.\<close>

definition batch_args :: "dramblast_arg list \<Rightarrow> bool" where
  "batch_args args \<longleftrightarrow>
     length args < 2 ^ 32 \<and>
     (\<forall>i \<in> set [0..<length args]. arg_k (args ! i) \<noteq> 0 \<and> arg_id (args ! i) = of_nat i)"

lemma batch_args_id:
  assumes "batch_args args" and "i < length args"
  shows "unat (arg_id (args ! i)) = i" and "arg_k (args ! i) \<noteq> 0"
  using assms by (auto simp: batch_args_def unat_of_nat)

lemma batch_args_distinct:
  assumes "batch_args args"
  shows "distinct (List.map arg_id args)"
  unfolding distinct_conv_nth
proof (intro allI impI)
  fix i j assume "i < length (List.map arg_id args)" "j < length (List.map arg_id args)" "i \<noteq> j"
  then show "List.map arg_id args ! i \<noteq> List.map arg_id args ! j"
    using batch_args_id(1) [OF assms] by (metis length_map nth_map)
qed

lemma batch_args_ids:
  assumes "batch_args args"
  shows "(\<lambda>a. unat (arg_id a)) ` set args = {..<length args}"
  using batch_args_id(1) [OF assms] by (force simp: in_set_conv_nth image_iff)

lemma mset_map_preimage:
  assumes "mset ys = mset (List.map f xs)"
  shows "\<exists>zs. mset zs = mset xs \<and> ys = List.map f zs"
  using assms
proof (induction ys arbitrary: xs)
  case Nil
  then show ?case by simp
next
  case (Cons y ys)
  then have "y \<in> set (List.map f xs)" by (metis list.set_intros(1) set_mset_mset)
  then obtain x where x: "x \<in> set xs" "y = f x" by auto
  then have "mset ys = mset (List.map f (remove1 x xs))"
    using Cons.prems by (simp add: image_mset_Diff) (metis add_mset_remove_trivial)
  then obtain zs where "mset zs = mset (remove1 x xs)" "ys = List.map f zs" using Cons.IH by blast
  then show ?case using x by (intro exI [of _ "x # zs"]) simp
qed

lemma process_frames_returns:
  assumes ready: "dram_ready crc ht tid" and lut: "length lut = TABLE_SIZE"
    and args: "batch_args args" and room: "length args \<le> length ret"
  shows "\<exists>ret' ht'. dramblast_process_frames crc True lut ht args ret tid = Some (Return (ret', ht')) \<and>
    dram_ready crc ht' tid \<and> length ret' = length ret \<and> grown lut (arg_k ` set args) ht ht' \<and>
    (\<forall>i<length args. frame_outcome crc lut ht ht' (arg_k (args ! i)) (ret' ! i)) \<and>
    (\<forall>i. length args \<le> i \<longrightarrow> ret' ! i = ret ! i)"
proof -
  obtain results ht1 where f: "dramblast_find_batch_sync crc ht args tid = Some (results, ht1)"
    "mset results = mset (List.map (dram_result crc ht) args)" "length results = length args"
    "same_but_queue tid ht ht1" "dram_ready crc ht1 tid"
    using find_batch_answers [OF ready] by blast
  obtain as where as: "mset as = mset args" "results = List.map (dram_result crc ht) as"
    using mset_map_preimage [OF f(2)] by blast
  then have set: "set as = set args" by (metis set_mset_mset)
  have inv: "dram_inv crc ht1" using f(5) by (simp add: dram_ready_def)
  have g: "grown lut (arg_k ` set args) ht ht1" using dram_map_same [OF f(4)] by (simp add: grown_def)
  have ok: "\<forall>a \<in> set as. rd args (unat (arg_id a)) = Some a \<and> a \<in> set args \<and>
      arg_k a \<in> arg_k ` set args \<and> arg_k a \<noteq> 0 \<and> unat (arg_id a) < length ret"
    using batch_args_id [OF args] room unfolding set by (auto simp: in_set_conv_nth)
  have dist: "distinct (List.map arg_id as)"
    using batch_args_distinct [OF args] as(1) by (metis mset_eq_imp_distinct_iff mset_map)
  from dramblast_report_spec [OF inv g lut ok dist] obtain ret' ht2
    where r: "dramblast_report crc lut args ret ht1 results = Some (ret', ht2)"
      "dram_inv crc ht2" "ht_len ht2 = ht_len ht1" "ht_queues ht2 = ht_queues ht1"
      "grown lut (arg_k ` set args) ht1 ht2" "length ret' = length ret"
      "\<forall>a \<in> set args. frame_outcome crc lut ht ht2 (arg_k a) (ret' ! unat (arg_id a))"
      "\<forall>i. i \<notin> {..<length args} \<longrightarrow> ret' ! i = ret ! i"
    unfolding as(2) set batch_args_ids [OF args] by blast
  have "dramblast_process_frames crc True lut ht args ret tid = Some (Return (ret', ht2))"
    using f(1,3) r(1) by (simp add: dramblast_process_frames_def)
  moreover have "dram_ready crc ht2 tid"
    using f(5) r(2-4) by (simp add: dram_ready_def queue_ok_def queue_cap_def pending_def)
  moreover have "frame_outcome crc lut ht ht2 (arg_k (args ! i)) (ret' ! i)" if "i < length args" for i
    using r(7) that batch_args_id(1) [OF args that] by (metis nth_mem)
  ultimately show ?thesis using r(6,8) grown_trans [OF g r(5)] by auto
qed

text \<open>
  C20: a batch of \<open>dramblast_process_frames\<close> always returns to its caller (it never leaves
  through the size check, never accesses anything out of bounds).  Every frame of a known flow
  gets the stored backend; a frame of a new flow gets the backend of the lookup table, and the
  flow is then tracked with it, except when the lookup could not decide (reported as 0) or no
  slot is left at the end (reported as 0).  No flow that was tracked is changed or lost, only
  flows of the batch are added, and entries of \<open>ret\<close> beyond the batch keep their value.
\<close>

theorem dramblast_process_frames_spec:
  assumes "dram_ready crc ht tid" and "length lut = TABLE_SIZE"
    and "batch_args args" and "length args \<le> length ret"
  shows "\<exists>ret' ht'. dramblast_process_frames crc True lut ht args ret tid = Some (Return (ret', ht')) \<and>
    dram_ready crc ht' tid \<and> length ret' = length ret \<and>
    (\<forall>k. dram_map ht' k = dram_map ht k \<or>
       dram_map ht k = None \<and> k \<in> arg_k ` set args \<and>
       dram_map ht' k = Some (lut ! (unat k mod TABLE_SIZE))) \<and>
    (\<forall>i<length args. let k = arg_k (args ! i) in
       case dram_map ht k of
         Some v \<Rightarrow> ret' ! i = v
       | None \<Rightarrow>
           if gives_up crc ht k then ret' ! i = 0
           else ret' ! i = lut ! (unat k mod TABLE_SIZE) \<and> dram_map ht' k = Some (ret' ! i) \<or>
             ret' ! i = 0 \<and> table_full ht') \<and>
    (\<forall>i. length args \<le> i \<longrightarrow> ret' ! i = ret ! i)"
  using process_frames_returns [OF assms]
  unfolding frame_outcome_def grown_def backend_of_def Let_def .

definition sample_args :: "dramblast_arg list" where
  "sample_args = [\<lparr>arg_k = 5, arg_id = 0\<rparr>, \<lparr>arg_k = 13, arg_id = 1\<rparr>, \<lparr>arg_k = 5, arg_id = 2\<rparr>]"

lemma sample_args_batch: "batch_args sample_args" "length sample_args = 3"
  by (simp_all add: batch_args_def sample_args_def upt_rec)

theorem dramblast_process_frames_spec_witness:
  "\<exists>ret' ht'. dramblast_process_frames (\<lambda>_ k. k) True (replicate TABLE_SIZE 0xff)
      (fresh_ht 8 [fresh_ring 62]) sample_args [1, 2, 3, 4] 0 = Some (Return (ret', ht')) \<and> ret' ! 3 = 4"
  using dramblast_process_frames_spec [OF sample_ready, of "replicate TABLE_SIZE 0xff" sample_args "[1, 2, 3, 4]"]
    sample_args_batch
  by auto

section \<open>A sequence of batches\<close>

text \<open>The batches one core processes, each with an array of its own for the answers.\<close>

fun dramblast_run ::
  "(u64 \<Rightarrow> u64 \<Rightarrow> u64) \<Rightarrow> LookUpTable \<Rightarrow> dramblast_ht \<Rightarrow> dramblast_arg list list \<Rightarrow> nat \<Rightarrow>
     (u64 list list \<times> dramblast_ht) option" where
  "dramblast_run crc lut ht [] tid = Some ([], ht)"
| "dramblast_run crc lut ht (args # batches) tid =
     (case dramblast_process_frames crc True lut ht args (replicate (length args) 0) tid of
        Some (Return (ret, ht')) \<Rightarrow> do {
          (rets, ht'') \<leftarrow> dramblast_run crc lut ht' batches tid;
          Some (ret # rets, ht'')
        }
      | _ \<Rightarrow> None)"

lemma outcome_tracked:
  "frame_outcome crc lut ht ht' k b \<Longrightarrow> grown lut ks ht ht' \<Longrightarrow> b \<noteq> 0 \<Longrightarrow> dram_map ht' k = Some b"
  by (auto simp: frame_outcome_def dest: grown_submap split: option.splits if_splits)

lemma dramblast_run_spec:
  assumes "dram_ready crc ht tid" and "length lut = TABLE_SIZE" and "\<forall>args \<in> set batches. batch_args args"
  shows "\<exists>rets ht'. dramblast_run crc lut ht batches tid = Some (rets, ht') \<and>
    length rets = length batches \<and>
    (\<forall>j<length batches. \<forall>q<length (batches ! j). \<forall>v.
       dram_map ht (arg_k (batches ! j ! q)) = Some v \<longrightarrow> rets ! j ! q = v) \<and>
    (\<forall>j<length batches. \<forall>i<j. \<forall>p<length (batches ! i). \<forall>q<length (batches ! j).
       arg_k (batches ! i ! p) = arg_k (batches ! j ! q) \<longrightarrow> rets ! i ! p \<noteq> 0 \<longrightarrow>
       rets ! j ! q = rets ! i ! p)"
  using assms
proof (induction batches arbitrary: ht)
  case Nil
  then show ?case by simp
next
  case (Cons args batches)
  obtain ret ht1 where f: "dramblast_process_frames crc True lut ht args (replicate (length args) 0) tid =
      Some (Return (ret, ht1))" "dram_ready crc ht1 tid" "grown lut (arg_k ` set args) ht ht1"
    "\<forall>i<length args. frame_outcome crc lut ht ht1 (arg_k (args ! i)) (ret ! i)"
    using process_frames_returns [OF Cons.prems(1,2), of args "replicate (length args) 0"] Cons.prems(3) by auto
  obtain rets ht' where r: "dramblast_run crc lut ht1 batches tid = Some (rets, ht')"
    "length rets = length batches"
    "\<And>j q v. j < length batches \<Longrightarrow> q < length (batches ! j) \<Longrightarrow>
       dram_map ht1 (arg_k (batches ! j ! q)) = Some v \<Longrightarrow> rets ! j ! q = v"
    "\<And>j i p q. j < length batches \<Longrightarrow> i < j \<Longrightarrow> p < length (batches ! i) \<Longrightarrow> q < length (batches ! j) \<Longrightarrow>
       arg_k (batches ! i ! p) = arg_k (batches ! j ! q) \<Longrightarrow> rets ! i ! p \<noteq> 0 \<Longrightarrow>
       rets ! j ! q = rets ! i ! p"
    using Cons.IH [OF f(2) Cons.prems(2)] Cons.prems(3) by auto
  have known: "(ret # rets) ! j ! q = v"
    if "j < length (args # batches)" "q < length ((args # batches) ! j)"
      "dram_map ht (arg_k ((args # batches) ! j ! q)) = Some v" for j q v
    using that f(4) r(3) [of "j - 1" q v] grown_submap [OF f(3)]
    by (cases j) (auto simp: frame_outcome_def split: option.splits)
  have same: "(ret # rets) ! j ! q = (ret # rets) ! i ! p"
    if "j < length (args # batches)" "i < j" "p < length ((args # batches) ! i)"
      "q < length ((args # batches) ! j)" "arg_k ((args # batches) ! i ! p) = arg_k ((args # batches) ! j ! q)"
      "(ret # rets) ! i ! p \<noteq> 0" for j i p q
  proof (cases i)
    case 0
    then have "dram_map ht1 (arg_k (args ! p)) = Some (ret ! p)"
      using that f(4) outcome_tracked [OF _ f(3)] by auto
    then show ?thesis using that 0 r(3) [of "j - 1" q "ret ! p"] by (cases j) auto
  next
    case (Suc i')
    then show ?thesis using that r(4) [of "j - 1" i' p q] by (cases j) auto
  qed
  show ?case using f(1) r(1,2) known same by (simp del: nth_Cons_Suc nth_Cons_0)
qed

text \<open>
  C1: connection affinity.  Over any sequence of batches of one core, once a frame of a flow
  was given a backend (a non-zero answer), every frame of that flow in a later batch gets the
  same one, whatever the lookup table holds, and even when the table has filled up since.
\<close>

theorem dramblast_affinity:
  assumes "dram_ready crc ht tid" and "length lut = TABLE_SIZE" and "\<forall>args \<in> set batches. batch_args args"
    and "i < j" and "j < length batches" and "p < length (batches ! i)" and "q < length (batches ! j)"
    and "arg_k (batches ! i ! p) = arg_k (batches ! j ! q)"
  shows "\<exists>rets ht'. dramblast_run crc lut ht batches tid = Some (rets, ht') \<and>
    (rets ! i ! p \<noteq> 0 \<longrightarrow> rets ! j ! q = rets ! i ! p)"
  using dramblast_run_spec [OF assms(1-3)] assms(4-) by blast

theorem dramblast_affinity_witness:
  "\<exists>rets ht'. dramblast_run (\<lambda>_ k. k) (replicate TABLE_SIZE 0xff) (fresh_ht 8 [fresh_ring 62])
      [sample_args, sample_args] 0 = Some (rets, ht') \<and>
    (rets ! 0 ! 2 = 0 \<or> rets ! 1 ! 0 = rets ! 0 ! 2)"
  using dramblast_affinity [OF sample_ready, of "replicate TABLE_SIZE 0xff" "[sample_args, sample_args]" 0 1 2 0]
    sample_args_batch
  by (auto simp: sample_args_def)

end
