(* ===== verification/Dram_Memory.thy ===== *)
theory Dram_Memory
  imports Dram_Frames
begin

text \<open>
  \<open>l2fwd/libsashstore/dramblast.c\<close>, memory: sizes, \<open>allocate_dramblast_table\<close>, \<open>dramblast_init\<close>
  and \<open>dramblast_destroy\<close>.  The C library's allocator and \<open>mmap\<close>/\<open>munmap\<close> are modelled as far as
  the code relies on them: a heap of live blocks and mappings, every allocation numbered; which
  allocations fail (\<open>fails\<close>) and what fresh memory holds (\<open>junk\<close>) are parameters.  Freeing a block
  that is not live is an error (\<open>None\<close>).  The lemmas show that a table initialised by the code
  is ready for every core, and that init followed by destroy leaves the heap as it was.
\<close>

section \<open>The heap\<close>

type_synonym ptr = nat

record heap =
  blocks :: "(ptr \<times> u64) list"
  mappings :: "(ptr \<times> u64 \<times> nat) list"
  allocations :: nat

definition aligned_alloc :: "(nat \<Rightarrow> bool) \<Rightarrow> u64 \<Rightarrow> heap \<Rightarrow> ptr option \<times> heap" where
  "aligned_alloc fails bytes h =
     (let p = allocations h; h' = h\<lparr>allocations := Suc p\<rparr>
      in if fails p then (None, h') else (Some p, h'\<lparr>blocks := (p, bytes) # blocks h\<rparr>))"

definition free :: "ptr \<Rightarrow> heap \<Rightarrow> heap option" where
  "free p h =
     (if p \<in> fst ` set (blocks h)
      then Some (h\<lparr>blocks := filter (\<lambda>b. fst b \<noteq> p) (blocks h)\<rparr>) else None)"

text \<open>
  A huge-page mapping of the page size that bits 26 to 31 of the flags encode.  Its length, and
  that of an unmapping, must be a positive multiple of the page size.
\<close>

definition huge_page_log :: "u32 \<Rightarrow> nat" where
  "huge_page_log flags = unat (drop_bit 26 flags AND 0x3f)"

definition mmap :: "(nat \<Rightarrow> bool) \<Rightarrow> u64 \<Rightarrow> u32 \<Rightarrow> heap \<Rightarrow> ptr option \<times> heap" where
  "mmap fails bytes flags h =
     (let p = allocations h; h' = h\<lparr>allocations := Suc p\<rparr>
      in if fails p \<or> bytes = 0 \<or> \<not> 2 ^ huge_page_log flags dvd unat bytes then (None, h')
         else (Some p, h'\<lparr>mappings := (p, bytes, huge_page_log flags) # mappings h\<rparr>))"

definition munmap :: "ptr \<Rightarrow> u64 \<Rightarrow> heap \<Rightarrow> int \<times> heap" where
  "munmap p bytes h =
     (if \<exists>m \<in> set (mappings h). fst m = p \<and> bytes \<noteq> 0 \<and> 2 ^ snd (snd m) dvd unat bytes
      then (0, h\<lparr>mappings := concat (List.map (\<lambda>(q, n, lg).
             if q \<noteq> p then [(q, n, lg)] else if bytes < n then [(q, n - bytes, lg)] else [])
             (mappings h))\<rparr>)
      else (-1, h))"

section \<open>Sizes\<close>

definition dramblast_alloc64 :: "(nat \<Rightarrow> bool) \<Rightarrow> u64 \<Rightarrow> heap \<Rightarrow> ptr option \<times> heap" where
  "dramblast_alloc64 fails bytes h = aligned_alloc fails ((bytes + 63) AND NOT 63) h"

definition MAP_PRIVATE :: u32 where "MAP_PRIVATE = 0x02"
definition MAP_ANONYMOUS :: u32 where "MAP_ANONYMOUS = 0x20"
definition MAP_HUGETLB :: u32 where "MAP_HUGETLB = 0x40000"
definition MAP_HUGE_2MB :: u32 where "MAP_HUGE_2MB = push_bit 26 21"
definition MAP_HUGE_1GB :: u32 where "MAP_HUGE_1GB = push_bit 26 30"
definition PAGE_SIZE_2MB :: u64 where "PAGE_SIZE_2MB = 2 * 1024 * 1024"
definition PAGE_SIZE_1GB :: u64 where "PAGE_SIZE_1GB = 1024 * 1024 * 1024"

definition ALIGN_UP :: "u64 \<Rightarrow> u64 \<Rightarrow> u64" where
  "ALIGN_UP x align = (x + align - 1) AND NOT (align - 1)"

definition get_aligned_table_size :: "u64 \<Rightarrow> u64" where
  "get_aligned_table_size bytes =
     (if bytes > PAGE_SIZE_1GB then ALIGN_UP bytes PAGE_SIZE_1GB else ALIGN_UP bytes PAGE_SIZE_2MB)"

text \<open>Returns the pointer and the zeroed slots of 16 bytes each.\<close>

definition allocate_dramblast_table ::
  "(nat \<Rightarrow> bool) \<Rightarrow> u64 \<Rightarrow> heap \<Rightarrow> (ptr \<times> dramblast_kv list) option \<times> heap" where
  "allocate_dramblast_table fails bytes h =
     (let flags = (MAP_PRIVATE OR MAP_ANONYMOUS) OR MAP_HUGETLB;
          aligned_bytes = get_aligned_table_size bytes;
          flags = (if bytes > PAGE_SIZE_1GB then flags OR MAP_HUGE_1GB else flags OR MAP_HUGE_2MB)
      in case mmap fails aligned_bytes flags h of
           (None, h') \<Rightarrow> (None, h')
         | (Some p, h') \<Rightarrow> (Some (p, replicate (unat aligned_bytes div 16) \<lparr>kv_k = 0, kv_v = 0\<rparr>), h'))"

lemma unat_and_not_mask:
  assumes "n < 64"
  shows "unat ((x::u64) AND NOT (2 ^ n - 1)) = 2 ^ n * (unat x div 2 ^ n)"
proof -
  have "x = (x AND NOT (2 ^ n - 1)) + (x AND (2 ^ n - 1))"
    by (subst disjunctive_add) (auto simp: bit_simps simp flip: and.left_commute bit.conj_disj_distrib)
  then have "x AND NOT (2 ^ n - 1) = x - (x AND (2 ^ n - 1))" by (metis add_diff_cancel_right')
  moreover have "x AND (2 ^ n - 1) \<le> x" by (rule word_and_le2)
  ultimately have "unat (x AND NOT (2 ^ n - 1)) = unat x - unat (x AND (2 ^ n - 1))" by (simp add: unat_sub)
  also have "unat (x AND (2 ^ n - 1)) = unat x mod 2 ^ n" by (rule and_mask_two_power)
  finally show ?thesis by (simp add: minus_mod_eq_mult_div)
qed

lemma ALIGN_UP_pow2:
  assumes "n < 64" and "unat x + 2 ^ n \<le> 2 ^ 64"
  shows "unat (ALIGN_UP x (2 ^ n)) = 2 ^ n * ((unat x + 2 ^ n - 1) div 2 ^ n)"
proof -
  have p: "unat ((2::u64) ^ n) = 2 ^ n" using assms(1) by (rule unat_two_power)
  define y :: u64 where "y = 2 ^ n - 1"
  have "unat y = 2 ^ n - 1"
    using p unfolding y_def by (subst unat_sub) (auto simp: word_le_nat_alt)
  moreover have "(1::nat) \<le> 2 ^ n" by simp
  ultimately have "unat (x + y) = unat x + 2 ^ n - 1"
    using assms(2) by (simp add: unat_word_ariths)
  moreover have "x + 2 ^ n - 1 = x + y" unfolding y_def by (rule add_diff_eq [symmetric])
  ultimately have "unat (x + 2 ^ n - 1) = unat x + 2 ^ n - 1" by metis
  then show ?thesis by (simp add: ALIGN_UP_def unat_and_not_mask [OF assms(1)])
qed

definition page_log :: "u64 \<Rightarrow> nat" where
  "page_log bytes = (if bytes > PAGE_SIZE_1GB then 30 else 21)"

lemma aligned_size:
  assumes "unat bytes + 2 ^ 30 \<le> 2 ^ 64" and "bytes \<noteq> 0"
  shows "2 ^ page_log bytes dvd unat (get_aligned_table_size bytes)"
    and "unat bytes \<le> unat (get_aligned_table_size bytes)"
    and "unat (get_aligned_table_size bytes) < unat bytes + 2 ^ page_log bytes"
    and "get_aligned_table_size bytes \<noteq> 0"
proof -
  let ?n = "page_log bytes" and ?a = "unat (get_aligned_table_size bytes)"
  have n: "?n < 64" "unat bytes + 2 ^ ?n \<le> 2 ^ 64" using assms(1) by (auto simp: page_log_def)
  have "get_aligned_table_size bytes = ALIGN_UP bytes (2 ^ ?n)"
    by (simp add: get_aligned_table_size_def page_log_def PAGE_SIZE_1GB_def PAGE_SIZE_2MB_def)
  then have a: "?a = 2 ^ ?n * ((unat bytes + 2 ^ ?n - 1) div 2 ^ ?n)"
    using ALIGN_UP_pow2 [OF n] by simp
  have split: "2 ^ ?n * ((unat bytes + 2 ^ ?n - 1) div 2 ^ ?n) + (unat bytes + 2 ^ ?n - 1) mod 2 ^ ?n
      = unat bytes + 2 ^ ?n - 1" by (rule mult_div_mod_eq)
  have m: "(unat bytes + 2 ^ ?n - 1) mod 2 ^ ?n < 2 ^ ?n" "(0::nat) < 2 ^ ?n" by simp_all
  show "2 ^ ?n dvd ?a" by (simp add: a)
  show le: "unat bytes \<le> ?a" using split m unfolding a by linarith
  show "?a < unat bytes + 2 ^ ?n" using split m unfolding a by linarith
  have "0 < unat bytes" using assms(2) by (simp add: unat_gt_0)
  then show "get_aligned_table_size bytes \<noteq> 0" using le by auto
qed

text \<open>
  The size mapped for a table of up to 2^64 - 2^30 bytes is at least the size asked for,
  less than a page more, and a multiple of the page size its flags ask for, so that the mapping
  of a huge-page table is never rejected for its length nor too short for its slots.
\<close>

lemma get_aligned_table_size_bounds:
  assumes "unat bytes + 2 ^ 30 \<le> 2 ^ 64"
  shows "let page = unat (if bytes > PAGE_SIZE_1GB then PAGE_SIZE_1GB else PAGE_SIZE_2MB);
             size = unat (get_aligned_table_size bytes)
         in unat bytes \<le> size \<and> size < unat bytes + page \<and> page dvd size"
proof (cases "bytes = 0")
  case True
  then show ?thesis
    by (simp add: get_aligned_table_size_def ALIGN_UP_def PAGE_SIZE_1GB_def PAGE_SIZE_2MB_def)
next
  case False
  have "unat (if bytes > PAGE_SIZE_1GB then PAGE_SIZE_1GB else PAGE_SIZE_2MB) = 2 ^ page_log bytes"
    by (simp add: page_log_def PAGE_SIZE_1GB_def PAGE_SIZE_2MB_def)
  then show ?thesis using aligned_size [OF assms False] by (simp add: Let_def)
qed

lemma get_aligned_table_size_bounds_witness:
  "unat (get_aligned_table_size 0x40000001) < 0x40000001 + 0x40000000"
  using get_aligned_table_size_bounds [of "0x40000001"]
  by (simp add: Let_def PAGE_SIZE_1GB_def PAGE_SIZE_2MB_def)

section \<open>Initialisation and release\<close>

text \<open>
  The pointers behind the file-level \<open>dramblast_ht\<close>, next to the contents they lead to.
\<close>

record dramblast_root =
  root_self :: ptr
  root_table :: "ptr option"
  root_queues :: "ptr option"
  root_find_queues :: "ptr option list"
  root_ht :: dramblast_ht

definition MAX_CPU :: u8 where "MAX_CPU = 128"

text \<open>
  The loop over the cores.  A ring whose buffer could not be allocated keeps a NULL pointer, and
  no slot of it can be accessed.
\<close>

function init_queues ::
  "(nat \<Rightarrow> bool) \<Rightarrow> (nat \<Rightarrow> nat \<Rightarrow> dramblast_queue_item) \<Rightarrow> u8 \<Rightarrow> heap \<Rightarrow>
     (ptr option \<times> dramblast_queue) list \<times> heap" where
  "init_queues fails junk i h =
     (if i < MAX_CPU then
        let (p, h') = dramblast_alloc64 fails (32 * ucast DRAMBLAST_FIND_QUEUE_SIZE) h;
            q = \<lparr>find_queue =
                   (case p of None \<Rightarrow> []
                    | Some a \<Rightarrow> List.map (junk a) [0..<unat DRAMBLAST_FIND_QUEUE_SIZE]),
                 find_queue_head = 0, find_queue_tail = 0,
                 find_queue_size = DRAMBLAST_FIND_QUEUE_SIZE\<rparr>;
            (qs, h'') = init_queues fails junk (i + 1) h'
        in ((p, q) # qs, h'')
      else ([], h))"
  by pat_completeness auto
termination
  by (relation "measure (\<lambda>(f, j, i, h). unat MAX_CPU - unat i)") (auto intro: unat_inc_measure)

declare init_queues.simps [simp del]

definition dramblast_init ::
  "(nat \<Rightarrow> bool) \<Rightarrow> (nat \<Rightarrow> nat \<Rightarrow> dramblast_queue_item) \<Rightarrow> u64 \<Rightarrow> LookUpTable \<Rightarrow> heap \<Rightarrow>
     (dramblast_root \<times> LookUpTable \<times> heap) outcome option" where
  "dramblast_init fails junk CAPACITY dramblast_backends h =
     (case dramblast_alloc64 fails 24 h of
        (None, h1) \<Rightarrow> Some (Exit 1)
      | (Some self, h1) \<Rightarrow>
          (case dramblast_alloc64 fails (24 * ucast MAX_CPU) h1 of
             (None, h2) \<Rightarrow> None
           | (Some queues, h2) \<Rightarrow>
               (let (qs, h3) = init_queues fails junk 0 h2;
                    bytes = CAPACITY * 16
                in case allocate_dramblast_table fails bytes h3 of
                     (None, h4) \<Rightarrow> Some (Exit 1)
                   | (Some (table, slots), h4) \<Rightarrow> do {
                       lut \<leftarrow> populate_lut dramblast_backends;
                       Some (Return
                         (\<lparr>root_self = self, root_table = Some table, root_queues = Some queues,
                           root_find_queues = List.map fst qs,
                           root_ht = \<lparr>ht_table = take (unat CAPACITY) slots, ht_len = CAPACITY,
                                      ht_queues = List.map snd qs\<rparr>\<rparr>, lut, h4))
                     })))"

fun free_queues :: "ptr option list \<Rightarrow> heap \<Rightarrow> heap option" where
  "free_queues [] h = Some h"
| "free_queues (None # ps) h = free_queues ps h"
| "free_queues (Some p # ps) h = do { h' \<leftarrow> free p h; free_queues ps h' }"

definition dramblast_destroy :: "dramblast_root option \<Rightarrow> heap \<Rightarrow> (dramblast_root option \<times> heap) option" where
  "dramblast_destroy root h =
     (case root of
        None \<Rightarrow> Some (None, h)
      | Some r \<Rightarrow>
          let h1 = (case root_table r of
                      None \<Rightarrow> h
                    | Some table \<Rightarrow>
                        let bytes = ht_len (root_ht r) * 16
                        in snd (munmap table (get_aligned_table_size bytes) h))
          in do {
            h2 \<leftarrow> (case root_queues r of
                     None \<Rightarrow> Some h1
                   | Some queues \<Rightarrow> do {
                       h' \<leftarrow> free_queues (root_find_queues r) h1;
                       free queues h'
                     });
            h3 \<leftarrow> free (root_self r) h2;
            Some (None, h3)
          })"

section \<open>What initialisation leaves\<close>

definition wf_heap :: "heap \<Rightarrow> bool" where
  "wf_heap h \<longleftrightarrow>
     (\<forall>b \<in> set (blocks h). fst b < allocations h) \<and> (\<forall>m \<in> set (mappings h). fst m < allocations h)"

lemma alloc64_Some:
  assumes "dramblast_alloc64 fails n h = (Some p, h')"
  shows "p = allocations h" and "allocations h' = Suc p" and "mappings h' = mappings h"
    and "\<exists>m. blocks h' = (p, m) # blocks h"
  using assms by (auto simp: dramblast_alloc64_def aligned_alloc_def Let_def split: if_splits)

lemma alloc64_None:
  assumes "dramblast_alloc64 fails n h = (None, h')"
  shows "fails (allocations h)" and "allocations h' = Suc (allocations h)" and "mappings h' = mappings h"
    and "blocks h' = blocks h"
  using assms by (auto simp: dramblast_alloc64_def aligned_alloc_def Let_def split: if_splits)

definition ring_of :: "ptr option \<Rightarrow> dramblast_queue \<Rightarrow> bool" where
  "ring_of p q \<longleftrightarrow> find_queue_size q = 64 \<and>
     (case p of None \<Rightarrow> find_queue q = []
      | Some a \<Rightarrow> ring_ok q \<and> ring_items q = [])"

lemma new_ring:
  "ring_of p \<lparr>find_queue =
       (case p of None \<Rightarrow> [] | Some a \<Rightarrow> List.map (junk a) [0..<unat DRAMBLAST_FIND_QUEUE_SIZE]),
     find_queue_head = 0, find_queue_tail = 0, find_queue_size = DRAMBLAST_FIND_QUEUE_SIZE\<rparr>"
proof -
  have "(64::u32) = 2 ^ 6" by simp
  then show ?thesis
    by (auto simp: ring_of_def ring_ok_def ring_items_def ring_len_def slot_dist_def
        DRAMBLAST_FIND_QUEUE_SIZE_def split: option.splits intro!: exI [of _ 6])
qed

text \<open>The live pointers of a list that may hold NULLs.\<close>

definition live :: "ptr option list \<Rightarrow> ptr list" where
  "live ps = List.map the (filter (\<lambda>p. p \<noteq> None) ps)"

lemma live_simps [simp]: "live [] = []" "live (None # ps) = live ps" "live (Some p # ps) = p # live ps"
  by (simp_all add: live_def)

lemma init_queues_spec:
  assumes "init_queues fails junk i h = (qs, h')"
  shows "length qs = 128 - unat i \<and> (\<forall>(p, q) \<in> set qs. ring_of p q) \<and>
    mappings h' = mappings h \<and> allocations h' = allocations h + (128 - unat i) \<and>
    distinct (live (List.map fst qs)) \<and>
    (\<forall>a \<in> set (live (List.map fst qs)). allocations h \<le> a \<and> a < allocations h') \<and>
    (\<exists>ms. List.map fst ms = rev (live (List.map fst qs)) \<and> blocks h' = ms @ blocks h) \<and>
    ((\<forall>n. \<not> fails n) \<longrightarrow> None \<notin> fst ` set qs)"
  using assms
proof (induction fails junk i h arbitrary: qs h' rule: init_queues.induct)
  case (1 fails junk i h)
  show ?case
  proof (cases "i < MAX_CPU")
    case False
    then have "128 \<le> unat i" by (simp add: MAX_CPU_def word_less_nat_alt)
    then show ?thesis using False 1(2) by (auto simp: init_queues.simps)
  next
    case True
    obtain p h1 where a: "dramblast_alloc64 fails (32 * ucast DRAMBLAST_FIND_QUEUE_SIZE) h = (p, h1)" by fastforce
    define q where "q = \<lparr>find_queue =
       (case p of None \<Rightarrow> [] | Some a \<Rightarrow> List.map (junk a) [0..<unat DRAMBLAST_FIND_QUEUE_SIZE]),
     find_queue_head = 0, find_queue_tail = 0, find_queue_size = DRAMBLAST_FIND_QUEUE_SIZE\<rparr>"
    have q: "ring_of p q" unfolding q_def by (rule new_ring)
    obtain qs1 where r: "init_queues fails junk (i + 1) h1 = (qs1, h')" "qs = (p, q) # qs1"
      using True 1(2) a by (subst (asm) init_queues.simps) (auto simp: q_def Let_def split: prod.splits)
    note IH = 1(1) [OF True a [symmetric] refl refl r(1)]
    have len: "128 - unat i = Suc (128 - unat (i + 1))"
      using unat_inc [OF True] True by (simp add: MAX_CPU_def word_less_nat_alt)
    show ?thesis
    proof (cases p)
      case None
      then show ?thesis using IH alloc64_None [of fails _ h h1] a r(2) q len by auto
    next
      case (Some b)
      note al = alloc64_Some [OF a [unfolded Some]]
      obtain m where "blocks h1 = (b, m) # blocks h" using al(4) by blast
      note h1 = al(1-3) this
      from IH obtain ms where i: "length qs1 = 128 - unat (i + 1)" "\<forall>(p, q) \<in> set qs1. ring_of p q"
        "mappings h' = mappings h1" "allocations h' = allocations h1 + (128 - unat (i + 1))" "distinct (live (List.map fst qs1))"
        "\<forall>a \<in> set (live (List.map fst qs1)). allocations h1 \<le> a \<and> a < allocations h'"
        and ms: "List.map fst ms = rev (live (List.map fst qs1))" "blocks h' = ms @ blocks h1"
        and nf: "(\<forall>n. \<not> fails n) \<longrightarrow> None \<notin> fst ` set qs1" by blast
      have live: "live (List.map fst qs) = b # live (List.map fst qs1)" using r(2) Some by simp
      have "List.map fst (ms @ [(b, m)]) = rev (live (List.map fst qs)) \<and> blocks h' = (ms @ [(b, m)]) @ blocks h"
        using ms h1 live by simp
      then have "\<exists>ms. List.map fst ms = rev (live (List.map fst qs)) \<and> blocks h' = ms @ blocks h" by blast
      moreover have "b \<notin> set (live (List.map fst qs1))" using i(6) h1(2) by force
      moreover have "\<forall>a \<in> set (live (List.map fst qs)). allocations h \<le> a \<and> a < allocations h'"
        using i(4,6) h1(1,2) unfolding live by force
      moreover have "(\<forall>n. \<not> fails n) \<longrightarrow> None \<notin> fst ` set qs" using nf r(2) Some by simp
      ultimately show ?thesis using i(1-5) h1(1-3) r(2) q len live by simp
    qed
  qed
qed

lemma filter_dropped: "\<forall>x \<in> set xs. \<not> P x \<Longrightarrow> \<forall>x \<in> set ys. P x \<Longrightarrow> filter P (xs @ ys) = ys"
  by (simp add: filter_empty_conv filter_id_conv)

lemma free_Some:
  assumes "p \<in> fst ` set (blocks h)"
  shows "free p h = Some (h\<lparr>blocks := filter (\<lambda>b. fst b \<noteq> p) (blocks h)\<rparr>)"
  using assms by (simp add: free_def)

lemma free_queues_Some:
  assumes "distinct (live ps)" and "set (live ps) \<subseteq> fst ` set (blocks h)"
  shows "free_queues ps h = Some (h\<lparr>blocks := filter (\<lambda>b. fst b \<notin> set (live ps)) (blocks h)\<rparr>)"
  using assms
proof (induction ps h rule: free_queues.induct)
  case (3 p ps h)
  let ?h = "h\<lparr>blocks := filter (\<lambda>b. fst b \<noteq> p) (blocks h)\<rparr>"
  have f: "free p h = Some ?h" using 3 by (intro free_Some) auto
  have "set (live ps) \<subseteq> fst ` set (blocks ?h)"
  proof
    fix a assume a: "a \<in> set (live ps)"
    then have "a \<noteq> p" using 3(2) by auto
    moreover obtain n where "(a, n) \<in> set (blocks h)" using 3(3) a by auto
    ultimately show "a \<in> fst ` set (blocks ?h)" by (intro image_eqI [of _ _ "(a, n)"]) auto
  qed
  then have "free_queues ps ?h = Some (?h\<lparr>blocks := filter (\<lambda>b. fst b \<notin> set (live ps)) (blocks ?h)\<rparr>)"
    using 3 f by auto
  then show ?case using f by (simp add: conj_commute)
qed simp_all

definition table_bytes_ok :: "u64 \<Rightarrow> bool" where
  "table_bytes_ok CAPACITY \<longleftrightarrow> pow2_u64 CAPACITY \<and> CAPACITY \<le> 2 ^ 32"

lemma table_bytes:
  assumes "table_bytes_ok c"
  shows "unat (c * 16) = 16 * unat c" and "unat (c * 16) + 2 ^ 30 \<le> 2 ^ 64" and "c * 16 \<noteq> 0"
proof -
  have c: "unat c \<le> 2 ^ 32" using assms by (simp add: table_bytes_ok_def word_le_nat_alt)
  then show b: "unat (c * 16) = 16 * unat c" by (simp add: unat_word_ariths)
  show "unat (c * 16) + 2 ^ 30 \<le> 2 ^ 64" using c by (simp add: b)
  have "0 < unat c" using assms by (simp add: table_bytes_ok_def pow2_pos)
  then show "c * 16 \<noteq> 0" using b by (metis mult_is_0 neq0_conv unat_0 zero_neq_numeral)
qed

lemma page_flags:
  "huge_page_log (((MAP_PRIVATE OR MAP_ANONYMOUS) OR MAP_HUGETLB) OR MAP_HUGE_1GB) = 30"
  "huge_page_log (((MAP_PRIVATE OR MAP_ANONYMOUS) OR MAP_HUGETLB) OR MAP_HUGE_2MB) = 21"
  by (simp_all add: huge_page_log_def MAP_PRIVATE_def MAP_ANONYMOUS_def MAP_HUGETLB_def
      MAP_HUGE_1GB_def MAP_HUGE_2MB_def)

lemma allocate_table_cases:
  assumes "unat bytes + 2 ^ 30 \<le> 2 ^ 64" and "bytes \<noteq> 0"
  shows "allocate_dramblast_table fails bytes h =
    (if fails (allocations h) then (None, h\<lparr>allocations := Suc (allocations h)\<rparr>)
     else (Some (allocations h, replicate (unat (get_aligned_table_size bytes) div 16) \<lparr>kv_k = 0, kv_v = 0\<rparr>),
           h\<lparr>allocations := Suc (allocations h),
             mappings := (allocations h, get_aligned_table_size bytes, page_log bytes) # mappings h\<rparr>))"
  using aligned_size [OF assms]
  by (auto simp: allocate_dramblast_table_def mmap_def Let_def page_flags page_log_def)

lemma munmap_last:
  assumes "\<forall>m \<in> set ms. fst m \<noteq> p" and "mappings h = (p, n, lg) # ms" and "n \<noteq> 0" and "2 ^ lg dvd unat n"
  shows "munmap p n h = (0, h\<lparr>mappings := ms\<rparr>)"
proof -
  have "concat (List.map (\<lambda>(q, n', lg). if q \<noteq> p then [(q, n', lg)] else if n < n' then [(q, n' - n, lg)] else []) ms) = ms"
    using assms(1) by (induction ms) auto
  then show ?thesis using assms by (auto simp: munmap_def)
qed

lemma dramblast_init_unfold:
  fixes h :: heap
  assumes cap: "table_bytes_ok CAPACITY" and lut: "length lut = TABLE_SIZE"
  defines "a \<equiv> allocations h"
  shows "if fails a then dramblast_init fails junk CAPACITY lut h = Some (Exit 1)
    else if fails (Suc a) then dramblast_init fails junk CAPACITY lut h = None
    else if fails (a + 130) then dramblast_init fails junk CAPACITY lut h = Some (Exit 1)
    else \<exists>qs n1 n2 ms h3.
      dramblast_init fails junk CAPACITY lut h = Some (Return
        (\<lparr>root_self = a, root_table = Some (a + 130), root_queues = Some (Suc a),
          root_find_queues = List.map fst qs,
          root_ht = fresh_ht CAPACITY (List.map snd qs)\<rparr>, replicate TABLE_SIZE 0xff,
         h3\<lparr>allocations := a + 131,
            mappings := (a + 130, get_aligned_table_size (CAPACITY * 16), page_log (CAPACITY * 16)) # mappings h\<rparr>)) \<and>
      length qs = 128 \<and> (\<forall>(p, q) \<in> set qs. ring_of p q) \<and>
      distinct (live (List.map fst qs)) \<and> (\<forall>b \<in> set (live (List.map fst qs)). Suc a < b \<and> b < a + 130) \<and>
      List.map fst ms = rev (live (List.map fst qs)) \<and> blocks h3 = ms @ (Suc a, n2) # (a, n1) # blocks h \<and>
      ((\<forall>n. \<not> fails n) \<longrightarrow> None \<notin> fst ` set qs)"
proof -
  obtain p1 h1 where h1: "dramblast_alloc64 fails 24 h = (p1, h1)" by fastforce
  obtain p2 h2 where h2: "dramblast_alloc64 fails (24 * ucast MAX_CPU) h1 = (p2, h2)" by fastforce
  obtain qs h3 where h3: "init_queues fails junk 0 h2 = (qs, h3)" by fastforce
  have p1: "p1 = (if fails a then None else Some a)" "allocations h1 = Suc a" "mappings h1 = mappings h"
    "\<not> fails a \<Longrightarrow> \<exists>n1. blocks h1 = (a, n1) # blocks h"
    using h1 by (auto simp: a_def dramblast_alloc64_def aligned_alloc_def Let_def split: if_splits)
  have p2: "p2 = (if fails (Suc a) then None else Some (Suc a))" "allocations h2 = a + 2"
    "mappings h2 = mappings h" "\<not> fails (Suc a) \<Longrightarrow> \<exists>n2. blocks h2 = (Suc a, n2) # blocks h1"
    using h2 p1(2,3) by (auto simp: dramblast_alloc64_def aligned_alloc_def Let_def split: if_splits)
  note q = init_queues_spec [OF h3]
  have a3: "allocations h3 = a + 130" "mappings h3 = mappings h" using q p2 by simp_all
  note alloc = allocate_table_cases [OF table_bytes(2,3) [OF cap], of fails h3, unfolded a3]
  have "16 * unat CAPACITY \<le> unat (get_aligned_table_size (CAPACITY * 16))"
    using aligned_size(2) [OF table_bytes(2,3) [OF cap]] table_bytes(1) [OF cap] by simp
  then have slots: "unat CAPACITY \<le> unat (get_aligned_table_size (CAPACITY * 16)) div 16" by linarith
  show ?thesis
  proof (cases "fails a \<or> fails (Suc a) \<or> fails (a + 130)")
    case True
    then show ?thesis
      using p1(1) p2(1) h1 h2 h3 alloc by (auto simp: dramblast_init_def Let_def split: prod.splits)
  next
    case False
    obtain n1 n2 ms where b: "blocks h1 = (a, n1) # blocks h" "blocks h2 = (Suc a, n2) # blocks h1"
      "List.map fst ms = rev (live (List.map fst qs))" "blocks h3 = ms @ blocks h2"
      using p1(4) p2(4) q False by blast
    have "dramblast_init fails junk CAPACITY lut h = Some (Return
        (\<lparr>root_self = a, root_table = Some (a + 130), root_queues = Some (Suc a),
          root_find_queues = List.map fst qs,
          root_ht = fresh_ht CAPACITY (List.map snd qs)\<rparr>, replicate TABLE_SIZE 0xff,
         h3\<lparr>allocations := a + 131,
            mappings := (a + 130, get_aligned_table_size (CAPACITY * 16), page_log (CAPACITY * 16)) # mappings h\<rparr>))"
      using False p1(1) p2(1) h1 h2 h3 alloc populate_lut_eq [OF lut]
      by (simp add: dramblast_init_def fresh_ht_def Let_def min_absorb1 [OF slots])
    moreover have "\<forall>b \<in> set (live (List.map fst qs)). Suc a < b \<and> b < a + 130" using q p2(2) a3(1) by force
    moreover have "\<not> fails a" "\<not> fails (Suc a)" "\<not> fails (a + 130)" using False by auto
    ultimately show ?thesis
      using q b by (simp only: if_False)
        (rule exI [of _ qs], rule exI [of _ n1], rule exI [of _ n2], rule exI [of _ ms], rule exI [of _ h3], simp)
  qed
qed

section \<open>Correctness of initialisation and release\<close>

lemma dramblast_init_granted:
  assumes "table_bytes_ok CAPACITY" and "4 \<le> CAPACITY" and "length lut = TABLE_SIZE"
  shows "\<exists>r lut' h'. dramblast_init (\<lambda>_. False) junk CAPACITY lut h = Some (Return (r, lut', h')) \<and>
    dram_map (root_ht r) = Map.empty \<and> lut' = replicate TABLE_SIZE 0xff \<and>
    (\<forall>tid<128. dram_ready crc (root_ht r) tid)"
proof -
  have cap: "pow2_u64 CAPACITY" "4 \<le> unat CAPACITY"
    using assms(1,2) by (auto simp: table_bytes_ok_def word_le_nat_alt)
  from dramblast_init_unfold [OF assms(1,3), of "\<lambda>_. False" h junk] obtain r h' qs where
    r: "dramblast_init (\<lambda>_. False) junk CAPACITY lut h = Some (Return (r, replicate TABLE_SIZE 0xff, h'))"
      "root_ht r = fresh_ht CAPACITY (List.map snd qs)"
    and qs: "length qs = 128" "\<forall>(p, q) \<in> set qs. ring_of p q" "None \<notin> fst ` set qs" by auto
  have "dram_ready crc (root_ht r) tid" if t: "tid < 128" for tid
  proof -
    obtain p q where pq: "qs ! tid = (p, q)" "(p, q) \<in> set qs"
      using t qs(1) nth_mem [of tid qs] by (cases "qs ! tid") auto
    then have "ring_of p q" "p \<noteq> None" using qs(2,3) by force+
    then show ?thesis
      unfolding r(2) using t qs(1) pq cap
      by (intro fresh_ht_ready) (auto simp: ring_of_def)
  qed
  then show ?thesis using r fresh_ht_inv(2) [OF cap(1)] by auto
qed

text \<open>
  Initialisation with every allocation granted succeeds, for every capacity the option
  parser accepts of at least one bucket, and whatever the fresh memory holds.  It leaves an
  empty well-formed table that each of the 128 cores may start a batch on, and a lookup table
  whose every entry is 0xff.
\<close>

lemma dramblast_init_ready:
  assumes "table_bytes_ok CAPACITY" and "4 \<le> CAPACITY" and "length lut = TABLE_SIZE"
  shows "\<exists>r lut' h'. dramblast_init (\<lambda>_. False) junk CAPACITY lut h = Some (Return (r, lut', h')) \<and>
    dram_map (root_ht r) = Map.empty \<and> lut' = replicate TABLE_SIZE 0xff \<and>
    (\<forall>tid<128. dram_ready crc (root_ht r) tid)"
  using assms by (rule dramblast_init_granted)

lemma capacity_8: "table_bytes_ok 8"
  using pow2_u64_8 by (simp add: table_bytes_ok_def)

lemma dramblast_init_ready_witness:
  "\<exists>r lut' h'. dramblast_init (\<lambda>_. False) (\<lambda>_ _. \<lparr>item_k = 1, item_idx = 2, item_visit_count = 3, item_id = 4\<rparr>) 8
      (replicate TABLE_SIZE 0) \<lparr>blocks = [], mappings = [], allocations = 0\<rparr> = Some (Return (r, lut', h')) \<and>
    dram_ready (\<lambda>_ k. k) (root_ht r) 127"
  using dramblast_init_ready [OF capacity_8, of "replicate TABLE_SIZE 0" _ _ "\<lambda>_ k. k"] by fastforce

lemma dramblast_destroy_initial:
  assumes "table_bytes_ok CAPACITY" and "length lut = TABLE_SIZE" and "wf_heap h"
    and "dramblast_init fails junk CAPACITY lut h = Some (Return (r, lut', h'))"
  shows "\<exists>h''. dramblast_destroy (Some r) h' = Some (None, h'') \<and>
    blocks h'' = blocks h \<and> mappings h'' = mappings h"
proof -
  let ?a = "allocations h" and ?n = "get_aligned_table_size (CAPACITY * 16)"
  note init = dramblast_init_unfold [OF assms(1,2), of fails h junk]
  have nf: "\<not> fails ?a" "\<not> fails (Suc ?a)" "\<not> fails (?a + 130)"
    using init assms(4) by (auto split: if_splits)
  obtain qs n1 n2 ms h3 where i: "dramblast_init fails junk CAPACITY lut h = Some (Return
        (\<lparr>root_self = ?a, root_table = Some (?a + 130), root_queues = Some (Suc ?a),
          root_find_queues = List.map fst qs, root_ht = fresh_ht CAPACITY (List.map snd qs)\<rparr>,
         replicate TABLE_SIZE 0xff, h3\<lparr>allocations := ?a + 131,
            mappings := (?a + 130, ?n, page_log (CAPACITY * 16)) # mappings h\<rparr>))"
    and q: "distinct (live (List.map fst qs))" "\<forall>b \<in> set (live (List.map fst qs)). Suc ?a < b \<and> b < ?a + 130"
      "List.map fst ms = rev (live (List.map fst qs))" "blocks h3 = ms @ (Suc ?a, n2) # (?a, n1) # blocks h"
    using init nf by (simp only: if_False) blast
  have r: "r = \<lparr>root_self = ?a, root_table = Some (?a + 130), root_queues = Some (Suc ?a),
      root_find_queues = List.map fst qs, root_ht = fresh_ht CAPACITY (List.map snd qs)\<rparr>"
    and h': "h' = h3\<lparr>allocations := ?a + 131,
      mappings := (?a + 130, ?n, page_log (CAPACITY * 16)) # mappings h\<rparr>"
    using i assms(4) by simp_all
  let ?h1 = "h3\<lparr>allocations := ?a + 131, mappings := mappings h\<rparr>"
  have old: "\<forall>m \<in> set (mappings h). fst m \<noteq> ?a + 130" "\<forall>b \<in> set (blocks h). fst b < ?a"
    using assms(3) by (force simp: wf_heap_def)+
  have "munmap (?a + 130) ?n h' = (0, h'\<lparr>mappings := mappings h\<rparr>)"
    using munmap_last [OF old(1), of h' ?n] aligned_size [OF table_bytes(2,3) [OF assms(1)]]
    by (simp add: h')
  then have m: "munmap (?a + 130) ?n h' = (0, ?h1)" by (simp add: h')
  have "set (List.map fst ms) = set (live (List.map fst qs))" unfolding q(3) by simp
  then have ms: "fst ` set ms = set (live (List.map fst qs))" by simp
  have "filter (\<lambda>b. fst b \<notin> set (live (List.map fst qs))) (ms @ (Suc ?a, n2) # (?a, n1) # blocks h) =
      (Suc ?a, n2) # (?a, n1) # blocks h"
  proof (rule filter_dropped)
    show "\<forall>b \<in> set ms. \<not> fst b \<notin> set (live (List.map fst qs))" using ms by blast
    show "\<forall>b \<in> set ((Suc ?a, n2) # (?a, n1) # blocks h). fst b \<notin> set (live (List.map fst qs))"
    proof
      fix b assume "b \<in> set ((Suc ?a, n2) # (?a, n1) # blocks h)"
      then have "fst b \<le> Suc ?a" using old(2) by (auto intro: less_imp_le less_SucI)
      then show "fst b \<notin> set (live (List.map fst qs))" using q(2) by (metis not_less)
    qed
  qed
  then have f: "free_queues (List.map fst qs) ?h1 = Some (?h1\<lparr>blocks := (Suc ?a, n2) # (?a, n1) # blocks h\<rparr>)"
    using free_queues_Some [OF q(1), of ?h1] q(4) ms by auto
  have keep: "filter (\<lambda>b. fst b \<noteq> Suc ?a) (blocks h) = blocks h"
    "filter (\<lambda>b. fst b \<noteq> ?a) (blocks h) = blocks h"
    using old(2) by (auto intro!: filter_True)
  have g: "free (Suc ?a) (?h1\<lparr>blocks := (Suc ?a, n2) # (?a, n1) # blocks h\<rparr>) =
      Some (?h1\<lparr>blocks := (?a, n1) # blocks h\<rparr>)"
    using keep by (simp add: free_def)
  have "free ?a (?h1\<lparr>blocks := (?a, n1) # blocks h\<rparr>) = Some (?h1\<lparr>blocks := blocks h\<rparr>)"
    using keep by (simp add: free_def)
  then show ?thesis
    using m f g by (simp add: dramblast_destroy_def r fresh_ht_def Let_def)
qed

text \<open>
  C6: initialisation and release are inverse on the heap.  Whichever of the 128 ring buffers
  could be allocated, if \<open>dramblast_init\<close> returns then \<open>dramblast_destroy\<close> returns as well: it
  frees every block once and none twice, and unmaps the table with the length it was mapped with,
  so that exactly the blocks and mappings from before are live again.
\<close>

theorem dramblast_init_destroy:
  assumes "table_bytes_ok CAPACITY" and "length lut = TABLE_SIZE" and "wf_heap h"
    and "dramblast_init fails junk CAPACITY lut h = Some (Return (r, lut', h'))"
  shows "\<exists>h''. dramblast_destroy (Some r) h' = Some (None, h'') \<and>
    blocks h'' = blocks h \<and> mappings h'' = mappings h"
  using assms by (rule dramblast_destroy_initial)

theorem dramblast_init_destroy_witness:
  "\<exists>r lut' h' h''. dramblast_init (\<lambda>_. False) (\<lambda>_ _. \<lparr>item_k = 1, item_idx = 2, item_visit_count = 3, item_id = 4\<rparr>) 8
      (replicate TABLE_SIZE 0) \<lparr>blocks = [], mappings = [], allocations = 0\<rparr> = Some (Return (r, lut', h')) \<and>
    dramblast_destroy (Some r) h' = Some (None, h'') \<and> blocks h'' = [] \<and> mappings h'' = []"
proof -
  let ?junk = "\<lambda>_ _. \<lparr>item_k = 1, item_idx = 2, item_visit_count = 3, item_id = 4\<rparr>"
  let ?h = "\<lparr>blocks = [], mappings = [], allocations = 0\<rparr>"
  obtain r lut' h' where i: "dramblast_init (\<lambda>_. False) ?junk 8 (replicate TABLE_SIZE 0) ?h = Some (Return (r, lut', h'))"
    using dramblast_init_unfold [OF capacity_8, of "replicate TABLE_SIZE 0" "\<lambda>_. False" ?h ?junk] by auto
  have "wf_heap ?h" by (simp add: wf_heap_def)
  from dramblast_init_destroy [OF capacity_8 _ this i] i show ?thesis by auto
qed

end
