(* ===== verification/Forwarding.thy ===== *)
theory Forwarding
  imports Maglev Dram_Frames
begin

text \<open>
  \<open>l2fwd/main.c\<close>, the packet path: \<open>l2fwd_mac_updating\<close> and \<open>l2fwd_main_loop\<close> with its three
  modes.  A packet buffer is its data, a byte list that is updated in place; the burst received
  and the number of packets the driver accepts for sending are the inputs of a burst, the time
  stamp counter difference as well.  The model says which packets were handed to the driver and
  which were freed.  The core's stack array \<open>mac_addrs\<close> is part of the state, since it is never
  cleared.
\<close>

section \<open>State\<close>

record l2fwd_port_statistics =
  tx :: u64
  rx :: u64
  rx_cnt :: u64
  fwded :: u64
  unmapped :: u64
  rx_dropped :: u64
  tx_dropped :: u64
  hash_tsc :: u64

text \<open>What stays fixed while the loop runs.\<close>

record l2fwd_config =
  l2fwd_maglev_enabled :: bool
  l2fwd_dramblast_enabled :: bool
  l2fwd_dst_ports :: "nat \<Rightarrow> nat"
  l2fwd_ports_eth_addr :: "nat \<Rightarrow> u8 list"
  table_capacity :: u64
  dramblast_backends :: LookUpTable

record l2fwd_state =
  port_statistics :: "nat \<Rightarrow> nat \<Rightarrow> l2fwd_port_statistics"
  maglev_st :: maglev_state
  dram_ht :: dramblast_ht
  mac_addrs :: "u64 list"

section \<open>Rewriting the addresses\<close>

text \<open>The bytes of a 64-bit store on the little-endian target.\<close>

definition le_bytes :: "u64 \<Rightarrow> u8 list" where
  "le_bytes x = List.map (\<lambda>i. ucast (drop_bit (8 * i) x)) [0..<8]"

text \<open>
  The destination is stored as 64 bits, two bytes more than an address has; the copy of the
  source address, which is next in the header, overwrites them.
\<close>

definition l2fwd_mac_updating :: "l2fwd_config \<Rightarrow> u8 list \<Rightarrow> nat \<Rightarrow> u64 \<Rightarrow> u8 list option" where
  "l2fwd_mac_updating cfg m dest_portid mac = do {
     m1 \<leftarrow> wr_bytes m 0 (le_bytes mac);
     wr_bytes m1 6 (l2fwd_ports_eth_addr cfg dest_portid)
   }"

section \<open>The three modes\<close>

text \<open>Maglev: the packets of the burst, and the change to the two counters.\<close>

fun maglev_burst ::
  "(u64 \<Rightarrow> u64 \<Rightarrow> u64) \<Rightarrow> l2fwd_config \<Rightarrow> nat \<Rightarrow> u8 list list \<Rightarrow> maglev_state \<Rightarrow> l2fwd_port_statistics \<Rightarrow>
     (u8 list list \<times> maglev_state \<times> l2fwd_port_statistics) option" where
  "maglev_burst crc cfg portid [] mg s = Some ([], mg, s)"
| "maglev_burst crc cfg portid (m # ms) mg s = do {
     (mac, mg') \<leftarrow> maglev_process_frame crc (table_capacity cfg) m mg;
     (m', s') \<leftarrow> (if mac = 0 then Some (m, s\<lparr>unmapped := unmapped s + 1\<rparr>)
                  else do {
                    m' \<leftarrow> l2fwd_mac_updating cfg m (l2fwd_dst_ports cfg portid) mac;
                    Some (m', s\<lparr>fwded := fwded s + 1\<rparr>)
                  });
     (ms', mg'', s'') \<leftarrow> maglev_burst crc cfg portid ms mg' s';
     Some (m' # ms', mg'', s'')
   }"

text \<open>
  DRAMBlast: first the positions (the array \<open>frames\<close>) and requests of the packets that have a
  flow hash, numbered from \<open>fn\<close> on.
\<close>

fun dramblast_collect :: "u8 list list \<Rightarrow> nat \<Rightarrow> nat \<Rightarrow> (nat list \<times> dramblast_arg list) option" where
  "dramblast_collect [] j fn = Some ([], [])"
| "dramblast_collect (m # ms) j fn = do {
     hash \<leftarrow> flowhash m;
     if hash > 0 then do {
       (frames, args) \<leftarrow> dramblast_collect ms (Suc j) (Suc fn);
       Some (j # frames, \<lparr>arg_k = hash, arg_id = of_nat fn\<rparr> # args)
     }
     else dramblast_collect ms (Suc j) fn
   }"

text \<open>Then the packets with a backend are rewritten and counted.\<close>

fun dramblast_rewrite ::
  "l2fwd_config \<Rightarrow> nat \<Rightarrow> nat list \<Rightarrow> nat \<Rightarrow> u64 list \<Rightarrow> u8 list list \<Rightarrow> u64 \<Rightarrow> (u8 list list \<times> u64) option" where
  "dramblast_rewrite cfg portid [] j macs ms found = Some (ms, found)"
| "dramblast_rewrite cfg portid (p # frames) j macs ms found = do {
     mac \<leftarrow> rd macs j;
     if mac > 0 then do {
       m \<leftarrow> rd ms p;
       m' \<leftarrow> l2fwd_mac_updating cfg m (l2fwd_dst_ports cfg portid) mac;
       dramblast_rewrite cfg portid frames (Suc j) macs (ms[p := m']) (found + 1)
     }
     else dramblast_rewrite cfg portid frames (Suc j) macs ms found
   }"

definition dramblast_burst ::
  "(u64 \<Rightarrow> u64 \<Rightarrow> u64) \<Rightarrow> bool \<Rightarrow> l2fwd_config \<Rightarrow> nat \<Rightarrow> nat \<Rightarrow> u8 list list \<Rightarrow> dramblast_ht \<Rightarrow> u64 list \<Rightarrow>
     l2fwd_port_statistics \<Rightarrow>
     (u8 list list \<times> dramblast_ht \<times> u64 list \<times> l2fwd_port_statistics) outcome option" where
  "dramblast_burst crc results_allocated cfg portid lcore_id ms ht macs s = do {
     (frames, args) \<leftarrow> dramblast_collect ms 0 0;
     out \<leftarrow> (if length args > 0
             then dramblast_process_frames crc results_allocated (dramblast_backends cfg) ht args macs lcore_id
             else Some (Return (macs, ht)));
     case out of
       Exit c \<Rightarrow> Some (Exit c)
     | Return (macs', ht') \<Rightarrow> do {
         (ms', found) \<leftarrow> dramblast_rewrite cfg portid frames 0 macs' ms 0;
         Some (Return (ms', ht', macs',
           s\<lparr>fwded := fwded s + found, unmapped := unmapped s + (of_nat (length ms) - found)\<rparr>))
       }
   }"

text \<open>Neither: every packet gets the constant destination.\<close>

fun plain_burst :: "l2fwd_config \<Rightarrow> nat \<Rightarrow> u8 list list \<Rightarrow> u8 list list option" where
  "plain_burst cfg portid [] = Some []"
| "plain_burst cfg portid (m # ms) = do {
     m' \<leftarrow> l2fwd_mac_updating cfg m (l2fwd_dst_ports cfg portid) 0xff;
     ms' \<leftarrow> plain_burst cfg portid ms;
     Some (m' # ms')
   }"

section \<open>One turn of the loop\<close>

text \<open>What the environment supplies to a turn: the burst, the cycles it took, the packets the driver took.\<close>

record burst_input =
  pkts_burst :: "u8 list list"
  cycles :: u64
  nb_tx :: nat

record burst_output =
  sent :: "u8 list list"
  freed :: "u8 list list"

definition set_stats ::
  "(nat \<Rightarrow> nat \<Rightarrow> l2fwd_port_statistics) \<Rightarrow> nat \<Rightarrow> nat \<Rightarrow> l2fwd_port_statistics \<Rightarrow>
     nat \<Rightarrow> nat \<Rightarrow> l2fwd_port_statistics" where
  "set_stats ps portid lcore_id s = ps(portid := (ps portid)(lcore_id := s))"

text \<open>The packets of a burst, in the mode selected.\<close>

definition l2fwd_process_burst ::
  "(u64 \<Rightarrow> u64 \<Rightarrow> u64) \<Rightarrow> bool \<Rightarrow> l2fwd_config \<Rightarrow> nat \<Rightarrow> nat \<Rightarrow> u8 list list \<Rightarrow> l2fwd_state \<Rightarrow>
     l2fwd_port_statistics \<Rightarrow> (u8 list list \<times> l2fwd_state \<times> l2fwd_port_statistics) outcome option" where
  "l2fwd_process_burst crc results_allocated cfg lcore_id portid ms st s =
     (if l2fwd_maglev_enabled cfg then do {
        (ms', mg, s') \<leftarrow> maglev_burst crc cfg portid ms (maglev_st st) s;
        Some (Return (ms', st\<lparr>maglev_st := mg\<rparr>, s'))
      }
      else if l2fwd_dramblast_enabled cfg then do {
        out \<leftarrow> dramblast_burst crc results_allocated cfg portid lcore_id ms (dram_ht st) (mac_addrs st) s;
        case out of
          Exit c \<Rightarrow> Some (Exit c)
        | Return (ms', ht, macs, s') \<Rightarrow> Some (Return (ms', st\<lparr>dram_ht := ht, mac_addrs := macs\<rparr>, s'))
      }
      else do {
        ms' \<leftarrow> plain_burst cfg portid ms;
        Some (Return (ms', st, s\<lparr>fwded := fwded s + of_nat (length ms)\<rparr>))
      })"

text \<open>The counters after the driver took \<open>n_tx\<close> of \<open>n_rx\<close> packets.\<close>

definition l2fwd_count_tx :: "nat \<Rightarrow> nat \<Rightarrow> u64 \<Rightarrow> l2fwd_port_statistics \<Rightarrow> l2fwd_port_statistics" where
  "l2fwd_count_tx n_rx n_tx cyc s =
     (let s = s\<lparr>hash_tsc := hash_tsc s + cyc\<rparr>;
          s = (if n_tx < n_rx then s\<lparr>tx_dropped := tx_dropped s + of_nat (n_rx - n_tx)\<rparr> else s)
      in if n_tx > 0 then s\<lparr>tx := tx s + of_nat n_tx\<rparr> else s)"

definition l2fwd_rx_port ::
  "(u64 \<Rightarrow> u64 \<Rightarrow> u64) \<Rightarrow> bool \<Rightarrow> l2fwd_config \<Rightarrow> nat \<Rightarrow> nat \<Rightarrow> burst_input \<Rightarrow> l2fwd_state \<Rightarrow>
     (burst_output \<times> l2fwd_state) outcome option" where
  "l2fwd_rx_port crc results_allocated cfg lcore_id portid inp st =
     (let nb_rx = length (pkts_burst inp);
          s = port_statistics st portid lcore_id;
          s = s\<lparr>rx_cnt := rx_cnt s + 1\<rparr> in
      if nb_rx > 0 then do {
        out \<leftarrow> l2fwd_process_burst crc results_allocated cfg lcore_id portid (pkts_burst inp) st
                 (s\<lparr>rx := rx s + of_nat nb_rx\<rparr>);
        case out of
          Exit c \<Rightarrow> Some (Exit c)
        | Return (ms, st', s') \<Rightarrow>
            Some (Return (\<lparr>sent = take (nb_tx inp) ms, freed = drop (nb_tx inp) ms\<rparr>,
              st'\<lparr>port_statistics := set_stats (port_statistics st') portid lcore_id
                     (l2fwd_count_tx nb_rx (nb_tx inp) (cycles inp) s')\<rparr>))
      }
      else Some (Return (\<lparr>sent = [], freed = []\<rparr>,
             st\<lparr>port_statistics := set_stats (port_statistics st) portid lcore_id s\<rparr>)))"

text \<open>
  The loop until \<open>force_quit\<close> is seen, as the sequence of its turns: each is a port of the
  core's list with the inputs of that turn.
\<close>

fun l2fwd_main_loop ::
  "(u64 \<Rightarrow> u64 \<Rightarrow> u64) \<Rightarrow> bool \<Rightarrow> l2fwd_config \<Rightarrow> nat \<Rightarrow> (nat \<times> burst_input) list \<Rightarrow> l2fwd_state \<Rightarrow>
     (burst_output list \<times> l2fwd_state) outcome option" where
  "l2fwd_main_loop crc ra cfg lcore_id [] st = Some (Return ([], st))"
| "l2fwd_main_loop crc ra cfg lcore_id ((portid, inp) # turns) st = do {
     out \<leftarrow> l2fwd_rx_port crc ra cfg lcore_id portid inp st;
     case out of
       Exit c \<Rightarrow> Some (Exit c)
     | Return (o1, st') \<Rightarrow> do {
         out' \<leftarrow> l2fwd_main_loop crc ra cfg lcore_id turns st';
         case out' of
           Exit c \<Rightarrow> Some (Exit c)
         | Return (os, st'') \<Rightarrow> Some (Return (o1 # os, st''))
       }
   }"

text \<open>
  \<open>l2fwd_simple_forward\<close>, which is in the file but not called: the packet goes into the buffer of the
  port's partner.  \<open>eth_tx\<close> is \<open>rte_eth_tx_buffer\<close> of DPDK, which says how many packets it sent when it
  flushed the buffer, and \<open>buffer\<close> the \<open>tx_buffer\<close> array of each core.  The packet and the counters are
  the result.
\<close>

definition l2fwd_simple_forward ::
  "l2fwd_config \<Rightarrow> bool \<Rightarrow> (nat \<Rightarrow> nat \<Rightarrow> 'b) \<Rightarrow> (nat \<Rightarrow> nat \<Rightarrow> 'b \<Rightarrow> u8 list \<Rightarrow> u16) \<Rightarrow> u8 list \<Rightarrow> nat \<Rightarrow> nat \<Rightarrow> nat \<Rightarrow>
     (nat \<Rightarrow> nat \<Rightarrow> l2fwd_port_statistics) \<Rightarrow> (u8 list \<times> (nat \<Rightarrow> nat \<Rightarrow> l2fwd_port_statistics)) option" where
  "l2fwd_simple_forward cfg mac_upd buffer eth_tx m portid queue_id lcore_id ps =
     (let dst_port = l2fwd_dst_ports cfg portid in do {
        m' \<leftarrow> (if mac_upd then l2fwd_mac_updating cfg m dst_port 0xdeadbeef else Some m);
        let sent = eth_tx dst_port queue_id (buffer lcore_id dst_port) m';
        let s = ps dst_port lcore_id;
        Some (m', if sent \<noteq> 0 then set_stats ps dst_port lcore_id (s\<lparr>tx := tx s + ucast sent\<rparr>) else ps)
      })"

section \<open>What a rewritten packet is\<close>

definition config_ok :: "l2fwd_config \<Rightarrow> bool" where
  "config_ok cfg \<longleftrightarrow> (\<forall>p. length (l2fwd_ports_eth_addr cfg p) = 6)"

definition rewritten :: "l2fwd_config \<Rightarrow> nat \<Rightarrow> u64 \<Rightarrow> u8 list \<Rightarrow> u8 list" where
  "rewritten cfg portid mac m =
     take 6 (le_bytes mac) @ l2fwd_ports_eth_addr cfg (l2fwd_dst_ports cfg portid) @ drop 12 m"

lemma length_le_bytes [simp]: "length (le_bytes x) = 8"
  by (simp add: le_bytes_def)

lemma mac_updating_eq:
  assumes "config_ok cfg" and "12 \<le> length m"
  shows "l2fwd_mac_updating cfg m (l2fwd_dst_ports cfg portid) mac = Some (rewritten cfg portid mac m)"
proof -
  let ?a = "l2fwd_ports_eth_addr cfg (l2fwd_dst_ports cfg portid)"
  have a: "length ?a = 6" using assms(1) by (simp add: config_ok_def)
  have "wr_bytes m 0 (le_bytes mac) = Some (le_bytes mac @ drop 8 m)" using assms(2) by simp
  moreover have "wr_bytes (le_bytes mac @ drop 8 m) 6 ?a = Some (take 6 (le_bytes mac) @ ?a @ drop 12 m)"
    using assms(2) a by simp
  ultimately show ?thesis by (simp add: l2fwd_mac_updating_def rewritten_def)
qed

lemma rewritten_simps:
  assumes "config_ok cfg" and "12 \<le> length m"
  shows "length (rewritten cfg portid mac m) = length m" and "drop 12 (rewritten cfg portid mac m) = drop 12 m"
  using assms by (simp_all add: rewritten_def config_ok_def)

text \<open>What \<open>l2fwd_simple_forward\<close> sends counts for the port it leaves from, flushed packets only.\<close>

lemma simple_forward_eq:
  assumes "config_ok cfg" and "12 \<le> length m"
  shows "l2fwd_simple_forward cfg mac_upd buffer eth_tx m portid queue_id lcore_id ps =
    (let m' = if mac_upd then rewritten cfg portid 0xdeadbeef m else m;
         dst = l2fwd_dst_ports cfg portid;
         sent = eth_tx dst queue_id (buffer lcore_id dst) m' in
     Some (m', set_stats ps dst lcore_id ((ps dst lcore_id)\<lparr>tx := tx (ps dst lcore_id) + ucast sent\<rparr>)))"
proof -
  have "set_stats ps dst lcore_id ((ps dst lcore_id)\<lparr>tx := tx (ps dst lcore_id) + ucast (0 :: u16)\<rparr>) = ps" for dst
    by (simp add: set_stats_def)
  then show ?thesis by (simp add: l2fwd_simple_forward_def mac_updating_eq [OF assms] Let_def)
qed

text \<open>The flow hash does not see the Ethernet addresses.\<close>

lemma flowhash_drop:
  assumes "length f = length g" and "drop 12 f = drop 12 g"
  shows "flowhash f = flowhash g"
proof -
  have n: "f ! i = g ! i" if "12 \<le> i" "i < length f" for i
    using that assms nth_drop [of 12 f "i - 12"] nth_drop [of 12 g "i - 12"] by simp
  have r: "rd f i = rd g i" if "12 \<le> i" for i using n [OF that] assms(1) by (simp add: rd_def)
  have b: "rd_bytes f i k = rd_bytes g i k" if "12 \<le> i" for i k
  proof -
    have "drop i f = drop (i - 12) (drop 12 f)" "drop i g = drop (i - 12) (drop 12 g)" using that by simp_all
    then show ?thesis using assms by (simp add: rd_bytes_def)
  qed
  have eqs: "rd f 14 = rd g 14" "rd f (14 + 9) = rd g (14 + 9)" "rd_bytes f (14 + 12) 8 = rd_bytes g (14 + 12) 8"
    "rd_bytes f (14 + 9) 1 = rd_bytes g (14 + 9) 1" "\<And>v. rd_bytes f (14 + v) 4 = rd_bytes g (14 + v) 4"
    by (simp_all add: r b)
  show ?thesis unfolding flowhash_def packet_offsets eqs ..
qed

text \<open>A packet that leaves: unchanged, or with new Ethernet addresses.\<close>

definition same_packet :: "u8 list \<Rightarrow> u8 list \<Rightarrow> bool" where
  "same_packet m m' \<longleftrightarrow> length m' = length m \<and> drop 12 m' = drop 12 m"

lemma same_packet_refl [simp]: "same_packet m m"
  by (simp add: same_packet_def)

lemma same_packet_rewritten: "config_ok cfg \<Longrightarrow> 12 \<le> length m \<Longrightarrow> same_packet m (rewritten cfg portid mac m)"
  by (simp add: same_packet_def rewritten_simps)

definition packets_ok :: "u8 list list \<Rightarrow> bool" where
  "packets_ok ms \<longleftrightarrow> (\<forall>m \<in> set ms. 78 \<le> length m)"

section \<open>Maglev and plain bursts\<close>

lemma maglev_burst_spec:
  assumes "config_ok cfg" and "maglev_ok crc (table_capacity cfg) mg" and "packets_ok ms"
  shows "\<exists>ms' mg' s'. maglev_burst crc cfg portid ms mg s = Some (ms', mg', s') \<and>
    maglev_ok crc (table_capacity cfg) mg' \<and> list_all2 same_packet ms ms' \<and>
    fwded s' + unmapped s' = fwded s + unmapped s + of_nat (length ms) \<and>
    s' = s\<lparr>fwded := fwded s', unmapped := unmapped s'\<rparr>"
  using assms(2,3)
proof (induction ms arbitrary: mg s)
  case Nil
  then show ?case by simp
next
  case (Cons m ms)
  have m: "78 \<le> length m" "packets_ok ms" using Cons.prems(2) by (auto simp: packets_ok_def)
  obtain h where "flowhash m = Some h" using flowhash_Some_len [OF m(1)] by blast
  then obtain b mg1 where p: "maglev_process_frame crc (table_capacity cfg) m mg = Some (b, mg1)"
    "maglev_ok crc (table_capacity cfg) mg1" using maglev_process_cases [OF Cons.prems(1)] by blast
  let ?m' = "if b = 0 then m else rewritten cfg portid b m"
  let ?s' = "if b = 0 then s\<lparr>unmapped := unmapped s + 1\<rparr> else s\<lparr>fwded := fwded s + 1\<rparr>"
  obtain ms' mg' s' where r: "maglev_burst crc cfg portid ms mg1 ?s' = Some (ms', mg', s')"
    "maglev_ok crc (table_capacity cfg) mg'" "list_all2 same_packet ms ms'"
    "fwded s' + unmapped s' = fwded ?s' + unmapped ?s' + of_nat (length ms)"
    "s' = ?s'\<lparr>fwded := fwded s', unmapped := unmapped s'\<rparr>"
    using Cons.IH [OF p(2) m(2), of ?s'] by blast
  have "maglev_burst crc cfg portid (m # ms) mg s = Some (?m' # ms', mg', s')"
    using p(1) r(1) mac_updating_eq [OF assms(1), of m portid b] m(1) by (simp split: if_splits)
  moreover have "same_packet m ?m'" using same_packet_rewritten [OF assms(1)] m(1) by simp
  moreover have "fwded s' + unmapped s' = fwded s + unmapped s + of_nat (length (m # ms))"
    using r(4) by (simp split: if_splits)
  moreover have "s' = s\<lparr>fwded := fwded s', unmapped := unmapped s'\<rparr>"
    using r(5) by (cases s; cases s') (auto split: if_splits)
  ultimately show ?case using r(2,3) by auto
qed

lemma plain_burst_spec:
  assumes "config_ok cfg" and "packets_ok ms"
  shows "plain_burst cfg portid ms = Some (List.map (rewritten cfg portid 0xff) ms) \<and>
    list_all2 same_packet ms (List.map (rewritten cfg portid 0xff) ms)"
  using assms(2)
  by (induction ms) (auto simp: packets_ok_def mac_updating_eq [OF assms(1)] same_packet_rewritten [OF assms(1)])

section \<open>DRAMBlast bursts\<close>

lemma dramblast_collect_spec:
  assumes "packets_ok ms"
  shows "\<exists>frames args. dramblast_collect ms j fn = Some (frames, args) \<and> length frames = length args \<and>
    length args \<le> length ms \<and> distinct frames \<and>
    (\<forall>p. p \<in> set frames \<longleftrightarrow> j \<le> p \<and> p < j + length ms \<and> flowhash (ms ! (p - j)) \<noteq> Some 0) \<and>
    (\<forall>i<length args. arg_id (args ! i) = of_nat (fn + i) \<and> arg_k (args ! i) \<noteq> 0 \<and>
       flowhash (ms ! (frames ! i - j)) = Some (arg_k (args ! i)))"
  using assms
proof (induction ms arbitrary: j fn)
  case Nil
  then show ?case by simp
next
  case (Cons m ms)
  have m: "78 \<le> length m" "packets_ok ms" using Cons.prems by (auto simp: packets_ok_def)
  obtain h where h: "flowhash m = Some h" using flowhash_Some_len [OF m(1)] by blast
  have shift: "(m # ms) ! (p - j) = ms ! (p - Suc j)" if "Suc j \<le> p" for p
    using that by (metis Suc_diff_le diff_Suc_Suc nth_Cons_Suc)
  have pos: "j \<le> p \<and> p < j + length (m # ms) \<and> flowhash ((m # ms) ! (p - j)) \<noteq> Some 0 \<longleftrightarrow>
      p = j \<and> h \<noteq> 0 \<or> Suc j \<le> p \<and> p < Suc j + length ms \<and> flowhash (ms ! (p - Suc j)) \<noteq> Some 0" for p
    using shift [of p] h by (cases "p = j") auto
  show ?case
  proof (cases "h = 0")
    case True
    obtain frames args where r: "dramblast_collect ms (Suc j) fn = Some (frames, args)"
      "length frames = length args" "length args \<le> length ms" "distinct frames"
      "\<forall>p. p \<in> set frames \<longleftrightarrow> Suc j \<le> p \<and> p < Suc j + length ms \<and> flowhash (ms ! (p - Suc j)) \<noteq> Some 0"
      "\<forall>i<length args. arg_id (args ! i) = of_nat (fn + i) \<and> arg_k (args ! i) \<noteq> 0 \<and>
       flowhash (ms ! (frames ! i - Suc j)) = Some (arg_k (args ! i))"
      using Cons.IH [OF m(2), of "Suc j" fn] by blast
    have "flowhash ((m # ms) ! (frames ! i - j)) = Some (arg_k (args ! i))" if "i < length args" for i
      using r(2,5,6) that shift [of "frames ! i"] by (metis nth_mem)
    then show ?thesis using r h True pos by (intro exI [of _ frames] exI [of _ args]) simp
  next
    case False
    obtain frames args where r: "dramblast_collect ms (Suc j) (Suc fn) = Some (frames, args)"
      "length frames = length args" "length args \<le> length ms" "distinct frames"
      "\<forall>p. p \<in> set frames \<longleftrightarrow> Suc j \<le> p \<and> p < Suc j + length ms \<and> flowhash (ms ! (p - Suc j)) \<noteq> Some 0"
      "\<forall>i<length args. arg_id (args ! i) = of_nat (Suc fn + i) \<and> arg_k (args ! i) \<noteq> 0 \<and>
       flowhash (ms ! (frames ! i - Suc j)) = Some (arg_k (args ! i))"
      using Cons.IH [OF m(2), of "Suc j" "Suc fn"] by blast
    let ?args = "\<lparr>arg_k = h, arg_id = of_nat fn\<rparr> # args"
    have "arg_id (?args ! i) = of_nat (fn + i) \<and> arg_k (?args ! i) \<noteq> 0 \<and>
       flowhash ((m # ms) ! ((j # frames) ! i - j)) = Some (arg_k (?args ! i))" if "i < length ?args" for i
    proof (cases i)
      case 0
      then show ?thesis using h False by simp
    next
      case (Suc i')
      then have "i' < length args" using that by simp
      then show ?thesis using r(2,5,6) shift [of "frames ! i'"] Suc by (metis add_Suc_shift nth_Cons_Suc nth_mem)
    qed
    moreover have "dramblast_collect (m # ms) j fn = Some (j # frames, ?args)"
      using h False r(1) by (simp add: word_gt_0)
    moreover have "distinct (j # frames)" using r(4,5) by simp
    moreover have "p \<in> set (j # frames) \<longleftrightarrow>
        j \<le> p \<and> p < j + length (m # ms) \<and> flowhash ((m # ms) ! (p - j)) \<noteq> Some 0" for p
      unfolding pos using r(5) False by simp
    moreover have "length (j # frames) = length ?args" "length ?args \<le> length (m # ms)" using r(2,3) by simp_all
    ultimately show ?thesis by blast
  qed
qed

definition moved :: "l2fwd_config \<Rightarrow> nat \<Rightarrow> u64 \<Rightarrow> u8 list \<Rightarrow> u8 list" where
  "moved cfg portid mac m = (if mac = 0 then m else rewritten cfg portid mac m)"

lemma moved_same: "config_ok cfg \<Longrightarrow> 12 \<le> length m \<Longrightarrow> same_packet m (moved cfg portid mac m)"
  by (simp add: moved_def same_packet_rewritten)

lemma dramblast_rewrite_spec:
  assumes "config_ok cfg" and "distinct frames" and "\<forall>p \<in> set frames. p < length ms" and "packets_ok ms"
    and "j + length frames \<le> length macs"
  shows "\<exists>ms' found'. dramblast_rewrite cfg portid frames j macs ms found = Some (ms', found') \<and>
    length ms' = length ms \<and>
    (\<forall>i<length frames. ms' ! (frames ! i) = moved cfg portid (macs ! (j + i)) (ms ! (frames ! i))) \<and>
    (\<forall>p. p \<notin> set frames \<longrightarrow> ms' ! p = ms ! p) \<and>
    found' = found + of_nat (length (filter (\<lambda>m. m \<noteq> 0) (take (length frames) (drop j macs))))"
  using assms(2-)
proof (induction frames arbitrary: ms j found)
  case Nil
  then show ?case by simp
next
  case (Cons p frames)
  have p: "p < length ms" "p \<notin> set frames" "j < length macs" using Cons.prems by auto
  then have "78 \<le> length (ms ! p)" using Cons.prems(3) by (simp add: packets_ok_def)
  then have p4: "12 \<le> length (ms ! p)" by simp
  let ?ms = "ms[p := moved cfg portid (macs ! j) (ms ! p)]"
  let ?found = "if macs ! j = 0 then found else found + 1"
  have "packets_ok ?ms"
    using Cons.prems(3) moved_same [OF assms(1) p4, of portid "macs ! j"] p(1)
    by (auto simp: packets_ok_def same_packet_def dest!: subsetD [OF set_update_subset_insert])
  then obtain ms' found' where r: "dramblast_rewrite cfg portid frames (Suc j) macs ?ms ?found = Some (ms', found')"
    "length ms' = length ms"
    "\<forall>i<length frames. ms' ! (frames ! i) = moved cfg portid (macs ! (Suc j + i)) (?ms ! (frames ! i))"
    "\<forall>p. p \<notin> set frames \<longrightarrow> ms' ! p = ?ms ! p"
    "found' = ?found + of_nat (length (filter (\<lambda>m. m \<noteq> 0) (take (length frames) (drop (Suc j) macs))))"
    using Cons.IH [of ?ms "Suc j" ?found] Cons.prems(1,2,4) by auto
  have "dramblast_rewrite cfg portid (p # frames) j macs ms found = Some (ms', found')"
    using r(1) p mac_updating_eq [OF assms(1) p4] by (simp add: word_gt_0 moved_def split: if_splits)
  moreover have "ms' ! ((p # frames) ! i) = moved cfg portid (macs ! (j + i)) (ms ! ((p # frames) ! i))"
    if "i < length (p # frames)" for i
  proof (cases i)
    case 0
    then show ?thesis using r(4) p(1,2) by simp
  next
    case (Suc i')
    then have "frames ! i' \<noteq> p" using p(2) that nth_mem [of i' frames] by auto
    then show ?thesis using r(3) that Suc by simp
  qed
  moreover have "found' = found + of_nat (length (filter (\<lambda>m. m \<noteq> 0) (take (length (p # frames)) (drop j macs))))"
    using r(5) p(3) by (simp add: Cons_nth_drop_Suc [symmetric] del: drop_Suc)
  moreover have "ms' ! q = ms ! q" if "q \<notin> set (p # frames)" for q
    using r(4) that by simp
  ultimately show ?case using r(2) by blast
qed

text \<open>
  A DRAMBlast burst: every packet gets an answer \<open>b\<close>, 0 without a flow hash and the outcome of
  the batch otherwise, is rewritten with it if it is not 0, and the counters follow.
\<close>

definition answers ::
  "(u64 \<Rightarrow> u64 \<Rightarrow> u64) \<Rightarrow> LookUpTable \<Rightarrow> dramblast_ht \<Rightarrow> dramblast_ht \<Rightarrow> u8 list list \<Rightarrow> u64 list \<Rightarrow> bool" where
  "answers crc lut ht ht' ms bs \<longleftrightarrow> length bs = length ms \<and>
     (\<forall>p<length ms. \<forall>h. flowhash (ms ! p) = Some h \<longrightarrow>
        (if h = 0 then bs ! p = 0 else frame_outcome crc lut ht ht' h (bs ! p)))"

lemma dramblast_burst_spec:
  assumes "config_ok cfg" and "packets_ok ms" and "length ms \<le> length macs" and "length ms < 2 ^ 32"
    and "dram_ready crc ht tid" and "length (dramblast_backends cfg) = TABLE_SIZE"
  shows "\<exists>ht' macs' s' bs.
    dramblast_burst crc True cfg portid tid ms ht macs s =
      Some (Return (map2 (moved cfg portid) bs ms, ht', macs', s')) \<and>
    dram_ready crc ht' tid \<and> length macs' = length macs \<and>
    grown (dramblast_backends cfg) {h. \<exists>m \<in> set ms. flowhash m = Some h} ht ht' \<and>
    answers crc (dramblast_backends cfg) ht ht' ms bs \<and>
    fwded s' + unmapped s' = fwded s + unmapped s + of_nat (length ms) \<and>
    s' = s\<lparr>fwded := fwded s', unmapped := unmapped s'\<rparr>"
proof -
  let ?lut = "dramblast_backends cfg"
  obtain frames args where c: "dramblast_collect ms 0 0 = Some (frames, args)" "length frames = length args"
    "length args \<le> length ms" "distinct frames"
    "\<And>p. p \<in> set frames \<longleftrightarrow> p < length ms \<and> flowhash (ms ! p) \<noteq> Some 0"
    "\<forall>i<length args. arg_id (args ! i) = of_nat i \<and> arg_k (args ! i) \<noteq> 0 \<and>
       flowhash (ms ! (frames ! i)) = Some (arg_k (args ! i))"
    using dramblast_collect_spec [OF assms(2), of 0 0] by auto
  have "batch_args args" using c(3,6) assms(4) by (auto simp: batch_args_def)
  then obtain macs' ht' where f: "dramblast_process_frames crc True ?lut ht args macs tid = Some (Return (macs', ht'))"
    "dram_ready crc ht' tid" "length macs' = length macs" "grown ?lut (arg_k ` set args) ht ht'"
    "\<forall>i<length args. frame_outcome crc ?lut ht ht' (arg_k (args ! i)) (macs' ! i)"
    using process_frames_returns [OF assms(5,6), of args macs] c(3) assms(3) by auto
  have "dramblast_process_frames crc True ?lut ht [] macs tid = Some (Return (macs, ht))"
    by (simp add: dramblast_process_frames_def dramblast_find_batch_sync_def dramblast_find_loop.simps)
  then have out: "(if length args > 0 then dramblast_process_frames crc True ?lut ht args macs tid
      else Some (Return (macs, ht))) = Some (Return (macs', ht'))" using f(1) by auto
  have fr: "\<forall>p \<in> set frames. p < length ms" "0 + length frames \<le> length macs'"
    using c(2,3,5) f(3) assms(3) by auto
  obtain ms' found where r: "dramblast_rewrite cfg portid frames 0 macs' ms 0 = Some (ms', found)"
    "length ms' = length ms"
    "\<forall>i<length frames. ms' ! (frames ! i) = moved cfg portid (macs' ! i) (ms ! (frames ! i))"
    "\<forall>p. p \<notin> set frames \<longrightarrow> ms' ! p = ms ! p"
    using dramblast_rewrite_spec [OF assms(1) c(4) fr(1) assms(2) fr(2), where portid = portid and found = 0,
        unfolded add_0]
    by (elim exE conjE) (rule that)
  have "\<forall>p \<in> set frames. \<exists>i. i < length frames \<and> frames ! i = p" by (simp add: in_set_conv_nth)
  from bchoice [OF this] obtain idx where
    idx: "\<And>p. p \<in> set frames \<Longrightarrow> idx p < length frames \<and> frames ! idx p = p" by blast
  define bs where "bs = List.map (\<lambda>p. if p \<in> set frames then macs' ! idx p else 0) [0..<length ms]"
  have "ms' = map2 (moved cfg portid) bs ms"
  proof (rule nth_equalityI)
    show "length ms' = length (map2 (moved cfg portid) bs ms)" by (simp add: r(2) bs_def)
    fix p assume "p < length ms'"
    then have p: "p < length ms" by (simp add: r(2))
    show "ms' ! p = map2 (moved cfg portid) bs ms ! p"
      using p idx [of p] r(3,4) by (cases "p \<in> set frames") (auto simp: bs_def moved_def)
  qed
  moreover have "answers crc ?lut ht ht' ms bs"
    unfolding answers_def
  proof (intro conjI allI impI)
    show "length bs = length ms" by (simp add: bs_def)
    fix p h assume p: "p < length ms" "flowhash (ms ! p) = Some h"
    show "if h = 0 then bs ! p = 0 else frame_outcome crc ?lut ht ht' h (bs ! p)"
    proof (cases "h = 0")
      case True
      then show ?thesis using p c(5) by (simp add: bs_def)
    next
      case False
      then have "p \<in> set frames" using p c(5) by simp
      then show ?thesis using False p idx [of p] c(2,6) f(5) by (auto simp: bs_def)
    qed
  qed
  moreover have "grown ?lut {h. \<exists>m \<in> set ms. flowhash m = Some h} ht ht'"
  proof -
    have "arg_k ` set args \<subseteq> {h. \<exists>m \<in> set ms. flowhash m = Some h}"
    proof
      fix h assume "h \<in> arg_k ` set args"
      then obtain i where i: "i < length args" "h = arg_k (args ! i)" by (auto simp: in_set_conv_nth)
      then have "frames ! i < length ms" "flowhash (ms ! (frames ! i)) = Some h"
        using c(2,6) fr(1) by auto
      then show "h \<in> {h. \<exists>m \<in> set ms. flowhash m = Some h}" using nth_mem by blast
    qed
    then show ?thesis using grown_mono [OF f(4)] by blast
  qed
  moreover have "dramblast_burst crc True cfg portid tid ms ht macs s = Some (Return (ms', ht', macs',
      s\<lparr>fwded := fwded s + found, unmapped := unmapped s + (of_nat (length ms) - found)\<rparr>))"
    using c(1) r(1) out by (cases "args = []") (simp_all add: dramblast_burst_def)
  ultimately show ?thesis
    using f(2,3) by (intro exI [of _ ht'] exI [of _ macs']
      exI [of _ "s\<lparr>fwded := fwded s + found, unmapped := unmapped s + (of_nat (length ms) - found)\<rparr>"]
      exI [of _ bs]) simp
qed

section \<open>One turn\<close>

text \<open>
  What the loop needs of its state: the table of the mode it runs, ready, and a \<open>mac_addrs\<close>
  array for a full burst.  Inputs: at most 64 packets in buffers of 78 bytes or more, and a
  driver that takes at most as many as it is given.
\<close>

definition state_ok :: "(u64 \<Rightarrow> u64 \<Rightarrow> u64) \<Rightarrow> l2fwd_config \<Rightarrow> nat \<Rightarrow> l2fwd_state \<Rightarrow> bool" where
  "state_ok crc cfg lcore_id st \<longleftrightarrow>
     (if l2fwd_maglev_enabled cfg then maglev_ok crc (table_capacity cfg) (maglev_st st)
      else l2fwd_dramblast_enabled cfg \<longrightarrow>
        dram_ready crc (dram_ht st) lcore_id \<and> length (dramblast_backends cfg) = TABLE_SIZE \<and>
        length (mac_addrs st) = 64)"

definition input_ok :: "burst_input \<Rightarrow> bool" where
  "input_ok inp \<longleftrightarrow>
     length (pkts_burst inp) \<le> 64 \<and> packets_ok (pkts_burst inp) \<and> nb_tx inp \<le> length (pkts_burst inp)"

definition balanced :: "l2fwd_port_statistics \<Rightarrow> bool" where
  "balanced s \<longleftrightarrow> rx s = fwded s + unmapped s \<and> rx s = tx s + tx_dropped s"

lemma map2_moved_same:
  assumes "config_ok cfg" and "packets_ok ms" and "length bs = length ms"
  shows "list_all2 same_packet ms (map2 (moved cfg portid) bs ms)"
  unfolding list_all2_conv_all_nth
proof (intro conjI allI impI)
  fix i assume i: "i < length ms"
  then have "78 \<le> length (ms ! i)" using assms(2) by (simp add: packets_ok_def)
  then show "same_packet (ms ! i) (map2 (moved cfg portid) bs ms ! i)"
    using i assms(3) moved_same [OF assms(1)] by simp
qed (simp add: assms(3))

lemma process_burst_spec:
  assumes cfg: "config_ok cfg" and st: "state_ok crc cfg lcore_id st" and ms: "packets_ok ms" "length ms \<le> 64"
  shows "\<exists>ms' st' s'. l2fwd_process_burst crc True cfg lcore_id portid ms st s = Some (Return (ms', st', s')) \<and>
    state_ok crc cfg lcore_id st' \<and> port_statistics st' = port_statistics st \<and>
    list_all2 same_packet ms ms' \<and>
    fwded s' + unmapped s' = fwded s + unmapped s + of_nat (length ms) \<and>
    s' = s\<lparr>fwded := fwded s', unmapped := unmapped s'\<rparr>"
proof -
  consider (maglev) "l2fwd_maglev_enabled cfg"
    | (dram) "\<not> l2fwd_maglev_enabled cfg" "l2fwd_dramblast_enabled cfg"
    | (plain) "\<not> l2fwd_maglev_enabled cfg" "\<not> l2fwd_dramblast_enabled cfg" by blast
  then show ?thesis
  proof cases
    case maglev
    then have "maglev_ok crc (table_capacity cfg) (maglev_st st)" using st by (simp add: state_ok_def)
    from maglev_burst_spec [OF cfg this ms(1), of portid s] obtain ms' mg' s' where
      m: "maglev_burst crc cfg portid ms (maglev_st st) s = Some (ms', mg', s')"
      "maglev_ok crc (table_capacity cfg) mg'" "list_all2 same_packet ms ms'"
      "fwded s' + unmapped s' = fwded s + unmapped s + of_nat (length ms)"
      "s' = s\<lparr>fwded := fwded s', unmapped := unmapped s'\<rparr>" by blast
    have "l2fwd_process_burst crc True cfg lcore_id portid ms st s = Some (Return (ms', st\<lparr>maglev_st := mg'\<rparr>, s'))"
      using maglev m(1) by (simp add: l2fwd_process_burst_def)
    moreover have "state_ok crc cfg lcore_id (st\<lparr>maglev_st := mg'\<rparr>)"
      using maglev m(2) by (simp add: state_ok_def)
    ultimately show ?thesis using m(3-5)
      by (intro exI [of _ ms'] exI [of _ "st\<lparr>maglev_st := mg'\<rparr>"] exI [of _ s']) simp
  next
    case dram
    then have d: "dram_ready crc (dram_ht st) lcore_id" "length (dramblast_backends cfg) = TABLE_SIZE"
      "length (mac_addrs st) = 64" using st by (auto simp: state_ok_def)
    obtain ht' macs' s' bs where b: "dramblast_burst crc True cfg portid lcore_id ms (dram_ht st) (mac_addrs st) s =
        Some (Return (map2 (moved cfg portid) bs ms, ht', macs', s'))"
      "dram_ready crc ht' lcore_id" "length macs' = 64" "length bs = length ms"
      "fwded s' + unmapped s' = fwded s + unmapped s + of_nat (length ms)"
      "s' = s\<lparr>fwded := fwded s', unmapped := unmapped s'\<rparr>"
      using dramblast_burst_spec [OF cfg ms(1) _ _ d(1,2), where macs = "mac_addrs st" and portid = portid and s = s]
        ms(2) d(3) by (auto simp: answers_def)
    have "l2fwd_process_burst crc True cfg lcore_id portid ms st s = Some (Return
        (map2 (moved cfg portid) bs ms, st\<lparr>dram_ht := ht', mac_addrs := macs'\<rparr>, s'))"
      using dram b(1) by (simp add: l2fwd_process_burst_def)
    moreover have "state_ok crc cfg lcore_id (st\<lparr>dram_ht := ht', mac_addrs := macs'\<rparr>)"
      using dram d(2) b(2,3) by (simp add: state_ok_def)
    ultimately show ?thesis using map2_moved_same [OF cfg ms(1) b(4)] b(5,6)
      by (intro exI [of _ "map2 (moved cfg portid) bs ms"] exI [of _ "st\<lparr>dram_ht := ht', mac_addrs := macs'\<rparr>"]
          exI [of _ s']) simp
  next
    case plain
    then show ?thesis
      using plain_burst_spec [OF cfg ms(1), of portid] st by (simp add: l2fwd_process_burst_def)
  qed
qed

lemma balanced_set:
  "\<forall>p l. balanced (ps p l) \<Longrightarrow> balanced s \<Longrightarrow> balanced (set_stats ps portid lcore_id s p l)"
  by (simp add: set_stats_def)

lemma count_tx_balanced:
  assumes "n_tx \<le> n_rx" and "rx s = fwded s + unmapped s" and "rx s = tx s + tx_dropped s + of_nat n_rx"
  shows "balanced (l2fwd_count_tx n_rx n_tx cyc s)"
proof -
  have "(of_nat n_rx :: u64) = of_nat (n_rx - n_tx) + of_nat n_tx" using assms(1) by (simp flip: of_nat_add)
  then show ?thesis
    using assms by (auto simp: l2fwd_count_tx_def balanced_def Let_def algebra_simps)
qed

lemma rx_port_turn:
  assumes cfg: "config_ok cfg" and st: "state_ok crc cfg lcore_id st" and inp: "input_ok inp"
    and bal: "\<forall>p l. balanced (port_statistics st p l)"
  shows "\<exists>out st'. l2fwd_rx_port crc True cfg lcore_id portid inp st = Some (Return (out, st')) \<and>
    state_ok crc cfg lcore_id st' \<and> (\<forall>p l. balanced (port_statistics st' p l)) \<and>
    list_all2 same_packet (pkts_burst inp) (sent out @ freed out) \<and>
    length (sent out) = nb_tx inp"
proof (cases "pkts_burst inp = []")
  case True
  let ?s = "port_statistics st portid lcore_id"
  have "balanced (?s\<lparr>rx_cnt := rx_cnt ?s + 1\<rparr>) = balanced ?s" by (simp add: balanced_def)
  then have "balanced (?s\<lparr>rx_cnt := rx_cnt ?s + 1\<rparr>)" using bal by blast
  then have "\<forall>p l. balanced (set_stats (port_statistics st) portid lcore_id (?s\<lparr>rx_cnt := rx_cnt ?s + 1\<rparr>) p l)"
    using balanced_set [OF bal] by blast
  moreover have "nb_tx inp = 0" using inp True by (simp add: input_ok_def)
  moreover have "l2fwd_rx_port crc True cfg lcore_id portid inp st = Some (Return (\<lparr>sent = [], freed = []\<rparr>,
      st\<lparr>port_statistics := set_stats (port_statistics st) portid lcore_id (?s\<lparr>rx_cnt := rx_cnt ?s + 1\<rparr>)\<rparr>))"
    using True by (simp add: l2fwd_rx_port_def Let_def)
  ultimately show ?thesis using True st by (simp add: state_ok_def)
next
  case False
  let ?ms = "pkts_burst inp" and ?s = "port_statistics st portid lcore_id"
  let ?s1 = "?s\<lparr>rx_cnt := rx_cnt ?s + 1, rx := rx ?s + of_nat (length ?ms)\<rparr>"
  have i: "packets_ok ?ms" "length ?ms \<le> 64" "nb_tx inp \<le> length ?ms" using inp by (auto simp: input_ok_def)
  obtain ms' st' s' where p: "l2fwd_process_burst crc True cfg lcore_id portid ?ms st ?s1 = Some (Return (ms', st', s'))"
    "state_ok crc cfg lcore_id st'" "port_statistics st' = port_statistics st" "list_all2 same_packet ?ms ms'"
    "fwded s' + unmapped s' = fwded ?s1 + unmapped ?s1 + of_nat (length ?ms)"
    "s' = ?s1\<lparr>fwded := fwded s', unmapped := unmapped s'\<rparr>"
    using process_burst_spec [OF cfg st i(1,2), of portid ?s1] by blast
  have eqs: "rx s' = rx ?s + of_nat (length ?ms)" "tx s' = tx ?s" "tx_dropped s' = tx_dropped ?s"
    by (subst p(6), simp)+
  have "balanced ?s" using bal by blast
  then have b: "rx ?s = fwded ?s + unmapped ?s" "rx ?s = tx ?s + tx_dropped ?s" unfolding balanced_def by blast+
  let ?s2 = "l2fwd_count_tx (length ?ms) (nb_tx inp) (cycles inp) s'"
  have "balanced ?s2"
    using count_tx_balanced [OF i(3), of s'] p(5) eqs b by simp
  then have "\<forall>p l. balanced (set_stats (port_statistics st') portid lcore_id ?s2 p l)"
    using balanced_set [of "port_statistics st'"] bal p(3) by simp
  moreover have "l2fwd_rx_port crc True cfg lcore_id portid inp st = Some (Return
      (\<lparr>sent = take (nb_tx inp) ms', freed = drop (nb_tx inp) ms'\<rparr>,
       st'\<lparr>port_statistics := set_stats (port_statistics st') portid lcore_id ?s2\<rparr>))"
    using False p(1) by (simp add: l2fwd_rx_port_def Let_def)
  moreover have "length ms' = length ?ms" using p(4) by (simp add: list_all2_lengthD)
  ultimately show ?thesis using p(2,4) i(3) by (simp add: state_ok_def)
qed

section \<open>Correctness of the packet path\<close>

text \<open>
  C11: the 64-bit store of the destination address is harmless: in a buffer of at least 12 bytes
  the packet leaves with the low six bytes of the backend's value, least significant first, as
  its destination, the address of the outgoing port as its source, and every byte behind the
  Ethernet addresses as it came; its flow hash is the same before and after.
\<close>

theorem l2fwd_mac_updating_spec:
  assumes "12 \<le> length m" and "length (l2fwd_ports_eth_addr cfg port) = 6"
  shows "\<exists>m'. l2fwd_mac_updating cfg m port mac = Some m' \<and> length m' = length m \<and>
    take 6 m' = List.map (\<lambda>i. ucast (drop_bit (8 * i) mac)) [0..<6] \<and>
    take 6 (drop 6 m') = l2fwd_ports_eth_addr cfg port \<and> drop 12 m' = drop 12 m \<and>
    flowhash m' = flowhash m"
proof -
  let ?a = "l2fwd_ports_eth_addr cfg port"
  let ?m' = "take 6 (le_bytes mac) @ ?a @ drop 12 m"
  have "wr_bytes m 0 (le_bytes mac) = Some (le_bytes mac @ drop 8 m)" using assms(1) by simp
  moreover have "wr_bytes (le_bytes mac @ drop 8 m) 6 ?a = Some ?m'" using assms by simp
  ultimately have "l2fwd_mac_updating cfg m port mac = Some ?m'" by (simp add: l2fwd_mac_updating_def)
  moreover have "take 6 (le_bytes mac) = List.map (\<lambda>i. ucast (drop_bit (8 * i) mac)) [0..<6]"
    by (simp add: le_bytes_def take_map)
  moreover have "flowhash ?m' = flowhash m" using assms by (intro flowhash_drop) simp_all
  ultimately show ?thesis using assms by simp
qed

definition sample_config :: "bool \<Rightarrow> bool \<Rightarrow> l2fwd_config" where
  "sample_config maglev dram = \<lparr>l2fwd_maglev_enabled = maglev, l2fwd_dramblast_enabled = dram,
     l2fwd_dst_ports = (\<lambda>p. 1 - p), l2fwd_ports_eth_addr = (\<lambda>p. replicate 6 (of_nat p)),
     table_capacity = 8, dramblast_backends = replicate TABLE_SIZE 0xff\<rparr>"

lemma sample_config_ok: "config_ok (sample_config mg d)"
  by (simp add: config_ok_def sample_config_def)

theorem l2fwd_mac_updating_spec_witness:
  "\<exists>m'. l2fwd_mac_updating (sample_config False True) sample_frame 1 0xff = Some m' \<and>
    take 6 m' = [0xff, 0, 0, 0, 0, 0] \<and> flowhash m' = flowhash sample_frame"
  using l2fwd_mac_updating_spec [where m = sample_frame and cfg = "sample_config False True" and port = 1 and mac = "0xff"]
  by (auto simp: sample_frame_def sample_config_def upt_rec)

lemma main_loop_spec:
  assumes "config_ok cfg" and "state_ok crc cfg lcore_id st" and "\<forall>(p, inp) \<in> set turns. input_ok inp"
    and "\<forall>p l. balanced (port_statistics st p l)"
  shows "\<exists>outs st'. l2fwd_main_loop crc True cfg lcore_id turns st = Some (Return (outs, st')) \<and>
    state_ok crc cfg lcore_id st' \<and> (\<forall>p l. balanced (port_statistics st' p l)) \<and>
    list_all2 (\<lambda>(p, inp) out. list_all2 same_packet (pkts_burst inp) (sent out @ freed out) \<and>
      length (sent out) = nb_tx inp) turns outs"
  using assms(2-)
proof (induction turns arbitrary: st)
  case Nil
  then show ?case by simp
next
  case (Cons t turns)
  obtain p inp where t: "t = (p, inp)" by force
  then have i: "input_ok inp" using Cons.prems(2) by auto
  obtain out st1 where o: "l2fwd_rx_port crc True cfg lcore_id p inp st = Some (Return (out, st1))"
    "state_ok crc cfg lcore_id st1" "\<forall>p l. balanced (port_statistics st1 p l)"
    "list_all2 same_packet (pkts_burst inp) (sent out @ freed out)" "length (sent out) = nb_tx inp"
    using rx_port_turn [OF assms(1) Cons.prems(1) i Cons.prems(3), of p] by blast
  then obtain outs st' where r: "l2fwd_main_loop crc True cfg lcore_id turns st1 = Some (Return (outs, st'))"
    "state_ok crc cfg lcore_id st'" "\<forall>p l. balanced (port_statistics st' p l)"
    "list_all2 (\<lambda>(p, inp) out. list_all2 same_packet (pkts_burst inp) (sent out @ freed out) \<and>
      length (sent out) = nb_tx inp) turns outs"
    using Cons.IH [OF o(2) _ o(3)] Cons.prems(2) by auto
  have "l2fwd_main_loop crc True cfg lcore_id (t # turns) st = Some (Return (out # outs, st'))"
    using o(1) r(1) t by simp
  then show ?case using r(2-4) o(4,5) t by (intro exI conjI) auto
qed

text \<open>
  C12: the packet loop runs on.  In each of its three modes, over any sequence of turns with
  packets of any content, it neither accesses memory out of bounds nor exits; no packet is
  lost, invented, reordered or changed behind its Ethernet addresses: the packets sent followed
  by the packets freed are those received, turn by turn; and for every port and core the
  packets received are those forwarded plus those unmapped, and those sent plus those dropped.
\<close>

theorem l2fwd_main_loop_safe:
  assumes "config_ok cfg" and "state_ok crc cfg lcore_id st" and "\<forall>(p, inp) \<in> set turns. input_ok inp"
    and "\<forall>p l. balanced (port_statistics st p l)"
  shows "\<exists>outs st'. l2fwd_main_loop crc True cfg lcore_id turns st = Some (Return (outs, st')) \<and>
    list_all2 (\<lambda>(p, inp) out. length (sent out) = nb_tx inp \<and>
      list_all2 (\<lambda>m m'. length m' = length m \<and> drop 12 m' = drop 12 m)
        (pkts_burst inp) (sent out @ freed out)) turns outs \<and>
    (\<forall>p l. let s = port_statistics st' p l in
       rx s = fwded s + unmapped s \<and> rx s = tx s + tx_dropped s)"
proof -
  have same: "same_packet = (\<lambda>m m'. length m' = length m \<and> drop 12 m' = drop 12 m)"
    by (simp add: same_packet_def fun_eq_iff)
  obtain outs st' where r: "l2fwd_main_loop crc True cfg lcore_id turns st = Some (Return (outs, st'))"
    "\<forall>p l. balanced (port_statistics st' p l)"
    "list_all2 (\<lambda>(p, inp) out. list_all2 same_packet (pkts_burst inp) (sent out @ freed out) \<and>
      length (sent out) = nb_tx inp) turns outs"
    using main_loop_spec [OF assms] by blast
  have "list_all2 (\<lambda>(p, inp) out. length (sent out) = nb_tx inp \<and>
      list_all2 (\<lambda>m m'. length m' = length m \<and> drop 12 m' = drop 12 m)
        (pkts_burst inp) (sent out @ freed out)) turns outs"
    using r(3) unfolding same by (rule list_all2_mono) auto
  then show ?thesis using r(1) r(2) [unfolded balanced_def] unfolding Let_def by blast
qed

definition zero_stats :: l2fwd_port_statistics where
  "zero_stats = \<lparr>tx = 0, rx = 0, rx_cnt = 0, fwded = 0, unmapped = 0, rx_dropped = 0, tx_dropped = 0, hash_tsc = 0\<rparr>"

definition sample_state :: l2fwd_state where
  "sample_state = \<lparr>port_statistics = (\<lambda>_ _. zero_stats), maglev_st = sample_maglev,
     dram_ht = fresh_ht 8 [fresh_ring 62], mac_addrs = replicate 64 0xabcd\<rparr>"

definition sample_turn :: burst_input where
  "sample_turn = \<lparr>pkts_burst = [sample_frame, sample_frame[14 := 0x60]], cycles = 10, nb_tx = 1\<rparr>"

lemma sample_turn_ok: "input_ok sample_turn"
  by (simp add: input_ok_def sample_turn_def packets_ok_def sample_frame_def)

lemma sample_state_ok: "state_ok (\<lambda>_ k. k) (sample_config False True) 0 sample_state"
  using sample_ready by (simp add: state_ok_def sample_config_def sample_state_def)

theorem l2fwd_main_loop_safe_witness:
  "\<exists>outs st'. l2fwd_main_loop (\<lambda>_ k. k) True (sample_config False True) 0 [(0, sample_turn), (1, sample_turn)]
      sample_state = Some (Return (outs, st')) \<and>
    rx (port_statistics st' 0 0) = fwded (port_statistics st' 0 0) + unmapped (port_statistics st' 0 0)"
proof -
  have i: "\<forall>(p, inp) \<in> set [(0, sample_turn), (1, sample_turn)]. input_ok inp" using sample_turn_ok by simp
  have b: "\<forall>p l. balanced (port_statistics sample_state p l)"
    by (simp add: sample_state_def balanced_def zero_stats_def)
  from l2fwd_main_loop_safe [OF sample_config_ok sample_state_ok i b]
  show ?thesis by (auto simp: Let_def)
qed

text \<open>
  C25: what a packet leaves with in DRAMBlast mode.  A packet without a flow hash leaves as it
  came; one of a tracked flow leaves with the flow's stored backend as its destination (unless
  that is 0, the marker for none); one of a new flow leaves with the backend of the lookup table
  (unless that is 0) and the flow is tracked, or, if the lookup was undecided or the table is full
  afterwards, as it came.  The
  stale answers of the previous bursts in \<open>mac_addrs\<close> play no role.
\<close>

theorem l2fwd_dramblast_packet:
  assumes "config_ok cfg" and "state_ok crc cfg lcore_id st" and "input_ok inp"
    and "\<not> l2fwd_maglev_enabled cfg" and "l2fwd_dramblast_enabled cfg"
    and "p < length (pkts_burst inp)" and "flowhash (pkts_burst inp ! p) = Some h"
  shows "\<exists>out st'. l2fwd_rx_port crc True cfg lcore_id portid inp st = Some (Return (out, st')) \<and>
    (let m = pkts_burst inp ! p; m' = (sent out @ freed out) ! p; lut = dramblast_backends cfg in
     if h = 0 then m' = m
     else case dram_map (dram_ht st) h of
         Some v \<Rightarrow> m' = (if v = 0 then m else rewritten cfg portid v m)
       | None \<Rightarrow>
           gives_up crc (dram_ht st) h \<and> m' = m \<or>
           table_full (dram_ht st') \<and> m' = m \<or>
           dram_map (dram_ht st') h = Some (backend_of lut h) \<and>
             m' = (if backend_of lut h = 0 then m else rewritten cfg portid (backend_of lut h) m))"
proof -
  let ?ms = "pkts_burst inp" and ?s = "port_statistics st portid lcore_id"
  let ?s1 = "?s\<lparr>rx_cnt := rx_cnt ?s + 1, rx := rx ?s + of_nat (length ?ms)\<rparr>"
  have d: "dram_ready crc (dram_ht st) lcore_id" "length (dramblast_backends cfg) = TABLE_SIZE"
    "length (mac_addrs st) = 64" using assms(2,4,5) by (auto simp: state_ok_def)
  have ms: "packets_ok ?ms" "length ?ms \<le> length (mac_addrs st)" "length ?ms < 2 ^ 32"
    using assms(3) d(3) by (auto simp: input_ok_def)
  obtain ht' macs' s' bs where b: "dramblast_burst crc True cfg portid lcore_id ?ms (dram_ht st) (mac_addrs st) ?s1 =
      Some (Return (map2 (moved cfg portid) bs ?ms, ht', macs', s'))"
    "answers crc (dramblast_backends cfg) (dram_ht st) ht' ?ms bs"
    using dramblast_burst_spec [OF assms(1) ms d(1,2), of portid ?s1] by blast
  have "?ms \<noteq> []" using assms(6) by auto
  then have r: "l2fwd_rx_port crc True cfg lcore_id portid inp st = Some (Return
      (\<lparr>sent = take (nb_tx inp) (map2 (moved cfg portid) bs ?ms), freed = drop (nb_tx inp) (map2 (moved cfg portid) bs ?ms)\<rparr>,
       st\<lparr>dram_ht := ht', mac_addrs := macs',
          port_statistics := set_stats (port_statistics st) portid lcore_id
            (l2fwd_count_tx (length ?ms) (nb_tx inp) (cycles inp) s')\<rparr>))"
    using b(1) assms(4,5) by (simp add: l2fwd_rx_port_def l2fwd_process_burst_def Let_def)
  have l: "length bs = length ?ms" and a: "if h = 0 then bs ! p = 0
      else frame_outcome crc (dramblast_backends cfg) (dram_ht st) ht' h (bs ! p)"
    using b(2) assms(6,7) by (auto simp: answers_def)
  have "map2 (moved cfg portid) bs ?ms ! p = (if bs ! p = 0 then ?ms ! p else rewritten cfg portid (bs ! p) (?ms ! p))"
    using l assms(6) by (simp add: moved_def [of cfg portid "bs ! p"])
  then show ?thesis
    using a unfolding r by (auto simp: Let_def frame_outcome_def split: option.splits if_splits)
qed

theorem l2fwd_dramblast_packet_witness:
  "\<exists>out st'. l2fwd_rx_port (\<lambda>_ k. k) True (sample_config False True) 0 0 sample_turn sample_state =
      Some (Return (out, st')) \<and> (sent out @ freed out) ! 1 = sample_frame[14 := 0x60]"
proof -
  have "\<not> trackable (sample_frame[14 := 0x60])"
    by (simp add: trackable_def sample_frame_def ip_version_4 nth_append)
  then have "flowhash (pkts_burst sample_turn ! 1) = Some 0"
    using flowhash_eq [of "sample_frame[14 := 0x60]"] by (simp add: sample_turn_def sample_frame_def)
  from l2fwd_dramblast_packet [OF sample_config_ok sample_state_ok sample_turn_ok _ _ _ this, of 0]
  show ?thesis by (auto simp: sample_config_def sample_turn_def)
qed

end
