(* ===== verification/Options.thy ===== *)
theory Options
  imports Prelude
begin

text \<open>
  \<open>l2fwd/main.c\<close>, \<open>l2fwd_parse_args\<close>: the options of the forwarding program.  The command line
  is the sequence of what \<open>getopt_long\<close> reports for it; the number conversions of the C library
  the parser relies on are defined here.  Rejecting the command line is \<open>None\<close>.
\<close>

section \<open>Number conversions\<close>

definition is_space :: "char \<Rightarrow> bool" where
  "is_space c \<longleftrightarrow> of_char c \<in> {32, 9, 10, 11, 12, 13 :: nat}"

definition digit_value :: "char \<Rightarrow> nat" where
  "digit_value c = (let n = of_char c in
     if 48 \<le> n \<and> n \<le> 57 then n - 48
     else if 97 \<le> n \<and> n \<le> 122 then n - 87
     else if 65 \<le> n \<and> n \<le> 90 then n - 55
     else 99)"

definition is_digit :: "nat \<Rightarrow> char \<Rightarrow> bool" where
  "is_digit base c \<longleftrightarrow> digit_value c < base"

definition digits_value :: "nat \<Rightarrow> string \<Rightarrow> nat" where
  "digits_value base s = foldl (\<lambda>v c. base * v + digit_value c) 0 (takeWhile (is_digit base) s)"

text \<open>White space, a sign, a \<open>0x\<close> before hexadecimal digits: the sign and the rest.\<close>

definition split_sign :: "string \<Rightarrow> bool \<times> string" where
  "split_sign s =
     (case dropWhile is_space s of
        [] \<Rightarrow> (False, [])
      | c # cs \<Rightarrow> if c = CHR ''-'' then (True, cs) else if c = CHR ''+'' then (False, cs) else (False, c # cs))"

definition skip_hex_prefix :: "nat \<Rightarrow> string \<Rightarrow> string" where
  "skip_hex_prefix base s =
     (case s of
        a # b # c # cs \<Rightarrow>
          if base = 16 \<and> a = CHR ''0'' \<and> (b = CHR ''x'' \<or> b = CHR ''X'') \<and> is_digit 16 c
          then c # cs else s
      | _ \<Rightarrow> s)"

text \<open>\<open>strtoul\<close>/\<open>strtoull\<close>: saturating; a minus sign negates the unsigned value.\<close>

definition strtoul :: "string \<Rightarrow> nat \<Rightarrow> u64" where
  "strtoul s base =
     (let (neg, ds) = split_sign s; v = digits_value base (skip_hex_prefix base ds) in
      if 2 ^ 64 \<le> v then - 1 else if neg then - of_nat v else of_nat v)"

definition strtol :: "string \<Rightarrow> nat \<Rightarrow> int" where
  "strtol s base =
     (let (neg, ds) = split_sign s; v = int (digits_value base (skip_hex_prefix base ds)) in
      if neg then max (- (2 ^ 63)) (- v) else min (2 ^ 63 - 1) v)"

section \<open>The parser\<close>

text \<open>What \<open>getopt_long\<close> reports: a short option with its argument, a long option that set its
  flag, or anything else (an unknown option, a missing argument).\<close>

datatype opt_event = Opt char string | Long_flag int | Opt_error

record l2fwd_options =
  mac_updating :: int
  opt_CAPACITY :: u64
  l2fwd_enabled_port_mask :: u32
  l2fwd_queues_per_port :: u32
  timer_period :: u64
  maglev_flag :: u32
  dramblast_flag :: u32
  sashstore_flag :: u32

definition default_options :: l2fwd_options where
  "default_options = \<lparr>mac_updating = 1, opt_CAPACITY = push_bit 20 1 * 16, l2fwd_enabled_port_mask = 0,
     l2fwd_queues_per_port = 1, timer_period = 1, maglev_flag = 0, dramblast_flag = 0, sashstore_flag = 0\<rparr>"

definition parse_mode :: "string \<Rightarrow> l2fwd_options \<Rightarrow> l2fwd_options option" where
  "parse_mode optarg o1 =
     (if optarg = ''maglev'' then Some (o1\<lparr>maglev_flag := 1\<rparr>)
      else if optarg = ''sashstore'' then Some (o1\<lparr>sashstore_flag := 1\<rparr>)
      else if optarg = ''dramblast'' then Some (o1\<lparr>dramblast_flag := 1\<rparr>)
      else if optarg = ''none'' then Some (o1\<lparr>dramblast_flag := 0, maglev_flag := 0, sashstore_flag := 0\<rparr>)
      else None)"

definition parse_capacity :: "string \<Rightarrow> l2fwd_options \<Rightarrow> l2fwd_options option" where
  "parse_capacity optarg o1 =
     (let cap = strtoul optarg 10; o2 = o1\<lparr>opt_CAPACITY := cap\<rparr> in
      if cap = 0 \<or> cap AND (cap - 1) \<noteq> 0 then None
      else if cap > push_bit 32 1 then None
      else Some o2)"

definition parse_option :: "opt_event \<Rightarrow> l2fwd_options \<Rightarrow> l2fwd_options option" where
  "parse_option e o1 =
     (case e of
        Long_flag v \<Rightarrow> Some (o1\<lparr>mac_updating := v\<rparr>)
      | Opt c optarg \<Rightarrow>
          if c = CHR ''m'' then parse_mode optarg o1
          else if c = CHR ''c'' then parse_capacity optarg o1
          else if c = CHR ''p'' then
            let mask = ucast (strtoul optarg 16) in
            if mask = 0 then None else Some (o1\<lparr>l2fwd_enabled_port_mask := mask\<rparr>)
          else if c = CHR ''q'' then
            let q = ucast (strtoul optarg 10) in
            if q = 0 then None else Some (o1\<lparr>l2fwd_queues_per_port := q\<rparr>)
          else if c = CHR ''T'' then Some (o1\<lparr>timer_period := of_int (strtol optarg 10)\<rparr>)
          else None
      | Opt_error \<Rightarrow> None)"

fun l2fwd_parse_args :: "opt_event list \<Rightarrow> l2fwd_options \<Rightarrow> l2fwd_options option" where
  "l2fwd_parse_args [] o1 = Some o1"
| "l2fwd_parse_args (e # es) o1 = do { o2 \<leftarrow> parse_option e o1; l2fwd_parse_args es o2 }"

section \<open>The capacity\<close>

definition capacity_ok :: "u64 \<Rightarrow> bool" where
  "capacity_ok c \<longleftrightarrow> (\<exists>n\<in>{..32}. c = 2 ^ n)"

lemma two_power_le:
  assumes "n < 64"
  shows "(2::u64) ^ n \<le> 2 ^ 32 \<longleftrightarrow> n \<le> 32"
proof -
  have "(2::u64) ^ n \<le> 2 ^ 32 \<longleftrightarrow> (2::nat) ^ n \<le> 2 ^ 32"
    using unat_two_power [OF assms] unat_two_power [of 32] by (simp add: word_le_nat_alt)
  then show ?thesis by (simp only: power_increasing_iff)
qed

lemma capacity_ok_iff: "capacity_ok c \<longleftrightarrow> pow2_u64 c \<and> c \<le> 2 ^ 32"
proof
  assume "capacity_ok c"
  then obtain n where n: "n \<le> 32" "c = 2 ^ n" by (auto simp: capacity_ok_def)
  then have "n < 64" by simp
  then show "pow2_u64 c \<and> c \<le> 2 ^ 32" using n two_power_le by (auto simp only: pow2_u64_def)
next
  assume a: "pow2_u64 c \<and> c \<le> 2 ^ 32"
  then obtain n where n: "n < 64" "c = 2 ^ n" by (auto simp: pow2_u64_def)
  then have "n \<le> 32" using a two_power_le [OF n(1)] by (simp only: n(2))
  then show "capacity_ok c" using n(2) by (auto simp only: capacity_ok_def atMost_iff)
qed

lemma capacity_check:
  fixes c :: u64
  shows "(c = 0 \<or> c AND (c - 1) \<noteq> 0) \<longleftrightarrow> \<not> pow2_u64 c" and "c > push_bit 32 1 \<longleftrightarrow> \<not> c \<le> 2 ^ 32"
  using u64_pow2_trick [of c] by (auto simp: push_bit_eq_mult not_le)

lemma parse_capacity_eq:
  "parse_capacity optarg o1 =
     (if capacity_ok (strtoul optarg 10) then Some (o1\<lparr>opt_CAPACITY := strtoul optarg 10\<rparr>) else None)"
  unfolding parse_capacity_def Let_def capacity_check capacity_ok_iff by simp

lemma parse_mode_fields:
  "parse_mode optarg o1 = Some o2 \<Longrightarrow>
   opt_CAPACITY o2 = opt_CAPACITY o1 \<and> l2fwd_queues_per_port o2 = l2fwd_queues_per_port o1"
  by (auto simp: parse_mode_def split: if_splits)

lemma parse_option_ok:
  assumes "parse_option e o1 = Some o2" and "capacity_ok (opt_CAPACITY o1)" and "0 < l2fwd_queues_per_port o1"
  shows "capacity_ok (opt_CAPACITY o2) \<and> 0 < l2fwd_queues_per_port o2"
proof (cases e)
  case (Opt c s)
  show ?thesis
  proof (cases "c = CHR ''m''")
    case True
    then show ?thesis using assms Opt parse_mode_fields [of s o1 o2] by (simp add: parse_option_def)
  next
    case False
    then show ?thesis
      using assms Opt
      by (auto simp: parse_option_def parse_capacity_eq Let_def word_gt_0 split: if_splits)
  qed
qed (use assms in \<open>auto simp: parse_option_def\<close>)

lemma l2fwd_parse_args_ok:
  assumes "l2fwd_parse_args es default_options = Some o1"
  shows "capacity_ok (opt_CAPACITY o1) \<and> 0 < l2fwd_queues_per_port o1"
proof -
  have "capacity_ok (opt_CAPACITY o1) \<and> 0 < l2fwd_queues_per_port o1"
    if "l2fwd_parse_args es o0 = Some o1" "capacity_ok (opt_CAPACITY o0)" "0 < l2fwd_queues_per_port o0" for o0
    using that
  proof (induction es arbitrary: o0)
    case (Cons e es)
    obtain o2 where "parse_option e o0 = Some o2" "l2fwd_parse_args es o2 = Some o1"
      using Cons.prems(1) by (auto split: Option.bind_splits)
    then show ?case using Cons.IH parse_option_ok Cons.prems(2,3) by blast
  qed simp
  moreover have "capacity_ok (opt_CAPACITY default_options)"
    unfolding capacity_ok_def by (intro bexI [of _ 24]) (simp_all add: default_options_def push_bit_eq_mult)
  moreover have "0 < l2fwd_queues_per_port default_options" by (simp add: default_options_def)
  ultimately show ?thesis using assms by blast
qed

text \<open>
  C39: whatever the command line, if the parser accepts it then the capacity is a power of two of
  at most 2 to the 32 and there is at least one queue per port: the precondition of the index
  arithmetic of both connection tables and of the sizes computed from the capacity.
\<close>

theorem l2fwd_parse_args_capacity:
  assumes "l2fwd_parse_args es default_options = Some o1"
  shows "(\<exists>n\<in>{..32}. opt_CAPACITY o1 = 2 ^ n) \<and> l2fwd_queues_per_port o1 \<noteq> 0"
  using l2fwd_parse_args_ok [OF assms] by (auto simp: capacity_ok_def)

section \<open>Decimal numbers\<close>

text \<open>The decimal notation of a number, to state what an argument means.\<close>

definition digit_char :: "nat \<Rightarrow> char" where
  "digit_char d = char_of (48 + d)"

fun dec :: "nat \<Rightarrow> string" where
  "dec n = (if n < 10 then [digit_char n] else dec (n div 10) @ [digit_char (n mod 10)])"

declare dec.simps [simp del]

lemma digit_char:
  assumes "d < 10"
  shows "of_char (digit_char d) = 48 + d" and "digit_value (digit_char d) = d"
    and "is_digit 10 (digit_char d)" and "\<not> is_space (digit_char d)"
    and "digit_char d \<noteq> CHR ''-''" and "digit_char d \<noteq> CHR ''+''"
proof -
  show o: "of_char (digit_char d) = 48 + d" using assms by (simp add: digit_char_def)
  then show v: "digit_value (digit_char d) = d" using assms by (simp add: digit_value_def)
  then show "is_digit 10 (digit_char d)" using assms by (simp add: is_digit_def)
  show "\<not> is_space (digit_char d)" using o by (simp add: is_space_def)
  show "digit_char d \<noteq> CHR ''-''"
  proof
    assume "digit_char d = CHR ''-''"
    then have "of_char (CHR ''-'') = 48 + d" using o by simp
    then show False by simp
  qed
  show "digit_char d \<noteq> CHR ''+''"
  proof
    assume "digit_char d = CHR ''+''"
    then have "of_char (CHR ''+'') = 48 + d" using o by simp
    then show False by simp
  qed
qed

lemma dec_digits: "dec n \<noteq> [] \<and> (\<forall>c \<in> set (dec n). \<exists>d<10. c = digit_char d)"
proof (induction n rule: dec.induct)
  case (1 n)
  have "\<exists>d<10. digit_char (n mod 10) = digit_char d" by (intro exI [of _ "n mod 10"]) simp
  then show ?case
    using 1 by (subst (1 2) dec.simps) auto
qed

lemma dec_foldl: "foldl (\<lambda>v c. 10 * v + digit_value c) 0 (dec n) = n"
proof (induction n rule: less_induct)
  case (less n)
  show ?case
  proof (cases "n < 10")
    case True
    then have "dec n = [digit_char n]" by (subst dec.simps) simp
    then show ?thesis using digit_char(2) [OF True] by simp
  next
    case False
    then have "dec n = dec (n div 10) @ [digit_char (n mod 10)]" by (subst dec.simps) simp
    moreover have "digit_value (digit_char (n mod 10)) = n mod 10" by (rule digit_char(2)) simp
    moreover have "n div 10 < n" using False by simp
    ultimately show ?thesis using less by simp
  qed
qed

lemma dec_value: "digits_value 10 (dec n) = n"
proof -
  have "is_digit 10 c" if "c \<in> set (dec n)" for c
    using dec_digits [of n] that digit_char(3) by auto
  then have "takeWhile (is_digit 10) (dec n) = dec n" unfolding takeWhile_eq_all_conv by blast
  then show ?thesis by (simp only: digits_value_def dec_foldl)
qed

lemma dec_scanned:
  shows "split_sign (dec n) = (False, dec n)" and "skip_hex_prefix 10 (dec n) = dec n"
proof -
  obtain c cs where c: "dec n = c # cs" using dec_digits [of n] by (cases "dec n") auto
  then obtain d where "d < 10" "c = digit_char d" using dec_digits [of n] by auto
  then show "split_sign (dec n) = (False, dec n)" using c digit_char by (simp add: split_sign_def)
  show "skip_hex_prefix 10 (dec n) = dec n"
    by (simp add: skip_hex_prefix_def split: list.splits)
qed

lemma strtoul_dec: "n < 2 ^ 64 \<Longrightarrow> strtoul (dec n) 10 = of_nat n"
  by (simp add: strtoul_def dec_value dec_scanned)

lemma strtol_dec: "n < 2 ^ 63 \<Longrightarrow> strtol (dec n) 10 = int n"
  by (simp add: strtol_def dec_value dec_scanned)

text \<open>
  The capacity option accepts exactly the powers of two up to 2 to the 32.  For every 64-bit
  number in decimal notation, the option is rejected unless the number is one of these, and
  otherwise sets the capacity to it and nothing else.
\<close>

lemma l2fwd_capacity_option:
  assumes "n < 2 ^ 64"
  shows "l2fwd_parse_args [Opt CHR ''c'' (dec n)] o1 =
    (if \<exists>k\<in>{..32}. n = 2 ^ k then Some (o1\<lparr>opt_CAPACITY := of_nat n\<rparr>) else None)"
proof -
  have "capacity_ok (of_nat n) \<longleftrightarrow> (\<exists>k\<in>{..32}. n = 2 ^ k)"
  proof
    assume "capacity_ok (of_nat n)"
    then obtain k where k: "k \<le> 32" "(of_nat n :: u64) = 2 ^ k" by (auto simp: capacity_ok_def)
    have "unat (of_nat n :: u64) = n" using assms by (simp add: unat_of_nat)
    moreover have "unat ((2::u64) ^ k) = 2 ^ k" using k(1) by (intro unat_two_power) simp
    ultimately have "n = 2 ^ k" using k(2) by metis
    then show "\<exists>k\<in>{..32}. n = 2 ^ k" using k(1) by blast
  next
    assume "\<exists>k\<in>{..32}. n = 2 ^ k"
    then show "capacity_ok (of_nat n)" by (auto simp: capacity_ok_def)
  qed
  then show ?thesis by (simp add: parse_option_def parse_capacity_eq strtoul_dec [OF assms])
qed

theorem l2fwd_parse_args_capacity_witness:
  "\<exists>o1. l2fwd_parse_args [Opt CHR ''m'' ''dramblast'', Opt CHR ''c'' (dec 1024), Opt CHR ''q'' (dec 4)]
      default_options = Some o1 \<and> l2fwd_queues_per_port o1 \<noteq> 0"
proof -
  have "capacity_ok 1024" unfolding capacity_ok_def by (intro bexI [of _ 10]) simp_all
  then have "\<exists>o1. l2fwd_parse_args [Opt CHR ''m'' ''dramblast'', Opt CHR ''c'' (dec 1024), Opt CHR ''q'' (dec 4)]
      default_options = Some o1"
    by (simp add: parse_option_def parse_mode_def parse_capacity_eq strtoul_dec)
  then show ?thesis using l2fwd_parse_args_capacity by blast
qed

lemma l2fwd_capacity_option_witness:
  "l2fwd_parse_args [Opt CHR ''c'' (dec 4096)] default_options = Some (default_options\<lparr>opt_CAPACITY := 4096\<rparr>)"
proof -
  have "\<exists>k\<in>{..32}. (4096::nat) = 2 ^ k" by (intro bexI [of _ 12]) simp_all
  then show ?thesis using l2fwd_capacity_option [of 4096 default_options] by simp
qed

section \<open>The mode\<close>

text \<open>
  The mode is matched exactly.  A single mode option is accepted for the four names only;
  it then turns on its own flag and no other, none turns all three off, and every longer,
  shorter or misspelt name is rejected.
\<close>

lemma l2fwd_mode_option:
  "l2fwd_parse_args [Opt CHR ''m'' s] default_options =
     (if s \<in> {''maglev'', ''sashstore'', ''dramblast'', ''none''}
      then Some (default_options\<lparr>maglev_flag := of_bool (s = ''maglev''),
             dramblast_flag := of_bool (s = ''dramblast''), sashstore_flag := of_bool (s = ''sashstore'')\<rparr>)
      else None)"
  by (auto simp: parse_option_def parse_mode_def default_options_def)

end
