(* ===== verification/Ports.thy ===== *)
theory Ports
  imports Prelude
begin

text \<open>
  \<open>l2fwd/main.c\<close>, \<open>main\<close>: pairing the enabled ports, handing the port queues to the cores, and
  the number of packet buffers.  The ports DPDK iterates over, the cores that are enabled, the
  main core and DPDK's compile-time limit \<open>RTE_MAX_LCORE\<close> are arguments.
\<close>

section \<open>Destination ports\<close>

definition port_enabled :: "u32 \<Rightarrow> nat \<Rightarrow> bool" where
  "port_enabled pmask portid \<longleftrightarrow> pmask AND push_bit portid 1 \<noteq> 0"

text \<open>The ports that take part, in DPDK's order.\<close>

definition enabled_ports :: "u32 \<Rightarrow> nat list \<Rightarrow> nat list" where
  "enabled_ports pmask ports = filter (port_enabled pmask) ports"

text \<open>The loop state: the array, \<open>last_port\<close> and \<open>nb_ports_in_mask\<close>.\<close>

fun pair_ports ::
  "u32 \<Rightarrow> nat list \<Rightarrow> (nat \<Rightarrow> nat) \<Rightarrow> nat \<Rightarrow> nat \<Rightarrow> (nat \<Rightarrow> nat) \<times> nat \<times> nat" where
  "pair_ports pmask [] dst last_port n = (dst, last_port, n)"
| "pair_ports pmask (portid # ports) dst last_port n =
     (if \<not> port_enabled pmask portid then pair_ports pmask ports dst last_port n
      else if n mod 2 \<noteq> 0
      then pair_ports pmask ports (dst(portid := last_port, last_port := portid)) last_port (n + 1)
      else pair_ports pmask ports dst portid (n + 1))"

definition map_dst_ports :: "u32 \<Rightarrow> nat list \<Rightarrow> nat \<Rightarrow> nat" where
  "map_dst_ports pmask ports =
     (let (dst, last_port, n) = pair_ports pmask ports (\<lambda>_. 0) 0 0
      in if n mod 2 \<noteq> 0 then dst(last_port := last_port) else dst)"

text \<open>The pairing of a list: neighbours, and the last one with itself if it is left over.\<close>

fun partner :: "nat list \<Rightarrow> nat \<Rightarrow> nat" where
  "partner (a # b # ps) p = (if p = a then b else if p = b then a else partner ps p)"
| "partner [a] p = (if p = a then a else 0)"
| "partner [] p = 0"

lemma pair_ports_filter:
  "pair_ports pmask ports dst lp n = pair_ports pmask (filter (port_enabled pmask) ports) dst lp n"
  by (induction ports arbitrary: dst lp n) auto

lemma pair_ports_partner:
  assumes "distinct ps" and "\<forall>p \<in> set ps. port_enabled pmask p" and "even n"
    and "\<forall>p \<in> set ps. dst p = 0"
  shows "(let (dst', lp', n') = pair_ports pmask ps dst lp n
     in if n' mod 2 \<noteq> 0 then dst'(lp' := lp') else dst') = (\<lambda>p. if p \<in> set ps then partner ps p else dst p)"
  using assms
proof (induction ps arbitrary: dst lp n rule: induct_list012)
  case (3 a b ps)
  have n: "n mod 2 = 0" "Suc n mod 2 = 1" using 3(5) by presburger+
  let ?d = "dst(b := a, a := b)"
  have "pair_ports pmask (a # b # ps) dst lp n = pair_ports pmask ps ?d a (n + 2)"
    using 3(4) n by simp
  moreover have "\<forall>p \<in> set ps. ?d p = 0" using 3(3,6) by auto
  moreover have "distinct ps" "\<forall>p \<in> set ps. port_enabled pmask p" "even (n + 2)"
    using 3(3,4,5) by auto
  ultimately have "(let (dst', lp', n') = pair_ports pmask (a # b # ps) dst lp n
     in if n' mod 2 \<noteq> 0 then dst'(lp' := lp') else dst') = (\<lambda>p. if p \<in> set ps then partner ps p else ?d p)"
    using 3(1) [of "n + 2" ?d a] by presburger
  also have "\<dots> = (\<lambda>p. if p \<in> set (a # b # ps) then partner (a # b # ps) p else dst p)"
    using 3(3) by (auto simp: fun_eq_iff)
  finally show ?case .
qed (auto simp: fun_eq_iff)

lemma partner_in: "p \<in> set ps \<Longrightarrow> partner ps p \<in> set ps"
  by (induction ps p rule: partner.induct) auto

lemma partner_involution: "distinct ps \<Longrightarrow> p \<in> set ps \<Longrightarrow> partner ps (partner ps p) = p"
proof (induction ps p rule: partner.induct)
  case (1 a b ps p)
  then show ?case using partner_in [of p ps] by auto
qed auto

lemma partner_self: "distinct ps \<Longrightarrow> p \<in> set ps \<Longrightarrow> partner ps p = p \<longleftrightarrow> odd (length ps) \<and> p = last ps"
proof (induction ps p rule: partner.induct)
  case (1 a b ps p)
  then show ?case using partner_in [of p ps] by (cases "ps = []") (auto simp: last_in_set)
qed auto

text \<open>
  The enabled ports are paired off.  For every list of distinct ports and every pmask, an
  enabled port is sent to an enabled port, which is sent back to it; only when their number is
  odd, the last one is its own destination and no other port is; ports that are not enabled
  keep destination 0.
\<close>

lemma map_dst_ports_pairing:
  assumes "distinct ports"
  shows "(\<forall>p \<in> set (enabled_ports pmask ports). map_dst_ports pmask ports p \<in> set (enabled_ports pmask ports) \<and>
      map_dst_ports pmask ports (map_dst_ports pmask ports p) = p \<and>
      (map_dst_ports pmask ports p = p \<longleftrightarrow>
         odd (length (enabled_ports pmask ports)) \<and> p = last (enabled_ports pmask ports))) \<and>
    (\<forall>p. p \<notin> set (enabled_ports pmask ports) \<longrightarrow> map_dst_ports pmask ports p = 0)"
proof -
  let ?en = "enabled_ports pmask ports"
  have d: "distinct ?en" using assms by (simp add: enabled_ports_def)
  have "\<forall>p \<in> set ?en. port_enabled pmask p" by (simp add: enabled_ports_def)
  then have "map_dst_ports pmask ports = (\<lambda>p. if p \<in> set ?en then partner ?en p else 0)"
    using pair_ports_partner [OF d, of pmask 0 "\<lambda>_. 0" 0] pair_ports_filter [of pmask ports]
    by (simp add: map_dst_ports_def enabled_ports_def)
  then show ?thesis
    using partner_in [of _ ?en] partner_involution [OF d] partner_self [OF d] by simp
qed

lemma map_dst_ports_pairing_witness:
  "map_dst_ports 0b1011 [0, 1, 2, 3] (map_dst_ports 0b1011 [0, 1, 2, 3] 1) = 1"
proof -
  have "1 \<in> set (enabled_ports 0b1011 [0, 1, 2, 3])" by (simp add: enabled_ports_def port_enabled_def)
  moreover have "distinct [0, 1, 2, 3::nat]" by simp
  ultimately show ?thesis using map_dst_ports_pairing [of "[0, 1, 2, 3]" "0b1011"] by blast
qed

section \<open>Handing queues to cores\<close>

definition MAX_RX_QUEUE_PER_LCORE :: nat where "MAX_RX_QUEUE_PER_LCORE = 16"

text \<open>
  A core's \<open>rx_port_list\<close> is the list of its port and queue ids, so \<open>n_rx_port\<close> is its length.
\<close>

type_synonym lcore_queue_conf = "nat \<Rightarrow> (nat \<times> nat) list"

text \<open>The skipping loop: the next core to use, or running out of cores.\<close>

function next_rx_lcore ::
  "(nat \<Rightarrow> bool) \<Rightarrow> nat \<Rightarrow> nat \<Rightarrow> lcore_queue_conf \<Rightarrow> nat \<Rightarrow> nat outcome" where
  "next_rx_lcore lcore_enabled main_lcore RTE_MAX_LCORE conf rx_lcore_id =
     (if \<not> lcore_enabled rx_lcore_id \<or> rx_lcore_id = main_lcore \<or>
         length (conf rx_lcore_id) = MAX_RX_QUEUE_PER_LCORE
      then if Suc rx_lcore_id \<ge> RTE_MAX_LCORE then Exit 1
           else next_rx_lcore lcore_enabled main_lcore RTE_MAX_LCORE conf (Suc rx_lcore_id)
      else Return rx_lcore_id)"
  by pat_completeness auto
termination
  by (relation "measure (\<lambda>(e, m, n, c, i). n - i)") auto

declare next_rx_lcore.simps [simp del]

fun assign_queues ::
  "(nat \<Rightarrow> bool) \<Rightarrow> nat \<Rightarrow> nat \<Rightarrow> (nat \<times> nat) list \<Rightarrow> lcore_queue_conf \<Rightarrow> nat \<Rightarrow>
     (lcore_queue_conf \<times> nat) outcome" where
  "assign_queues lcore_enabled main_lcore RTE_MAX_LCORE [] conf rx_lcore_id = Return (conf, rx_lcore_id)"
| "assign_queues lcore_enabled main_lcore RTE_MAX_LCORE ((portid, q) # qs) conf rx_lcore_id =
     (case next_rx_lcore lcore_enabled main_lcore RTE_MAX_LCORE conf rx_lcore_id of
        Exit c \<Rightarrow> Exit c
      | Return l \<Rightarrow>
          assign_queues lcore_enabled main_lcore RTE_MAX_LCORE qs (conf(l := conf l @ [(portid, q)])) (Suc l))"

text \<open>The two nested loops visit the queues of the enabled ports, port by port.\<close>

definition port_queues :: "u32 \<Rightarrow> nat list \<Rightarrow> nat \<Rightarrow> (nat \<times> nat) list" where
  "port_queues pmask ports queues_per_port =
     concat (List.map (\<lambda>p. if port_enabled pmask p then List.map (Pair p) [0..<queues_per_port] else []) ports)"

definition distribute_queues ::
  "(nat \<Rightarrow> bool) \<Rightarrow> nat \<Rightarrow> nat \<Rightarrow> u32 \<Rightarrow> nat list \<Rightarrow> nat \<Rightarrow> lcore_queue_conf outcome" where
  "distribute_queues lcore_enabled main_lcore RTE_MAX_LCORE pmask ports queues_per_port =
     (case assign_queues lcore_enabled main_lcore RTE_MAX_LCORE
        (port_queues pmask ports queues_per_port)
        (\<lambda>_. []) 0 of
        Exit c \<Rightarrow> Exit c
      | Return (conf, rx_lcore_id) \<Rightarrow> Return conf)"

lemma next_rx_lcore_Return:
  assumes "next_rx_lcore e m n conf i = Return l"
  shows "i \<le> l \<and> e l \<and> l \<noteq> m \<and> (\<forall>k. i \<le> k \<and> k < l \<longrightarrow> \<not> e k \<or> k = m \<or> length (conf k) = 16)"
  using assms
proof (induction e m n conf i rule: next_rx_lcore.induct)
  case (1 e m n conf i)
  show ?case
  proof (cases "\<not> e i \<or> i = m \<or> length (conf i) = MAX_RX_QUEUE_PER_LCORE")
    case True
    then have lt: "\<not> Suc i \<ge> n" and r: "next_rx_lcore e m n conf (Suc i) = Return l"
      using 1(2) by (auto simp: next_rx_lcore.simps [of e m n conf i] split: if_splits)
    have IH: "Suc i \<le> l \<and> e l \<and> l \<noteq> m \<and> (\<forall>k. Suc i \<le> k \<and> k < l \<longrightarrow> \<not> e k \<or> k = m \<or> length (conf k) = 16)"
      by (rule 1(1) [OF True lt r])
    have "\<not> e k \<or> k = m \<or> length (conf k) = 16" if "i \<le> k" "k < l" for k
      using IH True that by (cases "k = i") (auto simp: MAX_RX_QUEUE_PER_LCORE_def)
    then show ?thesis using IH by auto
  next
    case False
    then have "l = i" using 1(2) by (subst (asm) next_rx_lcore.simps) auto
    then show ?thesis using False by auto
  qed
qed

lemma next_rx_lcore_Exit:
  assumes "next_rx_lcore e m n conf i = Exit c"
  shows "c = 1 \<and> (\<forall>k. i \<le> k \<and> k < n \<longrightarrow> \<not> e k \<or> k = m \<or> length (conf k) = 16)"
  using assms
proof (induction e m n conf i rule: next_rx_lcore.induct)
  case (1 e m n conf i)
  have skip: "\<not> e i \<or> i = m \<or> length (conf i) = MAX_RX_QUEUE_PER_LCORE"
    using 1(2) by (subst (asm) next_rx_lcore.simps) (auto split: if_splits)
  show ?case
  proof (cases "Suc i \<ge> n")
    case True
    then have "c = 1" using 1(2) skip by (subst (asm) next_rx_lcore.simps) auto
    moreover have "k = i" if "i \<le> k" "k < n" for k using that True by simp
    ultimately show ?thesis using skip by (auto simp: MAX_RX_QUEUE_PER_LCORE_def)
  next
    case False
    then have "next_rx_lcore e m n conf (Suc i) = Exit c"
      using 1(2) skip by (subst (asm) next_rx_lcore.simps) auto
    note IH = 1(1) [OF skip False this]
    have "\<not> e k \<or> k = m \<or> length (conf k) = 16" if "i \<le> k" "k < n" for k
      using IH skip that by (cases "k = i") (auto simp: MAX_RX_QUEUE_PER_LCORE_def)
    then show ?thesis using IH by blast
  qed
qed

text \<open>The cores that may be given a queue, and the assignment that gives the \<open>k\<close>th of them the
  \<open>k\<close>th queue.\<close>

definition worker_cores :: "(nat \<Rightarrow> bool) \<Rightarrow> nat \<Rightarrow> nat \<Rightarrow> nat \<Rightarrow> nat list" where
  "worker_cores lcore_enabled main_lcore RTE_MAX_LCORE i =
     filter (\<lambda>l. lcore_enabled l \<and> l \<noteq> main_lcore) [i..<RTE_MAX_LCORE]"

definition one_each :: "nat list \<Rightarrow> (nat \<times> nat) list \<Rightarrow> lcore_queue_conf \<Rightarrow> lcore_queue_conf" where
  "one_each cores qs conf l = (case map_of (zip cores qs) l of None \<Rightarrow> conf l | Some pq \<Rightarrow> [pq])"

lemma worker_cores_step:
  assumes "i < n"
  shows "worker_cores e m n i = (if e i \<and> i \<noteq> m then [i] else []) @ worker_cores e m n (Suc i)"
  using assms by (simp add: worker_cores_def upt_conv_Cons)

lemma worker_cores_ge: "n \<le> i \<Longrightarrow> worker_cores e m n i = []"
  by (simp add: worker_cores_def)

lemma worker_cores_member: "l \<in> set (worker_cores e m n i) \<longleftrightarrow> i \<le> l \<and> l < n \<and> e l \<and> l \<noteq> m"
  by (auto simp: worker_cores_def)

text \<open>While every core from \<open>i\<close> on is still unused, the skipping loop finds the next worker.\<close>

lemma next_rx_lcore_worker:
  assumes "\<forall>k\<ge>i. conf k = []" and "\<forall>k. e k \<longrightarrow> k < n"
  shows "next_rx_lcore e m n conf i = (case worker_cores e m n i of [] \<Rightarrow> Exit 1 | l # ls \<Rightarrow> Return l) \<and>
    (\<forall>l ls. worker_cores e m n i = l # ls \<longrightarrow> i \<le> l \<and> ls = worker_cores e m n (Suc l))"
  using assms
proof (induction e m n conf i rule: next_rx_lcore.induct)
  case (1 e m n conf i)
  have len: "length (conf i) \<noteq> MAX_RX_QUEUE_PER_LCORE" using 1(2) by (simp add: MAX_RX_QUEUE_PER_LCORE_def)
  show ?case
  proof (cases "\<not> e i \<or> i = m \<or> length (conf i) = MAX_RX_QUEUE_PER_LCORE")
    case True
    show ?thesis
    proof (cases "Suc i \<ge> n")
      case ge: True
      have "worker_cores e m n i = []"
        using True len ge worker_cores_ge [of n "Suc i"] worker_cores_step [of i n e m]
        by (cases "i < n") (auto simp: worker_cores_ge)
      then show ?thesis using True ge by (subst next_rx_lcore.simps) simp
    next
      case False
      have "worker_cores e m n i = worker_cores e m n (Suc i)"
        using True len False worker_cores_step [of i n e m] by auto
      moreover have "next_rx_lcore e m n conf i = next_rx_lcore e m n conf (Suc i)"
        using True False by (subst next_rx_lcore.simps) simp
      moreover have "\<forall>k\<ge>Suc i. conf k = []" using 1(2) by simp
      note IH = 1(1) [OF True False this 1(3)]
      have "i \<le> l" if "worker_cores e m n (Suc i) = l # ls" for l ls
        using that IH Suc_leD by blast
      ultimately show ?thesis using IH by simp
    qed
  next
    case False
    show ?thesis
    proof (cases "i < n")
      case True
      then have "worker_cores e m n i = i # worker_cores e m n (Suc i)"
        using False worker_cores_step [of i n e m] by auto
      then show ?thesis using False by (subst next_rx_lcore.simps) simp
    next
      case ge: False
      then show ?thesis using False 1(3) by blast
    qed
  qed
qed

lemma assign_queues_eq:
  assumes "\<forall>k\<ge>i. conf k = []" and "\<forall>k. e k \<longrightarrow> k < n"
  shows "if length qs \<le> length (worker_cores e m n i)
    then \<exists>j. assign_queues e m n qs conf i = Return (one_each (worker_cores e m n i) qs conf, j)
    else assign_queues e m n qs conf i = Exit 1"
  using assms(1)
proof (induction qs arbitrary: conf i)
  case Nil
  show ?case by (simp add: one_each_def fun_eq_iff)
next
  case (Cons pq qs)
  obtain p q where pq: "pq = (p, q)" by (cases pq)
  note w = next_rx_lcore_worker [OF Cons(2) assms(2), of m]
  show ?case
  proof (cases "worker_cores e m n i")
    case Nil
    then show ?thesis using w pq by simp
  next
    case (Cons l ls)
    then have l: "next_rx_lcore e m n conf i = Return l" "i \<le> l" "ls = worker_cores e m n (Suc l)"
      using w by auto
    have l0: "conf l = []" using Cons.prems l(2) by blast
    let ?c = "conf(l := [(p, q)])"
    have u: "\<forall>k\<ge>Suc l. ?c k = []" using Cons.prems l(2) by simp
    have eq: "assign_queues e m n (pq # qs) conf i = assign_queues e m n qs ?c (Suc l)"
      using l(1) l0 pq by simp
    have "l \<notin> set ls" unfolding l(3) worker_cores_member by simp
    then have n: "map_of (zip ls qs) l = None" by (auto simp: map_of_eq_None_iff dest: set_zip_leftD)
    have o: "one_each (l # ls) (pq # qs) conf = one_each ls qs ?c"
      using n pq by (auto simp: one_each_def fun_eq_iff split: option.splits)
    show ?thesis using Cons.IH [OF u] unfolding eq Cons(1) o l(3) [symmetric] by simp
  qed
qed

lemma distribute_queues_eq:
  assumes "\<forall>k. lcore_enabled k \<longrightarrow> k < RTE_MAX_LCORE"
  shows "distribute_queues lcore_enabled main_lcore RTE_MAX_LCORE pmask ports q =
    (if length (enabled_ports pmask ports) * q \<le> length (worker_cores lcore_enabled main_lcore RTE_MAX_LCORE 0)
     then Return (one_each (worker_cores lcore_enabled main_lcore RTE_MAX_LCORE 0) (port_queues pmask ports q) (\<lambda>_. []))
     else Exit 1)"
proof -
  have "length (port_queues pmask ports q) = length (enabled_ports pmask ports) * q"
    by (induction ports) (simp_all add: port_queues_def enabled_ports_def)
  then show ?thesis
    using assign_queues_eq [of 0 "\<lambda>_. []" lcore_enabled RTE_MAX_LCORE "port_queues pmask ports q" main_lcore] assms
    by (auto simp: distribute_queues_def split: if_splits)
qed

text \<open>
  C38: every queue gets a core of its own.  If the enabled cores other than the main one are at
  least as many as the queues of the enabled ports, the \<open>k\<close>th of these cores serves exactly the
  \<open>k\<close>th queue and every other core none; otherwise the program exits with status 1 before
  starting.
\<close>

theorem distribute_queues_spec:
  assumes "\<forall>k. lcore_enabled k \<longrightarrow> k < RTE_MAX_LCORE"
  shows "distribute_queues lcore_enabled main_lcore RTE_MAX_LCORE pmask ports q =
    (if length (enabled_ports pmask ports) * q \<le> length (worker_cores lcore_enabled main_lcore RTE_MAX_LCORE 0)
     then Return (one_each (worker_cores lcore_enabled main_lcore RTE_MAX_LCORE 0) (port_queues pmask ports q) (\<lambda>_. []))
     else Exit 1)"
  using assms by (rule distribute_queues_eq)

theorem distribute_queues_spec_witness:
  "distribute_queues (\<lambda>k. k < 4) 0 128 0b11 [0, 1] 2 = Exit 1 \<and>
   distribute_queues (\<lambda>k. k < 4) 0 128 0b11 [0, 1] 1 =
     Return (\<lambda>l. if l = 1 then [(0, 0)] else if l = 2 then [(1, 0)] else [])"
proof -
  have e: "\<forall>k. k < (4::nat) \<longrightarrow> k < 128" by simp
  have "worker_cores (\<lambda>k. k < 4) 0 128 0 = [1, 2, 3]"
    by (simp add: worker_cores_def upt_rec)
  moreover have "enabled_ports 0b11 [0, 1] = [0, 1]" "port_queues 0b11 [0, 1] 1 = [(0, 0), (1, 0)]"
    by (simp_all add: enabled_ports_def port_queues_def port_enabled_def)
  ultimately show ?thesis
    using distribute_queues_spec [OF e, of 0 "0b11" "[0, 1]"]
    by (auto simp: one_each_def fun_eq_iff)
qed

section \<open>The packet buffers\<close>

definition MAX_PKT_BURST :: nat where "MAX_PKT_BURST = 64"

definition MEMPOOL_CACHE_SIZE :: nat where "MEMPOOL_CACHE_SIZE = 256"

definition RTE_TEST_RX_DESC_DEFAULT :: u16 where "RTE_TEST_RX_DESC_DEFAULT = 4096"

definition RTE_TEST_TX_DESC_DEFAULT :: u16 where "RTE_TEST_TX_DESC_DEFAULT = 4096"

definition nb_mbufs :: "u16 \<Rightarrow> u32 \<Rightarrow> u16 \<Rightarrow> u16 \<Rightarrow> nat \<Rightarrow> u32" where
  "nb_mbufs nb_ports l2fwd_queues_per_port nb_rxd nb_txd RTE_MAX_LCORE =
     max (ucast nb_ports *
           (l2fwd_queues_per_port * ucast nb_rxd + l2fwd_queues_per_port * ucast nb_txd +
            of_nat MAX_PKT_BURST + of_nat (RTE_MAX_LCORE * MEMPOOL_CACHE_SIZE)))
       8192 + 8192"

lemma unat_of_nat_u32: "n < 2 ^ 32 \<Longrightarrow> unat (of_nat n :: u32) = n"
  by (simp add: unat_of_nat)

lemma nb_mbufs_nat:
  fixes p q n :: nat
  assumes "p * (q * 8192 + 64 + n * 256) < 2 ^ 31" and "p < 2 ^ 16"
  shows "unat (nb_mbufs (of_nat p) (of_nat q) RTE_TEST_RX_DESC_DEFAULT RTE_TEST_TX_DESC_DEFAULT n) =
    max (p * (q * 8192 + 64 + n * 256)) 8192 + 8192"
proof -
  let ?s = "p * (q * 8192 + 64 + n * 256)"
  have p: "ucast (of_nat p :: u16) = (of_nat p :: u32)"
    using assms(2) by transfer (simp add: take_bit_nat_eq_self take_bit_of_nat)
  have d: "x * 4096 + x * 4096 = x * 8192" for x :: u32
    using distrib_left [of x 4096 4096, symmetric] by simp
  have s: "nb_mbufs (of_nat p) (of_nat q) RTE_TEST_RX_DESC_DEFAULT RTE_TEST_TX_DESC_DEFAULT n =
      max (of_nat ?s) 8192 + 8192"
    by (simp add: nb_mbufs_def p d RTE_TEST_RX_DESC_DEFAULT_def RTE_TEST_TX_DESC_DEFAULT_def
        MAX_PKT_BURST_def MEMPOOL_CACHE_SIZE_def)
  have u: "unat (of_nat ?s :: u32) = ?s" using assms(1) by (intro unat_of_nat_u32) simp
  have "max (of_nat ?s) (8192 :: u32) = of_nat (max ?s 8192)"
    using u by (auto simp: max_def word_le_nat_alt)
  moreover have "max ?s 8192 + 8192 < 2 ^ 32" using assms(1) by simp
  ultimately show ?thesis
    using unat_of_nat_u32 [of "max ?s 8192 + 8192"] unfolding s by simp
qed

text \<open>
  The pool of packet buffers is large enough and its size does not wrap.  Whenever the
  queues could be handed to the cores, with at least one enabled port, at most 32 ports and at
  most 1024 cores, the 32-bit product is exact and leaves room for every receive and transmit
  descriptor of every queue, a burst per port, every core's cache and 8192 buffers more.
\<close>

lemma nb_mbufs_sufficient:
  assumes "\<forall>k. lcore_enabled k \<longrightarrow> k < RTE_MAX_LCORE"
    and "distribute_queues lcore_enabled main_lcore RTE_MAX_LCORE pmask ports q = Return conf"
    and "enabled_ports pmask ports \<noteq> []" and "length ports \<le> 32" and "RTE_MAX_LCORE \<le> 1024"
  shows "length ports * q * 4096 + length ports * q * 4096 + length ports * 64 + RTE_MAX_LCORE * 256 + 8192
    \<le> unat (nb_mbufs (of_nat (length ports)) (of_nat q) RTE_TEST_RX_DESC_DEFAULT RTE_TEST_TX_DESC_DEFAULT
        RTE_MAX_LCORE)"
proof -
  let ?p = "length ports" and ?n = RTE_MAX_LCORE
  have "length (enabled_ports pmask ports) * q \<le> length (worker_cores lcore_enabled main_lcore ?n 0)"
    using assms(2) unfolding distribute_queues_eq [OF assms(1)] by (simp split: if_splits)
  moreover have "length (worker_cores lcore_enabled main_lcore ?n 0) \<le> ?n"
    unfolding worker_cores_def using length_filter_le [of _ "[0..<?n]"] by simp
  moreover have "q \<le> length (enabled_ports pmask ports) * q" using assms(3) by (cases "enabled_ports pmask ports") simp_all
  ultimately have q: "q \<le> ?n" by linarith
  have p: "0 < ?p" using assms(3) by (auto simp: enabled_ports_def)
  have "?p * (q * 8192 + 64 + ?n * 256) \<le> 32 * (1024 * 8192 + 64 + 1024 * 256)"
    using q assms(4,5) by (intro mult_le_mono add_le_mono) simp_all
  also have "\<dots> < 2 ^ 31" by simp
  finally have u: "unat (nb_mbufs (of_nat ?p) (of_nat q) RTE_TEST_RX_DESC_DEFAULT RTE_TEST_TX_DESC_DEFAULT ?n) =
      max (?p * (q * 8192 + 64 + ?n * 256)) 8192 + 8192"
    using assms(4) by (intro nb_mbufs_nat) simp_all
  have "?n * 256 \<le> ?p * (?n * 256)" using p by (cases ?p) simp_all
  then have "?p * q * 4096 + ?p * q * 4096 + ?p * 64 + ?n * 256 \<le> ?p * (q * 8192 + 64 + ?n * 256)"
    by (simp only: distrib_left mult.assoc)
  then show ?thesis unfolding u by linarith
qed

lemma nb_mbufs_sufficient_witness:
  "2 * 4 * 8192 + 2 * 64 + 128 * 256 + 8192
    \<le> unat (nb_mbufs 2 4 RTE_TEST_RX_DESC_DEFAULT RTE_TEST_TX_DESC_DEFAULT 128)"
proof -
  have e: "\<forall>k. k < (16::nat) \<longrightarrow> k < 128" by simp
  have en: "enabled_ports 0b11 [0, 1] = [0, 1]" by (simp add: enabled_ports_def port_enabled_def)
  have "length (worker_cores (\<lambda>k. k < 16) 0 128 0) = 15" by (simp add: worker_cores_def upt_rec)
  then have "\<exists>conf. distribute_queues (\<lambda>k. k < 16) 0 128 0b11 [0, 1] 4 = Return conf"
    unfolding distribute_queues_eq [OF e] en by simp
  then obtain conf where c: "distribute_queues (\<lambda>k. k < 16) 0 128 0b11 [0, 1] 4 = Return conf" ..
  show ?thesis using nb_mbufs_sufficient [OF e c] en by simp
qed

end
