(* ===== verification/Statistics.thy ===== *)
theory Statistics
  imports Forwarding Ports Options
begin

text \<open>
  \<open>l2fwd/main.c\<close>, the statistics: \<open>get_aggregated_stats\<close>, \<open>print_stats\<close>, \<open>print_final_stats\<close> and
  the loop of the main core that calls them.  What is printed is the result of the functions; the
  conversion of the rate to the sample stored, which the code does in floating point, is the
  parameter \<open>mpps\<close>, a function of the number of packets forwarded since the last print.  The
  array \<open>samples\<close> is a list of \<open>TOTAL_SAMPLES\<close> entries, and a store beyond it is \<open>None\<close>.
\<close>

section \<open>Adding up the counters of the cores\<close>

definition add_stats :: "l2fwd_port_statistics \<Rightarrow> l2fwd_port_statistics \<Rightarrow> l2fwd_port_statistics" where
  "add_stats agg s = agg\<lparr>tx := tx agg + tx s, rx := rx agg + rx s, unmapped := unmapped agg + unmapped s,
     hash_tsc := hash_tsc agg + hash_tsc s, fwded := fwded agg + fwded s,
     tx_dropped := tx_dropped agg + tx_dropped s, rx_cnt := rx_cnt agg + rx_cnt s\<rparr>"

definition get_aggregated_stats ::
  "nat \<Rightarrow> (nat \<Rightarrow> nat \<Rightarrow> l2fwd_port_statistics) \<Rightarrow> nat \<Rightarrow> l2fwd_port_statistics" where
  "get_aggregated_stats RTE_MAX_LCORE ps portid =
     foldl (\<lambda>agg lcore_id. add_stats agg (ps portid lcore_id)) zero_stats [0..<RTE_MAX_LCORE]"

section \<open>The periodic print\<close>

definition TOTAL_SAMPLES :: nat where
  "TOTAL_SAMPLES = 32"

record sampling_state =
  SAMPLE_SIZE :: u32
  samples :: "u32 list"
  total_packets_fwded_prev :: u64
  prev_agg :: l2fwd_port_statistics

text \<open>The lines for a port, the average only if it is printed, and the line for all ports.\<close>

record port_lines =
  line_port :: nat
  line_agg :: l2fwd_port_statistics
  line_average :: "u64 option"

record print_lines =
  port_part :: "port_lines list"
  cycles_per_packet :: "u64 option"

definition average_rx_batch :: "l2fwd_port_statistics \<Rightarrow> l2fwd_port_statistics \<Rightarrow> u64 option" where
  "average_rx_batch agg prev =
     (if rx_cnt agg - rx_cnt prev > 0
      then Some ((rx agg - rx prev) div (rx_cnt agg - rx_cnt prev)) else None)"

fun print_ports ::
  "nat \<Rightarrow> u32 \<Rightarrow> (nat \<Rightarrow> nat \<Rightarrow> l2fwd_port_statistics) \<Rightarrow> nat list \<Rightarrow> l2fwd_port_statistics \<Rightarrow> u64 \<Rightarrow> u64 \<Rightarrow>
     port_lines list \<times> l2fwd_port_statistics \<times> u64 \<times> u64" where
  "print_ports RTE_MAX_LCORE pmask ps [] prev fw ht = ([], prev, fw, ht)"
| "print_ports RTE_MAX_LCORE pmask ps (portid # portids) prev fw ht =
     (if \<not> port_enabled pmask portid then print_ports RTE_MAX_LCORE pmask ps portids prev fw ht
      else
        let agg = get_aggregated_stats RTE_MAX_LCORE ps portid;
            (ls, r) = print_ports RTE_MAX_LCORE pmask ps portids agg (fw + fwded agg) (ht + hash_tsc agg)
        in (\<lparr>line_port = portid, line_agg = agg, line_average = average_rx_batch agg prev\<rparr> # ls, r))"

definition print_stats ::
  "(u64 \<Rightarrow> u32) \<Rightarrow> nat \<Rightarrow> nat \<Rightarrow> u32 \<Rightarrow> u64 \<Rightarrow> (nat \<Rightarrow> nat \<Rightarrow> l2fwd_port_statistics) \<Rightarrow> sampling_state \<Rightarrow>
     (print_lines \<times> sampling_state) option" where
  "print_stats mpps RTE_MAX_ETHPORTS RTE_MAX_LCORE pmask period ps p = (
     let (ls, agg, total_packets_fwded, total_hash_duration) =
           print_ports RTE_MAX_LCORE pmask ps [0..<RTE_MAX_ETHPORTS] (prev_agg p) 0 0
     in do {
       p1 \<leftarrow> (if period > 0 then do {
                sm \<leftarrow> wr (samples p) (unat (SAMPLE_SIZE p)) (mpps (total_packets_fwded - total_packets_fwded_prev p));
                Some (p\<lparr>samples := sm, SAMPLE_SIZE := SAMPLE_SIZE p + 1\<rparr>)
              } else Some p);
       Some (\<lparr>port_part = ls,
              cycles_per_packet = (if total_packets_fwded > 0
                then Some (total_hash_duration div total_packets_fwded) else None)\<rparr>,
             p1\<lparr>prev_agg := agg, total_packets_fwded_prev := total_packets_fwded\<rparr>)
     })"

section \<open>The final print\<close>

text \<open>The loop over the samples; the sum of at most 32 of them is exact in a double.\<close>

fun final_loop :: "u32 list \<Rightarrow> u64 \<Rightarrow> u64 \<Rightarrow> nat \<Rightarrow> u64 \<times> u64 \<times> nat" where
  "final_loop [] mn mx sm = (mn, mx, sm)"
| "final_loop (x # xs) mn mx sm =
     (let x' = ucast x;
          mn' = (if x' < mn then x' else mn);
          mx' = (if x' > mx then x' else mx)
      in final_loop xs mn' mx' (sm + unat x))"

text \<open>Minimum, maximum, and the average as the sum and the number of samples.\<close>

definition print_final_stats :: "sampling_state \<Rightarrow> (u64 \<times> u64 \<times> nat \<times> nat) option option" where
  "print_final_stats p =
     (if SAMPLE_SIZE p \<le> 0 then Some None
      else do {
        s0 \<leftarrow> rd (samples p) 0;
        xs \<leftarrow> rd_bytes (samples p) 0 (unat (SAMPLE_SIZE p));
        let (mn, mx, sm) = final_loop xs (ucast s0) (ucast s0) 0;
        Some (Some (mn, mx, sm, unat (SAMPLE_SIZE p)))
      })"

section \<open>The loop of the main core\<close>

text \<open>
  A turn reads the time stamp counter and, if it prints, the counters as they are then.  The loop
  ends at \<open>end_tsc\<close>, or with its list of turns when a signal sets \<open>force_quit\<close>.
\<close>

fun stats_loop ::
  "(u64 \<Rightarrow> u32) \<Rightarrow> nat \<Rightarrow> nat \<Rightarrow> u32 \<Rightarrow> u64 \<Rightarrow> u64 \<Rightarrow> (u64 \<times> (nat \<Rightarrow> nat \<Rightarrow> l2fwd_port_statistics)) list \<Rightarrow> u64 \<Rightarrow>
     sampling_state \<Rightarrow> (print_lines list \<times> sampling_state) option" where
  "stats_loop mpps np nl pmask period end_tsc [] prev_tsc p = Some ([], p)"
| "stats_loop mpps np nl pmask period end_tsc ((cur_tsc, ps) # turns) prev_tsc p = do {
     (ls, prev_tsc', p') \<leftarrow>
       (if cur_tsc - prev_tsc \<ge> period then do {
          (l, p') \<leftarrow> print_stats mpps np nl pmask period ps p;
          Some ([l], cur_tsc, p')
        } else Some ([], prev_tsc, p));
     if cur_tsc \<ge> end_tsc then Some (ls, p')
     else do {
       (ls', p'') \<leftarrow> stats_loop mpps np nl pmask period end_tsc turns prev_tsc' p';
       Some (ls @ ls', p'')
     }
   }"

text \<open>The array comes from \<open>malloc\<close>, with whatever it holds.\<close>

definition init_sampling :: "u32 list \<Rightarrow> sampling_state" where
  "init_sampling fresh = \<lparr>SAMPLE_SIZE = 0, samples = fresh,
     total_packets_fwded_prev = 0, prev_agg = zero_stats\<rparr>"

definition stats_main ::
  "(u64 \<Rightarrow> u32) \<Rightarrow> nat \<Rightarrow> nat \<Rightarrow> u32 \<Rightarrow> u64 \<Rightarrow> u64 \<Rightarrow> u64 \<Rightarrow> u32 list \<Rightarrow>
     (u64 \<times> (nat \<Rightarrow> nat \<Rightarrow> l2fwd_port_statistics)) list \<Rightarrow> (print_lines list \<times> sampling_state) option" where
  "stats_main mpps np nl pmask period tsc_hz start_tsc fresh turns =
     stats_loop mpps np nl pmask period (start_tsc + tsc_hz * of_nat TOTAL_SAMPLES) turns start_tsc (init_sampling fresh)"

section \<open>The printed counters\<close>

lemma sum_of_sums: "(a::u64) = b + c \<Longrightarrow> d = e + f \<Longrightarrow> a + d = (b + e) + (c + f)"
  by (simp add: ac_simps)

lemma add_stats_fields [simp]:
  shows "rx (add_stats a s) = rx a + rx s" and "fwded (add_stats a s) = fwded a + fwded s"
    and "unmapped (add_stats a s) = unmapped a + unmapped s" and "tx (add_stats a s) = tx a + tx s"
    and "tx_dropped (add_stats a s) = tx_dropped a + tx_dropped s"
    and "rx_cnt (add_stats a s) = rx_cnt a + rx_cnt s" and "rx_dropped (add_stats a s) = rx_dropped a"
  by (simp_all add: add_stats_def)

lemma add_stats_balanced: "balanced agg \<Longrightarrow> balanced s \<Longrightarrow> balanced (add_stats agg s)"
  unfolding balanced_def add_stats_fields by (blast intro: sum_of_sums)

lemma aggregated_balanced:
  assumes "\<forall>l. balanced (ps portid l)"
  shows "balanced (get_aggregated_stats n ps portid)"
proof -
  have "balanced (foldl (\<lambda>agg l. add_stats agg (ps portid l)) a xs)" if "balanced a" for a xs
    using that by (induction xs arbitrary: a) (simp_all add: add_stats_balanced assms)
  moreover have "balanced zero_stats" by (simp add: balanced_def zero_stats_def)
  ultimately show ?thesis by (simp add: get_aggregated_stats_def)
qed

lemma aggregated_sum:
  shows "rx (get_aggregated_stats n ps portid) = (\<Sum>l<n. rx (ps portid l))"
    and "rx_cnt (get_aggregated_stats n ps portid) = (\<Sum>l<n. rx_cnt (ps portid l))"
    and "fwded (get_aggregated_stats n ps portid) = (\<Sum>l<n. fwded (ps portid l))"
    and "rx_dropped (get_aggregated_stats n ps portid) = 0"
  by (induction n) (simp_all add: get_aggregated_stats_def zero_stats_def)

text \<open>One print for one port.\<close>

lemma print_ports_filter:
  "print_ports n pmask ps ports prev fw ht = print_ports n pmask ps (enabled_ports pmask ports) prev fw ht"
  by (induction ports arbitrary: prev fw ht) (simp_all add: enabled_ports_def Let_def)

lemma print_ports_single:
  assumes "enabled_ports pmask ports = [p]"
  shows "print_ports n pmask ps ports prev fw ht =
    (let agg = get_aggregated_stats n ps p in
     ([\<lparr>line_port = p, line_agg = agg, line_average = average_rx_batch agg prev\<rparr>], agg,
      fw + fwded agg, ht + hash_tsc agg))"
proof -
  have "port_enabled pmask p" using assms unfolding enabled_ports_def by (auto simp: filter_eq_Cons_iff)
  then show ?thesis unfolding print_ports_filter [of _ _ _ ports] assms by (simp add: Let_def)
qed

text \<open>
  With one enabled port the print is right.  It lists that port with the sums over all cores
  of received, forwarded and unmapped packets, which add up as they do on each core; the average
  batch is the number of packets received since the last print divided by the number of receive
  calls since then, and left out when there were none; and the state is ready for the next
  print.
\<close>

lemma print_stats_single_port:
  assumes "enabled_ports pmask [0..<np] = [p]" and "\<forall>l. balanced (ps p l)"
    and "unat (SAMPLE_SIZE st) < length (samples st)"
  shows "\<exists>out st'. print_stats mpps np nl pmask period ps st = Some (out, st') \<and>
    port_part out = [\<lparr>line_port = p, line_agg = get_aggregated_stats nl ps p,
      line_average = (let n = (\<Sum>l<nl. rx_cnt (ps p l)) - rx_cnt (prev_agg st) in
        if n = 0 then None else Some (((\<Sum>l<nl. rx (ps p l)) - rx (prev_agg st)) div n))\<rparr>] \<and>
    (let agg = line_agg (port_part out ! 0) in
       rx agg = (\<Sum>l<nl. rx (ps p l)) \<and> rx agg = fwded agg + unmapped agg \<and> rx agg = tx agg + tx_dropped agg) \<and>
    prev_agg st' = get_aggregated_stats nl ps p \<and> total_packets_fwded_prev st' = (\<Sum>l<nl. fwded (ps p l)) \<and>
    SAMPLE_SIZE st' = SAMPLE_SIZE st + of_bool (period > 0)"
proof -
  let ?agg = "get_aggregated_stats nl ps p"
  have pp: "print_ports nl pmask ps [0..<np] (prev_agg st) 0 0 =
      ([\<lparr>line_port = p, line_agg = ?agg, line_average = average_rx_batch ?agg (prev_agg st)\<rparr>], ?agg,
       fwded ?agg, hash_tsc ?agg)"
    using print_ports_single [OF assms(1)] by (simp add: Let_def)
  have av: "average_rx_batch ?agg (prev_agg st) =
      (let n = (\<Sum>l<nl. rx_cnt (ps p l)) - rx_cnt (prev_agg st) in
        if n = 0 then None else Some (((\<Sum>l<nl. rx (ps p l)) - rx (prev_agg st)) div n))"
    unfolding average_rx_batch_def aggregated_sum Let_def by (simp add: word_gt_0)
  have "balanced ?agg" using assms(2) by (rule aggregated_balanced)
  then have bal: "(\<Sum>l<nl. rx (ps p l)) = fwded ?agg + unmapped ?agg"
    "fwded ?agg + unmapped ?agg = tx ?agg + tx_dropped ?agg"
    unfolding balanced_def aggregated_sum(1) by metis+
  have w: "wr (samples st) (unat (SAMPLE_SIZE st)) x = Some ((samples st)[unat (SAMPLE_SIZE st) := x])" for x
    using assms(3) by simp
  show ?thesis
    unfolding print_stats_def pp av [symmetric] using w bal
    by (simp add: aggregated_sum(1) aggregated_sum(3) [symmetric] Let_def)
qed

section \<open>The samples\<close>

lemma print_stats_samples:
  assumes "period = 0 \<or> unat (SAMPLE_SIZE st) < length (samples st)"
  shows "\<exists>ls st'. print_stats mpps np nl pmask period ps st = Some (ls, st') \<and>
    length (samples st') = length (samples st) \<and> SAMPLE_SIZE st' = SAMPLE_SIZE st + of_bool (period > 0)"
proof -
  obtain ls agg fw ht where "print_ports nl pmask ps [0..<np] (prev_agg st) 0 0 = (ls, agg, fw, ht)"
    by (metis surj_pair)
  then show ?thesis using assms by (auto simp: print_stats_def word_gt_0)
qed

text \<open>
  While the main core runs, the samples taken so far fit into the time since the start, one
  second or more for each.
\<close>

definition paced :: "nat \<Rightarrow> nat \<Rightarrow> u64 \<Rightarrow> nat \<Rightarrow> sampling_state \<Rightarrow> bool" where
  "paced B H period prev st \<longleftrightarrow>
     length (samples st) = TOTAL_SAMPLES \<and> B \<le> prev \<and>
     (if period = 0 then SAMPLE_SIZE st = 0 else unat (SAMPLE_SIZE st) * H + B \<le> prev)"

lemma paced_room:
  assumes "paced B H period prev st" and "prev < B + 32 * H"
  shows "unat (SAMPLE_SIZE st) < 32"
proof (cases "period = 0")
  case False
  then have "unat (SAMPLE_SIZE st) * H + B \<le> prev" using assms(1) by (simp add: paced_def)
  then have "unat (SAMPLE_SIZE st) * H + B < 32 * H + B" using assms(2) by linarith
  then have "unat (SAMPLE_SIZE st) * H < 32 * H" by linarith
  then show ?thesis unfolding mult_less_cancel2 by blast
qed (use assms(1) in \<open>simp add: paced_def\<close>)

lemma stats_loop_paced:
  assumes "paced B H period (unat prev) st" and "unat prev < B + 32 * H"
    and "unat end_tsc = B + 32 * H" and "period = 0 \<or> H \<le> unat period"
    and "sorted (unat prev # List.map (\<lambda>t. unat (fst t)) turns)"
  shows "\<exists>ls st'. stats_loop mpps np nl pmask period end_tsc turns prev st = Some (ls, st') \<and>
    length (samples st') = TOTAL_SAMPLES \<and> unat (SAMPLE_SIZE st') \<le> 32 \<and>
    unat (SAMPLE_SIZE st') = unat (SAMPLE_SIZE st) + (if period = 0 then 0 else length ls)"
  using assms(1,2,5)
proof (induction turns arbitrary: prev st)
  case Nil
  then show ?case using paced_room [OF Nil(1,2)] by (auto simp: paced_def)
next
  case (Cons turn turns)
  obtain cur ps where turn: "turn = (cur, ps)" by (cases turn)
  have le: "prev \<le> cur" using Cons.prems(3) turn by (simp add: word_le_nat_alt)
  then have diff: "unat (cur - prev) = unat cur - unat prev" by (rule unat_sub)
  have srt: "sorted (unat cur # List.map (\<lambda>t. unat (fst t)) turns)"
    "sorted (unat prev # List.map (\<lambda>t. unat (fst t)) turns)"
    using Cons.prems(3) turn by auto
  have room: "unat (SAMPLE_SIZE st) < 32" by (rule paced_room [OF Cons.prems(1,2)])
  have len: "length (samples st) = 32" using Cons.prems(1) by (simp add: paced_def TOTAL_SAMPLES_def)
  show ?case
  proof (cases "cur - prev \<ge> period")
    case True
    obtain l st1 where p: "print_stats mpps np nl pmask period ps st = Some (l, st1)"
      "length (samples st1) = 32" "SAMPLE_SIZE st1 = SAMPLE_SIZE st + of_bool (period > 0)"
      using print_stats_samples [of period st mpps np nl pmask ps] room len by auto
    have n: "unat (SAMPLE_SIZE st1) = unat (SAMPLE_SIZE st) + (if period = 0 then 0 else 1)"
    proof (cases "period = 0")
      case False
      then have "unat (SAMPLE_SIZE st + 1) = unat (SAMPLE_SIZE st) + 1"
        using room by (simp add: unat_word_ariths)
      then show ?thesis using False p(3) by (simp add: word_gt_0)
    qed (simp add: p(3))
    have pc: "paced B H period (unat cur) st1"
    proof (cases "period = 0")
      case True
      then show ?thesis using Cons.prems(1) p le by (auto simp: paced_def TOTAL_SAMPLES_def word_le_nat_alt)
    next
      case False
      then have "H \<le> unat cur - unat prev"
        using True assms(4) diff by (simp add: word_le_nat_alt)
      moreover have "unat prev \<le> unat cur" using le by (simp add: word_le_nat_alt)
      moreover have "unat (SAMPLE_SIZE st) * H + B \<le> unat prev" "B \<le> unat prev"
        using False Cons.prems(1) by (simp_all add: paced_def)
      moreover have "unat (SAMPLE_SIZE st1) * H = unat (SAMPLE_SIZE st) * H + H" using False n by simp
      ultimately have "unat (SAMPLE_SIZE st1) * H + B \<le> unat cur" "B \<le> unat cur" by linarith+
      then show ?thesis using False p(2) by (simp add: paced_def TOTAL_SAMPLES_def)
    qed
    show ?thesis
    proof (cases "cur \<ge> end_tsc")
      case ge: True
      then show ?thesis using True turn p n room by (auto simp: TOTAL_SAMPLES_def)
    next
      case False
      then have "unat cur < B + 32 * H" using assms(3) by (simp add: word_le_nat_alt)
      from Cons.IH [OF pc this srt(1)] obtain ls st' where
        "stats_loop mpps np nl pmask period end_tsc turns cur st1 = Some (ls, st')"
        "length (samples st') = TOTAL_SAMPLES" "unat (SAMPLE_SIZE st') \<le> 32"
        "unat (SAMPLE_SIZE st') = unat (SAMPLE_SIZE st1) + (if period = 0 then 0 else length ls)" by blast
      then show ?thesis using True False turn p(1) n by simp
    qed
  next
    case False
    show ?thesis
    proof (cases "cur \<ge> end_tsc")
      case True
      then show ?thesis using False turn room len by (auto simp: TOTAL_SAMPLES_def)
    next
      case lt: False
      from Cons.IH [OF Cons.prems(1,2) srt(2)] show ?thesis using False lt turn by simp
    qed
  qed
qed

text \<open>The last loop finds the least and the greatest sample.\<close>

lemma final_loop_spec:
  "\<exists>mn' mx'. final_loop xs mn mx sm = (mn', mx', sm + sum_list (List.map unat xs)) \<and>
    mn' \<in> insert mn (ucast ` set xs) \<and> mx' \<in> insert mx (ucast ` set xs) \<and>
    mn' \<le> mn \<and> mx \<le> mx' \<and> (\<forall>x \<in> set xs. mn' \<le> ucast x \<and> ucast x \<le> mx')"
proof (induction xs arbitrary: mn mx sm)
  case (Cons x xs)
  let ?n = "if ucast x < mn then ucast x else mn" and ?m = "if ucast x > mx then ucast x else mx"
  obtain mn' mx' where r: "final_loop xs ?n ?m (sm + unat x) = (mn', mx', sm + unat x + sum_list (List.map unat xs))"
    "mn' \<in> insert ?n (ucast ` set xs)" "mx' \<in> insert ?m (ucast ` set xs)" "mn' \<le> ?n" "?m \<le> mx'"
    "\<forall>x \<in> set xs. mn' \<le> ucast x \<and> ucast x \<le> mx'" using Cons by blast
  have n: "?n \<le> mn" "?n \<le> ucast x" "mx \<le> ?m" "ucast x \<le> ?m" by auto
  have "mn' \<le> mn" "mn' \<le> ucast x" "mx \<le> mx'" "ucast x \<le> mx'" using r(4,5) n order_trans by blast+
  moreover have "mn' \<in> insert mn (ucast ` set (x # xs))" using r(2) by (auto split: if_splits)
  moreover have "mx' \<in> insert mx (ucast ` set (x # xs))" using r(3) by (auto split: if_splits)
  moreover have "final_loop (x # xs) mn mx sm = (mn', mx', sm + sum_list (List.map unat (x # xs)))"
    using r(1) by (simp add: Let_def add.assoc)
  ultimately show ?case using r(6) by auto
qed simp

lemma final_stats_spec:
  assumes "unat (SAMPLE_SIZE st) \<le> 32" and "length (samples st) = TOTAL_SAMPLES"
  shows "if SAMPLE_SIZE st = 0 then print_final_stats st = Some None
     else \<exists>mn mx. let xs = take (unat (SAMPLE_SIZE st)) (samples st) in
       print_final_stats st = Some (Some (mn, mx, sum_list (List.map unat xs), length xs)) \<and>
       mn \<in> ucast ` set xs \<and> mx \<in> ucast ` set xs \<and> (\<forall>x \<in> set xs. mn \<le> ucast x \<and> ucast x \<le> mx)"
proof (cases "SAMPLE_SIZE st = 0")
  case True
  then show ?thesis by (simp add: print_final_stats_def)
next
  case False
  let ?n = "unat (SAMPLE_SIZE st)" and ?s0 = "samples st ! 0"
  let ?xs = "take ?n (samples st)"
  have n: "0 < ?n" "?n \<le> length (samples st)" "length ?xs = ?n"
    using False assms by (simp_all add: unat_gt_0 TOTAL_SAMPLES_def)
  have rd: "rd (samples st) 0 = Some ?s0" "rd_bytes (samples st) 0 ?n = Some ?xs"
    using n by (auto simp: rd_def)
  have "?xs ! 0 = ?s0" "0 < length ?xs" using n by simp_all
  then have s0: "?s0 \<in> set ?xs" by (metis nth_mem)
  obtain mn mx where m: "final_loop ?xs (ucast ?s0) (ucast ?s0) 0 = (mn, mx, sum_list (List.map unat ?xs))"
    "mn \<in> insert (ucast ?s0) (ucast ` set ?xs)" "mx \<in> insert (ucast ?s0) (ucast ` set ?xs)"
    "\<forall>x \<in> set ?xs. mn \<le> ucast x \<and> ucast x \<le> mx"
    using final_loop_spec [of ?xs "ucast ?s0" "ucast ?s0" 0] by auto
  have "print_final_stats st = Some (Some (mn, mx, sum_list (List.map unat ?xs), length ?xs))"
    using False rd m(1) n(3) by (simp add: print_final_stats_def word_le_0_iff)
  moreover have "mn \<in> ucast ` set ?xs" "mx \<in> ucast ` set ?xs" using m(2,3) s0 by auto
  ultimately show ?thesis using False m(4) by (auto simp: Let_def)
qed

lemma print_stats_full:
  assumes "0 < period" and "length (samples st) \<le> unat (SAMPLE_SIZE st)"
  shows "print_stats mpps np nl pmask period ps st = None"
proof -
  have "wr (samples st) (unat (SAMPLE_SIZE st)) x = None" for x using assms(2) by (simp add: wr_def)
  then show ?thesis using assms(1) by (simp add: print_stats_def Let_def split: prod.split)
qed

text \<open>
  Readings that are a period apart store a sample each.  If the period is shorter than a second,
  33 of them come before the end, and the last one is stored beyond the array.
\<close>

lemma stats_loop_overflow:
  assumes "k \<le> 32" and "0 < period" and "unat period < H" and "unat start_tsc + 33 * H < 2 ^ 64"
    and "unat end_tsc = unat start_tsc + 32 * H"
    and "unat (SAMPLE_SIZE st) = k" and "length (samples st) = TOTAL_SAMPLES"
  shows "stats_loop mpps np nl pmask period end_tsc
    (List.map (\<lambda>i. (start_tsc + of_nat i * period, ps)) [Suc k..<34]) (start_tsc + of_nat k * period) st = None"
  using assms(1,6,7)
proof (induction k arbitrary: st rule: inc_induct)
  case base
  have "(33::u64) * period - 32 * period = (33 - 32) * period" by (simp only: left_diff_distrib)
  then have d: "(start_tsc + of_nat 33 * period) - (start_tsc + of_nat 32 * period) = period" by simp
  have "print_stats mpps np nl pmask period ps st = None"
    using base assms(2) by (intro print_stats_full) (simp_all add: TOTAL_SAMPLES_def)
  moreover have "[Suc 32..<34] = [33]" by simp
  ultimately show ?case using d by (simp only: list.map stats_loop.simps fst_conv) simp
next
  case (step k)
  have "Suc k * unat period \<le> 32 * unat period" using step(2) by (intro mult_le_mono1) simp
  also have "\<dots> < 32 * H" using assms(3) by simp
  finally have small: "Suc k * unat period < 32 * H" .
  then have lt64: "unat start_tsc + Suc k * unat period < 2 ^ 64" using assms(4) by linarith
  then have "Suc k * unat period < 2 ^ 64" "Suc k < 2 ^ 64" using step(2) by simp_all
  then have "unat (of_nat (Suc k) * period) = Suc k * unat period"
    by (simp only: unat_word_ariths unat_of_nat) simp
  then have "unat (start_tsc + of_nat (Suc k) * period) = unat start_tsc + Suc k * unat period"
    using lt64 by (simp only: unat_word_ariths) simp
  then have lt: "\<not> start_tsc + of_nat (Suc k) * period \<ge> end_tsc"
    using small assms(5) unfolding word_le_nat_alt by linarith
  have d: "(start_tsc + of_nat (Suc k) * period) - (start_tsc + of_nat k * period) = period" by (simp add: distrib_right)
  obtain l st1 where p: "print_stats mpps np nl pmask period ps st = Some (l, st1)"
    "length (samples st1) = TOTAL_SAMPLES" "SAMPLE_SIZE st1 = SAMPLE_SIZE st + of_bool (period > 0)"
    using print_stats_samples [of period st mpps np nl pmask ps] step(2,4,5) by (auto simp: TOTAL_SAMPLES_def)
  have "unat (SAMPLE_SIZE st1) = Suc k"
    using p(3) step(2,4) assms(2) by (simp add: unat_word_ariths)
  note IH = step.IH [OF this p(2)]
  have u: "[Suc k..<34] = Suc k # [Suc (Suc k)..<34]" using step(2) by (simp add: upt_conv_Cons)
  show ?case unfolding u using IH p(1) lt d by simp
qed

lemma overflow_readings_sorted:
  fixes start_tsc period :: u64
  assumes "unat start_tsc + 33 * unat period < 2 ^ 64"
  shows "sorted (List.map unat (start_tsc # List.map fst (List.map (\<lambda>i. (start_tsc + of_nat i * period, ps)) [Suc 0..<34])))"
proof -
  have m: "unat (start_tsc + of_nat i * period) = unat start_tsc + i * unat period" if "i < 34" for i
  proof -
    have "i * unat period \<le> 33 * unat period" using that by (intro mult_le_mono1) simp
    then have lt: "unat start_tsc + i * unat period < 2 ^ 64" using assms by linarith
    then have "i * unat period < 2 ^ 64" "i < 2 ^ 64" using that by simp_all
    then have "unat (of_nat i * period) = i * unat period"
      by (simp only: unat_word_ariths unat_of_nat) simp
    then show ?thesis using lt by (simp only: unat_word_ariths) simp
  qed
  have "sorted (List.map (\<lambda>i. unat start_tsc + i * unat period) [Suc 0..<34])"
    by (simp add: sorted_map) (rule sorted_wrt_mono_rel [of _ "(<)"], simp_all add: sorted_wrt_upt)
  moreover have "List.map unat (List.map fst (List.map (\<lambda>i. (start_tsc + of_nat i * period, ps)) [Suc 0..<34])) =
      List.map (\<lambda>i. unat start_tsc + i * unat period) [Suc 0..<34]"
    by (simp add: m)
  moreover have "\<forall>x \<in> set (List.map (\<lambda>i. unat start_tsc + i * unat period) [Suc 0..<34]). unat start_tsc \<le> x" by auto
  ultimately show ?thesis by (simp only: list.map sorted_simps(2) simp_thms)
qed

text \<open>
  C37: when the samples fit.  The period is the value given with \<open>-T\<close>, or its default, times the
  rate of the timer, a product of 64 bits that may wrap.  If it is 0, or at least a second of the
  time stamp counter, then for every sequence of increasing readings of the counter the main core
  stores at most the 32 samples it allocated: one for each print, or none if the period is 0; and
  the final print reports the least, the greatest and the sum of exactly the samples stored, or
  that there are none.  For every other period there are readings for which it stores a sample
  beyond the array.
\<close>

theorem stats_main_samples:
  assumes "l2fwd_parse_args es default_options = Some o1" and "0 < tsc_hz"
    and "unat start_tsc + 33 * unat tsc_hz < 2 ^ 64" and "length fresh = TOTAL_SAMPLES"
  shows "let period = timer_period o1 * timer_hz;
      run = stats_main mpps np nl pmask period tsc_hz start_tsc fresh;
      increasing = (\<lambda>turns. sorted (List.map unat (start_tsc # List.map fst turns))) in
    if period = 0 \<or> tsc_hz \<le> period then
      (\<forall>turns. increasing turns \<longrightarrow>
        (\<exists>ls st. run turns = Some (ls, st) \<and>
          unat (SAMPLE_SIZE st) = (if period = 0 then 0 else length ls) \<and> unat (SAMPLE_SIZE st) \<le> TOTAL_SAMPLES \<and>
          (if SAMPLE_SIZE st = 0 then print_final_stats st = Some None
           else \<exists>mn mx. let xs = take (unat (SAMPLE_SIZE st)) (samples st) in
             print_final_stats st = Some (Some (mn, mx, sum_list (List.map unat xs), length xs)) \<and>
             mn \<in> ucast ` set xs \<and> mx \<in> ucast ` set xs \<and> (\<forall>x \<in> set xs. mn \<le> ucast x \<and> ucast x \<le> mx))))
    else (\<exists>turns. increasing turns \<and> run turns = None)"
proof -
  let ?per = "timer_period o1 * timer_hz"
  let ?B = "unat start_tsc" and ?H = "unat tsc_hz" and ?st = "init_sampling fresh"
  have hz: "0 < ?H" and B: "?B < ?B + 32 * ?H" using assms(2) by (simp_all add: word_less_nat_alt)
  have "unat (tsc_hz * of_nat TOTAL_SAMPLES) = ?H * 32"
    using assms(3) by (simp add: TOTAL_SAMPLES_def unat_word_ariths)
  then have e: "unat (start_tsc + tsc_hz * of_nat TOTAL_SAMPLES) = ?B + 32 * ?H"
    using assms(3) by (simp add: unat_word_ariths)
  have len: "length (samples ?st) = TOTAL_SAMPLES" "unat (SAMPLE_SIZE ?st) = 0"
    using assms(4) by (simp_all add: init_sampling_def)
  show ?thesis
  proof (cases "?per = 0 \<or> tsc_hz \<le> ?per")
    case True
    then have pace: "?per = 0 \<or> ?H \<le> unat ?per" by (simp add: word_le_nat_alt)
    have init: "paced ?B ?H ?per ?B ?st" using assms(4) by (simp add: paced_def init_sampling_def)
    have all: "\<exists>ls st. stats_main mpps np nl pmask ?per tsc_hz start_tsc fresh turns = Some (ls, st) \<and>
        unat (SAMPLE_SIZE st) = (if ?per = 0 then 0 else length ls) \<and> unat (SAMPLE_SIZE st) \<le> TOTAL_SAMPLES \<and>
        (if SAMPLE_SIZE st = 0 then print_final_stats st = Some None
         else \<exists>mn mx. let xs = take (unat (SAMPLE_SIZE st)) (samples st) in
           print_final_stats st = Some (Some (mn, mx, sum_list (List.map unat xs), length xs)) \<and>
           mn \<in> ucast ` set xs \<and> mx \<in> ucast ` set xs \<and> (\<forall>x \<in> set xs. mn \<le> ucast x \<and> ucast x \<le> mx))"
      if "sorted (List.map unat (start_tsc # List.map fst turns))" for turns
    proof -
      have "sorted (?B # List.map (\<lambda>t. unat (fst t)) turns)" using that by (simp add: comp_def)
      from stats_loop_paced [OF init B e pace this, of mpps np nl pmask] obtain ls st where
        r: "stats_main mpps np nl pmask ?per tsc_hz start_tsc fresh turns = Some (ls, st)"
        "length (samples st) = TOTAL_SAMPLES" "unat (SAMPLE_SIZE st) \<le> 32"
        "unat (SAMPLE_SIZE st) = (if ?per = 0 then 0 else length ls)"
        unfolding stats_main_def len(2) add_0 by blast
      have "unat (SAMPLE_SIZE st) \<le> TOTAL_SAMPLES" using r(3) by (simp add: TOTAL_SAMPLES_def)
      then show ?thesis
        by (intro exI [of _ ls] exI [of _ st]) (intro conjI r(1) r(4) final_stats_spec [OF r(3,2)])
    qed
    show ?thesis unfolding Let_def if_P [OF True] by (intro allI impI) (rule all [unfolded Let_def])
  next
    case False
    then have "?per \<noteq> 0" "?per < tsc_hz" unfolding not_le [symmetric] by blast+
    then have p: "0 < ?per" "unat ?per < ?H" by (simp_all only: word_gt_0 word_less_nat_alt [symmetric])
    let ?turns = "List.map (\<lambda>i. (start_tsc + of_nat i * ?per, \<lambda>_ _. zero_stats)) [Suc 0..<34]"
    have "stats_loop mpps np nl pmask ?per (start_tsc + tsc_hz * of_nat TOTAL_SAMPLES) ?turns (start_tsc + of_nat 0 * ?per) ?st = None"
      by (rule stats_loop_overflow [OF _ p assms(3) e len(2,1)]) simp
    moreover have "start_tsc + of_nat 0 * ?per = start_tsc" by simp
    ultimately have "stats_main mpps np nl pmask ?per tsc_hz start_tsc fresh ?turns = None" by (simp only: stats_main_def)
    moreover have "?B + 33 * unat ?per < 2 ^ 64" using p(2) assms(3) by linarith
    ultimately have "\<exists>turns. sorted (List.map unat (start_tsc # List.map fst turns)) \<and>
        stats_main mpps np nl pmask ?per tsc_hz start_tsc fresh turns = None"
      by (intro exI [of _ ?turns] conjI overflow_readings_sorted)
    then show ?thesis unfolding Let_def if_not_P [OF False] .
  qed
qed

section \<open>Two ports\<close>

text \<open>
  \<open>prev_agg\<close> is shared by the ports.  With two enabled ports, printing again with counters
  that have not changed still prints an average batch for the first port whenever the ports
  differ in their number of receive calls: it is computed from the first port's counters and
  the ones of the second port, not from what the first port had at the last print.
\<close>

lemma print_stats_average_stale:
  assumes "enabled_ports pmask [0..<np] = [p, q]"
    and "print_stats mpps np nl pmask 0 ps st = Some (out1, st1)"
    and "(\<Sum>l<nl. rx_cnt (ps p l)) \<noteq> (\<Sum>l<nl. rx_cnt (ps q l))"
  shows "\<exists>out2 st2. print_stats mpps np nl pmask 0 ps st1 = Some (out2, st2) \<and>
    line_port (port_part out2 ! 0) = p \<and>
    line_average (port_part out2 ! 0) =
      Some (((\<Sum>l<nl. rx (ps p l)) - (\<Sum>l<nl. rx (ps q l))) div
            ((\<Sum>l<nl. rx_cnt (ps p l)) - (\<Sum>l<nl. rx_cnt (ps q l))))"
proof -
  let ?P = "get_aggregated_stats nl ps p" and ?Q = "get_aggregated_stats nl ps q"
  have "set (enabled_ports pmask [0..<np]) \<subseteq> Collect (port_enabled pmask)" by (auto simp: enabled_ports_def)
  then have en: "port_enabled pmask p" "port_enabled pmask q" unfolding assms(1) by simp_all
  have pp: "print_ports nl pmask ps [0..<np] prev 0 0 =
      ([\<lparr>line_port = p, line_agg = ?P, line_average = average_rx_batch ?P prev\<rparr>,
        \<lparr>line_port = q, line_agg = ?Q, line_average = average_rx_batch ?Q ?P\<rparr>], ?Q,
       fwded ?P + fwded ?Q, hash_tsc ?P + hash_tsc ?Q)" for prev
    unfolding print_ports_filter [of _ _ _ "[0..<np]"] assms(1) using en by (simp add: Let_def)
  have "prev_agg st1 = ?Q" using assms(2) unfolding print_stats_def pp by auto
  moreover have "average_rx_batch ?P ?Q = Some (((\<Sum>l<nl. rx (ps p l)) - (\<Sum>l<nl. rx (ps q l))) div
            ((\<Sum>l<nl. rx_cnt (ps p l)) - (\<Sum>l<nl. rx_cnt (ps q l))))"
    using assms(3) unfolding average_rx_batch_def aggregated_sum by (simp add: word_gt_0)
  ultimately show ?thesis unfolding print_stats_def pp by simp
qed

text \<open>Counters for the witnesses: port 0 received 100 packets in 10 calls, port 1 none in 4.\<close>

definition sample_counters :: "nat \<Rightarrow> nat \<Rightarrow> l2fwd_port_statistics" where
  "sample_counters p l =
     (if l \<noteq> 1 then zero_stats
      else if p = 0 then zero_stats\<lparr>rx := 100, rx_cnt := 10, fwded := 90, unmapped := 10, tx := 100\<rparr>
      else zero_stats\<lparr>rx_cnt := 4\<rparr>)"

lemma print_stats_average_stale_witness:
  "\<exists>out1 st1 out2 st2.
    print_stats (\<lambda>_. 0) 2 2 0b11 0 sample_counters (init_sampling []) = Some (out1, st1) \<and>
    print_stats (\<lambda>_. 0) 2 2 0b11 0 sample_counters st1 = Some (out2, st2) \<and>
    line_average (port_part out2 ! 0) = Some 16"
proof -
  have en: "enabled_ports 0b11 [0..<2] = [0, 1]" by (simp add: enabled_ports_def port_enabled_def upt_rec)
  obtain out1 st1 where p: "print_stats (\<lambda>_. 0) 2 2 0b11 0 sample_counters (init_sampling []) = Some (out1, st1)"
    using print_stats_samples [of 0 "init_sampling []" "\<lambda>_. 0" 2 2 "0b11" sample_counters] by blast
  have "(\<Sum>l<2. rx_cnt (sample_counters 0 l)) = 10" "(\<Sum>l<2. rx_cnt (sample_counters 1 l)) = 4"
    "(\<Sum>l<2. rx (sample_counters 0 l)) = 100" "(\<Sum>l<2. rx (sample_counters 1 l)) = 0"
    by (simp_all add: numeral_2_eq_2 sample_counters_def zero_stats_def)
  with print_stats_average_stale [OF en p] p show ?thesis by auto
qed

lemma print_stats_single_port_witness:
  "\<exists>out st'. print_stats (\<lambda>_. 7) 2 2 0b01 1000 sample_counters (init_sampling (replicate 32 0)) = Some (out, st') \<and>
    rx (line_agg (port_part out ! 0)) = 100 \<and> line_average (port_part out ! 0) = Some 10 \<and> SAMPLE_SIZE st' = 1"
proof -
  have en: "enabled_ports 0b01 [0..<2] = [0]" by (simp add: enabled_ports_def port_enabled_def upt_rec)
  have bal: "\<forall>l. balanced (sample_counters 0 l)" by (simp add: balanced_def sample_counters_def zero_stats_def)
  have "(\<Sum>l<2. rx_cnt (sample_counters 0 l)) = 10" "(\<Sum>l<2. rx (sample_counters 0 l)) = 100"
    by (simp_all add: numeral_2_eq_2 sample_counters_def zero_stats_def)
  moreover have "rx_cnt (prev_agg (init_sampling f)) = 0" "rx (prev_agg (init_sampling f)) = 0"
    "SAMPLE_SIZE (init_sampling f) = 0" for f by (simp_all add: init_sampling_def zero_stats_def)
  ultimately show ?thesis
    using print_stats_single_port [where p = 0 and ps = sample_counters, OF en bal, of "init_sampling (replicate 32 0)" "\<lambda>_. 7" 2 1000]
    by (auto simp: init_sampling_def Let_def)
qed

theorem stats_main_samples_witness:
  "(\<exists>ls st. stats_main (\<lambda>_. 7) 2 2 0b01 1000 1000 5 (replicate 32 0)
      [(1005, sample_counters), (1500, sample_counters), (2010, sample_counters)] = Some (ls, st) \<and>
    unat (SAMPLE_SIZE st) = length ls) \<and>
   (\<exists>turns. stats_main (\<lambda>_. 7) 2 2 0b01 512 3000000000 5 (replicate 32 0) turns = None)"
proof
  let ?t = "[(1005 :: u64, sample_counters), (1500, sample_counters), (2010, sample_counters)]"
  have a: "l2fwd_parse_args [] default_options = Some default_options" "(0::u64) < 1000"
    "unat (5::u64) + 33 * unat (1000::u64) < 2 ^ 64" "length (replicate 32 (0::u32)) = TOTAL_SAMPLES"
    by (simp_all add: TOTAL_SAMPLES_def)
  have per: "timer_period default_options * 1000 = 1000" by (simp add: default_options_def)
  have "sorted (List.map unat ((5::u64) # List.map fst ?t))" by simp
  moreover have c: "(1000::u64) = 0 \<or> (1000::u64) \<le> 1000" by simp
  ultimately obtain ls st where r: "stats_main (\<lambda>_. 7) 2 2 0b01 1000 1000 5 (replicate 32 0) ?t = Some (ls, st)"
    "unat (SAMPLE_SIZE st) = (if (1000::u64) = 0 then 0 else length ls)"
    using stats_main_samples [OF a, of 1000 "\<lambda>_. 7" 2 2 "0b01", unfolded Let_def per if_P [OF c]] by blast
  have "(1000::u64) \<noteq> 0" by simp
  then show "\<exists>ls st. stats_main (\<lambda>_. 7) 2 2 0b01 1000 1000 5 (replicate 32 0) ?t = Some (ls, st) \<and>
    unat (SAMPLE_SIZE st) = length ls" using r unfolding if_not_P [OF \<open>1000 \<noteq> 0\<close>] by blast
next
  let ?o = "default_options\<lparr>timer_period := 18746768068239055\<rparr>"
  have a: "l2fwd_parse_args [Opt CHR ''T'' (dec 18746768068239055)] default_options = Some ?o" "(0::u64) < 3000000000"
    "unat (5::u64) + 33 * unat (3000000000::u64) < 2 ^ 64" "length (replicate 32 (0::u32)) = TOTAL_SAMPLES"
    by (simp_all add: parse_option_def strtol_dec TOTAL_SAMPLES_def)
  have per: "timer_period ?o * 3000000000 = 512" by simp
  from stats_main_samples [OF a, of 3000000000 "\<lambda>_. 7" 2 2 "0b01", unfolded Let_def per]
  show "\<exists>turns. stats_main (\<lambda>_. 7) 2 2 0b01 512 3000000000 5 (replicate 32 0) turns = None" by auto
qed

end
