(* ===== verification/Devices.thy ===== *)
theory Devices
  imports Prelude
begin

text \<open>
  The driver calls with which both programs bring their ports up and down, and the order DPDK
  asks for.  A program is a sequence of calls; what each returns is decided by the
  environment, which sees the calls made so far.  After some calls the program looks at the
  result and leaves with status 1 when it is negative.  The protocol is a partial step function
  on the state of every port: a port is configured with numbers of queues, each of its queues is
  set up once, then it is started, stopped and closed.
\<close>

datatype dev_call =
    Dev_configure (call_port: nat) nat nat bool
  | Rx_queue_setup (call_port: nat) nat nat
  | Tx_queue_setup (call_port: nat) nat nat
  | Promiscuous_enable (call_port: nat)
  | Dev_start (call_port: nat)
  | Dev_stop (call_port: nat)
  | Dev_close (call_port: nat)

text \<open>Calls with the flag that their result is checked.\<close>

fun make_calls ::
  "(dev_call list \<Rightarrow> dev_call \<Rightarrow> int) \<Rightarrow> (dev_call \<times> bool) list \<Rightarrow> dev_call list \<Rightarrow> unit outcome \<times> dev_call list" where
  "make_calls answer [] made = (Return (), made)"
| "make_calls answer ((c, checked) # cs) made =
     (if checked \<and> answer made c < 0 then (Exit 1, made @ [c])
      else make_calls answer cs (made @ [c]))"

section \<open>The protocol\<close>

datatype port_state =
    Closed
  | Configured nat nat "nat list" "nat list"
  | Started
  | Stopped

definition all_queues :: "nat \<Rightarrow> nat list \<Rightarrow> bool" where
  "all_queues n qs \<longleftrightarrow> (\<forall>q \<in> set [0..<n]. q \<in> set qs)"

fun port_step :: "dev_call \<Rightarrow> port_state \<Rightarrow> port_state option" where
  "port_step (Dev_configure p n_rx n_tx rss) Closed = Some (Configured n_rx n_tx [] [])"
| "port_step (Rx_queue_setup p q ring) (Configured n_rx n_tx rs ts) =
     (if q < n_rx \<and> q \<notin> set rs then Some (Configured n_rx n_tx (rs @ [q]) ts) else None)"
| "port_step (Tx_queue_setup p q ring) (Configured n_rx n_tx rs ts) =
     (if q < n_tx \<and> q \<notin> set ts then Some (Configured n_rx n_tx rs (ts @ [q])) else None)"
| "port_step (Promiscuous_enable p) (Configured n_rx n_tx rs ts) = Some (Configured n_rx n_tx rs ts)"
| "port_step (Promiscuous_enable p) Started = Some Started"
| "port_step (Dev_start p) (Configured n_rx n_tx rs ts) =
     (if all_queues n_rx rs \<and> all_queues n_tx ts then Some Started else None)"
| "port_step (Dev_stop p) Started = Some Stopped"
| "port_step (Dev_close p) Stopped = Some Closed"
| "port_step c s = None"

definition dev_step :: "dev_call \<Rightarrow> (nat \<Rightarrow> port_state) \<Rightarrow> (nat \<Rightarrow> port_state) option" where
  "dev_step c st = do {
     s \<leftarrow> port_step c (st (call_port c));
     Some (st(call_port c := s))
   }"

fun dev_run :: "dev_call list \<Rightarrow> (nat \<Rightarrow> port_state) \<Rightarrow> (nat \<Rightarrow> port_state) option" where
  "dev_run [] st = Some st"
| "dev_run (c # cs) st = do { st' \<leftarrow> dev_step c st; dev_run cs st' }"

definition respects_protocol :: "dev_call list \<Rightarrow> bool" where
  "respects_protocol cs \<longleftrightarrow> dev_run cs (\<lambda>_. Closed) \<noteq> None"

section \<open>Sequences of calls\<close>

lemma dev_run_append: "dev_run (cs @ ds) st = do { st' \<leftarrow> dev_run cs st; dev_run ds st' }"
  by (induction cs arbitrary: st) (auto split: Option.bind_splits)

lemma dev_run_prefix: "dev_run (cs @ ds) st \<noteq> None \<Longrightarrow> dev_run cs st \<noteq> None"
  by (cases "dev_run cs st") (simp_all add: dev_run_append)

text \<open>Whatever the calls return, the calls made are a prefix, and all of them when the program goes on.\<close>

lemma make_calls_prefix:
  obtains r k where "make_calls answer cs made = (r, made @ take k (List.map fst cs))"
    and "r = Return () \<or> r = Exit 1" and "r = Return () \<Longrightarrow> take k (List.map fst cs) = List.map fst cs"
proof -
  have "\<exists>r k. make_calls answer cs made = (r, made @ take k (List.map fst cs)) \<and> (r = Return () \<or> r = Exit 1) \<and>
      (r = Return () \<longrightarrow> take k (List.map fst cs) = List.map fst cs)"
  proof (induction cs arbitrary: made)
    case Nil
    show ?case by simp
  next
    case (Cons c cs)
    show ?case
    proof (cases "snd c \<and> answer made (fst c) < 0")
      case True
      then show ?thesis
        by (intro exI [of _ "Exit 1"] exI [of _ "Suc 0"]) (cases c, simp)
    next
      case False
      then have m: "make_calls answer (c # cs) made = make_calls answer cs (made @ [fst c])"
        by (cases c) auto
      obtain r k where "make_calls answer cs (made @ [fst c]) = (r, (made @ [fst c]) @ take k (List.map fst cs))"
        "r = Return () \<or> r = Exit 1" "r = Return () \<longrightarrow> take k (List.map fst cs) = List.map fst cs"
        using Cons by blast
      then show ?thesis unfolding m by (intro exI [of _ r] exI [of _ "Suc k"]) simp
    qed
  qed
  then show thesis using that by blast
qed

lemma make_calls_protocol:
  assumes "dev_run (List.map fst cs) st = Some st'" and "make_calls answer cs [] = (r, made)"
  shows "dev_run made st \<noteq> None" and "r = Return () \<Longrightarrow> dev_run made st = Some st'"
    and "r = Return () \<or> r = Exit 1"
proof -
  obtain r' k where k: "make_calls answer cs [] = (r', [] @ take k (List.map fst cs))"
    "r' = Return () \<or> r' = Exit 1" "r' = Return () \<Longrightarrow> take k (List.map fst cs) = List.map fst cs"
    by (rule make_calls_prefix [of answer cs "[]"]) blast
  then have e: "r' = r" "made = take k (List.map fst cs)" using assms(2) by simp_all
  have "dev_run (take k (List.map fst cs) @ drop k (List.map fst cs)) st \<noteq> None" using assms(1) by simp
  then show "dev_run made st \<noteq> None" unfolding e(2) by (rule dev_run_prefix)
  show "r = Return () \<Longrightarrow> dev_run made st = Some st'" using k(3) e assms(1) by simp
  show "r = Return () \<or> r = Exit 1" using k(2) e(1) by simp
qed

section \<open>Which call ends the program\<close>

definition some_call_fails :: "(dev_call list \<Rightarrow> dev_call \<Rightarrow> int) \<Rightarrow> (dev_call \<times> bool) list \<Rightarrow> bool" where
  "some_call_fails answer cs \<longleftrightarrow>
     (\<exists>k<length cs. snd (cs ! k) \<and> answer (take k (List.map fst cs)) (fst (cs ! k)) < 0)"

lemma make_calls_cases:
  "if \<exists>k<length cs. snd (cs ! k) \<and> answer (made @ take k (List.map fst cs)) (fst (cs ! k)) < 0
   then \<exists>made'. make_calls answer cs made = (Exit 1, made')
   else make_calls answer cs made = (Return (), made @ List.map fst cs)"
proof (induction cs arbitrary: made)
  case Nil
  show ?case by simp
next
  case (Cons c cs)
  have ex: "(\<exists>k<length (c # cs). P k) \<longleftrightarrow> P 0 \<or> (\<exists>k<length cs. P (Suc k))" for P
    using less_Suc_eq_0_disj by auto
  show ?case
  proof (cases "snd c \<and> answer made (fst c) < 0")
    case True
    then show ?thesis unfolding ex by (cases c) simp
  next
    case False
    then have "make_calls answer (c # cs) made = make_calls answer cs (made @ [fst c])" by (cases c) auto
    then show ?thesis using Cons [of "made @ [fst c]"] False unfolding ex by (auto split: if_splits)
  qed
qed

lemma make_calls_fails:
  "if some_call_fails answer cs then \<exists>made. make_calls answer cs [] = (Exit 1, made)
   else make_calls answer cs [] = (Return (), List.map fst cs)"
  using make_calls_cases [of cs answer "[]"] by (simp add: some_call_fails_def)

lemma unchecked_calls:
  "\<forall>c \<in> set cs. \<not> snd c \<Longrightarrow> make_calls answer cs made = (Return (), made @ List.map fst cs)"
  by (induction cs arbitrary: made) auto

section \<open>Queues and ports\<close>

lemma dev_run_rx_setups:
  assumes "st p = Configured n m rs ts" and "distinct (rs @ qs)" and "\<forall>q \<in> set qs. q < n"
  shows "dev_run (List.map (\<lambda>q. Rx_queue_setup p q ring) qs) st = Some (st(p := Configured n m (rs @ qs) ts))"
  using assms
proof (induction qs arbitrary: st rs)
  case (Cons q qs)
  have "dev_step (Rx_queue_setup p q ring) st = Some (st(p := Configured n m (rs @ [q]) ts))"
    using Cons.prems by (simp add: dev_step_def)
  moreover have "dev_run (List.map (\<lambda>q. Rx_queue_setup p q ring) qs) (st(p := Configured n m (rs @ [q]) ts)) =
      Some ((st(p := Configured n m (rs @ [q]) ts))(p := Configured n m ((rs @ [q]) @ qs) ts))"
    using Cons.prems by (intro Cons.IH) auto
  ultimately show ?case by (simp add: fun_upd_upd del: fun_upd_apply)
qed (simp add: fun_upd_idem)

lemma dev_run_tx_setups:
  assumes "st p = Configured n m rs ts" and "distinct (ts @ qs)" and "\<forall>q \<in> set qs. q < m"
  shows "dev_run (List.map (\<lambda>q. Tx_queue_setup p q ring) qs) st = Some (st(p := Configured n m rs (ts @ qs)))"
  using assms
proof (induction qs arbitrary: st ts)
  case (Cons q qs)
  have "dev_step (Tx_queue_setup p q ring) st = Some (st(p := Configured n m rs (ts @ [q])))"
    using Cons.prems by (simp add: dev_step_def)
  moreover have "dev_run (List.map (\<lambda>q. Tx_queue_setup p q ring) qs) (st(p := Configured n m rs (ts @ [q]))) =
      Some ((st(p := Configured n m rs (ts @ [q])))(p := Configured n m rs ((ts @ [q]) @ qs)))"
    using Cons.prems by (intro Cons.IH) auto
  ultimately show ?case by (simp add: fun_upd_upd del: fun_upd_apply)
qed (simp add: fun_upd_idem)

text \<open>A sequence that takes each of some ports from one state to another.\<close>

lemma dev_run_ports:
  assumes "distinct ps" and "\<forall>p \<in> set ps. st p = a"
    and "\<And>p s. p \<in> set ps \<Longrightarrow> s p = a \<Longrightarrow> dev_run (f p) s = Some (s(p := b))"
  shows "dev_run (concat (List.map f ps)) st = Some (\<lambda>p. if p \<in> set ps then b else st p)"
  using assms
proof (induction ps arbitrary: st)
  case Nil
  show ?case by simp
next
  case (Cons p ps)
  have "dev_run (f p) st = Some (st(p := b))" using Cons.prems(2) by (intro Cons.prems(3)) simp_all
  moreover have "dev_run (concat (List.map f ps)) (st(p := b)) = Some (\<lambda>q. if q \<in> set ps then b else (st(p := b)) q)"
    using Cons.prems by (intro Cons.IH) auto
  ultimately show ?case by (auto simp: dev_run_append fun_eq_iff)
qed

text \<open>Bringing a port up: the queues that are set up must be the queues it was configured with.\<close>

lemma dev_run_bring_up:
  assumes "st p = Closed" and "set rqs = {..<n}" and "distinct rqs" and "set tqs = {..<m}" and "distinct tqs"
  shows "dev_run ([Dev_configure p n m rss] @ List.map (\<lambda>q. Rx_queue_setup p q r1) rqs @
      List.map (\<lambda>q. Tx_queue_setup p q r2) tqs) st = Some (st(p := Configured n m rqs tqs))"
proof -
  have "dev_run [Dev_configure p n m rss] st = Some (st(p := Configured n m [] []))"
    using assms(1) by (simp add: dev_step_def)
  moreover have "dev_run (List.map (\<lambda>q. Rx_queue_setup p q r1) rqs) (st(p := Configured n m [] [])) =
      Some (st(p := Configured n m rqs []))"
    using dev_run_rx_setups [of "st(p := Configured n m [] [])" p n m "[]" "[]" rqs r1] assms(2,3) by simp
  moreover have "dev_run (List.map (\<lambda>q. Tx_queue_setup p q r2) tqs) (st(p := Configured n m rqs [])) =
      Some (st(p := Configured n m rqs tqs))"
    using dev_run_tx_setups [of "st(p := Configured n m rqs [])" p n m rqs "[]" tqs r2] assms(4,5) by simp
  ultimately show ?thesis by (simp only: dev_run_append bind.bind_lunit)
qed

end
