(* ===== verification/Startup.thy ===== *)
theory Startup
  imports Devices Ports Options Forwarding Dram_Memory
begin

text \<open>
  \<open>l2fwd/main.c\<close>, \<open>main\<close>: bringing the ports up and down as sequences of driver calls, the
  transmit buffers of the cores, the tables of the selected mode, and the release at the end.
  The lemmas show that the calls follow the driver's protocol whatever they return, that every
  core that polls a queue has its buffers, and that the tables are ready for the packet path.
\<close>

section \<open>The ports\<close>

text \<open>
  One port: receive-side scaling is asked for when the device offers one of the hash types
  \<open>rss_hf\<close>; configuration, queues and start are checked, promiscuous mode is not.
\<close>

definition l2fwd_port_up :: "u64 \<Rightarrow> (nat \<Rightarrow> u64) \<Rightarrow> nat \<Rightarrow> nat \<Rightarrow> (dev_call \<times> bool) list" where
  "l2fwd_port_up rss_hf flow_type_rss_offloads queues_per_port portid =
     [(Dev_configure portid queues_per_port queues_per_port (rss_hf AND flow_type_rss_offloads portid \<noteq> 0), True)] @
     List.map (\<lambda>q. (Rx_queue_setup portid q (unat RTE_TEST_RX_DESC_DEFAULT), True)) [0..<queues_per_port] @
     List.map (\<lambda>q. (Tx_queue_setup portid q (unat RTE_TEST_TX_DESC_DEFAULT), True)) [0..<queues_per_port] @
     [(Dev_start portid, True), (Promiscuous_enable portid, False)]"

definition l2fwd_ports_up :: "u64 \<Rightarrow> (nat \<Rightarrow> u64) \<Rightarrow> u32 \<Rightarrow> nat list \<Rightarrow> nat \<Rightarrow> (dev_call \<times> bool) list" where
  "l2fwd_ports_up rss_hf flow_type_rss_offloads pmask ports queues_per_port =
     concat (List.map (\<lambda>p. if port_enabled pmask p
       then l2fwd_port_up rss_hf flow_type_rss_offloads queues_per_port p else []) ports)"

definition l2fwd_ports_down :: "u32 \<Rightarrow> nat list \<Rightarrow> (dev_call \<times> bool) list" where
  "l2fwd_ports_down pmask ports =
     concat (List.map (\<lambda>p. if port_enabled pmask p
       then [(Dev_stop p, False), (Dev_close p, False)] else []) ports)"

lemma concat_enabled:
  "concat (List.map (\<lambda>p. if port_enabled pmask p then f p else []) ports) =
   concat (List.map f (enabled_ports pmask ports))"
  by (induction ports) (simp_all add: enabled_ports_def)

lemma port_up_run:
  assumes "s p = Closed"
  shows "dev_run (List.map fst (l2fwd_port_up rss_hf off n p)) s = Some (s(p := Started))"
proof -
  let ?rss = "rss_hf AND off p \<noteq> 0" and ?q = "[0..<n]"
  let ?up = "[Dev_configure p n n ?rss] @ List.map (\<lambda>q. Rx_queue_setup p q (unat RTE_TEST_RX_DESC_DEFAULT)) ?q @
      List.map (\<lambda>q. Tx_queue_setup p q (unat RTE_TEST_TX_DESC_DEFAULT)) ?q"
  have "dev_run ?up s = Some (s(p := Configured n n ?q ?q))"
    using assms by (intro dev_run_bring_up) auto
  moreover have "dev_run [Dev_start p, Promiscuous_enable p] (s(p := Configured n n ?q ?q)) = Some (s(p := Started))"
    by (simp add: dev_step_def all_queues_def)
  moreover have "List.map fst (l2fwd_port_up rss_hf off n p) = ?up @ [Dev_start p, Promiscuous_enable p]"
    by (simp add: l2fwd_port_up_def comp_def)
  ultimately show ?thesis by (simp only: dev_run_append bind.bind_lunit)
qed

lemma port_down_run:
  assumes "s p = Started"
  shows "dev_run [Dev_stop p, Dev_close p] s = Some (s(p := Closed))"
  using assms by (simp add: dev_step_def)

lemma ports_up_run:
  assumes "distinct ports"
  shows "dev_run (List.map fst (l2fwd_ports_up rss_hf offloads pmask ports q)) (\<lambda>_. Closed) =
    Some (\<lambda>p. if p \<in> set (enabled_ports pmask ports) then Started else Closed)"
proof -
  let ?en = "enabled_ports pmask ports"
  have d: "distinct ?en" using assms by (simp add: enabled_ports_def)
  have "List.map fst (l2fwd_ports_up rss_hf offloads pmask ports q) =
      concat (List.map (\<lambda>p. List.map fst (l2fwd_port_up rss_hf offloads q p)) ?en)"
    by (simp add: l2fwd_ports_up_def concat_enabled map_concat comp_def)
  then show ?thesis
    using dev_run_ports [OF d, of "\<lambda>_. Closed" Closed "\<lambda>p. List.map fst (l2fwd_port_up rss_hf offloads q p)" Started]
      port_up_run by simp
qed

lemma ports_down_run:
  assumes "distinct ports"
  shows "dev_run (List.map fst (l2fwd_ports_down pmask ports))
      (\<lambda>p. if p \<in> set (enabled_ports pmask ports) then Started else Closed) = Some (\<lambda>_. Closed)"
proof -
  let ?en = "enabled_ports pmask ports" and ?st = "\<lambda>p. if p \<in> set (enabled_ports pmask ports) then Started else Closed"
  have d: "distinct ?en" using assms by (simp add: enabled_ports_def)
  have "List.map fst (l2fwd_ports_down pmask ports) = concat (List.map (\<lambda>p. [Dev_stop p, Dev_close p]) ?en)"
    by (simp add: l2fwd_ports_down_def concat_enabled map_concat comp_def)
  then show ?thesis
    using dev_run_ports [OF d, of ?st Started "\<lambda>p. [Dev_stop p, Dev_close p]" Closed] port_down_run
    by (simp add: fun_eq_iff)
qed

text \<open>
  The ports are brought up and down in the order the driver asks for.  Whatever the calls
  return, every port is configured before its queues are set up, each of its queues is set up
  once and within the numbers configured, and it is started only after all of them; the program
  goes on or exits with status 1.  If it goes on, exactly the enabled ports are started, and the
  release at the end stops and closes each of them.
\<close>

lemma l2fwd_ports_protocol:
  assumes "distinct ports"
    and "make_calls answer (l2fwd_ports_up rss_hf offloads pmask ports q) [] = (r, made)"
  shows "respects_protocol made \<and> (r = Return () \<or> r = Exit 1) \<and>
    (r = Return () \<longrightarrow>
      dev_run made (\<lambda>_. Closed) = Some (\<lambda>p. if p \<in> set (enabled_ports pmask ports) then Started else Closed) \<and>
      dev_run (made @ List.map fst (l2fwd_ports_down pmask ports)) (\<lambda>_. Closed) = Some (\<lambda>_. Closed))"
  using make_calls_protocol [OF ports_up_run [OF assms(1)] assms(2)] ports_down_run [OF assms(1), of pmask]
  by (auto simp: respects_protocol_def dev_run_append)

lemma l2fwd_ports_protocol_witness:
  "\<exists>made. make_calls (\<lambda>_ _. 0) (l2fwd_ports_up 1 (\<lambda>_. 1) 0b11 [0, 1] 1) [] = (Return (), made) \<and> respects_protocol made"
proof -
  have d: "distinct [0, 1::nat]" by simp
  have "\<exists>made. make_calls (\<lambda>_ _. 0) cs made0 = (Return (), made)" for cs made0
    by (induction cs arbitrary: made0) auto
  then obtain made where "make_calls (\<lambda>_ _. 0) (l2fwd_ports_up 1 (\<lambda>_. 1) 0b11 [0, 1] 1) [] = (Return (), made)" by blast
  with l2fwd_ports_protocol [OF d this] show ?thesis by blast
qed

section \<open>Transmit buffers\<close>

text \<open>
  Each core that polls a queue gets a buffer for every enabled port; without memory the program
  exits.  The result says which buffers a core has.
\<close>

fun port_buffers :: "(nat \<Rightarrow> nat \<Rightarrow> bool) \<Rightarrow> u32 \<Rightarrow> nat \<Rightarrow> nat list \<Rightarrow> (nat \<Rightarrow> nat \<Rightarrow> bool) \<Rightarrow> (nat \<Rightarrow> nat \<Rightarrow> bool) outcome" where
  "port_buffers fails pmask lcore_id [] tx_buffer = Return tx_buffer"
| "port_buffers fails pmask lcore_id (p # ports) tx_buffer =
     (if \<not> port_enabled pmask p then port_buffers fails pmask lcore_id ports tx_buffer
      else if fails lcore_id p then Exit 1
      else port_buffers fails pmask lcore_id ports (tx_buffer(lcore_id := (tx_buffer lcore_id)(p := True))))"

fun init_tx_buffers ::
  "(nat \<Rightarrow> nat \<Rightarrow> bool) \<Rightarrow> u32 \<Rightarrow> nat list \<Rightarrow> lcore_queue_conf \<Rightarrow> nat list \<Rightarrow> (nat \<Rightarrow> nat \<Rightarrow> bool) \<Rightarrow>
     (nat \<Rightarrow> nat \<Rightarrow> bool) outcome" where
  "init_tx_buffers fails pmask ports conf [] tx_buffer = Return tx_buffer"
| "init_tx_buffers fails pmask ports conf (lcore_id # lcores) tx_buffer =
     (if length (conf lcore_id) = 0 then init_tx_buffers fails pmask ports conf lcores tx_buffer
      else case port_buffers fails pmask lcore_id ports tx_buffer of
        Exit c \<Rightarrow> Exit c
      | Return b \<Rightarrow> init_tx_buffers fails pmask ports conf lcores b)"

lemma port_buffers_eq:
  "port_buffers fails pmask l ports b =
     (if \<exists>p \<in> set (enabled_ports pmask ports). fails l p then Exit 1
      else Return (\<lambda>l' p. b l' p \<or> l' = l \<and> p \<in> set (enabled_ports pmask ports)))"
  by (induction ports arbitrary: b) (auto simp: enabled_ports_def fun_eq_iff)

lemma init_tx_buffers_eq:
  "init_tx_buffers fails pmask ports conf lcores b =
     (if \<exists>l \<in> set lcores. conf l \<noteq> [] \<and> (\<exists>p \<in> set (enabled_ports pmask ports). fails l p) then Exit 1
      else Return (\<lambda>l p. b l p \<or> l \<in> set lcores \<and> conf l \<noteq> [] \<and> p \<in> set (enabled_ports pmask ports)))"
  by (induction lcores arbitrary: b) (auto simp: port_buffers_eq fun_eq_iff)

section \<open>The tables of the mode\<close>

record l2fwd_tables =
  tab_maglev :: maglev_state
  tab_dram :: "dramblast_root option"
  tab_backends :: LookUpTable
  tab_heap :: heap

definition l2fwd_init_mode ::
  "(u64 \<Rightarrow> maglev_kv_pair list option) \<Rightarrow> (nat \<Rightarrow> bool) \<Rightarrow> (nat \<Rightarrow> nat \<Rightarrow> dramblast_queue_item) \<Rightarrow>
     l2fwd_options \<Rightarrow> l2fwd_tables \<Rightarrow> l2fwd_tables outcome option" where
  "l2fwd_init_mode alloc fails junk o1 t =
     (if maglev_flag o1 \<noteq> 0 then
        (case maglev_init alloc (opt_CAPACITY o1) (tab_maglev t) of
           None \<Rightarrow> None
         | Some (Exit c) \<Rightarrow> Some (Exit c)
         | Some (Return mg) \<Rightarrow> Some (Return (t\<lparr>tab_maglev := mg\<rparr>)))
      else if sashstore_flag o1 \<noteq> 0 then Some (Exit 1)
      else if dramblast_flag o1 \<noteq> 0 then
        (case dramblast_init fails junk (opt_CAPACITY o1) (tab_backends t) (tab_heap t) of
           None \<Rightarrow> None
         | Some (Exit c) \<Rightarrow> Some (Exit c)
         | Some (Return (r, lut, h)) \<Rightarrow> Some (Return (t\<lparr>tab_dram := Some r, tab_backends := lut, tab_heap := h\<rparr>)))
      else Some (Return t))"

text \<open>At the end.\<close>

definition l2fwd_release :: "l2fwd_options \<Rightarrow> l2fwd_tables \<Rightarrow> l2fwd_tables option" where
  "l2fwd_release o1 t =
     (if dramblast_flag o1 \<noteq> 0 then do {
        (r, h) \<leftarrow> dramblast_destroy (tab_dram t) (tab_heap t);
        Some (t\<lparr>tab_dram := r, tab_heap := h\<rparr>)
      } else Some t)"

text \<open>What a core starts its loop with; the addresses array on its stack holds anything.\<close>

definition core_config :: "l2fwd_options \<Rightarrow> l2fwd_tables \<Rightarrow> (nat \<Rightarrow> nat) \<Rightarrow> (nat \<Rightarrow> u8 list) \<Rightarrow> l2fwd_config" where
  "core_config o1 t dst_ports eth_addr =
     \<lparr>l2fwd_maglev_enabled = maglev_flag o1 \<noteq> 0, l2fwd_dramblast_enabled = dramblast_flag o1 \<noteq> 0,
      l2fwd_dst_ports = dst_ports, l2fwd_ports_eth_addr = eth_addr,
      table_capacity = opt_CAPACITY o1, dramblast_backends = tab_backends t\<rparr>"

definition core_state :: "l2fwd_tables \<Rightarrow> u64 list \<Rightarrow> l2fwd_state" where
  "core_state t macs =
     \<lparr>port_statistics = (\<lambda>_ _. zero_stats), maglev_st = tab_maglev t,
      dram_ht = (case tab_dram t of Some r \<Rightarrow> root_ht r | None \<Rightarrow> \<lparr>ht_table = [], ht_len = 0, ht_queues = []\<rparr>),
      mac_addrs = macs\<rparr>"

text \<open>The static state before \<open>main\<close>: arrays of their size, no table.\<close>

definition static_tables :: "heap \<Rightarrow> l2fwd_tables" where
  "static_tables h = \<lparr>tab_maglev = \<lparr>maglev_conntrack = \<lparr>mpairs = []\<rparr>, maglev_lookup = replicate TABLE_SIZE 0\<rparr>,
     tab_dram = None, tab_backends = replicate TABLE_SIZE 0, tab_heap = h\<rparr>"

lemma l2fwd_mode_ready:
  assumes "l2fwd_parse_args es default_options = Some o1" and "4 \<le> opt_CAPACITY o1"
    and "alloc (opt_CAPACITY o1 * 16) = Some ps" and "length ps * 16 = unat (opt_CAPACITY o1 * 16)"
    and "maglev_flag o1 \<noteq> 0 \<or> sashstore_flag o1 = 0"
    and "lcore_id < 128" and "length macs = 64"
  shows "\<exists>t. l2fwd_init_mode alloc (\<lambda>_. False) junk o1 (static_tables h) = Some (Return t) \<and>
    state_ok crc (core_config o1 t dst_ports eth_addr) lcore_id (core_state t macs)"
proof -
  have "capacity_ok (opt_CAPACITY o1)" using l2fwd_parse_args_ok [OF assms(1)] by blast
  then have cap: "table_bytes_ok (opt_CAPACITY o1)" "pow2_u64 (opt_CAPACITY o1)" "opt_CAPACITY o1 \<le> 2 ^ 32"
    by (simp_all add: capacity_ok_iff table_bytes_ok_def)
  let ?t = "static_tables h"
  consider (maglev) "maglev_flag o1 \<noteq> 0"
    | (dram) "maglev_flag o1 = 0" "sashstore_flag o1 = 0" "dramblast_flag o1 \<noteq> 0"
    | (plain) "maglev_flag o1 = 0" "sashstore_flag o1 = 0" "dramblast_flag o1 = 0" using assms(5) by blast
  then show ?thesis
  proof cases
    case maglev
    let ?alloc = "\<lambda>n. if n = opt_CAPACITY o1 * 16 then Some ps else None"
    have lut: "length (maglev_lookup (tab_maglev ?t)) = TABLE_SIZE" by (simp add: static_tables_def)
    have a: "length qs * 16 = unat n" if "?alloc n = Some qs" for n qs
      using that assms(4) by (auto split: if_splits)
    have same: "maglev_init ?alloc (opt_CAPACITY o1) (tab_maglev ?t) = maglev_init alloc (opt_CAPACITY o1) (tab_maglev ?t)"
      using assms(3) by (simp add: maglev_init_def)
    have "\<exists>st'. maglev_init ?alloc (opt_CAPACITY o1) (tab_maglev ?t) = Some (Return st') \<and> maglev_ok crc (opt_CAPACITY o1) st'"
      using maglev_init_cases [where alloc = ?alloc and crc = crc, OF cap(2,3) lut a] by auto
    then obtain mg where "maglev_init alloc (opt_CAPACITY o1) (tab_maglev ?t) = Some (Return mg)"
      "maglev_ok crc (opt_CAPACITY o1) mg" unfolding same by blast
    then show ?thesis using maglev
      by (simp add: l2fwd_init_mode_def state_ok_def core_config_def core_state_def)
  next
    case dram
    have lut: "length (tab_backends ?t) = TABLE_SIZE" by (simp add: static_tables_def)
    obtain r lut' h' where "dramblast_init (\<lambda>_. False) junk (opt_CAPACITY o1) (tab_backends ?t) (tab_heap ?t) = Some (Return (r, lut', h'))"
      "lut' = replicate TABLE_SIZE 0xff" "dram_ready crc (root_ht r) lcore_id"
      using dramblast_init_granted [OF cap(1) assms(2) lut, of junk "tab_heap ?t" crc] assms(6) by blast
    then show ?thesis using dram assms(7)
      by (simp add: l2fwd_init_mode_def state_ok_def core_config_def core_state_def)
  next
    case plain
    then show ?thesis by (simp add: l2fwd_init_mode_def state_ok_def core_config_def core_state_def)
  qed
qed

text \<open>
  The program as a whole is safe.  For every accepted command line with a capacity of at
  least one bucket and a mode other than the one that is refused, if the memory asked for is
  granted then the tables are set up, and on every core the packet loop then runs on any
  traffic without an access out of bounds and without leaving the program; every packet is
  handed on or freed, and every counter that is printed adds up.
\<close>

lemma l2fwd_program_safe:
  assumes "l2fwd_parse_args es default_options = Some o1" and "4 \<le> opt_CAPACITY o1"
    and "alloc (opt_CAPACITY o1 * 16) = Some ps" and "length ps * 16 = unat (opt_CAPACITY o1 * 16)"
    and "maglev_flag o1 \<noteq> 0 \<or> sashstore_flag o1 = 0"
    and "lcore_id < 128" and "length macs = 64"
    and "\<forall>p. length (eth_addr p) = 6" and "\<forall>(p, inp) \<in> set turns. input_ok inp"
  shows "\<exists>t outs st'. l2fwd_init_mode alloc (\<lambda>_. False) junk o1 (static_tables h) = Some (Return t) \<and>
    l2fwd_main_loop crc True (core_config o1 t dst_ports eth_addr) lcore_id turns (core_state t macs) =
      Some (Return (outs, st')) \<and>
    list_all2 (\<lambda>(p, inp) out. list_all2 same_packet (pkts_burst inp) (sent out @ freed out)) turns outs \<and>
    (\<forall>p l. rx (port_statistics st' p l) = fwded (port_statistics st' p l) + unmapped (port_statistics st' p l))"
proof -
  obtain t where t: "l2fwd_init_mode alloc (\<lambda>_. False) junk o1 (static_tables h) = Some (Return t)"
    "state_ok crc (core_config o1 t dst_ports eth_addr) lcore_id (core_state t macs)"
    using l2fwd_mode_ready [where alloc = alloc, OF assms(1-7)] by blast
  have cfg: "config_ok (core_config o1 t dst_ports eth_addr)" using assms(8) by (simp add: config_ok_def core_config_def)
  have bal: "\<forall>p l. balanced (port_statistics (core_state t macs) p l)"
    by (simp add: core_state_def balanced_def zero_stats_def)
  obtain outs st' where r: "l2fwd_main_loop crc True (core_config o1 t dst_ports eth_addr) lcore_id turns (core_state t macs) =
      Some (Return (outs, st'))" "\<forall>p l. balanced (port_statistics st' p l)"
    "list_all2 (\<lambda>(p, inp) out. list_all2 same_packet (pkts_burst inp) (sent out @ freed out) \<and>
      length (sent out) = nb_tx inp) turns outs"
    using main_loop_spec [OF cfg t(2) assms(9) bal] by blast
  have "list_all2 (\<lambda>(p, inp) out. list_all2 same_packet (pkts_burst inp) (sent out @ freed out)) turns outs"
    using r(3) by (rule list_all2_mono) auto
  then show ?thesis using t(1) r(1,2) unfolding balanced_def by blast
qed

lemma l2fwd_program_safe_witness:
  "\<exists>o1 t outs st'. l2fwd_parse_args [Opt CHR ''m'' ''dramblast'', Opt CHR ''c'' (dec 8)] default_options = Some o1 \<and>
    l2fwd_init_mode (\<lambda>n. Some (replicate 8 \<lparr>mkey = 0, mvalue = 0\<rparr>)) (\<lambda>_. False)
      (\<lambda>_ _. \<lparr>item_k = 1, item_idx = 2, item_visit_count = 3, item_id = 4\<rparr>) o1
      (static_tables \<lparr>blocks = [], mappings = [], allocations = 0\<rparr>) = Some (Return t) \<and>
    l2fwd_main_loop (\<lambda>_ k. k) True (core_config o1 t (\<lambda>p. 1 - p) (\<lambda>_. replicate 6 0)) 3 [(0, sample_turn)]
      (core_state t (replicate 64 0)) = Some (Return (outs, st'))"
proof -
  let ?o = "default_options\<lparr>dramblast_flag := 1, opt_CAPACITY := 8\<rparr>"
  have "capacity_ok 8" unfolding capacity_ok_def by (intro bexI [of _ 3]) simp_all
  then have p: "l2fwd_parse_args [Opt CHR ''m'' ''dramblast'', Opt CHR ''c'' (dec 8)] default_options = Some ?o"
    by (simp add: parse_option_def parse_mode_def parse_capacity_eq strtoul_dec)
  have "\<forall>(p, inp) \<in> set [(0::nat, sample_turn)]. input_ok inp" using sample_turn_ok by simp
  moreover have "maglev_flag ?o \<noteq> 0 \<or> sashstore_flag ?o = 0" by (simp add: default_options_def)
  ultimately show ?thesis
    using p l2fwd_program_safe [OF p, of "\<lambda>n. Some (replicate 8 \<lparr>mkey = 0, mvalue = 0\<rparr>)" "replicate 8 \<lparr>mkey = 0, mvalue = 0\<rparr>"
      3 "replicate 64 0" "\<lambda>_. replicate 6 0" "[(0, sample_turn)]"
      "\<lambda>_ _. \<lparr>item_k = 1, item_idx = 2, item_visit_count = 3, item_id = 4\<rparr>"
      "\<lparr>blocks = [], mappings = [], allocations = 0\<rparr>" "\<lambda>_ k. k" "\<lambda>p. 1 - p"]
    by fastforce
qed

end
