(* ===== verification/L2fwd_Run.thy ===== *)
theory L2fwd_Run
  imports Startup Statistics
begin

text \<open>
  \<open>l2fwd/main.c\<close>, the program while it runs: the loops of the worker cores, the loop of the main
  core and the signal handler, interleaved in any order.  A turn of a worker is one queue of its
  list with the burst received from it; the workers share the tables and the counters, and each has
  its own array \<open>mac_addrs\<close>.  A turn of the main core reads the clock and the counters as they are
  then.  The lemmas show that every interleaving keeps the tables usable by every core, that the
  counters count the packets, and that the program comes to its end once \<open>force_quit\<close> is set.
\<close>

section \<open>State and steps\<close>

text \<open>
  The position of a worker in its list of queues is \<open>None\<close> once \<open>l2fwd_main_loop\<close> has returned.
  The log has, for every turn, the core, the port, the burst received and what became of it; the
  readings are those of the main core with the counters it saw.
\<close>

record l2fwd_run =
  run_st :: l2fwd_state
  run_macs :: "nat \<Rightarrow> u64 list"
  run_pos :: "nat \<Rightarrow> nat option"
  run_quit :: bool
  run_readings :: "(u64 \<times> (nat \<Rightarrow> nat \<Rightarrow> l2fwd_port_statistics)) list"
  run_log :: "(nat \<times> nat \<times> u8 list list \<times> burst_output) list"

datatype run_event =
    Worker_turn nat burst_input
  | Main_turn u64
  | Signal_raised int

definition signal_handler :: "int \<Rightarrow> bool \<Rightarrow> bool" where
  "signal_handler signum quit = (if signum = SIGINT \<or> signum = SIGTERM then True else quit)"

text \<open>A core without queues returns at once; \<open>force_quit\<close> is only looked at before a round.\<close>

definition worker_start :: "lcore_queue_conf \<Rightarrow> nat \<Rightarrow> nat option" where
  "worker_start conf lcore_id = (if length (conf lcore_id) = 0 then None else Some 0)"

definition worker_turn ::
  "(u64 \<Rightarrow> u64 \<Rightarrow> u64) \<Rightarrow> bool \<Rightarrow> l2fwd_config \<Rightarrow> lcore_queue_conf \<Rightarrow> nat \<Rightarrow> burst_input \<Rightarrow> l2fwd_run \<Rightarrow>
     l2fwd_run outcome option" where
  "worker_turn crc ra cfg conf lcore_id inp r =
     (case run_pos r lcore_id of
        None \<Rightarrow> Some (Return r)
      | Some i \<Rightarrow>
          if i = 0 \<and> run_quit r then Some (Return (r\<lparr>run_pos := (run_pos r)(lcore_id := None)\<rparr>))
          else do {
            (portid, queueid) \<leftarrow> rd (conf lcore_id) i;
            out \<leftarrow> l2fwd_rx_port crc ra cfg lcore_id portid inp ((run_st r)\<lparr>mac_addrs := run_macs r lcore_id\<rparr>);
            case out of
              Exit c \<Rightarrow> Some (Exit c)
            | Return (o1, st) \<Rightarrow> Some (Return (r\<lparr>run_st := st,
                run_macs := (run_macs r)(lcore_id := mac_addrs st),
                run_pos := (run_pos r)(lcore_id := Some (if Suc i < length (conf lcore_id) then Suc i else 0)),
                run_log := run_log r @ [(lcore_id, portid, pkts_burst inp, o1)]\<rparr>))
          })"

definition main_turn :: "u64 \<Rightarrow> u64 \<Rightarrow> l2fwd_run \<Rightarrow> l2fwd_run" where
  "main_turn end_tsc cur_tsc r =
     (if run_quit r then r
      else r\<lparr>run_readings := run_readings r @ [(cur_tsc, port_statistics (run_st r))],
             run_quit := (cur_tsc \<ge> end_tsc)\<rparr>)"

fun run_step ::
  "(u64 \<Rightarrow> u64 \<Rightarrow> u64) \<Rightarrow> bool \<Rightarrow> l2fwd_config \<Rightarrow> lcore_queue_conf \<Rightarrow> u64 \<Rightarrow> run_event \<Rightarrow> l2fwd_run \<Rightarrow>
     l2fwd_run outcome option" where
  "run_step crc ra cfg conf end_tsc (Worker_turn l inp) r = worker_turn crc ra cfg conf l inp r"
| "run_step crc ra cfg conf end_tsc (Main_turn t) r = Some (Return (main_turn end_tsc t r))"
| "run_step crc ra cfg conf end_tsc (Signal_raised s) r =
     Some (Return (r\<lparr>run_quit := signal_handler s (run_quit r)\<rparr>))"

fun run_events ::
  "(u64 \<Rightarrow> u64 \<Rightarrow> u64) \<Rightarrow> bool \<Rightarrow> l2fwd_config \<Rightarrow> lcore_queue_conf \<Rightarrow> u64 \<Rightarrow> run_event list \<Rightarrow> l2fwd_run \<Rightarrow>
     l2fwd_run outcome option" where
  "run_events crc ra cfg conf end_tsc [] r = Some (Return r)"
| "run_events crc ra cfg conf end_tsc (e # es) r = do {
     out \<leftarrow> run_step crc ra cfg conf end_tsc e r;
     case out of
       Exit c \<Rightarrow> Some (Exit c)
     | Return r' \<Rightarrow> run_events crc ra cfg conf end_tsc es r'
   }"

text \<open>The main core has left its loop and every worker has returned.\<close>

definition run_over :: "nat list \<Rightarrow> l2fwd_run \<Rightarrow> bool" where
  "run_over lcores r \<longleftrightarrow> run_quit r \<and> (\<forall>l \<in> set lcores. run_pos r l = None)"

section \<open>One core leaves the tables usable for the others\<close>

lemma dram_ready_other:
  assumes "same_but_queue tid ht ht'" and "tid' \<noteq> tid" and "dram_ready crc ht tid'"
  shows "dram_ready crc ht' tid'"
  using assms dram_inv_same [OF assms(1), of crc]
  by (auto simp: dram_ready_def same_but_queue_def queue_ok_def queue_cap_def pending_def)

text \<open>Storing the backends of new flows touches no ring.\<close>

lemma frame_keeps_rings:
  assumes "dram_inv crc ht" and "dramblast_frame crc lut args ht r = Some (b, ht')"
  shows "dram_inv crc ht' \<and> ht_len ht' = ht_len ht \<and> ht_queues ht' = ht_queues ht"
proof -
  have ins: "dram_inv crc ht1 \<and> ht_len ht1 = ht_len ht \<and> ht_queues ht1 = ht_queues ht"
    if "dramblast_insert_one crc ht k v = Some (rc, ht1)" for k v rc ht1
  proof (cases "k = 0")
    case True
    then show ?thesis using that assms(1) dram_insert_zero_key [of crc ht v] by simp
  next
    case False
    then show ?thesis using that dram_insert_cases [OF assms(1) False, of v] by auto
  qed
  show ?thesis
    using assms ins by (auto simp: dramblast_frame_def Let_def split: Option.bind_splits if_splits)
qed

lemma report_keeps_rings:
  assumes "dram_inv crc ht" and "dramblast_report crc lut args ret ht rs = Some (ret', ht')"
  shows "dram_inv crc ht' \<and> ht_len ht' = ht_len ht \<and> ht_queues ht' = ht_queues ht"
  using assms
proof (induction rs arbitrary: ret ht)
  case (Cons r rs)
  obtain b ht1 ret1 where f: "dramblast_frame crc lut args ht r = Some (b, ht1)"
    "dramblast_report crc lut args ret1 ht1 rs = Some (ret', ht')"
    using Cons.prems(2) by (auto split: Option.bind_splits)
  show ?case using frame_keeps_rings [OF Cons.prems(1) f(1)] Cons.IH [OF _ f(2)] by simp
qed simp

lemma process_frames_other:
  assumes "dram_ready crc ht tid" and "dram_ready crc ht tid'" and "tid' \<noteq> tid"
    and "dramblast_process_frames crc True lut ht args ret tid = Some (Return (ret', ht'))"
  shows "dram_ready crc ht' tid'"
proof -
  obtain results ht1 where f: "dramblast_find_batch_sync crc ht args tid = Some (results, ht1)"
    "length results = length args" "same_but_queue tid ht ht1"
    using find_batch_answers [OF assms(1)] by blast
  have r: "dram_ready crc ht1 tid'" by (rule dram_ready_other [OF f(3) assms(3,2)])
  have "dramblast_report crc lut args ret ht1 results = Some (ret', ht')"
    using assms(4) f(1,2) by (auto simp: dramblast_process_frames_def split: Option.bind_splits)
  from report_keeps_rings [OF _ this] r show ?thesis
    by (auto simp: dram_ready_def queue_ok_def queue_cap_def pending_def)
qed

lemma process_frames_length:
  assumes "dram_ready crc ht tid"
    and "dramblast_process_frames crc True lut ht args ret tid = Some (Return (ret', ht'))"
  shows "ht_len ht' = ht_len ht"
proof -
  obtain results ht1 where f: "dramblast_find_batch_sync crc ht args tid = Some (results, ht1)"
    "length results = length args" "same_but_queue tid ht ht1" "dram_ready crc ht1 tid"
    using find_batch_answers [OF assms(1)] by blast
  have "dramblast_report crc lut args ret ht1 results = Some (ret', ht')"
    using assms(2) f(1,2) by (auto simp: dramblast_process_frames_def split: Option.bind_splits)
  from report_keeps_rings [OF _ this] f(3,4) show ?thesis by (simp add: dram_ready_def same_but_queue_def)
qed

text \<open>What a turn does to the DRAMBlast table.\<close>

lemma rx_port_table:
  assumes "l2fwd_rx_port crc True cfg l portid inp st = Some (Return (out, st'))" and "dram_ht st' \<noteq> dram_ht st"
  obtains args ret where "\<not> l2fwd_maglev_enabled cfg" and "l2fwd_dramblast_enabled cfg"
    and "dramblast_process_frames crc True (dramblast_backends cfg) (dram_ht st) args (mac_addrs st) l =
      Some (Return (ret, dram_ht st'))"
proof -
  have d: "\<not> l2fwd_maglev_enabled cfg" "l2fwd_dramblast_enabled cfg"
    using assms by (auto simp: l2fwd_rx_port_def l2fwd_process_burst_def Let_def
        split: Option.bind_splits outcome.splits if_splits)
  obtain args ret where
    "dramblast_process_frames crc True (dramblast_backends cfg) (dram_ht st) args (mac_addrs st) l = Some (Return (ret, dram_ht st'))"
    using d assms
    by (auto simp: l2fwd_rx_port_def l2fwd_process_burst_def dramblast_burst_def Let_def
        split: Option.bind_splits outcome.splits if_splits)
  then show thesis using d that by blast
qed

lemma rx_port_length:
  assumes "state_ok crc cfg l st" and "l2fwd_rx_port crc True cfg l portid inp st = Some (Return (out, st'))"
  shows "ht_len (dram_ht st') = ht_len (dram_ht st)"
proof (cases "dram_ht st' = dram_ht st")
  case False
  show ?thesis
    by (rule rx_port_table [OF assms(2) False]) (use process_frames_length assms(1) in \<open>auto simp: state_ok_def\<close>)
qed simp

lemma rx_port_other:
  assumes "config_ok cfg" and "state_ok crc cfg l st" and "state_ok crc cfg l' (st\<lparr>mac_addrs := macs\<rparr>)" and "l' \<noteq> l"
    and "input_ok inp" and "l2fwd_rx_port crc True cfg l portid inp st = Some (Return (out, st'))"
    and "state_ok crc cfg l st'"
  shows "state_ok crc cfg l' (st'\<lparr>mac_addrs := macs\<rparr>)"
proof (cases "\<not> l2fwd_maglev_enabled cfg \<and> l2fwd_dramblast_enabled cfg")
  case False
  then show ?thesis using assms(7) by (auto simp: state_ok_def)
next
  case True
  then have d: "dram_ready crc (dram_ht st) l" "dram_ready crc (dram_ht st) l'"
    using assms(2,3) by (auto simp: state_ok_def)
  have "dram_ready crc (dram_ht st') l'"
  proof (cases "dram_ht st' = dram_ht st")
    case False
    then show ?thesis by (rule rx_port_table [OF assms(6)]) (rule process_frames_other [OF d assms(4)])
  qed (use d in simp)
  then show ?thesis using True assms(3,7) by (auto simp: state_ok_def)
qed

section \<open>The counters count the packets\<close>

definition turns_of :: "nat \<Rightarrow> nat \<Rightarrow> (nat \<times> nat \<times> u8 list list \<times> burst_output) list \<Rightarrow> (u8 list list \<times> burst_output) list" where
  "turns_of portid lcore_id log = List.map (snd \<circ> snd) (filter (\<lambda>(l, p, b). l = lcore_id \<and> p = portid) log)"

definition stats_count :: "(u8 list list \<times> burst_output) list \<Rightarrow> l2fwd_port_statistics \<Rightarrow> bool" where
  "stats_count turns s \<longleftrightarrow>
     rx_cnt s = of_nat (length turns) \<and>
     rx s = of_nat (\<Sum>(ms, out)\<leftarrow>turns. length ms) \<and>
     tx s = of_nat (\<Sum>(ms, out)\<leftarrow>turns. length (sent out)) \<and>
     tx_dropped s = of_nat (\<Sum>(ms, out)\<leftarrow>turns. length (freed out))"

lemma turns_of_snoc:
  "turns_of p l (log @ [(l', p', b)]) = turns_of p l log @ (if l' = l \<and> p' = p then [b] else [])"
  by (simp add: turns_of_def)

lemma count_tx_fields:
  assumes "n_tx \<le> n_rx"
  shows "tx (l2fwd_count_tx n_rx n_tx cyc s) = tx s + of_nat n_tx"
    and "tx_dropped (l2fwd_count_tx n_rx n_tx cyc s) = tx_dropped s + of_nat (n_rx - n_tx)"
    and "rx (l2fwd_count_tx n_rx n_tx cyc s) = rx s" and "rx_cnt (l2fwd_count_tx n_rx n_tx cyc s) = rx_cnt s"
  using assms by (simp_all add: l2fwd_count_tx_def Let_def)

lemma rx_port_counts:
  assumes "config_ok cfg" and "state_ok crc cfg l st" and "input_ok inp"
    and "l2fwd_rx_port crc True cfg l portid inp st = Some (Return (out, st'))"
    and "\<forall>p l. stats_count (turns_of p l log) (port_statistics st p l)"
  shows "\<forall>p l'. stats_count (turns_of p l' (log @ [(l, portid, pkts_burst inp, out)])) (port_statistics st' p l')"
proof -
  let ?ms = "pkts_burst inp" and ?s = "port_statistics st portid l"
  have old: "stats_count (turns_of portid l log) ?s" using assms(5) by blast
  have "\<exists>s'. port_statistics st' = set_stats (port_statistics st) portid l s' \<and>
      stats_count (turns_of portid l log @ [(?ms, out)]) s'"
  proof (cases "?ms = []")
    case True
    then have "out = \<lparr>sent = [], freed = []\<rparr>"
      "port_statistics st' = set_stats (port_statistics st) portid l (?s\<lparr>rx_cnt := rx_cnt ?s + 1\<rparr>)"
      using assms(4) by (auto simp: l2fwd_rx_port_def Let_def)
    then show ?thesis using old True by (intro exI conjI) (assumption | simp add: stats_count_def)+
  next
    case False
    have i: "packets_ok ?ms" "length ?ms \<le> 64" "nb_tx inp \<le> length ?ms" using assms(3) by (auto simp: input_ok_def)
    let ?s1 = "?s\<lparr>rx_cnt := rx_cnt ?s + 1, rx := rx ?s + of_nat (length ?ms)\<rparr>"
    obtain ms' st1 s' where p: "l2fwd_process_burst crc True cfg l portid ?ms st ?s1 = Some (Return (ms', st1, s'))"
      "port_statistics st1 = port_statistics st" "list_all2 same_packet ?ms ms'"
      "s' = ?s1\<lparr>fwded := fwded s', unmapped := unmapped s'\<rparr>"
      using process_burst_spec [OF assms(1,2) i(1,2), of portid ?s1] by blast
    have s': "rx s' = rx ?s + of_nat (length ?ms)" "rx_cnt s' = rx_cnt ?s + 1" "tx s' = tx ?s"
      "tx_dropped s' = tx_dropped ?s" by (subst p(4), simp)+
    have o: "out = \<lparr>sent = take (nb_tx inp) ms', freed = drop (nb_tx inp) ms'\<rparr>"
      "port_statistics st' = set_stats (port_statistics st) portid l (l2fwd_count_tx (length ?ms) (nb_tx inp) (cycles inp) s')"
      using assms(4) p(1,2) False by (auto simp: l2fwd_rx_port_def Let_def)
    have "length ms' = length ?ms" using p(3) by (simp add: list_all2_lengthD)
    then show ?thesis
      using o old s' count_tx_fields [OF i(3), of "cycles inp" s'] i(3)
      by (intro exI conjI) (assumption | simp add: stats_count_def)+
  qed
  then show ?thesis using assms(5) by (auto simp: turns_of_snoc set_stats_def)
qed

section \<open>The invariant of the run\<close>

definition logged_ok :: "lcore_queue_conf \<Rightarrow> nat \<times> nat \<times> u8 list list \<times> burst_output \<Rightarrow> bool" where
  "logged_ok conf turn = (case turn of (l, p, ms, out) \<Rightarrow>
     p \<in> fst ` set (conf l) \<and> list_all2 same_packet ms (sent out @ freed out))"

definition run_ok :: "(u64 \<Rightarrow> u64 \<Rightarrow> u64) \<Rightarrow> l2fwd_config \<Rightarrow> lcore_queue_conf \<Rightarrow> l2fwd_run \<Rightarrow> bool" where
  "run_ok crc cfg conf r \<longleftrightarrow>
     (\<forall>l i. run_pos r l = Some i \<longrightarrow> i < length (conf l)) \<and>
     (\<forall>l. conf l \<noteq> [] \<longrightarrow> state_ok crc cfg l ((run_st r)\<lparr>mac_addrs := run_macs r l\<rparr>)) \<and>
     (\<forall>p l. balanced (port_statistics (run_st r) p l)) \<and>
     (\<forall>p l. stats_count (turns_of p l (run_log r)) (port_statistics (run_st r) p l)) \<and>
     (\<forall>turn \<in> set (run_log r). logged_ok conf turn) \<and>
     (\<forall>(t, ps) \<in> set (run_readings r). \<forall>p l. balanced (ps p l))"

fun event_ok :: "run_event \<Rightarrow> bool" where
  "event_ok (Worker_turn l inp) = input_ok inp"
| "event_ok (Main_turn t) = True"
| "event_ok (Signal_raised s) = True"

lemma worker_turn_ok:
  assumes "config_ok cfg" and "run_ok crc cfg conf r" and "input_ok inp"
  shows "\<exists>r'. worker_turn crc True cfg conf l inp r = Some (Return r') \<and> run_ok crc cfg conf r' \<and>
    ht_len (dram_ht (run_st r')) = ht_len (dram_ht (run_st r))"
proof -
  consider (gone) "run_pos r l = None" | (leaves) i where "run_pos r l = Some i" "i = 0 \<and> run_quit r"
    | (works) i where "run_pos r l = Some i" "\<not> (i = 0 \<and> run_quit r)" by (cases "run_pos r l") auto
  then show ?thesis
  proof cases
    case gone
    then show ?thesis using assms(2) by (simp add: worker_turn_def)
  next
    case leaves
    then show ?thesis using assms(2) by (simp add: worker_turn_def run_ok_def)
  next
    case works
    note inv = assms(2) [unfolded run_ok_def]
    have i: "i < length (conf l)" using inv works(1) by blast
    obtain p q where pq: "conf l ! i = (p, q)" by (cases "conf l ! i")
    let ?st = "(run_st r)\<lparr>mac_addrs := run_macs r l\<rparr>"
    have "conf l \<noteq> []" using i by auto
    then have st: "state_ok crc cfg l ?st" using inv by blast
    have bal: "\<forall>p l. balanced (port_statistics ?st p l)"
      and cnt: "\<forall>p l. stats_count (turns_of p l (run_log r)) (port_statistics ?st p l)" using inv by simp_all
    obtain out st' where o: "l2fwd_rx_port crc True cfg l p inp ?st = Some (Return (out, st'))"
      "state_ok crc cfg l st'" "\<forall>p l. balanced (port_statistics st' p l)"
      "list_all2 same_packet (pkts_burst inp) (sent out @ freed out)"
      using rx_port_turn [OF assms(1) st assms(3) bal, of p] by blast
    let ?r = "r\<lparr>run_st := st', run_macs := (run_macs r)(l := mac_addrs st'),
      run_pos := (run_pos r)(l := Some (if Suc i < length (conf l) then Suc i else 0)),
      run_log := run_log r @ [(l, p, pkts_burst inp, out)]\<rparr>"
    have w: "worker_turn crc True cfg conf l inp r = Some (Return ?r)"
      using works i pq o(1) unfolding worker_turn_def by (simp only: option.case if_False bind.bind_lunit rd_Some prod.case outcome.case)
    have "state_ok crc cfg l' (st'\<lparr>mac_addrs := run_macs ?r l'\<rparr>)" if "conf l' \<noteq> []" for l'
    proof (cases "l' = l")
      case True
      then show ?thesis using o(2) by simp
    next
      case False
      have "state_ok crc cfg l' (?st\<lparr>mac_addrs := run_macs r l'\<rparr>)" using inv that by simp
      from rx_port_other [OF assms(1) st this False assms(3) o(1,2)] False show ?thesis by simp
    qed
    moreover have "logged_ok conf (l, p, pkts_burst inp, out)"
      using o(4) pq i nth_mem [OF i] by (force simp: logged_ok_def)
    moreover note rx_port_counts [OF assms(1) st assms(3) o(1) cnt]
    ultimately have "run_ok crc cfg conf ?r"
      using inv o(3) i unfolding run_ok_def by (auto split: if_splits)
    then show ?thesis using w rx_port_length [OF st o(1)] by simp
  qed
qed

lemma run_step_ok:
  assumes "config_ok cfg" and "run_ok crc cfg conf r" and "event_ok e"
  shows "\<exists>r'. run_step crc True cfg conf end_tsc e r = Some (Return r') \<and> run_ok crc cfg conf r' \<and>
    ht_len (dram_ht (run_st r')) = ht_len (dram_ht (run_st r))"
proof (cases e)
  case (Worker_turn l inp)
  then show ?thesis using worker_turn_ok [OF assms(1,2), of inp l] assms(3) by auto
next
  case (Main_turn t)
  then show ?thesis using assms(2) by (auto simp: main_turn_def run_ok_def)
next
  case (Signal_raised s)
  then show ?thesis using assms(2) by (auto simp: run_ok_def)
qed

lemma run_events_ok:
  assumes "config_ok cfg" and "run_ok crc cfg conf r" and "\<forall>e \<in> set es. event_ok e"
  shows "\<exists>r'. run_events crc True cfg conf end_tsc es r = Some (Return r') \<and> run_ok crc cfg conf r' \<and>
    ht_len (dram_ht (run_st r')) = ht_len (dram_ht (run_st r))"
  using assms(2,3)
proof (induction es arbitrary: r)
  case (Cons e es)
  obtain r1 where "run_step crc True cfg conf end_tsc e r = Some (Return r1)" "run_ok crc cfg conf r1"
    "ht_len (dram_ht (run_st r1)) = ht_len (dram_ht (run_st r))"
    using run_step_ok [OF assms(1) Cons.prems(1)] Cons.prems(2) by (meson list.set_intros(1))
  then show ?case using Cons.IH [of r1] Cons.prems(2) by simp
qed simp

section \<open>Readings\<close>

fun main_times :: "run_event list \<Rightarrow> u64 list" where
  "main_times [] = []"
| "main_times (Main_turn t # es) = t # main_times es"
| "main_times (Worker_turn l inp # es) = main_times es"
| "main_times (Signal_raised s # es) = main_times es"

text \<open>The main core reads the clock until it sees \<open>force_quit\<close>.\<close>

lemma run_events_quit:
  assumes "run_events crc ra cfg conf end_tsc es r = Some (Return r')" and "run_quit r"
  shows "run_quit r' \<and> run_readings r' = run_readings r"
  using assms
proof (induction es arbitrary: r)
  case (Cons e es)
  obtain r1 where r1: "run_step crc ra cfg conf end_tsc e r = Some (Return r1)"
    "run_events crc ra cfg conf end_tsc es r1 = Some (Return r')"
    using Cons.prems(1) by (auto split: Option.bind_splits outcome.splits)
  have "run_quit r1 \<and> run_readings r1 = run_readings r"
    using r1(1) Cons.prems(2)
    by (cases e) (auto simp: main_turn_def worker_turn_def signal_handler_def
        split: option.splits Option.bind_splits outcome.splits if_splits)
  then show ?case using Cons.IH [OF r1(2)] by simp
qed simp

lemma run_events_readings:
  assumes "run_events crc ra cfg conf end_tsc es r = Some (Return r')"
  shows "\<exists>k. List.map fst (run_readings r') = List.map fst (run_readings r) @ take k (main_times es)"
  using assms
proof (induction es arbitrary: r)
  case (Cons e es)
  obtain r1 where r1: "run_step crc ra cfg conf end_tsc e r = Some (Return r1)"
    "run_events crc ra cfg conf end_tsc es r1 = Some (Return r')"
    using Cons.prems by (auto split: Option.bind_splits outcome.splits)
  obtain k where k: "List.map fst (run_readings r') = List.map fst (run_readings r1) @ take k (main_times es)"
    using Cons.IH [OF r1(2)] by blast
  show ?case
  proof (cases e)
    case (Main_turn t)
    show ?thesis
    proof (cases "run_quit r")
      case True
      then have "run_readings r' = run_readings r"
        using run_events_quit [OF Cons.prems True] by simp
      then show ?thesis by (intro exI [of _ 0]) simp
    next
      case False
      then have "run_readings r1 = run_readings r @ [(t, port_statistics (run_st r))]"
        using r1(1) Main_turn by (auto simp: main_turn_def)
      then show ?thesis using k Main_turn by (intro exI [of _ "Suc k"]) simp
    qed
  next
    case (Worker_turn l inp)
    then have "run_readings r1 = run_readings r"
      using r1(1) by (auto simp: worker_turn_def split: option.splits Option.bind_splits outcome.splits if_splits)
    then show ?thesis using k Worker_turn by (intro exI [of _ k]) simp
  next
    case (Signal_raised s)
    then show ?thesis using k r1(1) by (intro exI [of _ k]) auto
  qed
qed simp

section \<open>The end\<close>

fun worker_turns :: "nat \<Rightarrow> run_event list \<Rightarrow> nat" where
  "worker_turns l [] = 0"
| "worker_turns l (Worker_turn l' inp # es) = (if l' = l then 1 else 0) + worker_turns l es"
| "worker_turns l (Main_turn t # es) = worker_turns l es"
| "worker_turns l (Signal_raised s # es) = worker_turns l es"

text \<open>The turns a worker still takes once \<open>force_quit\<close> is set: it finishes its round.\<close>

definition turns_left :: "lcore_queue_conf \<Rightarrow> l2fwd_run \<Rightarrow> nat \<Rightarrow> nat" where
  "turns_left conf r l = (case run_pos r l of
     None \<Rightarrow> 0 | Some i \<Rightarrow> if i = 0 then 1 else Suc (length (conf l) - i))"

lemma run_step_turns_left:
  assumes "run_step crc ra cfg conf end_tsc e r = Some (Return r')" and "run_quit r"
    and "\<forall>l i. run_pos r l = Some i \<longrightarrow> i < length (conf l)"
  shows "turns_left conf r' l \<le> turns_left conf r l - worker_turns l [e]"
proof (cases e)
  case (Worker_turn l' inp)
  show ?thesis
  proof (cases "run_pos r l'")
    case None
    then show ?thesis using assms(1) Worker_turn by (auto simp: worker_turn_def turns_left_def)
  next
    case (Some i)
    then have i: "i < length (conf l')" using assms(3) by blast
    show ?thesis
    proof (cases "i = 0")
      case True
      then show ?thesis using assms(1,2) Worker_turn Some by (auto simp: worker_turn_def turns_left_def)
    next
      case False
      then have "run_pos r' = (run_pos r)(l' := Some (if Suc i < length (conf l') then Suc i else 0))"
        using assms(1) Worker_turn Some
        by (auto simp: worker_turn_def split: Option.bind_splits outcome.splits)
      then show ?thesis using Worker_turn Some False i by (auto simp: turns_left_def)
    qed
  qed
next
  case (Main_turn t)
  then show ?thesis using assms(1) by (auto simp: main_turn_def turns_left_def)
next
  case (Signal_raised s)
  then show ?thesis using assms(1) by (auto simp: turns_left_def)
qed

lemma run_events_end:
  assumes "config_ok cfg" and "run_ok crc cfg conf r" and "\<forall>e \<in> set es. event_ok e"
    and "run_quit r" and "run_events crc True cfg conf end_tsc es r = Some (Return r')"
  shows "turns_left conf r' l \<le> turns_left conf r l - worker_turns l es"
  using assms(2-)
proof (induction es arbitrary: r)
  case (Cons e es)
  obtain r1 where r1: "run_step crc True cfg conf end_tsc e r = Some (Return r1)" "run_ok crc cfg conf r1"
    using run_step_ok [OF assms(1) Cons.prems(1)] Cons.prems(2) by (meson list.set_intros(1))
  then have es: "run_events crc True cfg conf end_tsc es r1 = Some (Return r')" using Cons.prems(4) by simp
  have "run_events crc True cfg conf end_tsc [e] r = Some (Return r1)" using r1(1) by simp
  then have q: "run_quit r1" using run_events_quit Cons.prems(3) by blast
  have "\<forall>l i. run_pos r l = Some i \<longrightarrow> i < length (conf l)" using Cons.prems(1) by (simp add: run_ok_def)
  then have "turns_left conf r1 l \<le> turns_left conf r l - worker_turns l [e]"
    using run_step_turns_left [OF r1(1) Cons.prems(3)] by blast
  moreover have "turns_left conf r' l \<le> turns_left conf r1 l - worker_turns l es"
    using Cons.IH [OF r1(2) _ q es] Cons.prems(2) by simp
  moreover have "worker_turns l (e # es) = worker_turns l [e] + worker_turns l es" by (cases e) auto
  ultimately show ?case by linarith
qed simp

lemma turns_left_bound:
  assumes "run_ok crc cfg conf r"
  shows "turns_left conf r l \<le> length (conf l)"
proof (cases "run_pos r l")
  case (Some i)
  then have "i < length (conf l)" using assms by (simp add: run_ok_def)
  then show ?thesis using Some by (simp add: turns_left_def) arith
qed (simp add: turns_left_def)

lemma turns_left_0: "turns_left conf r l = 0 \<longleftrightarrow> run_pos r l = None"
  by (auto simp: turns_left_def split: option.split)

text \<open>As many turns as a core has queues are enough after \<open>force_quit\<close>.\<close>

lemma run_comes_to_end:
  assumes "config_ok cfg" and "run_ok crc cfg conf r" and "\<forall>e \<in> set es. event_ok e"
    and "run_quit r" and "\<forall>l \<in> set lcores. length (conf l) \<le> worker_turns l es"
    and "run_events crc True cfg conf end_tsc es r = Some (Return r')"
  shows "run_over lcores r'"
  unfolding run_over_def
proof (intro conjI ballI)
  show "run_quit r'" using run_events_quit [OF assms(6,4)] by simp
  fix l assume "l \<in> set lcores"
  then have "turns_left conf r l \<le> worker_turns l es"
    using turns_left_bound [OF assms(2), of l] assms(5) order_trans by blast
  then have "turns_left conf r' l = 0" using run_events_end [OF assms(1-4,6), of l] by simp
  then show "run_pos r' l = None" by (simp add: turns_left_0)
qed

end
