(* ===== verification/L2fwd_Main.thy ===== *)
theory L2fwd_Main
  imports L2fwd_Run
begin

text \<open>
  \<open>l2fwd/main.c\<close>, \<open>main\<close> from its first line to its last: the checks and allocations of the start,
  the run of \<open>L2fwd_Run\<close>, and the release.  What DPDK, the C library and the devices answer is a
  record, the environment; what happens while the program runs is the list of events of the run.
\<close>

section \<open>The environment\<close>

text \<open>
  In the order \<open>main\<close> asks for it: the result of \<open>rte_eal_init\<close>, the options, the clock rates, the
  ports and cores, whether the packet buffers are granted, the hash types the devices offer, the
  answers of the driver, the addresses of the ports, the transmit buffers that cannot be had, the
  memory of the tables and of the samples (which holds anything), the arrays on the stacks of the
  workers, and the clock when the loops start.
\<close>

record l2fwd_env =
  eal_result :: int
  getopt_events :: "opt_event list"
  timer_hz :: u64
  clock_hz :: u64
  dev_ports :: "nat list"
  lcore_on :: "nat \<Rightarrow> bool"
  main_core :: nat
  max_lcore :: nat
  max_ethports :: nat
  pool_granted :: "u32 \<Rightarrow> bool"
  rss_types :: u64
  rss_offered :: "nat \<Rightarrow> u64"
  driver :: "dev_call list \<Rightarrow> dev_call \<Rightarrow> int"
  mac_of_port :: "nat \<Rightarrow> u8 list"
  buffer_fails :: "nat \<Rightarrow> nat \<Rightarrow> bool"
  table_alloc :: "u64 \<Rightarrow> maglev_kv_pair list option"
  heap_fails :: "nat \<Rightarrow> bool"
  ring_memory :: "nat \<Rightarrow> nat \<Rightarrow> dramblast_queue_item"
  heap_before :: heap
  samples_memory :: "u32 list"
  stack_memory :: "nat \<Rightarrow> u64 list"
  start_clock :: u64

section \<open>The start\<close>

text \<open>The variable \<open>ret\<close> holds the answer of the last call that was checked.\<close>

fun last_answer :: "(dev_call list \<Rightarrow> dev_call \<Rightarrow> int) \<Rightarrow> (dev_call \<times> bool) list \<Rightarrow> dev_call list \<Rightarrow> int \<Rightarrow> int" where
  "last_answer answer [] made ret = ret"
| "last_answer answer ((c, checked) # cs) made ret =
     last_answer answer cs (made @ [c]) (if checked then answer made c else ret)"

record l2fwd_booted =
  boot_options :: l2fwd_options
  boot_dst :: "nat \<Rightarrow> nat"
  boot_conf :: lcore_queue_conf
  boot_calls :: "dev_call list"
  boot_buffers :: "nat \<Rightarrow> nat \<Rightarrow> bool"
  boot_tables :: l2fwd_tables
  boot_ret :: int

text \<open>From the tables on: the ports are up.\<close>

definition l2fwd_boot_tables ::
  "l2fwd_env \<Rightarrow> l2fwd_options \<Rightarrow> lcore_queue_conf \<Rightarrow> dev_call list \<Rightarrow> int \<Rightarrow> l2fwd_booted outcome option" where
  "l2fwd_boot_tables e o1 conf made ret =
     (let pmask = l2fwd_enabled_port_mask o1 in
      case init_tx_buffers (buffer_fails e) pmask (dev_ports e) conf [0..<max_lcore e] (\<lambda>_ _. False) of
        Exit c \<Rightarrow> Some (Exit c)
      | Return bufs \<Rightarrow>
          (case l2fwd_init_mode (table_alloc e) (heap_fails e) (ring_memory e) o1 (static_tables (heap_before e)) of
             None \<Rightarrow> None
           | Some (Exit c) \<Rightarrow> Some (Exit c)
           | Some (Return t) \<Rightarrow> Some (Return
               \<lparr>boot_options = o1, boot_dst = map_dst_ports pmask (dev_ports e), boot_conf = conf,
                boot_calls = made, boot_buffers = bufs, boot_tables = t, boot_ret = ret\<rparr>)))"

text \<open>From the ports on: the options are parsed and the period is in cycles.\<close>

definition l2fwd_boot_ports :: "l2fwd_env \<Rightarrow> l2fwd_options \<Rightarrow> l2fwd_booted outcome option" where
  "l2fwd_boot_ports e o1 =
     (let pmask = l2fwd_enabled_port_mask o1;
          queues = l2fwd_queues_per_port o1;
          nb_ports = length (dev_ports e) in
      if nb_ports = 0 then Some (Exit 1)
      else case distribute_queues (lcore_on e) (main_core e) (max_lcore e) pmask (dev_ports e) (unat queues) of
        Exit c \<Rightarrow> Some (Exit c)
      | Return conf \<Rightarrow>
          if \<not> pool_granted e (nb_mbufs (of_nat nb_ports) queues RTE_TEST_RX_DESC_DEFAULT RTE_TEST_TX_DESC_DEFAULT
                 (max_lcore e))
          then Some (Exit 1)
          else
            let ups = l2fwd_ports_up (rss_types e) (rss_offered e) pmask (dev_ports e) (unat queues) in
            (case make_calls (driver e) ups [] of
               (Exit c, made) \<Rightarrow> Some (Exit c)
             | (Return u, made) \<Rightarrow>
                 l2fwd_boot_tables e o1 conf made (last_answer (driver e) ups [] (eal_result e))))"

definition l2fwd_boot :: "l2fwd_env \<Rightarrow> l2fwd_booted outcome option" where
  "l2fwd_boot e =
     (if eal_result e < 0 then Some (Exit 1)
      else case l2fwd_parse_args (getopt_events e) default_options of
        None \<Rightarrow> Some (Exit 1)
      | Some o0 \<Rightarrow> l2fwd_boot_ports e (o0\<lparr>timer_period := timer_period o0 * timer_hz e\<rparr>))"

section \<open>The workers\<close>

text \<open>The addresses of the ports that are not enabled stay zero.\<close>

definition ports_eth_addr :: "l2fwd_env \<Rightarrow> u32 \<Rightarrow> nat \<Rightarrow> u8 list" where
  "ports_eth_addr e pmask portid =
     (if portid \<in> set (enabled_ports pmask (dev_ports e)) then mac_of_port e portid else replicate 6 0)"

definition boot_config :: "l2fwd_env \<Rightarrow> l2fwd_booted \<Rightarrow> l2fwd_config" where
  "boot_config e b = core_config (boot_options b) (boot_tables b) (boot_dst b)
     (ports_eth_addr e (l2fwd_enabled_port_mask (boot_options b)))"

text \<open>Every worker starts with its list of queues, after the statistics were cleared.\<close>

definition run_start :: "l2fwd_env \<Rightarrow> l2fwd_booted \<Rightarrow> l2fwd_run" where
  "run_start e b = \<lparr>run_st = core_state (boot_tables b) [], run_macs = stack_memory e,
     run_pos = worker_start (boot_conf b), run_quit = False, run_readings = [], run_log = []\<rparr>"

definition end_clock :: "l2fwd_env \<Rightarrow> u64" where
  "end_clock e = start_clock e + clock_hz e * of_nat TOTAL_SAMPLES"

text \<open>What \<open>l2fwd_launch_one_lcore\<close> returns once its loop is left, and the main core's wait for it.\<close>

definition l2fwd_launch_one_lcore :: int where
  "l2fwd_launch_one_lcore = 0"

fun wait_workers :: "(nat \<Rightarrow> int) \<Rightarrow> nat list \<Rightarrow> int \<Rightarrow> int" where
  "wait_workers result [] ret = ret"
| "wait_workers result (lcore_id # lcores) ret =
     (if result lcore_id < 0 then -1 else wait_workers result lcores ret)"

section \<open>The whole of main\<close>

record l2fwd_end =
  end_status :: int
  end_lines :: "print_lines list"
  end_summary :: "(u64 \<times> u64 \<times> nat \<times> nat) option"
  end_calls :: "dev_call list"
  end_tables :: l2fwd_tables
  end_run :: l2fwd_run

text \<open>The root of the table as it is when the workers are done.\<close>

definition tables_after :: "l2fwd_tables \<Rightarrow> l2fwd_run \<Rightarrow> l2fwd_tables" where
  "tables_after t r = t\<lparr>tab_maglev := maglev_st (run_st r),
     tab_dram := map_option (\<lambda>root. root\<lparr>root_ht := dram_ht (run_st r)\<rparr>) (tab_dram t)\<rparr>"

text \<open>The result is \<open>None\<close> while some core is still in its loop.\<close>

definition l2fwd_finish ::
  "(u64 \<Rightarrow> u32) \<Rightarrow> l2fwd_env \<Rightarrow> l2fwd_booted \<Rightarrow> l2fwd_run \<Rightarrow> l2fwd_end option option" where
  "l2fwd_finish mpps e b r =
     (let o1 = boot_options b;
          pmask = l2fwd_enabled_port_mask o1;
          workers = worker_cores (lcore_on e) (main_core e) (max_lcore e) 0 in do {
        (lines, smp) \<leftarrow> stats_main mpps (max_ethports e) (max_lcore e) pmask (timer_period o1) (clock_hz e)
          (start_clock e) (samples_memory e) (run_readings r);
        if \<not> run_over workers r then Some None
        else do {
          summary \<leftarrow> print_final_stats smp;
          let ret = wait_workers (\<lambda>_. l2fwd_launch_one_lcore) workers (boot_ret b);
          let (done, made) = make_calls (driver e) (l2fwd_ports_down pmask (dev_ports e)) (boot_calls b);
          t \<leftarrow> l2fwd_release o1 (tables_after (boot_tables b) r);
          Some (Some \<lparr>end_status = ret, end_lines = lines, end_summary = summary, end_calls = made,
                      end_tables = t, end_run = r\<rparr>)
        }
      })"

definition l2fwd_main ::
  "(u64 \<Rightarrow> u64 \<Rightarrow> u64) \<Rightarrow> bool \<Rightarrow> (u64 \<Rightarrow> u32) \<Rightarrow> l2fwd_env \<Rightarrow> run_event list \<Rightarrow> l2fwd_end option outcome option" where
  "l2fwd_main crc ra mpps e es = do {
     booted \<leftarrow> l2fwd_boot e;
     case booted of
       Exit c \<Rightarrow> Some (Exit c)
     | Return b \<Rightarrow> do {
         out \<leftarrow> run_events crc ra (boot_config e b) (boot_conf b) (end_clock e) es (run_start e b);
         case out of
           Exit c \<Rightarrow> Some (Exit c)
         | Return r \<Rightarrow> do { f \<leftarrow> l2fwd_finish mpps e b r; Some (Return f) }
       }
   }"

section \<open>When the start fails\<close>

definition mode_fails :: "l2fwd_env \<Rightarrow> l2fwd_options \<Rightarrow> bool" where
  "mode_fails e o1 \<longleftrightarrow>
     (if maglev_flag o1 \<noteq> 0 then table_alloc e (opt_CAPACITY o1 * 16) = None
      else sashstore_flag o1 \<noteq> 0 \<or>
        dramblast_flag o1 \<noteq> 0 \<and>
          (heap_fails e (allocations (heap_before e)) \<or> heap_fails e (allocations (heap_before e) + 130)))"

definition l2fwd_boot_fails :: "l2fwd_env \<Rightarrow> bool" where
  "l2fwd_boot_fails e \<longleftrightarrow> eal_result e < 0 \<or>
     (case l2fwd_parse_args (getopt_events e) default_options of
        None \<Rightarrow> True
      | Some o1 \<Rightarrow>
          let en = enabled_ports (l2fwd_enabled_port_mask o1) (dev_ports e);
              q = l2fwd_queues_per_port o1;
              workers = worker_cores (lcore_on e) (main_core e) (max_lcore e) 0
          in dev_ports e = [] \<or>
             length workers < length en * unat q \<or>
             \<not> pool_granted e (nb_mbufs (of_nat (length (dev_ports e))) q RTE_TEST_RX_DESC_DEFAULT
                 RTE_TEST_TX_DESC_DEFAULT (max_lcore e)) \<or>
             some_call_fails (driver e)
               (l2fwd_ports_up (rss_types e) (rss_offered e) (l2fwd_enabled_port_mask o1) (dev_ports e) (unat q)) \<or>
             (\<exists>l \<in> set (take (length en * unat q) workers). \<exists>p \<in> set en. buffer_fails e l p) \<or>
             mode_fails e o1)"

lemma one_each_used: "one_each ws qs (\<lambda>_. []) l \<noteq> [] \<longleftrightarrow> l \<in> set (take (length qs) ws)"
proof -
  have "one_each ws qs (\<lambda>_. []) l \<noteq> [] \<longleftrightarrow> l \<in> fst ` set (zip ws qs)"
    by (auto simp: one_each_def map_of_eq_None_iff split: option.split) (metis map_of_eq_None_iff option.distinct(1))
  also have "fst ` set (zip ws qs) = set (take (length qs) ws)"
    using map_fst_zip_take [of ws qs] by (metis list.set_map set_take_subset min.cobounded1 take_all_iff take_take length_take nle_le)
  finally show ?thesis .
qed

lemma length_port_queues: "length (port_queues pmask ports q) = length (enabled_ports pmask ports) * q"
  by (induction ports) (simp_all add: port_queues_def enabled_ports_def)

lemma one_each_length: "length (one_each ws qs (\<lambda>_. []) l) \<le> 1"
  by (simp add: one_each_def split: option.split)

section \<open>The tables\<close>

text \<open>
  What the code relies on: cores are below DPDK's limit, which is at most 128; a port is listed
  once and has an address of six bytes; \<open>aligned_alloc\<close> returns blocks of the size asked for; of
  the DRAMBlast allocations only the root and the table may fail, since the others are not
  checked; the arrays have their sizes.
\<close>

definition env_ok :: "l2fwd_env \<Rightarrow> bool" where
  "env_ok e \<longleftrightarrow>
     (\<forall>k. lcore_on e k \<longrightarrow> k < max_lcore e) \<and> max_lcore e \<le> 128 \<and> distinct (dev_ports e) \<and>
     (\<forall>p. length (mac_of_port e p) = 6) \<and>
     (\<forall>n ps. table_alloc e n = Some ps \<longrightarrow> length ps * 16 = unat n) \<and>
     (\<forall>n. heap_fails e n \<longrightarrow> n = allocations (heap_before e) \<or> n = allocations (heap_before e) + 130) \<and>
     wf_heap (heap_before e) \<and> length (samples_memory e) = TOTAL_SAMPLES \<and>
     (\<forall>l. length (stack_memory e l) = 64)"

text \<open>A DRAMBlast table has at least one bucket.\<close>

definition capacity_used :: "l2fwd_options \<Rightarrow> bool" where
  "capacity_used o1 \<longleftrightarrow> (maglev_flag o1 = 0 \<and> dramblast_flag o1 \<noteq> 0 \<longrightarrow> 4 \<le> opt_CAPACITY o1)"

definition tables_ready :: "(u64 \<Rightarrow> u64 \<Rightarrow> u64) \<Rightarrow> l2fwd_options \<Rightarrow> l2fwd_tables \<Rightarrow> bool" where
  "tables_ready crc o1 t \<longleftrightarrow>
     (\<forall>l<128. \<forall>macs dst eth. length macs = 64 \<longrightarrow> state_ok crc (core_config o1 t dst eth) l (core_state t macs))"

text \<open>The tables can be released, and leave the memory as it was before.\<close>

definition tables_release :: "l2fwd_options \<Rightarrow> l2fwd_tables \<Rightarrow> heap \<Rightarrow> bool" where
  "tables_release o1 t h \<longleftrightarrow>
     (\<exists>t'. l2fwd_release o1 t = Some t' \<and> blocks (tab_heap t') = blocks h \<and> mappings (tab_heap t') = mappings h)"

lemma destroy_length:
  assumes "ht_len ht = ht_len (root_ht r)"
  shows "dramblast_destroy (Some (r\<lparr>root_ht := ht\<rparr>)) h = dramblast_destroy (Some r) h"
  using assms by (simp add: dramblast_destroy_def Let_def cong: option.case_cong)

lemma mode_cases:
  assumes "env_ok e" and "capacity_ok (opt_CAPACITY o1)" and "capacity_used o1"
  shows "if mode_fails e o1
    then l2fwd_init_mode (table_alloc e) (heap_fails e) (ring_memory e) o1 (static_tables (heap_before e)) = Some (Exit 1)
    else \<exists>t. l2fwd_init_mode (table_alloc e) (heap_fails e) (ring_memory e) o1 (static_tables (heap_before e)) = Some (Return t) \<and>
      tables_ready crc o1 t \<and> tables_release o1 t (heap_before e)"
proof -
  let ?t = "static_tables (heap_before e)" and ?h = "heap_before e"
  let ?init = "l2fwd_init_mode (table_alloc e) (heap_fails e) (ring_memory e) o1 ?t"
  have cap: "table_bytes_ok (opt_CAPACITY o1)" "pow2_u64 (opt_CAPACITY o1)" "opt_CAPACITY o1 \<le> 2 ^ 32"
    using assms(2) by (simp_all add: capacity_ok_iff table_bytes_ok_def)
  have lut: "length (maglev_lookup (tab_maglev ?t)) = TABLE_SIZE" "length (tab_backends ?t) = TABLE_SIZE"
    by (simp_all add: static_tables_def)
  have none: "l2fwd_release o1 t = Some (t\<lparr>tab_dram := None, tab_heap := ?h\<rparr>)"
    if "tab_dram t = None" "tab_heap t = ?h" for t
    using that by (simp add: l2fwd_release_def dramblast_destroy_def)
  have keep: "tables_release o1 t ?h" if "tab_dram t = None" "tab_heap t = ?h" for t
    using none [OF that] by (simp add: tables_release_def)
  consider (maglev) "maglev_flag o1 \<noteq> 0"
    | (sash) "maglev_flag o1 = 0" "sashstore_flag o1 \<noteq> 0"
    | (dram) "maglev_flag o1 = 0" "sashstore_flag o1 = 0" "dramblast_flag o1 \<noteq> 0"
    | (plain) "maglev_flag o1 = 0" "sashstore_flag o1 = 0" "dramblast_flag o1 = 0" by blast
  then show ?thesis
  proof cases
    case maglev
    have a: "length ps * 16 = unat n" if "table_alloc e n = Some ps" for n ps
      using that assms(1) by (simp add: env_ok_def)
    note m = maglev_init_cases [where alloc = "table_alloc e" and crc = crc, OF cap(2,3) lut(1) a]
    show ?thesis
    proof (cases "table_alloc e (opt_CAPACITY o1 * 16)")
      case None
      then show ?thesis using m maglev by (simp add: mode_fails_def l2fwd_init_mode_def)
    next
      case (Some ps)
      then obtain mg where mg: "maglev_init (table_alloc e) (opt_CAPACITY o1) (tab_maglev ?t) = Some (Return mg)"
        "maglev_ok crc (opt_CAPACITY o1) mg" using m by auto
      have "tables_release o1 (?t\<lparr>tab_maglev := mg\<rparr>) ?h" by (rule keep) (simp_all add: static_tables_def)
      then show ?thesis using mg maglev Some
        by (simp add: mode_fails_def l2fwd_init_mode_def tables_ready_def state_ok_def core_config_def core_state_def)
    qed
  next
    case sash
    then show ?thesis by (simp add: mode_fails_def l2fwd_init_mode_def)
  next
    case plain
    have "tables_release o1 ?t ?h" by (rule keep) (simp_all add: static_tables_def)
    then show ?thesis using plain
      by (simp add: mode_fails_def l2fwd_init_mode_def tables_ready_def state_ok_def core_config_def core_state_def)
  next
    case dram
    have h: "tab_heap ?t = ?h" by (simp add: static_tables_def)
    show ?thesis
    proof (cases "heap_fails e (allocations ?h) \<or> heap_fails e (allocations ?h + 130)")
      case True
      have "\<not> heap_fails e (Suc (allocations ?h))" using assms(1) by (auto simp: env_ok_def)
      then have "dramblast_init (heap_fails e) (ring_memory e) (opt_CAPACITY o1) (tab_backends ?t) ?h = Some (Exit 1)"
        using dramblast_init_unfold [OF cap(1) lut(2), of "heap_fails e" ?h "ring_memory e"] True by (auto split: if_splits)
      then show ?thesis using dram True h by (simp add: mode_fails_def l2fwd_init_mode_def)
    next
      case False
      then have f: "heap_fails e = (\<lambda>_. False)" using assms(1) by (auto simp: env_ok_def fun_eq_iff)
      have "4 \<le> opt_CAPACITY o1" using dram assms(3) by (simp add: capacity_used_def)
      then obtain r h' where i: "dramblast_init (\<lambda>_. False) (ring_memory e) (opt_CAPACITY o1) (tab_backends ?t) ?h =
          Some (Return (r, replicate TABLE_SIZE 0xff, h'))" "\<forall>tid<128. dram_ready crc (root_ht r) tid"
        using dramblast_init_granted [OF cap(1) _ lut(2), of "ring_memory e" ?h crc] by blast
      have "wf_heap ?h" using assms(1) by (simp add: env_ok_def)
      then obtain h'' where "dramblast_destroy (Some r) h' = Some (None, h'')" "blocks h'' = blocks ?h" "mappings h'' = mappings ?h"
        using dramblast_destroy_initial [OF cap(1) lut(2) _ i(1)] by blast
      then show ?thesis
        using dram False f i h
        by (simp add: mode_fails_def l2fwd_init_mode_def tables_ready_def tables_release_def l2fwd_release_def
            state_ok_def core_config_def core_state_def)
    qed
  qed
qed

lemma release_after:
  assumes "tables_release o1 t h" and "ht_len (dram_ht (run_st r)) = ht_len (dram_ht (core_state t macs))"
  shows "tables_release o1 (tables_after t r) h"
proof -
  have "map_option (\<lambda>t. tab_heap t) (l2fwd_release o1 (tables_after t r)) = map_option (\<lambda>t. tab_heap t) (l2fwd_release o1 t)"
  proof (cases "tab_dram t")
    case None
    then show ?thesis by (simp add: l2fwd_release_def tables_after_def dramblast_destroy_def)
  next
    case (Some root)
    then have "ht_len (dram_ht (run_st r)) = ht_len (root_ht root)" using assms(2) by (simp add: core_state_def)
    from destroy_length [OF this, of "tab_heap t"] Some show ?thesis
      by (cases "dramblast_destroy (Some root) (tab_heap t)") (auto simp: l2fwd_release_def tables_after_def)
  qed
  then show ?thesis using assms(1) by (fastforce simp: tables_release_def)
qed

section \<open>The start, as a whole\<close>

lemma boot_tables_eq:
  assumes "env_ok e" and "capacity_ok (opt_CAPACITY o1)" and "capacity_used o1"
  shows "if (\<exists>l \<in> set [0..<max_lcore e]. conf l \<noteq> [] \<and>
      (\<exists>p \<in> set (enabled_ports (l2fwd_enabled_port_mask o1) (dev_ports e)). buffer_fails e l p)) \<or> mode_fails e o1
    then l2fwd_boot_tables e o1 conf made ret = Some (Exit 1)
    else \<exists>t bufs. l2fwd_boot_tables e o1 conf made ret = Some (Return
        \<lparr>boot_options = o1, boot_dst = map_dst_ports (l2fwd_enabled_port_mask o1) (dev_ports e), boot_conf = conf,
         boot_calls = made, boot_buffers = bufs, boot_tables = t, boot_ret = ret\<rparr>) \<and>
      tables_ready crc o1 t \<and> tables_release o1 t (heap_before e)"
  using mode_cases [OF assms, of crc]
  by (auto simp: l2fwd_boot_tables_def init_tx_buffers_eq Let_def split: if_splits)

definition boot_of :: "l2fwd_env \<Rightarrow> l2fwd_options \<Rightarrow> l2fwd_booted \<Rightarrow> bool" where
  "boot_of e o1 b \<longleftrightarrow>
     boot_options b = o1\<lparr>timer_period := timer_period o1 * timer_hz e\<rparr> \<and>
     boot_conf b = one_each (worker_cores (lcore_on e) (main_core e) (max_lcore e) 0)
       (port_queues (l2fwd_enabled_port_mask o1) (dev_ports e) (unat (l2fwd_queues_per_port o1))) (\<lambda>_. []) \<and>
     (let ups = l2fwd_ports_up (rss_types e) (rss_offered e) (l2fwd_enabled_port_mask o1) (dev_ports e)
        (unat (l2fwd_queues_per_port o1)) in
      \<not> some_call_fails (driver e) ups \<and> boot_calls b = List.map fst ups \<and>
      boot_ret b = last_answer (driver e) ups [] (eal_result e))"

lemma boot_cases:
  assumes "env_ok e" and "\<forall>o1. l2fwd_parse_args (getopt_events e) default_options = Some o1 \<longrightarrow> capacity_used o1"
  shows "if l2fwd_boot_fails e then l2fwd_boot e = Some (Exit 1)
    else \<exists>o1 b. l2fwd_parse_args (getopt_events e) default_options = Some o1 \<and> l2fwd_boot e = Some (Return b) \<and>
      boot_of e o1 b \<and> tables_ready crc (boot_options b) (boot_tables b) \<and>
      tables_release (boot_options b) (boot_tables b) (heap_before e) \<and> 0 \<le> eal_result e"
proof -
  consider (eal) "eal_result e < 0"
    | (args) "0 \<le> eal_result e" "l2fwd_parse_args (getopt_events e) default_options = None"
    | (go) o1 where "0 \<le> eal_result e" "l2fwd_parse_args (getopt_events e) default_options = Some o1"
    by fastforce
  then show ?thesis
  proof cases
    case (go o1)
    let ?o = "o1\<lparr>timer_period := timer_period o1 * timer_hz e\<rparr>"
    let ?m = "l2fwd_enabled_port_mask o1" and ?q = "l2fwd_queues_per_port o1"
    let ?w = "worker_cores (lcore_on e) (main_core e) (max_lcore e) 0" and ?en = "enabled_ports ?m (dev_ports e)"
    let ?conf = "one_each ?w (port_queues ?m (dev_ports e) (unat ?q)) (\<lambda>_. [])"
    let ?ups = "l2fwd_ports_up (rss_types e) (rss_offered e) ?m (dev_ports e) (unat ?q)"
    let ?made = "List.map fst ?ups" and ?ret = "last_answer (driver e) ?ups [] (eal_result e)"
    have cap: "capacity_ok (opt_CAPACITY ?o)" "capacity_used ?o"
      using l2fwd_parse_args_ok [OF go(2)] assms(2) go(2) by (simp_all add: capacity_used_def)
    have on: "\<forall>k. lcore_on e k \<longrightarrow> k < max_lcore e" using assms(1) by (simp add: env_ok_def)
    have "set ?w \<subseteq> set [0..<max_lcore e]" by (auto simp: worker_cores_member)
    then have used: "(\<exists>l \<in> set [0..<max_lcore e]. ?conf l \<noteq> [] \<and> (\<exists>p \<in> set ?en. buffer_fails e l p)) \<longleftrightarrow>
        (\<exists>l \<in> set (take (length ?en * unat ?q) ?w). \<exists>p \<in> set ?en. buffer_fails e l p)"
      unfolding one_each_used length_port_queues using set_take_subset [of _ ?w] by blast
    have mode: "mode_fails e ?o = mode_fails e o1" by (simp add: mode_fails_def)
    note tab = boot_tables_eq [OF assms(1) cap, of ?conf ?made ?ret crc]
    note calls = make_calls_fails [of "driver e" ?ups]
    have boot: "l2fwd_boot e = l2fwd_boot_ports e ?o" using go by (simp add: l2fwd_boot_def)
    consider (noport) "dev_ports e = []" | (cores) "dev_ports e \<noteq> []" "length ?w < length ?en * unat ?q"
      | (pool) "dev_ports e \<noteq> []" "\<not> length ?w < length ?en * unat ?q" "\<not> pool_granted e (nb_mbufs (of_nat (length (dev_ports e))) ?q RTE_TEST_RX_DESC_DEFAULT RTE_TEST_TX_DESC_DEFAULT (max_lcore e))"
      | (calls) "dev_ports e \<noteq> []" "\<not> length ?w < length ?en * unat ?q" "pool_granted e (nb_mbufs (of_nat (length (dev_ports e))) ?q RTE_TEST_RX_DESC_DEFAULT RTE_TEST_TX_DESC_DEFAULT (max_lcore e))" "some_call_fails (driver e) ?ups"
      | (up) "dev_ports e \<noteq> []" "\<not> length ?w < length ?en * unat ?q" "pool_granted e (nb_mbufs (of_nat (length (dev_ports e))) ?q RTE_TEST_RX_DESC_DEFAULT RTE_TEST_TX_DESC_DEFAULT (max_lcore e))" "\<not> some_call_fails (driver e) ?ups"
      by blast
    then show ?thesis
    proof cases
      case noport
      then show ?thesis using go boot by (simp add: l2fwd_boot_fails_def l2fwd_boot_ports_def)
    next
      case cores
      then show ?thesis using go boot by (simp add: l2fwd_boot_fails_def l2fwd_boot_ports_def distribute_queues_eq [OF on] Let_def)
    next
      case pool
      then show ?thesis using go boot by (simp add: l2fwd_boot_fails_def l2fwd_boot_ports_def distribute_queues_eq [OF on] Let_def)
    next
      case calls
      then show ?thesis using go boot make_calls_fails [of "driver e" ?ups]
        by (auto simp: l2fwd_boot_fails_def l2fwd_boot_ports_def distribute_queues_eq [OF on] Let_def)
    next
      case up
      then have b: "l2fwd_boot e = l2fwd_boot_tables e ?o ?conf ?made ?ret"
        using boot make_calls_fails [of "driver e" ?ups]
        by (simp add: l2fwd_boot_ports_def distribute_queues_eq [OF on] Let_def)
      have f: "l2fwd_boot_fails e \<longleftrightarrow> (\<exists>l \<in> set [0..<max_lcore e]. ?conf l \<noteq> [] \<and>
          (\<exists>p \<in> set (enabled_ports (l2fwd_enabled_port_mask ?o) (dev_ports e)). buffer_fails e l p)) \<or> mode_fails e ?o"
        using up go by (simp add: l2fwd_boot_fails_def Let_def used mode del: set_upt)
      show ?thesis
      proof (cases "l2fwd_boot_fails e")
        case True
        then show ?thesis using tab [folded f] unfolding b by (simp only: if_True)
      next
        case False
        then obtain t bufs where t: "l2fwd_boot e = Some (Return
            \<lparr>boot_options = ?o, boot_dst = map_dst_ports ?m (dev_ports e), boot_conf = ?conf,
             boot_calls = ?made, boot_buffers = bufs, boot_tables = t, boot_ret = ?ret\<rparr>)"
          "tables_ready crc ?o t" "tables_release ?o t (heap_before e)"
          using tab [folded f] unfolding b by auto
        then show ?thesis using False go up
          by (simp add: boot_of_def Let_def)
      qed
    qed
  qed (simp_all add: l2fwd_boot_def l2fwd_boot_fails_def)
qed

end
