(* ===== verification/L2fwd_Program.thy ===== *)
theory L2fwd_Program
  imports L2fwd_Main
begin

text \<open>
  What \<open>main\<close> of \<open>l2fwd/main.c\<close> does: when it gives up, that it comes to its end, and what holds
  then, for every environment and every interleaving of its cores.
\<close>

section \<open>The value returned\<close>

lemma last_answer_nonneg:
  assumes "\<forall>k<length cs. snd (cs ! k) \<longrightarrow> \<not> answer (made @ take k (List.map fst cs)) (fst (cs ! k)) < 0" and "0 \<le> ret"
  shows "0 \<le> last_answer answer cs made ret"
  using assms
proof (induction cs arbitrary: made ret)
  case (Cons c cs)
  have "snd c \<longrightarrow> \<not> answer made (fst c) < 0" using spec [OF Cons.prems(1), of 0] by simp
  moreover have "\<forall>k<length cs. snd (cs ! k) \<longrightarrow> \<not> answer ((made @ [fst c]) @ take k (List.map fst cs)) (fst (cs ! k)) < 0"
    using Cons.prems(1) by (auto dest: spec [of _ "Suc _"])
  ultimately show ?case using Cons.IH [of "made @ [fst c]"] Cons.prems(2) by (cases c) auto
qed simp

lemma last_answer_le:
  assumes "\<forall>m c. answer m c \<le> 0" and "ret \<le> 0 \<or> (\<exists>c \<in> set cs. snd c)"
  shows "last_answer answer cs made ret \<le> 0"
  using assms(2)
proof (induction cs arbitrary: made ret)
  case (Cons c cs)
  then show ?case using assms(1) by (cases c) auto
qed simp

lemma wait_workers_zero: "wait_workers (\<lambda>_. l2fwd_launch_one_lcore) ls ret = ret"
  by (induction ls) (simp_all add: l2fwd_launch_one_lcore_def)

section \<open>The printed lines\<close>

lemma print_ports_lines:
  "print_ports n pmask ps ports prev fw ht = (ls, r) \<Longrightarrow> line \<in> set ls \<Longrightarrow>
   line_agg line = get_aggregated_stats n ps (line_port line)"
proof (induction ports arbitrary: prev fw ht ls r)
  case (Cons p ports)
  show ?case
  proof (cases "port_enabled pmask p")
    case True
    let ?agg = "get_aggregated_stats n ps p"
    obtain ls' where ls': "print_ports n pmask ps ports ?agg (fw + fwded ?agg) (ht + hash_tsc ?agg) = (ls', r)"
      "ls = \<lparr>line_port = p, line_agg = ?agg, line_average = average_rx_batch ?agg prev\<rparr> # ls'"
      using Cons.prems(1) True by (auto simp: Let_def split: prod.splits)
    then show ?thesis using Cons.IH [OF ls'(1)] Cons.prems(2) by (cases "line \<in> set ls'") simp_all
  next
    case False
    then show ?thesis using Cons by simp
  qed
qed simp

lemma print_stats_lines:
  assumes "print_stats mpps np nl pmask period ps st = Some (out, st')" and "line \<in> set (port_part out)"
  shows "line_agg line = get_aggregated_stats nl ps (line_port line)"
proof -
  obtain ls r where p: "print_ports nl pmask ps [0..<np] (prev_agg st) 0 0 = (ls, r)" by (metis surj_pair)
  then have "port_part out = ls"
    using assms(1) by (cases r) (auto simp: print_stats_def split: Option.bind_splits)
  then show ?thesis using print_ports_lines [OF p] assms(2) by simp
qed

lemma stats_loop_lines:
  assumes "stats_loop mpps np nl pmask period end_tsc turns prev st = Some (outs, st')"
    and "out \<in> set outs" and "line \<in> set (port_part out)"
  shows "\<exists>(t, ps) \<in> set turns. line_agg line = get_aggregated_stats nl ps (line_port line)"
  using assms(1,2)
proof (induction turns arbitrary: prev st outs)
  case (Cons turn turns)
  obtain cur ps where t: "turn = (cur, ps)" by (cases turn)
  obtain ls prev1 st1 where h: "(if cur - prev \<ge> period then do {
          (l, p') \<leftarrow> print_stats mpps np nl pmask period ps st;
          Some ([l], cur, p')
        } else Some ([], prev, st)) = Some (ls, prev1, st1)"
    "outs = ls \<and> st' = st1 \<or> (\<exists>ls'. stats_loop mpps np nl pmask period end_tsc turns prev1 st1 = Some (ls', st') \<and> outs = ls @ ls')"
    using Cons.prems(1) unfolding t by (auto split: Option.bind_splits if_splits)
  show ?case
  proof (cases "out \<in> set ls")
    case True
    then obtain l p' where "print_stats mpps np nl pmask period ps st = Some (l, p')" "out = l"
      using h(1) by (auto split: if_splits Option.bind_splits)
    then show ?thesis using print_stats_lines assms(3) t by fastforce
  next
    case False
    then obtain ls' where "stats_loop mpps np nl pmask period end_tsc turns prev1 st1 = Some (ls', st')" "out \<in> set ls'"
      using h(2) Cons.prems(2) by auto
    then show ?thesis using Cons.IH by fastforce
  qed
qed simp

section \<open>The run of main\<close>

definition clock_ok :: "l2fwd_env \<Rightarrow> run_event list \<Rightarrow> bool" where
  "clock_ok e es \<longleftrightarrow>
     (\<forall>o1. l2fwd_parse_args (getopt_events e) default_options = Some o1 \<longrightarrow>
        (let period = timer_period o1 * timer_hz e in period = 0 \<or> clock_hz e \<le> period)) \<and>
     unat (start_clock e) + unat (clock_hz e) * 32 < 2 ^ 64 \<and> 0 < clock_hz e \<and>
     sorted (List.map unat (start_clock e # main_times es))"

lemma run_start_ok:
  assumes "env_ok e" and "boot_of e o1 b" and "tables_ready crc (boot_options b) (boot_tables b)"
  shows "config_ok (boot_config e b)" and "run_ok crc (boot_config e b) (boot_conf b) (run_start e b)"
proof -
  show "config_ok (boot_config e b)"
    using assms(1) by (simp add: config_ok_def boot_config_def core_config_def ports_eth_addr_def env_ok_def)
  have "l < 128" if "boot_conf b l \<noteq> []" for l
  proof -
    have "l \<in> set (worker_cores (lcore_on e) (main_core e) (max_lcore e) 0)"
      using that assms(2) by (auto simp: boot_of_def one_each_used dest: in_set_takeD)
    then show ?thesis using assms(1) by (simp add: worker_cores_member env_ok_def)
  qed
  moreover have "core_state t [] \<lparr>mac_addrs := m\<rparr> = core_state t m" for t m by (simp add: core_state_def)
  ultimately have "state_ok crc (boot_config e b) l ((core_state (boot_tables b) [])\<lparr>mac_addrs := stack_memory e l\<rparr>)"
    if "boot_conf b l \<noteq> []" for l
    using that assms(1,3) by (simp add: tables_ready_def boot_config_def env_ok_def)
  then show "run_ok crc (boot_config e b) (boot_conf b) (run_start e b)"
    by (auto simp: run_ok_def run_start_def worker_start_def core_state_def balanced_def zero_stats_def
        stats_count_def turns_of_def split: if_splits)
qed

text \<open>What holds at the end.\<close>

definition end_ok :: "l2fwd_env \<Rightarrow> l2fwd_end \<Rightarrow> bool" where
  "end_ok e f \<longleftrightarrow>
     dev_run (end_calls f) (\<lambda>_. Closed) = Some (\<lambda>_. Closed) \<and>
     blocks (tab_heap (end_tables f)) = blocks (heap_before e) \<and>
     mappings (tab_heap (end_tables f)) = mappings (heap_before e) \<and>
     (\<forall>out \<in> set (end_lines f). \<forall>line \<in> set (port_part out). balanced (line_agg line))"

lemma finish_cases:
  fixes e :: l2fwd_env and b :: l2fwd_booted
  defines "workers \<equiv> worker_cores (lcore_on e) (main_core e) (max_lcore e) 0"
  assumes "env_ok e" and "clock_ok e es" and "l2fwd_parse_args (getopt_events e) default_options = Some o1"
    and "boot_of e o1 b" and "tables_release (boot_options b) (tables_after (boot_tables b) r) (heap_before e)"
    and "run_ok crc cfg conf r" and "List.map fst (run_readings r) = take k (main_times es)"
  shows "if run_over workers r
    then \<exists>f. l2fwd_finish mpps e b r = Some (Some f) \<and> end_ok e f \<and> end_run f = r \<and> end_status f = boot_ret b
    else l2fwd_finish mpps e b r = Some None"
proof -
  let ?o = "boot_options b" and ?m = "l2fwd_enabled_port_mask o1"
  let ?per = "timer_period o1 * timer_hz e"
  have o: "?o = o1\<lparr>timer_period := ?per\<rparr>" using assms(5) by (simp add: boot_of_def)
  have fields: "l2fwd_enabled_port_mask ?o = ?m" "timer_period ?o = ?per" by (simp_all add: o)
  have per: "?per = 0 \<or> unat (clock_hz e) \<le> unat ?per"
    using assms(3,4) by (auto simp: clock_ok_def Let_def word_le_nat_alt)
  have ck: "unat (start_clock e) + unat (clock_hz e) * 32 < 2 ^ 64" "0 < unat (clock_hz e)"
    "sorted (List.map unat (start_clock e # main_times es))"
    using assms(3) by (auto simp: clock_ok_def word_less_nat_alt)
  let ?B = "unat (start_clock e)" and ?H = "unat (clock_hz e)" and ?st = "init_sampling (samples_memory e)"
  have B: "?B < ?B + 32 * ?H" using ck(2) by simp
  have en: "unat (end_clock e) = ?B + 32 * ?H"
    using ck(1) by (simp add: end_clock_def TOTAL_SAMPLES_def unat_word_ariths)
  have len: "length (samples_memory e) = TOTAL_SAMPLES" using assms(2) by (simp add: env_ok_def)
  have init: "paced ?B ?H ?per ?B ?st" using len by (simp add: paced_def init_sampling_def)
  have "List.map (\<lambda>t. unat (fst t)) (run_readings r) = List.map unat (List.map fst (run_readings r))" by simp
  then have times: "?B # List.map (\<lambda>t. unat (fst t)) (run_readings r) =
      take (Suc k) (List.map unat (start_clock e # main_times es))"
    unfolding assms(8) by (simp add: take_map)
  have srt: "sorted (?B # List.map (\<lambda>t. unat (fst t)) (run_readings r))"
    unfolding times by (rule sorted_wrt_take [OF ck(3)])
  obtain ls st where st: "stats_loop mpps (max_ethports e) (max_lcore e) ?m ?per (end_clock e) (run_readings r) (start_clock e) ?st =
      Some (ls, st)" "length (samples st) = TOTAL_SAMPLES" "unat (SAMPLE_SIZE st) \<le> 32"
    using stats_loop_paced [OF init B en per srt] by blast
  then have main: "stats_main mpps (max_ethports e) (max_lcore e) ?m ?per (clock_hz e) (start_clock e) (samples_memory e)
      (run_readings r) = Some (ls, st)" by (simp add: stats_main_def end_clock_def)
  have lines: "balanced (line_agg line)" if "out \<in> set ls" "line \<in> set (port_part out)" for out line
  proof -
    note out = that
    obtain t ps where tp: "(t, ps) \<in> set (run_readings r)" "line_agg line = get_aggregated_stats (max_lcore e) ps (line_port line)"
      using stats_loop_lines [OF st(1) out] by auto
    have "\<forall>(t, ps) \<in> set (run_readings r). \<forall>p l. balanced (ps p l)" using assms(7) by (simp add: run_ok_def)
    then have "\<forall>l. balanced (ps (line_port line) l)" using tp(1) by blast
    then show ?thesis unfolding tp(2) by (rule aggregated_balanced)
  qed
  show ?thesis
  proof (cases "run_over workers r")
    case False
    then show ?thesis using main by (simp add: l2fwd_finish_def fields workers_def [symmetric])
  next
    case True
    obtain summary where sm: "print_final_stats st = Some summary"
      using final_stats_spec [OF st(3,2)] by (auto simp: Let_def split: if_splits)
    obtain t where t: "l2fwd_release ?o (tables_after (boot_tables b) r) = Some t"
      "blocks (tab_heap t) = blocks (heap_before e)" "mappings (tab_heap t) = mappings (heap_before e)"
      using assms(6) by (auto simp: tables_release_def)
    have "\<forall>c \<in> set (l2fwd_ports_down ?m (dev_ports e)). \<not> snd c" by (auto simp: l2fwd_ports_down_def)
    note down = unchecked_calls [OF this, of "driver e" "boot_calls b"]
    have "distinct (dev_ports e)" using assms(2) by (simp add: env_ok_def)
    then have calls: "dev_run (boot_calls b @ List.map fst (l2fwd_ports_down ?m (dev_ports e))) (\<lambda>_. Closed) = Some (\<lambda>_. Closed)"
      using assms(5) ports_up_run ports_down_run by (simp add: boot_of_def Let_def dev_run_append)
    have "l2fwd_finish mpps e b r = Some (Some \<lparr>end_status = boot_ret b, end_lines = ls, end_summary = summary,
        end_calls = boot_calls b @ List.map fst (l2fwd_ports_down ?m (dev_ports e)), end_tables = t, end_run = r\<rparr>)"
      using True main sm t(1) down
      by (simp add: l2fwd_finish_def fields workers_def [symmetric] wait_workers_zero)
    then show ?thesis using True t(2,3) lines calls by (simp add: end_ok_def)
  qed
qed

section \<open>From the start to the end\<close>

text \<open>The environment, the clock and the bursts are as the code expects them.\<close>

definition program_ok :: "l2fwd_env \<Rightarrow> run_event list \<Rightarrow> bool" where
  "program_ok e es \<longleftrightarrow> env_ok e \<and> clock_ok e es \<and> (\<forall>ev \<in> set es. event_ok ev) \<and>
     (\<forall>o1. l2fwd_parse_args (getopt_events e) default_options = Some o1 \<longrightarrow> capacity_used o1)"

definition run_of :: "(u64 \<Rightarrow> u64 \<Rightarrow> u64) \<Rightarrow> l2fwd_env \<Rightarrow> l2fwd_booted \<Rightarrow> run_event list \<Rightarrow> l2fwd_run outcome option" where
  "run_of crc e b es = run_events crc True (boot_config e b) (boot_conf b) (end_clock e) es (run_start e b)"

lemma main_cases:
  assumes "program_ok e es"
  shows "if l2fwd_boot_fails e then l2fwd_main crc True mpps e es = Some (Exit 1)
    else \<exists>o1 b r f. l2fwd_parse_args (getopt_events e) default_options = Some o1 \<and> boot_of e o1 b \<and> 0 \<le> eal_result e \<and>
      config_ok (boot_config e b) \<and> run_ok crc (boot_config e b) (boot_conf b) (run_start e b) \<and>
      run_of crc e b es = Some (Return r) \<and> run_ok crc (boot_config e b) (boot_conf b) r \<and>
      l2fwd_main crc True mpps e es = Some (Return f) \<and>
      (if run_over (worker_cores (lcore_on e) (main_core e) (max_lcore e) 0) r
       then \<exists>x. f = Some x \<and> end_ok e x \<and> end_run x = r \<and> end_status x = boot_ret b else f = None)"
proof (cases "l2fwd_boot_fails e")
  case True
  then show ?thesis using boot_cases [of e crc] assms by (simp add: program_ok_def l2fwd_main_def)
next
  case False
  have ok: "env_ok e" "clock_ok e es" "\<forall>ev \<in> set es. event_ok ev" using assms by (simp_all add: program_ok_def)
  obtain o1 b where b: "l2fwd_parse_args (getopt_events e) default_options = Some o1" "l2fwd_boot e = Some (Return b)"
    "boot_of e o1 b" "tables_ready crc (boot_options b) (boot_tables b)"
    "tables_release (boot_options b) (boot_tables b) (heap_before e)" "0 \<le> eal_result e"
    using boot_cases [of e crc] assms False unfolding program_ok_def by (auto split: if_splits)
  note st = run_start_ok [OF ok(1) b(3,4)]
  obtain r where r: "run_of crc e b es = Some (Return r)" "run_ok crc (boot_config e b) (boot_conf b) r"
    "ht_len (dram_ht (run_st r)) = ht_len (dram_ht (run_st (run_start e b)))"
    using run_events_ok [OF st ok(3), of "end_clock e"] unfolding run_of_def by blast
  have "tables_release (boot_options b) (tables_after (boot_tables b) r) (heap_before e)"
    using r(3) by (intro release_after [OF b(5)]) (simp add: run_start_def)
  note rel = this
  obtain k where k: "List.map fst (run_readings r) = take k (main_times es)"
    using run_events_readings [OF r(1) [unfolded run_of_def]] by (auto simp: run_start_def)
  note f = finish_cases [OF ok(1,2) b(1,3) rel r(2) k, of mpps]
  have m: "l2fwd_main crc True mpps e es = do { f \<leftarrow> l2fwd_finish mpps e b r; Some (Return f) }"
    using b(2) r(1) by (simp add: l2fwd_main_def run_of_def)
  show ?thesis
    using False b(1,3,6) st r(1,2) f m
    by (cases "run_over (worker_cores (lcore_on e) (main_core e) (max_lcore e) 0) r") auto
qed

lemma boot_status:
  assumes "boot_of e o1 b" and "0 \<le> eal_result e"
  shows "0 \<le> boot_ret b"
    and "enabled_ports (l2fwd_enabled_port_mask o1) (dev_ports e) = [] \<Longrightarrow> boot_ret b = eal_result e"
    and "enabled_ports (l2fwd_enabled_port_mask o1) (dev_ports e) \<noteq> [] \<Longrightarrow> \<forall>m c. driver e m c \<le> 0 \<Longrightarrow> boot_ret b = 0"
proof -
  let ?ups = "l2fwd_ports_up (rss_types e) (rss_offered e) (l2fwd_enabled_port_mask o1) (dev_ports e) (unat (l2fwd_queues_per_port o1))"
  have r: "boot_ret b = last_answer (driver e) ?ups [] (eal_result e)" "\<not> some_call_fails (driver e) ?ups"
    using assms(1) by (simp_all add: boot_of_def Let_def)
  show nonneg: "0 \<le> boot_ret b"
    unfolding r(1) using r(2) assms(2) by (intro last_answer_nonneg) (auto simp: some_call_fails_def)
  have ups: "?ups = concat (List.map (l2fwd_port_up (rss_types e) (rss_offered e) (unat (l2fwd_queues_per_port o1)))
      (enabled_ports (l2fwd_enabled_port_mask o1) (dev_ports e)))"
    by (simp add: l2fwd_ports_up_def concat_enabled)
  show "boot_ret b = eal_result e" if "enabled_ports (l2fwd_enabled_port_mask o1) (dev_ports e) = []"
    using that unfolding r(1) ups by simp
  show "boot_ret b = 0" if "enabled_ports (l2fwd_enabled_port_mask o1) (dev_ports e) \<noteq> []" "\<forall>m c. driver e m c \<le> 0"
  proof -
    have "\<exists>c \<in> set ?ups. snd c"
      using that(1) unfolding ups
      by (cases "enabled_ports (l2fwd_enabled_port_mask o1) (dev_ports e)") (auto simp: l2fwd_port_up_def)
    then have "boot_ret b \<le> 0" unfolding r(1) using that(2) by (intro last_answer_le) auto
    then show ?thesis using nonneg by simp
  qed
qed

lemma worker_turns_append: "worker_turns l (es @ es') = worker_turns l es + worker_turns l es'"
  by (induction l es rule: worker_turns.induct) auto

lemma worker_turns_some: "Worker_turn l inp \<in> set es \<Longrightarrow> 1 \<le> worker_turns l es"
  by (induction l es rule: worker_turns.induct) auto

lemma run_events_append:
  "run_events crc ra cfg conf t (es @ es') r = do {
     out \<leftarrow> run_events crc ra cfg conf t es r;
     case out of Exit c \<Rightarrow> Some (Exit c) | Return r' \<Rightarrow> run_events crc ra cfg conf t es' r'
   }"
  by (induction es arbitrary: r) (auto split: Option.bind_splits outcome.splits)

lemma main_comes_to_end:
  assumes "program_ok e (es @ ev # es')" and "\<not> l2fwd_boot_fails e"
    and "ev = Signal_raised SIGINT \<or> ev = Signal_raised SIGTERM \<or> (\<exists>t. ev = Main_turn t \<and> end_clock e \<le> t)"
    and "\<forall>l \<in> set (worker_cores (lcore_on e) (main_core e) (max_lcore e) 0). \<exists>inp. Worker_turn l inp \<in> set es'"
  shows "\<exists>f. l2fwd_main crc True mpps e (es @ ev # es') = Some (Return (Some f))"
proof -
  let ?w = "worker_cores (lcore_on e) (main_core e) (max_lcore e) 0"
  obtain o1 b r f where b: "boot_of e o1 b" "config_ok (boot_config e b)"
    "run_ok crc (boot_config e b) (boot_conf b) (run_start e b)" "run_of crc e b (es @ ev # es') = Some (Return r)"
    "l2fwd_main crc True mpps e (es @ ev # es') = Some (Return f)" "run_over ?w r \<Longrightarrow> \<exists>x. f = Some x"
    using main_cases [OF assms(1), of crc mpps] assms(2) by (auto split: if_splits)
  have ok: "\<forall>ev \<in> set es. event_ok ev" "\<forall>ev \<in> set es'. event_ok ev" "event_ok ev"
    using assms(1) by (auto simp: program_ok_def)
  obtain r1 where r1: "run_events crc True (boot_config e b) (boot_conf b) (end_clock e) es (run_start e b) = Some (Return r1)"
    "run_ok crc (boot_config e b) (boot_conf b) r1"
    using run_events_ok [OF b(2,3) ok(1)] by blast
  obtain r2 where r2: "run_step crc True (boot_config e b) (boot_conf b) (end_clock e) ev r1 = Some (Return r2)"
    "run_ok crc (boot_config e b) (boot_conf b) r2"
    using run_step_ok [OF b(2) r1(2) ok(3)] by blast
  have q: "run_quit r2"
    using assms(3) r2(1) by (auto simp: signal_handler_def main_turn_def split: if_splits)
  have rest: "run_events crc True (boot_config e b) (boot_conf b) (end_clock e) es' r2 = Some (Return r)"
    using b(4) r1(1) r2(1) by (simp add: run_of_def run_events_append)
  have "length (boot_conf b l) \<le> 1" for l using b(1) one_each_length by (simp add: boot_of_def)
  then have "\<forall>l \<in> set ?w. length (boot_conf b l) \<le> worker_turns l es'"
    using assms(4) worker_turns_some order_trans by blast
  from run_comes_to_end [OF b(2) r2(2) ok(2) q this rest] show ?thesis using b(5,6) by auto
qed

section \<open>An example\<close>

definition sample_env :: l2fwd_env where
  "sample_env = \<lparr>eal_result = 3,
     getopt_events = [Opt CHR ''m'' ''dramblast'', Opt CHR ''c'' (dec 8), Opt CHR ''p'' ''3''],
     timer_hz = 1000, clock_hz = 1000, dev_ports = [0, 1], lcore_on = (\<lambda>k. k < 4), main_core = 0, max_lcore = 128,
     max_ethports = 2, pool_granted = (\<lambda>_. True), rss_types = 1, rss_offered = (\<lambda>_. 1), driver = (\<lambda>_ _. 0),
     mac_of_port = (\<lambda>p. replicate 6 (of_nat p)), buffer_fails = (\<lambda>_ _. False), table_alloc = (\<lambda>_. None),
     heap_fails = (\<lambda>_. False), ring_memory = (\<lambda>_ _. \<lparr>item_k = 1, item_idx = 2, item_visit_count = 3, item_id = 4\<rparr>),
     heap_before = \<lparr>blocks = [], mappings = [], allocations = 0\<rparr>, samples_memory = replicate 32 7,
     stack_memory = (\<lambda>_. replicate 64 0xabcd), start_clock = 5\<rparr>"

definition sample_options :: l2fwd_options where
  "sample_options = default_options\<lparr>dramblast_flag := 1, opt_CAPACITY := 8, l2fwd_enabled_port_mask := 3\<rparr>"

text \<open>Two cores receive a burst, the main core prints, and the program is interrupted.\<close>

definition sample_events :: "run_event list" where
  "sample_events = [Worker_turn 1 sample_turn, Main_turn 2000, Worker_turn 2 sample_turn]"

definition sample_rest :: "run_event list" where
  "sample_rest = [Worker_turn 1 sample_turn, Worker_turn 2 sample_turn, Worker_turn 3 sample_turn]"

lemma sample_parse: "l2fwd_parse_args (getopt_events sample_env) default_options = Some sample_options"
proof -
  have "capacity_ok 8" unfolding capacity_ok_def by (intro bexI [of _ 3]) simp_all
  moreover have "strtoul ''3'' 16 = 3"
    by (simp add: strtoul_def split_sign_def skip_hex_prefix_def digits_value_def is_digit_def digit_value_def
        is_space_def Let_def)
  ultimately show ?thesis
    by (simp add: sample_env_def sample_options_def parse_option_def parse_mode_def parse_capacity_eq strtoul_dec)
qed

lemma sample_workers: "worker_cores (lcore_on sample_env) (main_core sample_env) (max_lcore sample_env) 0 = [1, 2, 3]"
  by (simp add: sample_env_def worker_cores_def upt_rec)

lemma sample_program_ok: "program_ok sample_env (sample_events @ Signal_raised SIGINT # sample_rest)"
proof -
  have "env_ok sample_env"
    by (auto simp: env_ok_def sample_env_def wf_heap_def TOTAL_SAMPLES_def)
  moreover have "capacity_used sample_options" by (simp add: capacity_used_def sample_options_def)
  moreover have "clock_ok sample_env (sample_events @ Signal_raised SIGINT # sample_rest)"
    unfolding clock_ok_def sample_parse
    by (simp add: sample_env_def sample_options_def default_options_def sample_events_def sample_rest_def)
  moreover have "\<forall>ev \<in> set (sample_events @ Signal_raised SIGINT # sample_rest). event_ok ev"
    using sample_turn_ok by (simp add: sample_events_def sample_rest_def)
  ultimately show ?thesis unfolding program_ok_def sample_parse by simp
qed

lemma sample_boots: "\<not> l2fwd_boot_fails sample_env"
proof -
  have "enabled_ports 3 [0, 1] = [0, 1]" by (simp add: enabled_ports_def port_enabled_def)
  then have "enabled_ports (l2fwd_enabled_port_mask sample_options) (dev_ports sample_env) = [0, 1]"
    by (simp add: sample_options_def sample_env_def)
  then show ?thesis
    unfolding l2fwd_boot_fails_def sample_parse option.case Let_def sample_workers
    by (simp add: sample_options_def sample_env_def some_call_fails_def mode_fails_def default_options_def)
qed

lemma sample_rest_turns: "\<forall>l \<in> set (worker_cores (lcore_on sample_env) (main_core sample_env) (max_lcore sample_env) 0).
    \<exists>inp. Worker_turn l inp \<in> set sample_rest"
  unfolding sample_workers by (auto simp: sample_rest_def)

section \<open>What main does\<close>

text \<open>
  C10: when \<open>main\<close> gives up.  It leaves with status 1 exactly when the EAL or the options are
  refused, there is no port, there are fewer worker cores than queues, the packet buffers are not
  granted, a checked driver call fails, a core that polls a queue lacks a transmit buffer, or the
  tables of the mode cannot be set up; otherwise, whatever happens while it runs, it never leaves
  through \<open>rte_exit\<close> and accesses nothing out of bounds.
\<close>

theorem l2fwd_main_exits:
  assumes "program_ok e es"
  shows "if l2fwd_boot_fails e then l2fwd_main crc True mpps e es = Some (Exit 1)
    else \<exists>f. l2fwd_main crc True mpps e es = Some (Return f)"
  using main_cases [OF assms, of crc mpps] by (auto split: if_splits)

theorem l2fwd_main_exits_witness:
  "(\<exists>f. l2fwd_main (\<lambda>_ k. k) True (\<lambda>_. 7) sample_env (sample_events @ Signal_raised SIGINT # sample_rest) = Some (Return f))"
  using l2fwd_main_exits [OF sample_program_ok, of "\<lambda>_ k. k" "\<lambda>_. 7"] sample_boots by simp



text \<open>
  C9: \<open>main\<close> comes to its end.  Once a signal arrives or the main core reads a clock of 32 seconds
  after the start or more, one further turn of every worker core is enough: then all of them have
  returned and so does \<open>main\<close>, wherever in their work they were interrupted.
\<close>

theorem l2fwd_main_returns:
  assumes "program_ok e (es @ ev # es')" and "\<not> l2fwd_boot_fails e"
    and "ev = Signal_raised SIGINT \<or> ev = Signal_raised SIGTERM \<or> (\<exists>t. ev = Main_turn t \<and> end_clock e \<le> t)"
    and "\<forall>l \<in> set (worker_cores (lcore_on e) (main_core e) (max_lcore e) 0). \<exists>inp. Worker_turn l inp \<in> set es'"
  shows "\<exists>f. l2fwd_main crc True mpps e (es @ ev # es') = Some (Return (Some f))"
  using assms by (rule main_comes_to_end)

theorem l2fwd_main_returns_witness:
  "\<exists>f. l2fwd_main (\<lambda>_ k. k) True (\<lambda>_. 7) sample_env (sample_events @ Signal_raised SIGINT # sample_rest) = Some (Return (Some f))"
  using l2fwd_main_returns [OF sample_program_ok sample_boots _ sample_rest_turns, of "\<lambda>_ k. k" "\<lambda>_. 7"] by auto

end
