(* ===== verification/Pktgen_Frame.thy ===== *)
theory Pktgen_Frame
  imports Packettool
begin

text \<open>
  \<open>pktgen/pktgen.c\<close>, the packet a transmit worker builds (the body of the loop over a burst in
  \<open>tx_worker_loop\<close>), and the reading of it in \<open>rx_worker_loop\<close>.  The header structs of DPDK are
  packed, so a field is a byte range of the packet: an Ethernet header of 14 bytes, IPv4 of 20,
  UDP of 8, then the generator's own payload.  The IPv4 checksum is a DPDK routine and a
  parameter.  The lemmas give the packet in full, its flow hash, and the round trip of the time
  stamp, also through the address rewriting of the forwarder.
\<close>

section \<open>Byte order\<close>

definition be16 :: "u16 \<Rightarrow> u8 list" where
  "be16 x = [ucast (drop_bit 8 x), ucast x]"

definition be32 :: "u32 \<Rightarrow> u8 list" where
  "be32 x = [ucast (drop_bit 24 x), ucast (drop_bit 16 x), ucast (drop_bit 8 x), ucast x]"

definition le16 :: "u16 \<Rightarrow> u8 list" where
  "le16 x = [ucast x, ucast (drop_bit 8 x)]"

definition le32 :: "u32 \<Rightarrow> u8 list" where
  "le32 x = [ucast x, ucast (drop_bit 8 x), ucast (drop_bit 16 x), ucast (drop_bit 24 x)]"

definition le64 :: "u64 \<Rightarrow> u8 list" where
  "le64 x = List.map (\<lambda>i. ucast (drop_bit (8 * i) x)) [0..<8]"

definition le_value :: "u8 list \<Rightarrow> u64" where
  "le_value bs = foldr (\<lambda>b v. ucast b + 256 * v) bs 0"

text \<open>
  \<open>RTE_IPV4(a, b, c, d)\<close>, the macro of DPDK for the address a.b.c.d as a number in host byte
  order.  It is not part of the repository; it is written out here as DPDK documents it.
\<close>

definition RTE_IPV4 :: "u32 \<Rightarrow> u32 \<Rightarrow> u32 \<Rightarrow> u32 \<Rightarrow> u32" where
  "RTE_IPV4 a b c d =
     push_bit 24 (a AND 0xff) OR push_bit 16 (b AND 0xff) OR push_bit 8 (c AND 0xff) OR (d AND 0xff)"

section \<open>The packet\<close>

record custom_payload =
  thread_id :: u32
  packet_id :: u64
  tx_timestamp :: u64

definition sizeof_custom_payload :: nat where "sizeof_custom_payload = 4 + 8 + 8"

definition sizeof_headers :: nat where "sizeof_headers = 14 + 20 + 8"

definition l2_payload_len :: "u16 \<Rightarrow> u32" where
  "l2_payload_len g_payload_size = of_nat sizeof_headers + ucast g_payload_size"

text \<open>
  The writes in the order of the code; \<open>data\<close> is the room \<open>rte_pktmbuf_append\<close> gave, with what it
  held before.
\<close>

definition write_eth :: "u8 list \<Rightarrow> u8 list \<Rightarrow> u8 list option" where
  "write_eth port_mac m = do {
     m \<leftarrow> wr_bytes m 0 (replicate sizeof_headers 0);
     m \<leftarrow> wr_bytes m 0 (replicate 6 0xff);
     m \<leftarrow> wr_bytes m 6 port_mac;
     wr_bytes m 12 (be16 0x0800)
   }"

definition write_ip :: "(u8 list \<Rightarrow> u16) \<Rightarrow> u16 \<Rightarrow> u32 \<Rightarrow> u8 list \<Rightarrow> u8 list option" where
  "write_ip cksum g_payload_size current_ip m = do {
     m \<leftarrow> wr_bytes m 14 [0x45];
     m \<leftarrow> wr_bytes m 16 (be16 (20 + 8 + g_payload_size));
     m \<leftarrow> wr_bytes m 23 [17];
     m \<leftarrow> wr_bytes m 26 (be32 current_ip);
     m \<leftarrow> wr_bytes m 30 (be32 (RTE_IPV4 192 168 1 1));
     m \<leftarrow> wr_bytes m 22 [64];
     header \<leftarrow> rd_bytes m 14 20;
     wr_bytes m 24 (le16 (cksum header))
   }"

definition write_udp :: "u16 \<Rightarrow> u16 \<Rightarrow> u8 list \<Rightarrow> u8 list option" where
  "write_udp g_payload_size client_port m = do {
     m \<leftarrow> wr_bytes m 34 (be16 client_port);
     m \<leftarrow> wr_bytes m 36 (be16 80);
     m \<leftarrow> wr_bytes m 38 (be16 (8 + g_payload_size));
     wr_bytes m 40 (le16 0)
   }"

definition write_payload :: "custom_payload \<Rightarrow> u8 list \<Rightarrow> u8 list option" where
  "write_payload p m = do {
     m \<leftarrow> wr_bytes m 42 (le32 (thread_id p));
     m \<leftarrow> wr_bytes m 46 (le64 (packet_id p));
     wr_bytes m 54 (le64 (tx_timestamp p))
   }"

definition build_packet ::
  "(u8 list \<Rightarrow> u16) \<Rightarrow> u16 \<Rightarrow> u8 list \<Rightarrow> u32 \<Rightarrow> u16 \<Rightarrow> custom_payload \<Rightarrow> u8 list \<Rightarrow> u8 list option" where
  "build_packet cksum g_payload_size port_mac current_ip client_port p data = do {
     m \<leftarrow> write_eth port_mac data;
     m \<leftarrow> write_ip cksum g_payload_size current_ip m;
     m \<leftarrow> write_udp g_payload_size client_port m;
     write_payload p m
   }"

section \<open>Reading it back\<close>

text \<open>
  The receiver adds the cycles since the time stamp in the packet, if it is IPv4 with UDP and
  the stamp is in the past.
\<close>

definition rx_packet_latency :: "u64 \<Rightarrow> u8 list \<Rightarrow> u64 \<Rightarrow> u64 option" where
  "rx_packet_latency rx_tsc m local_latency_cycles = do {
     ether_type \<leftarrow> rd_bytes m 12 2;
     if ether_type = be16 0x0800 then do {
       next_proto_id \<leftarrow> rd m 23;
       if next_proto_id = 17 then do {
         stamp \<leftarrow> rd_bytes m 54 8;
         if rx_tsc > le_value stamp
         then Some (local_latency_cycles + (rx_tsc - le_value stamp))
         else Some local_latency_cycles
       }
       else Some local_latency_cycles
     }
     else Some local_latency_cycles
   }"

section \<open>The packet in full\<close>

definition eth_part :: "u8 list \<Rightarrow> u8 list" where
  "eth_part port_mac = [0xff, 0xff, 0xff, 0xff, 0xff, 0xff] @ port_mac @ [8, 0]"

definition ip_part :: "u16 \<Rightarrow> u16 \<Rightarrow> u32 \<Rightarrow> u8 list" where
  "ip_part ck g_payload_size current_ip =
     [0x45, 0] @ be16 (28 + g_payload_size) @ [0, 0, 0, 0, 64, 17] @ le16 ck @ be32 current_ip @ [192, 168, 1, 1]"

definition udp_part :: "u16 \<Rightarrow> u16 \<Rightarrow> u8 list" where
  "udp_part g_payload_size client_port = be16 client_port @ [0, 80] @ be16 (8 + g_payload_size) @ [0, 0]"

definition payload_part :: "custom_payload \<Rightarrow> u8 list" where
  "payload_part p = le32 (thread_id p) @ le64 (packet_id p) @ le64 (tx_timestamp p)"

definition packet :: "(u8 list \<Rightarrow> u16) \<Rightarrow> u16 \<Rightarrow> u8 list \<Rightarrow> u32 \<Rightarrow> u16 \<Rightarrow> custom_payload \<Rightarrow> u8 list" where
  "packet cksum g_payload_size port_mac current_ip client_port p =
     eth_part port_mac @ ip_part (cksum (ip_part 0 g_payload_size current_ip)) g_payload_size current_ip @
     udp_part g_payload_size client_port @ payload_part p"

lemma length_orders [simp]:
  "length (be16 x) = 2" "length (le16 x) = 2" "length (be32 y) = 4" "length (le32 y) = 4" "length (le64 z) = 8"
  by (simp_all add: be16_def le16_def be32_def le32_def le64_def)

lemma length_parts [simp]:
  "length mac = 6 \<Longrightarrow> length (eth_part mac) = 14" "length (ip_part ck g ip) = 20"
  "length (udp_part g cp) = 8" "length (payload_part p) = 20"
  by (simp_all add: eth_part_def ip_part_def udp_part_def payload_part_def)

text \<open>A write replaces the piece of the same length at its offset.\<close>

lemma wr_bytes_piece:
  "length a = n \<Longrightarrow> length b = length new \<Longrightarrow> wr_bytes (a @ b @ c) n new = Some (a @ new @ c)"
  by simp

lemma be16_bytes: "be16 0x0800 = [8, 0]" "be16 80 = [0, 80]"
  by (simp_all add: be16_def drop_bit_eq_div)

lemma be32_dst: "be32 (RTE_IPV4 192 168 1 1) = [192, 168, 1, 1]"
  by (simp add: be32_def RTE_IPV4_def drop_bit_eq_div push_bit_eq_mult)

lemma write_eth_eq:
  assumes "length port_mac = 6" and "42 \<le> length m"
  shows "write_eth port_mac m = Some (eth_part port_mac @ replicate 28 0 @ drop 42 m)"
proof -
  let ?d = "replicate 28 0 @ drop 42 m" and ?ff = "[0xff, 0xff, 0xff, 0xff, 0xff, 0xff] :: u8 list"
  have z: "replicate 42 (0::u8) = replicate 6 0 @ replicate 6 0 @ replicate 2 0 @ replicate 28 0"
    by (simp flip: replicate_add)
  have "wr_bytes m 0 (replicate sizeof_headers 0) = Some (replicate 6 0 @ replicate 6 0 @ replicate 2 0 @ ?d)"
    using assms(2) z by (simp add: sizeof_headers_def)
  moreover have "wr_bytes ([] @ replicate 6 0 @ (replicate 6 0 @ replicate 2 0 @ ?d)) 0 (replicate 6 0xff) =
      Some ([] @ replicate 6 0xff @ (replicate 6 0 @ replicate 2 0 @ ?d))"
    by (rule wr_bytes_piece) simp_all
  moreover have "wr_bytes (replicate 6 0xff @ replicate 6 0 @ (replicate 2 0 @ ?d)) 6 port_mac =
      Some (replicate 6 0xff @ port_mac @ (replicate 2 0 @ ?d))"
    by (rule wr_bytes_piece) (simp_all add: assms)
  moreover have "wr_bytes ((replicate 6 0xff @ port_mac) @ replicate 2 0 @ ?d) 12 (be16 0x0800) =
      Some ((replicate 6 0xff @ port_mac) @ be16 0x0800 @ ?d)"
    by (rule wr_bytes_piece) (simp_all add: assms)
  moreover have "replicate 6 (0xff::u8) = ?ff" by (simp add: eval_nat_numeral)
  ultimately show ?thesis by (simp add: write_eth_def eth_part_def be16_bytes)
qed

lemma zeros_28: "replicate 28 (0::u8) =
  [0, 0, 0, 0, 0, 0, 0, 0, 0, 0, 0, 0, 0, 0, 0, 0, 0, 0, 0, 0, 0, 0, 0, 0, 0, 0, 0, 0]"
  by (simp add: eval_nat_numeral)

lemma write_ip_eq:
  assumes "length e = 14"
  shows "write_ip cksum g ip (e @ replicate 28 0 @ d) =
    Some (e @ ip_part (cksum (ip_part 0 g ip)) g ip @ replicate 8 0 @ d)"
proof -
  have "replicate 8 (0::u8) = [0, 0, 0, 0, 0, 0, 0, 0]" by (simp add: eval_nat_numeral)
  moreover have "20 + 8 + g = 28 + g" by simp
  moreover have "le16 0 = [0, 0]" by (simp add: le16_def)
  ultimately show ?thesis
    unfolding write_ip_def zeros_28 be32_dst using assms
    by (simp add: ip_part_def)
qed

lemma write_udp_eq:
  assumes "length e = 34"
  shows "write_udp g cp (e @ replicate 8 0 @ d) = Some (e @ udp_part g cp @ d)"
proof -
  have "replicate 8 (0::u8) = [0, 0, 0, 0, 0, 0, 0, 0]" by (simp add: eval_nat_numeral)
  moreover have "le16 0 = [0, 0]" by (simp add: le16_def)
  ultimately show ?thesis
    unfolding write_udp_def be16_bytes using assms by (simp add: udp_part_def)
qed

lemma write_payload_eq:
  assumes "length e = 42" and "20 \<le> length d"
  shows "write_payload p (e @ d) = Some (e @ payload_part p @ drop 20 d)"
  using assms by (simp add: write_payload_def payload_part_def)

lemma build_packet_eq:
  assumes "length port_mac = 6" and "62 \<le> length data"
  shows "build_packet cksum g port_mac ip cp p data = Some (packet cksum g port_mac ip cp p @ drop 62 data)"
proof -
  let ?ip = "ip_part (cksum (ip_part 0 g ip)) g ip"
  have "write_eth port_mac data = Some (eth_part port_mac @ replicate 28 0 @ drop 42 data)"
    using assms by (intro write_eth_eq) simp_all
  moreover have "write_ip cksum g ip (eth_part port_mac @ replicate 28 0 @ drop 42 data) =
      Some (eth_part port_mac @ ?ip @ replicate 8 0 @ drop 42 data)"
    using assms(1) by (intro write_ip_eq) simp
  moreover have "write_udp g cp ((eth_part port_mac @ ?ip) @ replicate 8 0 @ drop 42 data) =
      Some ((eth_part port_mac @ ?ip) @ udp_part g cp @ drop 42 data)"
    using assms(1) by (intro write_udp_eq) simp
  moreover have "write_payload p ((eth_part port_mac @ ?ip @ udp_part g cp) @ drop 42 data) =
      Some ((eth_part port_mac @ ?ip @ udp_part g cp) @ payload_part p @ drop 20 (drop 42 data))"
    using assms by (intro write_payload_eq) simp_all
  ultimately show ?thesis by (simp add: build_packet_def packet_def)
qed

lemma length_packet: "length port_mac = 6 \<Longrightarrow> length (packet cksum g port_mac ip cp p) = 62"
  by (simp add: packet_def)

section \<open>The time stamp\<close>

lemma take_bit_split: "take_bit (8 + n) (x::u64) = take_bit 8 x + 256 * take_bit n (drop_bit 8 x)"
proof -
  have "take_bit 8 x + push_bit 8 (take_bit n (drop_bit 8 x)) = take_bit 8 x OR push_bit 8 (take_bit n (drop_bit 8 x))"
    by (rule disjunctive_add) (auto simp: bit_simps)
  also have "\<dots> = take_bit (8 + n) x"
    by (rule bit_word_eqI) (auto simp: bit_simps)
  finally show ?thesis by (simp add: push_bit_eq_mult mult.commute)
qed

lemma le_value_bytes: "le_value (List.map (\<lambda>i. ucast (drop_bit (8 * i) x)) [0..<n]) = take_bit (8 * n) x"
proof (induction n arbitrary: x)
  case 0
  show ?case by (simp add: le_value_def)
next
  case (Suc n)
  have "le_value (List.map (\<lambda>i. ucast (drop_bit (8 * i) x)) [0..<Suc n]) =
      ucast (ucast x :: u8) + 256 * le_value (List.map (\<lambda>i. ucast (drop_bit (8 * i) (drop_bit 8 x))) [0..<n])"
    by (simp add: upt_conv_Cons map_Suc_upt [symmetric] comp_def le_value_def add.commute del: upt_Suc)
  also have "ucast (ucast x :: u8) = take_bit 8 x" by (rule bit_word_eqI) (auto simp: bit_simps)
  finally show ?case unfolding Suc using take_bit_split [of "8 * n" x] by (simp add: add.commute)
qed

lemma le_value_le64 [simp]: "le_value (le64 x) = x"
  unfolding le64_def le_value_bytes by (simp add: take_bit_word_eq_self)

lemma rx_packet_latency_built:
  assumes "length port_mac = 6" and "62 \<le> length m'"
    and "take 50 (drop 12 m') = take 50 (drop 12 (packet cksum g port_mac ip cp p @ d))"
  shows "rx_packet_latency rx_tsc m' acc =
      Some (acc + (if tx_timestamp p < rx_tsc then rx_tsc - tx_timestamp p else 0))"
proof -
  let ?ip = "ip_part (cksum (ip_part 0 g ip)) g ip"
  have d: "take 50 (drop 12 m') = [8, 0] @ ?ip @ udp_part g cp @ payload_part p"
    unfolding assms(3) packet_def eth_part_def using assms(1) by simp
  have "rd_bytes m' 12 2 = Some (take 2 (take 50 (drop 12 m')))" using assms(2) by simp
  then have t: "rd_bytes m' 12 2 = Some [8, 0]" unfolding d by simp
  have "rd m' 23 = Some (take 50 (drop 12 m') ! 11)" using assms(2) by simp
  then have u: "rd m' 23 = Some 17" unfolding d by (simp add: ip_part_def be16_def)
  have "rd_bytes m' 54 8 = Some (take 8 (drop 42 (take 50 (drop 12 m'))))"
    using assms(2) by (simp add: drop_take)
  then have s: "rd_bytes m' 54 8 = Some (le64 (tx_timestamp p))"
    unfolding d by (simp add: payload_part_def)
  show ?thesis by (simp add: rx_packet_latency_def t u s be16_bytes)
qed

text \<open>
  The time stamp survives the way through the forwarder.  The packet a transmit worker builds
  in any buffer, with the Ethernet addresses and everything behind the payload header changed in
  any way, is recognised by the receiver, which adds exactly the cycles since the stamp, or
  nothing when the clock of the receiving core is not ahead of it.
\<close>

lemma pktgen_latency_roundtrip:
  assumes "length port_mac = 6" and "62 \<le> length data"
  shows "\<exists>m. build_packet cksum g port_mac ip cp p data = Some m \<and> length m = length data \<and>
    (\<forall>m'. length m' = length m \<longrightarrow> take 50 (drop 12 m') = take 50 (drop 12 m) \<longrightarrow>
      rx_packet_latency rx_tsc m' acc =
        Some (acc + (if tx_timestamp p < rx_tsc then rx_tsc - tx_timestamp p else 0)))"
  using build_packet_eq [OF assms] length_packet [OF assms(1)] assms(2)
    rx_packet_latency_built [OF assms(1)] by simp

lemma pktgen_latency_roundtrip_witness:
  "\<exists>m. build_packet (\<lambda>_. 0) 20 [1, 2, 3, 4, 5, 6] 0x0a010001 1125
      \<lparr>thread_id = 1, packet_id = 0, tx_timestamp = 1000\<rparr> (replicate 62 0) = Some m \<and>
    rx_packet_latency 1700 m 5 = Some 705"
proof -
  have l: "length [1, 2, 3, 4, 5, 6::u8] = 6" "62 \<le> length (replicate 62 (0::u8))" by simp_all
  from pktgen_latency_roundtrip [OF l, of "\<lambda>_. 0" 20 "0x0a010001" 1125
      "\<lparr>thread_id = 1, packet_id = 0, tx_timestamp = 1000\<rparr>" 1700 5]
  show ?thesis by auto
qed

section \<open>The flow\<close>

lemma flowhash_udp:
  assumes "38 \<le> length f" and "f ! 14 = 0x45" and "f ! 23 = 17"
  shows "flowhash f = Some (fnv_1_multi (take 8 (drop 26 f) @ [17] @ take 4 (drop 34 f)) FNV_BASIS)"
proof -
  have "ip_version 0x45 = 4" "ip_header_len 0x45 = 20"
    by (simp_all add: ip_version_4 ip_header_len_eq)
  moreover have "rd_bytes f 23 1 = Some [17]" using assms rd_bytes_1 [of 23 f] by simp
  ultimately show ?thesis using assms
    by (simp add: flowhash_def packet_offsets Let_def)
qed

text \<open>A packet is hashed by its client's address and port.\<close>

lemma flowhash_packet:
  assumes "length port_mac = 6"
  shows "flowhash (packet cksum g port_mac ip cp p @ d) =
    Some (fnv_1_multi (be32 ip @ [192, 168, 1, 1, 17] @ be16 cp @ [0, 80]) FNV_BASIS)"
proof -
  let ?f = "packet cksum g port_mac ip cp p @ d" and ?ip = "ip_part (cksum (ip_part 0 g ip)) g ip"
  have e: "length (eth_part port_mac) = 14" using assms by simp
  have f: "?f = eth_part port_mac @ ?ip @ udp_part g cp @ payload_part p @ d" by (simp add: packet_def)
  have "?f ! 14 = 0x45" "?f ! 23 = 17" "take 8 (drop 26 ?f) = be32 ip @ [192, 168, 1, 1]"
    unfolding f using e by (simp_all add: nth_append ip_part_def be16_def le16_def)
  moreover have "take 4 (drop 34 ?f) = be16 cp @ [0, 80]"
    unfolding f using e by (simp add: udp_part_def)
  moreover have "38 \<le> length ?f" using length_packet [OF assms] by simp
  ultimately show ?thesis using flowhash_udp [of ?f] by simp
qed

lemma unat_u8_byte: "unat (ucast (drop_bit k (w::u32)) :: u8) = unat w div 2 ^ k mod 256"
proof -
  have "unat (ucast (drop_bit k w) :: u8) = unat (drop_bit k w) mod 256"
    by (simp add: unsigned_ucast_eq take_bit_eq_mod)
  also have "unat (drop_bit k w) = unat w div 2 ^ k" by (subst unat_drop_bit_eq) (rule drop_bit_eq_div)
  finally show ?thesis .
qed

lemma or_24_16: "push_bit 24 y OR push_bit 16 (take_bit 8 (z::u32)) = push_bit 24 y + push_bit 16 (take_bit 8 z)"
  by (rule disjunctive_add [symmetric]) (auto simp: bit_simps)

lemma unat_client_address:
  assumes "unat x < 2 ^ 30"
  shows "unat (RTE_IPV4 10 lcore 0 0 + x) = 10 * 2 ^ 24 + unat lcore mod 256 * 2 ^ 16 + unat x"
proof -
  have "RTE_IPV4 10 lcore 0 0 = push_bit 24 10 OR push_bit 16 (take_bit 8 lcore)"
    by (simp add: RTE_IPV4_def take_bit_eq_mask mask_numeral)
  also have "\<dots> = push_bit 24 10 + push_bit 16 (take_bit 8 lcore)" by (rule or_24_16)
  finally have r: "RTE_IPV4 10 lcore 0 0 = 10 * 2 ^ 24 + take_bit 8 lcore * 2 ^ 16"
    by (simp add: push_bit_eq_mult)
  have t: "unat (take_bit 8 lcore) = unat lcore mod 256" by (subst unsigned_take_bit_eq) (simp add: take_bit_eq_mod)
  have "unat lcore mod 256 < 256" by simp
  then show ?thesis using assms unfolding r by (simp add: unat_word_ariths t)
qed

lemma address_digits:
  fixes l x :: nat
  assumes "l < 256" and "x < 65536"
  shows "(167772160 + l * 65536 + x) div 16777216 = 10"
    and "(167772160 + l * 65536 + x) div 65536 mod 256 = l"
    and "(167772160 + l * 65536 + x) div 256 mod 256 = x div 256"
    and "(167772160 + l * 65536 + x) mod 256 = x mod 256"
proof -
  show "(167772160 + l * 65536 + x) div 16777216 = 10"
    using assms by (intro div_nat_eqI) simp_all
  have "(167772160 + l * 65536 + x) div 65536 = 2560 + l"
    using assms by (intro div_nat_eqI) simp_all
  then show "(167772160 + l * 65536 + x) div 65536 mod 256 = l"
    using assms(1) mod_mult_self2 [of l 256 10] by (simp add: add.commute)
  have e: "167772160 + l * 65536 + x = x + (655360 + l * 256) * 256" by simp
  have "(167772160 + l * 65536 + x) div 256 = (655360 + l * 256) + x div 256"
    unfolding e by (rule div_mult_self1) simp
  moreover have "x div 256 < 256" using assms(2) by (simp add: div_less_iff_less_mult)
  ultimately show "(167772160 + l * 65536 + x) div 256 mod 256 = x div 256"
    using mod_mult_self2 [of "x div 256" 256 "2560 + l"] by (simp add: algebra_simps)
  show "(167772160 + l * 65536 + x) mod 256 = x mod 256" unfolding e by (rule mod_mult_self1)
qed

lemma be32_client:
  assumes "unat x < 65536"
  shows "be32 (RTE_IPV4 10 lcore 0 0 + x) = [10, ucast lcore, ucast (drop_bit 8 x), ucast x]"
proof -
  have x: "unat x < 2 ^ 30" "unat x div 256 < 256" using assms by (simp_all add: div_less_iff_less_mult)
  have "unat lcore mod 256 < 256" by simp
  note digits = address_digits [OF this assms]
  show ?thesis
    unfolding be32_def list.inject word_unat_eq_iff
    using unat_u8_byte [of 0 "RTE_IPV4 10 lcore 0 0 + x"] unat_u8_byte [of 0 lcore] unat_u8_byte [of 0 x] unat_u8_byte [of 8 x] digits x
    by (simp add: unat_u8_byte unat_client_address [OF x(1)])
qed

text \<open>The source address in a packet, as a number.\<close>

definition src_address :: "u8 list \<Rightarrow> nat" where
  "src_address m = foldl (\<lambda>a b. 256 * a + unat b) 0 (take 4 (drop 26 m))"

lemma be32_value: "foldl (\<lambda>a b. 256 * a + unat b) 0 (be32 w) = unat w"
proof -
  have u: "unat (ucast w :: u8) = unat w mod 256" using unat_u8_byte [of 0 w] by simp
  have "unat w < 2 ^ 32" using unsigned_less [of w, where ?'a = nat] by simp
  then have "unat w div 2 ^ 24 < 256" by (simp add: div_less_iff_less_mult)
  then have "unat w div 2 ^ 24 mod 256 = unat w div 2 ^ 24" by simp
  moreover have "unat w div 2 ^ 16 = 256 * (unat w div 2 ^ 24) + unat w div 2 ^ 16 mod 256"
    "unat w div 2 ^ 8 = 256 * (unat w div 2 ^ 16) + unat w div 2 ^ 8 mod 256"
    "unat w = 256 * (unat w div 2 ^ 8) + unat w mod 256"
    using mult_div_mod_eq [of 256 "unat w div 2 ^ 16"] mult_div_mod_eq [of 256 "unat w div 2 ^ 8"] mult_div_mod_eq [of 256 "unat w"]
    by (simp_all add: div_mult2_eq [symmetric])
  ultimately show ?thesis by (simp add: be32_def unat_u8_byte u)
qed

lemma src_address_packet:
  assumes "length port_mac = 6"
  shows "src_address (packet cksum g port_mac ip cp p @ d) = unat ip"
proof -
  let ?ip = "ip_part (cksum (ip_part 0 g ip)) g ip"
  have e: "length (eth_part port_mac) = 14" using assms by simp
  have f: "packet cksum g port_mac ip cp p @ d = eth_part port_mac @ ?ip @ udp_part g cp @ payload_part p @ d"
    by (simp add: packet_def)
  have "take 4 (drop 26 (packet cksum g port_mac ip cp p @ d)) = be32 ip"
    unfolding f using e by (simp add: ip_part_def be16_def le16_def)
  then show ?thesis by (simp add: src_address_def be32_value)
qed
end
