(* ===== verification/Pktgen_Workers.thy ===== *)
theory Pktgen_Workers
  imports Pktgen_Frame Forwarding
begin

text \<open>
  \<open>pktgen/pktgen.c\<close>, the two worker loops.  A loop is the sequence of its turns until
  \<open>force_quit\<close> is seen; a turn's inputs are what the driver and the clock supply: whether the
  burst of buffers could be allocated, the room appended to each with its time stamp, how many
  packets the driver took, or the packets received.  The state is the locals of the worker and
  its entry of \<open>g_stats\<close>.
\<close>

section \<open>Configuration and counters\<close>

definition BURST_SIZE :: nat where "BURST_SIZE = 64"

datatype core_type = CORE_TX | CORE_RX

record lcore_conf =
  conf_type :: core_type
  conf_port_id :: u16
  conf_queue_id :: u16
  conf_mbuf_pool :: nat
  conf_port_mac :: "u8 list"

record worker_stats =
  tx_pkts :: u64
  tx_bytes :: u64
  rx_pkts :: u64
  rx_bytes :: u64
  total_latency_cycles :: u64

text \<open>The global parameters of the program.\<close>

record pktgen_params =
  g_ip_mask :: u32
  g_payload_size :: u16
  g_timer_hz :: u64

section \<open>Transmitting\<close>

record tx_worker =
  base_ip :: u32
  client_ip_counter :: u32
  client_port_counter :: u16
  local_pkts :: u64
  local_bytes :: u64
  last_tsc :: u64

definition tx_start :: "u32 \<Rightarrow> u64 \<Rightarrow> tx_worker" where
  "tx_start lcore tsc = \<lparr>base_ip = RTE_IPV4 10 lcore 0 0, client_ip_counter = 1,
     client_port_counter = ucast (1025 + lcore * 100), local_pkts = 0, local_bytes = 0, last_tsc = tsc\<rparr>"

definition wire_len :: "u16 \<Rightarrow> u32" where
  "wire_len g = l2_payload_len g + 24"

text \<open>One packet of a burst: the appended room (NULL if there is none) and the time stamp.\<close>

definition tx_build ::
  "(u8 list \<Rightarrow> u16) \<Rightarrow> pktgen_params \<Rightarrow> u8 list \<Rightarrow> u32 \<Rightarrow> nat \<Rightarrow> u8 list option \<times> u64 \<Rightarrow> tx_worker \<Rightarrow>
     (u8 list \<times> tx_worker) option" where
  "tx_build cksum par mac lcore i buf w = do {
     data \<leftarrow> fst buf;
     let current_ip = base_ip w + (client_ip_counter w AND g_ip_mask par);
     m \<leftarrow> build_packet cksum (g_payload_size par) mac current_ip (client_port_counter w)
            \<lparr>thread_id = lcore, packet_id = local_pkts w + of_nat i, tx_timestamp = snd buf\<rparr> data;
     Some (m, w\<lparr>client_ip_counter := client_ip_counter w + 1,
                client_port_counter := (if client_port_counter w > 65000 then 1025
                                        else client_port_counter w)\<rparr>)
   }"

fun tx_fill ::
  "(u8 list \<Rightarrow> u16) \<Rightarrow> pktgen_params \<Rightarrow> u8 list \<Rightarrow> u32 \<Rightarrow> nat \<Rightarrow> (u8 list option \<times> u64) list \<Rightarrow> tx_worker \<Rightarrow>
     (u8 list list \<times> tx_worker) option" where
  "tx_fill cksum par mac lcore i [] w = Some ([], w)"
| "tx_fill cksum par mac lcore i (buf # bufs) w = do {
     (m, w') \<leftarrow> tx_build cksum par mac lcore i buf w;
     (ms, w'') \<leftarrow> tx_fill cksum par mac lcore (Suc i) bufs w';
     Some (m # ms, w'')
   }"

record tx_input =
  tx_allocated :: bool
  tx_bufs :: "(u8 list option \<times> u64) list"
  tx_taken :: nat
  tx_cur_tsc :: u64

definition tx_publish :: "tx_worker \<Rightarrow> worker_stats \<Rightarrow> worker_stats" where
  "tx_publish w st = st\<lparr>tx_pkts := local_pkts w, tx_bytes := local_bytes w\<rparr>"

text \<open>A turn gives the packets the driver took and the ones that were freed.\<close>

definition tx_turn ::
  "(u8 list \<Rightarrow> u16) \<Rightarrow> pktgen_params \<Rightarrow> u8 list \<Rightarrow> u32 \<Rightarrow> tx_input \<Rightarrow> tx_worker \<Rightarrow> worker_stats \<Rightarrow>
     ((u8 list list \<times> u8 list list) \<times> tx_worker \<times> worker_stats) option" where
  "tx_turn cksum par mac lcore inp w st =
     (if \<not> tx_allocated inp then Some (([], []), w, st)
      else do {
        (ms, w1) \<leftarrow> tx_fill cksum par mac lcore 0 (tx_bufs inp) w;
        let w2 = (if tx_taken inp > 0
                  then w1\<lparr>local_pkts := local_pkts w1 + of_nat (tx_taken inp),
                          local_bytes := local_bytes w1 +
                            ucast (of_nat (tx_taken inp) * wire_len (g_payload_size par))\<rparr>
                  else w1);
        let (w3, st') = (if tx_cur_tsc inp - last_tsc w2 \<ge> g_timer_hz par div 10
                         then (w2\<lparr>last_tsc := tx_cur_tsc inp\<rparr>, tx_publish w2 st)
                         else (w2, st));
        Some ((take (tx_taken inp) ms, drop (tx_taken inp) ms), w3, st')
      })"

fun tx_loop ::
  "(u8 list \<Rightarrow> u16) \<Rightarrow> pktgen_params \<Rightarrow> u8 list \<Rightarrow> u32 \<Rightarrow> tx_input list \<Rightarrow> tx_worker \<Rightarrow> worker_stats \<Rightarrow>
     ((u8 list list \<times> u8 list list) list \<times> tx_worker \<times> worker_stats) option" where
  "tx_loop cksum par mac lcore [] w st = Some ([], w, st)"
| "tx_loop cksum par mac lcore (inp # inps) w st = do {
     (o1, w', st') \<leftarrow> tx_turn cksum par mac lcore inp w st;
     (os, w'', st'') \<leftarrow> tx_loop cksum par mac lcore inps w' st';
     Some (o1 # os, w'', st'')
   }"

definition tx_worker_loop ::
  "(u8 list \<Rightarrow> u16) \<Rightarrow> pktgen_params \<Rightarrow> lcore_conf \<Rightarrow> u32 \<Rightarrow> u64 \<Rightarrow> tx_input list \<Rightarrow> worker_stats \<Rightarrow>
     ((u8 list list \<times> u8 list list) list \<times> worker_stats) option" where
  "tx_worker_loop cksum par conf lcore tsc inps st = do {
     (os, w, st') \<leftarrow> tx_loop cksum par (conf_port_mac conf) lcore inps (tx_start lcore tsc) st;
     Some (os, tx_publish w st')
   }"

section \<open>Receiving\<close>

record rx_worker =
  rx_local_pkts :: u64
  rx_local_bytes :: u64
  local_latency_cycles :: u64
  rx_last_tsc :: u64

text \<open>The packets of a burst; \<open>pkt_len\<close> is the length of the packet, 32 bits wide.\<close>

fun rx_packets :: "u64 \<Rightarrow> u8 list list \<Rightarrow> rx_worker \<Rightarrow> rx_worker option" where
  "rx_packets rx_tsc [] w = Some w"
| "rx_packets rx_tsc (m # ms) w = do {
     let w1 = w\<lparr>rx_local_bytes := rx_local_bytes w + ucast (of_nat (length m) + 24 :: u32)\<rparr>;
     lat \<leftarrow> rx_packet_latency rx_tsc m (local_latency_cycles w1);
     rx_packets rx_tsc ms (w1\<lparr>local_latency_cycles := lat\<rparr>)
   }"

record rx_input =
  rx_bufs :: "u8 list list"
  rx_burst_tsc :: u64
  rx_cur_tsc :: u64

definition rx_publish :: "rx_worker \<Rightarrow> worker_stats \<Rightarrow> worker_stats" where
  "rx_publish w st = st\<lparr>rx_pkts := rx_local_pkts w, rx_bytes := rx_local_bytes w,
     total_latency_cycles := local_latency_cycles w\<rparr>"

definition rx_turn ::
  "pktgen_params \<Rightarrow> rx_input \<Rightarrow> rx_worker \<Rightarrow> worker_stats \<Rightarrow> (rx_worker \<times> worker_stats) option" where
  "rx_turn par inp w st =
     (if rx_bufs inp = [] then Some (w, st)
      else do {
        w1 \<leftarrow> rx_packets (rx_burst_tsc inp) (rx_bufs inp) w;
        let w2 = w1\<lparr>rx_local_pkts := rx_local_pkts w1 + of_nat (length (rx_bufs inp))\<rparr>;
        Some (if rx_cur_tsc inp - rx_last_tsc w2 \<ge> g_timer_hz par div 10
              then (w2\<lparr>rx_last_tsc := rx_cur_tsc inp\<rparr>, rx_publish w2 st)
              else (w2, st))
      })"

fun rx_loop ::
  "pktgen_params \<Rightarrow> rx_input list \<Rightarrow> rx_worker \<Rightarrow> worker_stats \<Rightarrow> (rx_worker \<times> worker_stats) option" where
  "rx_loop par [] w st = Some (w, st)"
| "rx_loop par (inp # inps) w st = do {
     (w', st') \<leftarrow> rx_turn par inp w st;
     rx_loop par inps w' st'
   }"

definition rx_worker_loop :: "pktgen_params \<Rightarrow> u64 \<Rightarrow> rx_input list \<Rightarrow> worker_stats \<Rightarrow> worker_stats option" where
  "rx_worker_loop par tsc inps st = do {
     (w, st') \<leftarrow> rx_loop par inps
        \<lparr>rx_local_pkts = 0, rx_local_bytes = 0, local_latency_cycles = 0, rx_last_tsc = tsc\<rparr> st;
     Some (rx_publish w st')
   }"

section \<open>One burst of packets\<close>

text \<open>
  The inputs a turn may have: buffers with room for the whole packet, and a driver that takes
  at most the burst.
\<close>

definition tx_input_ok :: "pktgen_params \<Rightarrow> tx_input \<Rightarrow> bool" where
  "tx_input_ok par inp \<longleftrightarrow>
     tx_taken inp \<le> length (tx_bufs inp) \<and> length (tx_bufs inp) = BURST_SIZE \<and>
     (\<forall>buf \<in> set (tx_bufs inp). case fst buf of None \<Rightarrow> False
        | Some data \<Rightarrow> length data = unat (l2_payload_len (g_payload_size par)))"

text \<open>The packet with number \<open>n\<close> of the worker and id \<open>k\<close>.\<close>

definition tx_packet ::
  "(u8 list \<Rightarrow> u16) \<Rightarrow> pktgen_params \<Rightarrow> u8 list \<Rightarrow> u32 \<Rightarrow> u32 \<Rightarrow> u32 \<Rightarrow> u16 \<Rightarrow> u64 \<Rightarrow> u64 \<Rightarrow> u8 list" where
  "tx_packet cksum par mac lcore bip n port k stamp =
     packet cksum (g_payload_size par) mac (bip + (n AND g_ip_mask par)) port
       \<lparr>thread_id = lcore, packet_id = k, tx_timestamp = stamp\<rparr>"

definition sane_params :: "pktgen_params \<Rightarrow> bool" where
  "sane_params par \<longleftrightarrow> 20 \<le> g_payload_size par"

lemma l2_payload_len_nat: "unat (l2_payload_len g) = 42 + unat g"
proof -
  have "unat g < 2 ^ 16" using unsigned_less [of g, where ?'a = nat] by simp
  then show ?thesis
    by (simp add: l2_payload_len_def sizeof_headers_def unat_word_ariths unsigned_ucast_eq take_bit_nat_eq_self)
qed

lemma tx_fill_eq:
  assumes "sane_params par" and "length mac = 6" and "client_port_counter w \<le> 65000"
    and "\<forall>buf \<in> set bufs. case fst buf of None \<Rightarrow> False
        | Some data \<Rightarrow> length data = unat (l2_payload_len (g_payload_size par))"
  shows "\<exists>ds. tx_fill cksum par mac lcore i bufs w = Some
      (map2 (\<lambda>j d. tx_packet cksum par mac lcore (base_ip w) (client_ip_counter w + of_nat j)
           (client_port_counter w) (local_pkts w + of_nat (i + j)) (snd (bufs ! j)) @ d) [0..<length bufs] ds,
       w\<lparr>client_ip_counter := client_ip_counter w + of_nat (length bufs)\<rparr>) \<and> length ds = length bufs"
  using assms(3,4)
proof (induction bufs arbitrary: i w)
  case Nil
  show ?case by simp
next
  case (Cons buf bufs)
  obtain data where d: "fst buf = Some data" "length data = unat (l2_payload_len (g_payload_size par))"
    using Cons.prems(2) by (auto split: option.splits)
  have "20 \<le> unat (g_payload_size par)" using assms(1) by (simp add: sane_params_def word_le_nat_alt)
  then have "62 \<le> length data" using d(2) by (simp add: l2_payload_len_nat)
  note b = build_packet_eq [OF assms(2) this]
  let ?w = "w\<lparr>client_ip_counter := client_ip_counter w + 1\<rparr>"
  have t: "tx_build cksum par mac lcore i buf w = Some
      (tx_packet cksum par mac lcore (base_ip w) (client_ip_counter w) (client_port_counter w)
         (local_pkts w + of_nat i) (snd buf) @ drop 62 data, ?w)"
    using Cons.prems(1) by (simp add: tx_build_def d(1) b tx_packet_def not_less)
  obtain ds where ds: "tx_fill cksum par mac lcore (Suc i) bufs ?w = Some
      (map2 (\<lambda>j d. tx_packet cksum par mac lcore (base_ip ?w) (client_ip_counter ?w + of_nat j)
           (client_port_counter ?w) (local_pkts ?w + of_nat (Suc i + j)) (snd (bufs ! j)) @ d) [0..<length bufs] ds,
       ?w\<lparr>client_ip_counter := client_ip_counter ?w + of_nat (length bufs)\<rparr>)" "length ds = length bufs"
    using Cons.IH [of ?w "Suc i"] Cons.prems by auto
  have u: "[0..<Suc (length bufs)] = 0 # List.map Suc [0..<length bufs]"
    by (simp add: upt_conv_Cons map_Suc_upt del: upt_Suc)
  show ?case
    using t ds
    by (intro exI [of _ "drop 62 data # ds"])
      (simp add: u zip_map1 comp_def case_prod_unfold ac_simps del: upt_Suc)
qed

lemma tx_fill_nth:
  assumes "sane_params par" and "length mac = 6" and "client_port_counter w \<le> 65000" and "tx_input_ok par inp"
  shows "\<exists>ms. tx_fill cksum par mac lcore 0 (tx_bufs inp) w = Some
      (ms, w\<lparr>client_ip_counter := client_ip_counter w + 64\<rparr>) \<and> length ms = 64 \<and>
    (\<forall>j<64. \<exists>stamp d. ms ! j = tx_packet cksum par mac lcore (base_ip w) (client_ip_counter w + of_nat j)
           (client_port_counter w) (local_pkts w + of_nat j) stamp @ d)"
proof -
  have n: "length (tx_bufs inp) = 64" using assms(4) by (simp add: tx_input_ok_def BURST_SIZE_def)
  have b: "\<forall>buf \<in> set (tx_bufs inp). case fst buf of None \<Rightarrow> False
        | Some data \<Rightarrow> length data = unat (l2_payload_len (g_payload_size par))"
    using assms(4) by (simp add: tx_input_ok_def)
  let ?p = "\<lambda>j. tx_packet cksum par mac lcore (base_ip w) (client_ip_counter w + of_nat j)
           (client_port_counter w) (local_pkts w + of_nat (0 + j)) (snd (tx_bufs inp ! j))"
  from tx_fill_eq [OF assms(1-3) b, of cksum lcore 0] obtain ds where
    ds: "tx_fill cksum par mac lcore 0 (tx_bufs inp) w = Some (map2 (\<lambda>j d. ?p j @ d) [0..<64] ds,
       w\<lparr>client_ip_counter := client_ip_counter w + of_nat 64\<rparr>)" "length ds = 64" unfolding n by blast
  moreover have "map2 (\<lambda>j d. ?p j @ d) [0..<64] ds ! j = ?p j @ ds ! j" if "j < 64" for j
    using that ds(2) by simp
  moreover have "length (map2 (\<lambda>j d. ?p j @ d) [0..<64] ds) = 64" using ds(2) by simp
  ultimately show ?thesis
    by (intro exI [of _ "map2 (\<lambda>j d. ?p j @ d) [0..<64] ds"]) auto
qed

section \<open>The transmit loop\<close>

definition all_sent :: "('p list \<times> 'p list) list \<Rightarrow> 'p list" where
  "all_sent os = concat (List.map fst os)"

definition all_built :: "('p list \<times> 'p list) list \<Rightarrow> 'p list" where
  "all_built os = concat (List.map (\<lambda>(s, f). s @ f) os)"

definition packet_number :: "u8 list \<Rightarrow> u64" where
  "packet_number m = le_value (take 8 (drop 46 m))"

lemma packet_number_tx_packet:
  assumes "length mac = 6"
  shows "packet_number (tx_packet cksum par mac lcore bip n port k stamp @ d) = k"
proof -
  have "take 8 (drop 46 (tx_packet cksum par mac lcore bip n port k stamp @ d)) = le64 k"
    using assms by (simp add: tx_packet_def packet_def payload_part_def)
  then show ?thesis by (simp add: packet_number_def)
qed

text \<open>What a run leaves: the counters, the numbers of the packets sent, and every packet built.\<close>

definition tx_result ::
  "(u8 list \<Rightarrow> u16) \<Rightarrow> pktgen_params \<Rightarrow> u8 list \<Rightarrow> u32 \<Rightarrow> tx_worker \<Rightarrow>
     (u8 list list \<times> u8 list list) list \<Rightarrow> tx_worker \<Rightarrow> bool" where
  "tx_result cksum par mac lcore w os w' \<longleftrightarrow>
     local_pkts w' = local_pkts w + of_nat (length (all_sent os)) \<and>
     local_bytes w' = local_bytes w + of_nat (length (all_sent os) * (66 + unat (g_payload_size par))) \<and>
     (\<forall>k<length (all_sent os). packet_number (all_sent os ! k) = local_pkts w + of_nat k) \<and>
     (\<forall>j<length (all_built os). \<exists>k stamp d. all_built os ! j = tx_packet cksum par mac lcore (base_ip w)
        (client_ip_counter w + of_nat j) (client_port_counter w) k stamp @ d) \<and>
     base_ip w' = base_ip w \<and> client_port_counter w' = client_port_counter w \<and>
     client_ip_counter w' = client_ip_counter w + of_nat (length (all_built os))"

lemma tx_result_trans:
  assumes "tx_result cksum par mac lcore w os1 w1" and "tx_result cksum par mac lcore w1 os2 w2"
  shows "tx_result cksum par mac lcore w (os1 @ os2) w2"
proof -
  have a: "all_sent (os1 @ os2) = all_sent os1 @ all_sent os2" "all_built (os1 @ os2) = all_built os1 @ all_built os2"
    by (simp_all add: all_sent_def all_built_def)
  have n: "packet_number (all_sent (os1 @ os2) ! k) = local_pkts w + of_nat k"
    if "k < length (all_sent (os1 @ os2))" for k
  proof (cases "k < length (all_sent os1)")
    case True
    then show ?thesis using assms(1) unfolding tx_result_def a by (simp add: nth_append)
  next
    case False
    let ?k = "k - length (all_sent os1)"
    have "packet_number (all_sent os2 ! ?k) = local_pkts w1 + of_nat ?k"
      using assms(2) that False unfolding tx_result_def a by simp
    also have "\<dots> = local_pkts w + of_nat (length (all_sent os1) + ?k)"
      using assms(1) unfolding tx_result_def by (simp only: of_nat_add add.assoc)
    finally show ?thesis using False unfolding a by (simp add: nth_append)
  qed
  have b: "\<exists>m stamp d. all_built (os1 @ os2) ! j = tx_packet cksum par mac lcore (base_ip w)
        (client_ip_counter w + of_nat j) (client_port_counter w) m stamp @ d"
    if "j < length (all_built (os1 @ os2))" for j
  proof (cases "j < length (all_built os1)")
    case True
    then show ?thesis using assms(1) unfolding tx_result_def a by (simp add: nth_append)
  next
    case False
    let ?j = "j - length (all_built os1)"
    have j: "?j < length (all_built os2)" "length (all_built os1) + ?j = j" using that False unfolding a by simp_all
    have "\<exists>m stamp d. all_built os2 ! ?j = tx_packet cksum par mac lcore (base_ip w1)
        (client_ip_counter w1 + of_nat ?j) (client_port_counter w1) m stamp @ d"
      using assms(2) j(1) unfolding tx_result_def by blast
    moreover have "client_ip_counter w1 + of_nat ?j = client_ip_counter w + of_nat (length (all_built os1) + ?j)"
      using assms(1) unfolding tx_result_def by (simp only: of_nat_add add.assoc)
    moreover have "base_ip w1 = base_ip w" "client_port_counter w1 = client_port_counter w"
      using assms(1) unfolding tx_result_def by blast+
    moreover have "all_built (os1 @ os2) ! j = all_built os2 ! ?j" using False unfolding a by (simp add: nth_append)
    ultimately show ?thesis unfolding j(2) by metis
  qed
  show ?thesis
    unfolding tx_result_def using assms n b
    by (simp add: tx_result_def a(1) a(2) algebra_simps)
qed

lemma wire_bytes:
  assumes "n \<le> 64"
  shows "(ucast (of_nat n * wire_len g) :: u64) = of_nat (n * (66 + unat g))"
proof -
  have g: "unat g < 2 ^ 16" using unsigned_less [of g, where ?'a = nat] by simp
  have "unat (wire_len g) = 66 + unat g"
    using g by (simp add: wire_len_def unat_word_ariths l2_payload_len_nat)
  then have w: "wire_len g = of_nat (66 + unat g)" using g by (simp only: word_unat_eq_iff unat_of_nat) simp
  have "n * (66 + unat g) \<le> 64 * (66 + 2 ^ 16)" using assms g by (intro mult_le_mono) simp_all
  then have lt: "n * (66 + unat g) < 2 ^ 32" by simp
  have "(of_nat n * wire_len g :: u32) = of_nat (n * (66 + unat g))" unfolding w by simp
  moreover have "unat (of_nat (n * (66 + unat g)) :: u32) = n * (66 + unat g)"
    using lt by (simp only: unat_of_nat) simp
  ultimately have "unat (of_nat n * wire_len g :: u32) = n * (66 + unat g)" by metis
  then show ?thesis by (metis of_nat_unat)
qed

lemma tx_turn_result:
  assumes "sane_params par" and "length mac = 6" and "client_port_counter w \<le> 65000"
    and "tx_allocated inp \<Longrightarrow> tx_input_ok par inp"
  shows "\<exists>o1 w' st'. tx_turn cksum par mac lcore inp w st = Some (o1, w', st') \<and>
    tx_result cksum par mac lcore w [o1] w'"
proof (cases "tx_allocated inp")
  case False
  then have "tx_turn cksum par mac lcore inp w st = Some (([], []), w, st)" by (simp add: tx_turn_def)
  moreover have "tx_result cksum par mac lcore w [([], [])] w"
    by (simp add: tx_result_def all_sent_def all_built_def)
  ultimately show ?thesis by blast
next
  case True
  let ?n = "tx_taken inp" and ?w1 = "w\<lparr>client_ip_counter := client_ip_counter w + 64\<rparr>"
  let ?w2 = "?w1\<lparr>local_pkts := local_pkts w + of_nat ?n,
     local_bytes := local_bytes w + of_nat (?n * (66 + unat (g_payload_size par)))\<rparr>"
  from True assms(4) have ok: "tx_input_ok par inp" by blast
  then have n: "?n \<le> 64" by (simp add: tx_input_ok_def BURST_SIZE_def)
  from tx_fill_nth [OF assms(1-3) ok] obtain ms where
    ms: "tx_fill cksum par mac lcore 0 (tx_bufs inp) w = Some (ms, ?w1)" "length ms = 64"
    "\<forall>j<64. \<exists>stamp d. ms ! j = tx_packet cksum par mac lcore (base_ip w) (client_ip_counter w + of_nat j)
           (client_port_counter w) (local_pkts w + of_nat j) stamp @ d" by blast
  have number: "packet_number (ms ! k) = local_pkts w + of_nat k" if "k < 64" for k
    using ms(3) that packet_number_tx_packet [OF assms(2)] by metis
  let ?o = "(take ?n ms, drop ?n ms)"
  have "(if 0 < ?n then ?w1\<lparr>local_pkts := local_pkts ?w1 + of_nat ?n,
            local_bytes := local_bytes ?w1 + ucast (of_nat ?n * wire_len (g_payload_size par))\<rparr> else ?w1) = ?w2"
    unfolding wire_bytes [OF n] by simp
  then obtain w' st' where t: "tx_turn cksum par mac lcore inp w st = Some (?o, w', st')"
    and w': "w' = ?w2 \<or> w' = ?w2\<lparr>last_tsc := tx_cur_tsc inp\<rparr>"
    using True ms(1) by (cases "tx_cur_tsc inp - last_tsc w \<ge> g_timer_hz par div 10")
      (simp_all add: tx_turn_def Let_def)
  have "all_sent [?o] = take ?n ms" "all_built [?o] = ms" by (simp_all add: all_sent_def all_built_def)
  then have "tx_result cksum par mac lcore w [?o] w'"
    using w' ms(2) n number ms(3) unfolding tx_result_def by fastforce
  then show ?thesis using t by blast
qed

lemma tx_loop_result:
  assumes "sane_params par" and "length mac = 6" and "client_port_counter w \<le> 65000"
    and "\<forall>inp \<in> set inps. tx_allocated inp \<longrightarrow> tx_input_ok par inp"
  shows "\<exists>os w' st'. tx_loop cksum par mac lcore inps w st = Some (os, w', st') \<and>
    length os = length inps \<and> tx_result cksum par mac lcore w os w'"
  using assms(3,4)
proof (induction inps arbitrary: w st)
  case Nil
  have "tx_result cksum par mac lcore w [] w" by (simp add: tx_result_def all_sent_def all_built_def)
  then show ?case by simp
next
  case (Cons inp inps)
  have "tx_allocated inp \<Longrightarrow> tx_input_ok par inp" using Cons.prems(2) by simp
  from tx_turn_result [OF assms(1,2) Cons.prems(1) this] obtain o1 w1 st1 where
    t: "tx_turn cksum par mac lcore inp w st = Some (o1, w1, st1)"
      "tx_result cksum par mac lcore w [o1] w1" by blast
  then have "client_port_counter w1 \<le> 65000" using Cons.prems(1) by (simp add: tx_result_def)
  from Cons.IH [OF this, of st1] Cons.prems(2) obtain os w' st' where
    r: "tx_loop cksum par mac lcore inps w1 st1 = Some (os, w', st')" "length os = length inps"
      "tx_result cksum par mac lcore w1 os w'" by (meson list.set_intros(2))
  have "tx_result cksum par mac lcore w (o1 # os) w'" using tx_result_trans [OF t(2) r(3)] by simp
  then show ?case using t(1) r(1,2) by simp
qed

lemma tx_start_port:
  assumes "lcore < 128"
  shows "client_port_counter (tx_start lcore tsc) \<le> 65000"
proof -
  have "unat lcore < 128" using assms by (simp add: word_less_nat_alt)
  then show ?thesis
    by (simp add: tx_start_def word_le_nat_alt unsigned_ucast_eq unat_word_ariths take_bit_nat_eq_self)
qed

text \<open>
  C23: the transmit counters and packet numbers are exact.  In every run of a transmit worker,
  whichever allocations fail and however many packets the driver takes of each burst, the
  packets sent carry the numbers 0, 1, 2 and so on without a gap or a repetition (those of
  packets that were not taken are given again), and at the end the published counters are their
  number and their bytes on the wire.
\<close>

theorem pktgen_tx_counts:
  assumes "20 \<le> g_payload_size par" and "length (conf_port_mac conf) = 6" and "lcore < 128"
    and "\<forall>inp \<in> set inps. tx_allocated inp \<longrightarrow> tx_input_ok par inp"
  shows "\<exists>os st'. tx_worker_loop cksum par conf lcore tsc inps st = Some (os, st') \<and>
    (let n = length (all_sent os) in
       List.map packet_number (all_sent os) = List.map of_nat [0..<n] \<and>
       tx_pkts st' = of_nat n \<and> tx_bytes st' = of_nat (n * (66 + unat (g_payload_size par))))"
proof -
  have sane: "sane_params par" using assms(1) by (simp add: sane_params_def)
  from tx_loop_result [OF sane assms(2) tx_start_port [OF assms(3)] assms(4), of cksum lcore tsc st]
  obtain os w' st' where r: "tx_loop cksum par (conf_port_mac conf) lcore inps (tx_start lcore tsc) st = Some (os, w', st')"
    "tx_result cksum par (conf_port_mac conf) lcore (tx_start lcore tsc) os w'" by blast
  have "List.map packet_number (all_sent os) = List.map of_nat [0..<length (all_sent os)]"
    using r(2) by (intro nth_equalityI) (simp_all add: tx_result_def tx_start_def)
  then show ?thesis
    using r by (simp add: tx_worker_loop_def tx_publish_def tx_result_def tx_start_def Let_def)
qed

section \<open>The hash of a client\<close>

lemma Suc_mod_eq: "Suc i mod n = Suc j mod n \<longleftrightarrow> i mod n = j mod n"
proof -
  have "int (Suc i) mod int n = int (Suc j) mod int n \<longleftrightarrow> int i mod int n = int j mod int n"
    by (simp add: mod_eq_dvd_iff)
  then show ?thesis by (simp only: zmod_int [symmetric] of_nat_eq_iff)
qed

lemma core_state:
  "fnv_1_multi [10, l] FNV_BASIS * FNV_PRIME = (0x8327e07b4eb5eef XOR char_to_u64 l) * FNV_PRIME"
proof -
  have "(FNV_BASIS * FNV_PRIME XOR char_to_u64 10) * FNV_PRIME = 0x8327e07b4eb5eef"
    by (simp add: FNV_BASIS_def FNV_PRIME_def char_to_u64_def)
  then show ?thesis by simp
qed

lemma even_core_state: "even (fnv_1_multi [10, l] FNV_BASIS * FNV_PRIME) \<longleftrightarrow> odd l"
proof -
  have "even (char_to_u64 l) \<longleftrightarrow> even l"
    using bit_signed_iff [where ?'a = "64 word", of l 0] unfolding char_to_u64_def by (simp add: bit_0)
  then show ?thesis unfolding core_state by (simp add: even_xor_iff FNV_PRIME_def)
qed

text \<open>The state after the first two bytes of a client's address, without going through the cores.\<close>

lemma spread_cores:
  assumes "l < 0x80"
  shows "spread (fnv_1_multi [10, l] FNV_BASIS * FNV_PRIME)"
proof -
  define v where "v = 0x8327e07b4eb5eef XOR char_to_u64 l"
  have "unat v div 128 = unat (0x8327e07b4eb5eef :: u64) div 128"
    unfolding v_def using assms by (intro xor_low_byte) (simp add: bit_u8_7 not_le)
  then have v: "unat v = 128 * 4614633380501181 + unat v mod 128" using mult_div_mod_eq [of 128 "unat v"] by simp
  define r where "r = int (unat v mod 128)"
  have r: "int (unat v) = 128 * 4614633380501181 + r" "0 \<le> r" "r < 128"
    using arg_cong [OF v, of int] by (simp_all add: r_def)
  obtain M where M: "int (unat (v * FNV_PRIME)) + 2 ^ 64 * M = int (unat v) * 0x100000001b3"
    using unat_mult_prime by blast
  have split: "int x = 128 * int (x div 128) + int (x mod 128)" for x :: nat
    using mult_div_mod_eq [of 128 x] by (metis of_nat_add of_nat_mult of_nat_numeral)
  define q where "q = unat (v * FNV_PRIME) div 128"
  define m where "m = int (unat (v * FNV_PRIME) mod 128)"
  have m: "int (unat (v * FNV_PRIME)) = 128 * int q + m" "0 \<le> m" "m < 128"
    unfolding q_def m_def by (rule split, simp_all)
  define y where "y = 1094528484608 + 378450 * r - 870 * m"
  have y: "200 \<le> y" "y + 110700 \<le> 2 ^ 40" using m(2,3) r(2,3) unfolding y_def by simp_all
  have "256 * 435 * int q = y + 2 ^ 40 * (203308649692 + 870 * int (unat v) - 870 * 2 ^ 24 * M)"
    using M unfolding m(1) r(1) y_def by (simp add: algebra_simps)
  then have "256 * 435 * int q mod 2 ^ 40 = y mod 2 ^ 40" by (simp only: mod_mult_self2)
  also have "\<dots> = y" using y by (intro mod_pos_pos_trivial) linarith+
  finally have "256 * 435 * int q mod 2 ^ 40 = y" .
  moreover define n where "n = 256 * 435 * q mod 2 ^ 40"
  ultimately have "int n = y" by (simp add: zmod_int)
  then have "200 \<le> n \<and> n + 110700 \<le> 2 ^ 40" using y by simp
  then show ?thesis unfolding core_state v_def [symmetric] spread_def Let_def n_def q_def .
qed

lemma unat_client_number: "unat (x AND (2 ^ k - 1 :: u32)) = unat x mod 2 ^ k"
  by (rule and_mask_two_power)

lemma client_number:
  assumes "k \<le> 30"
  shows "unat ((1 + of_nat i) AND (2 ^ k - 1 :: u32)) = Suc i mod 2 ^ k"
proof -
  have "unat (1 + of_nat i :: u32) = Suc i mod 2 ^ 32" by (simp add: unat_of_nat flip: of_nat_Suc)
  moreover have "(2::nat) ^ k dvd 2 ^ 32" using assms by (intro le_imp_power_dvd) simp
  ultimately show ?thesis unfolding unat_client_number by (simp only: mod_mod_cancel)
qed

text \<open>The hash of the packet a worker builds for one of its clients.\<close>

definition client_hash :: "u32 \<Rightarrow> u16 \<Rightarrow> u32 \<Rightarrow> u64" where
  "client_hash lcore port x =
     fnv_1_multi (be32 (RTE_IPV4 10 lcore 0 0 + x) @ [192, 168, 1, 1, 17] @ be16 port @ [0, 80]) FNV_BASIS"

lemma client_hash_eq:
  assumes "unat x < 65536"
  shows "client_hash lcore port x = fnv_1_multi (ucast (drop_bit 8 x) # ucast x #
    [192, 168, 1, 1, 17] @ be16 port @ [0, 80]) (fnv_1_multi [10, ucast lcore] FNV_BASIS)"
  unfolding client_hash_def be32_client [OF assms] by simp

lemma client_hash_inject:
  assumes "lcore < 128" and "unat x < 32768" and "unat y < 32768"
  shows "client_hash lcore port x = client_hash lcore port y \<longleftrightarrow> x = y"
proof
  have l: "(ucast lcore :: u8) < 0x80" 
    using assms(1) by (simp add: word_less_nat_alt unsigned_ucast_eq take_bit_nat_eq_self)
  have hi: "(ucast (drop_bit 8 z) :: u8) < 0x80" if "unat z < 32768" for z :: u32
    using that unat_u8_byte [of 8 z] by (simp add: word_less_nat_alt div_less_iff_less_mult)
  assume "client_hash lcore port x = client_hash lcore port y"
  then have "(ucast (drop_bit 8 x) :: u8) = ucast (drop_bit 8 y)" "(ucast x :: u8) = ucast y"
    using assms(2,3) fnv_pair_inject [OF spread_cores [OF l] hi [OF assms(2)] hi [OF assms(3)]]
    by (simp_all only: client_hash_eq)
  then have "unat (ucast (drop_bit 8 x) :: u8) = unat (ucast (drop_bit 8 y) :: u8)" "unat (ucast (drop_bit 0 x) :: u8) = unat (ucast (drop_bit 0 y) :: u8)"
    by simp_all
  then have "unat x div 256 = unat y div 256" "unat x mod 256 = unat y mod 256"
    using assms(2,3) by (simp_all only: unat_u8_byte) (simp_all add: div_less_iff_less_mult)
  then have "unat x = unat y" by (metis mult_div_mod_eq)
  then show "x = y" by (simp only: word_unat_eq_iff)
qed simp

lemma client_hash_collision:
  assumes "lcore < 128"
  shows "client_hash lcore port (if even lcore then 0xfcfe else 0xfffe) =
    client_hash lcore port (if even lcore then 0x200 else 0x100)"
proof -
  let ?s = "fnv_1_multi [10, ucast lcore] FNV_BASIS"
  have e: "even (?s * FNV_PRIME) \<longleftrightarrow> odd lcore"
  proof -
    have "even (ucast lcore :: u8) \<longleftrightarrow> even lcore"
      using bit_unsigned_iff [where ?'a = "8 word", of lcore 0] by (simp add: bit_0)
    then show ?thesis unfolding even_core_state by simp
  qed
  have b: "unat (0xfcfe :: u32) < 65536" "unat (0xfffe :: u32) < 65536" "unat (0x200 :: u32) < 65536" "unat (0x100 :: u32) < 65536"
    by simp_all
  have w: "(64766 :: u8) = 254" "(65534 :: u8) = 254" "(512 :: u8) = 0" "(256 :: u8) = 0" by simp_all
  note c = fnv_pair_collision [of ?s "[192, 168, 1, 1, 17] @ be16 port @ [0, 80]", unfolded e]
  show ?thesis
    using c by (cases "even lcore") (simp_all only: if_True if_False not_True_eq_False not_False_eq_True simp_thms client_hash_eq b, simp_all add: w)
qed

section \<open>The packets built\<close>

lemma tx_fill_length: "tx_fill cksum par mac lcore i bufs w = Some (ms, w') \<Longrightarrow> length ms = length bufs"
  by (induction bufs arbitrary: i w ms w') (auto split: bind_splits prod.splits)

lemma tx_loop_length:
  assumes "tx_loop cksum par mac lcore inps w st = Some (os, w', st')"
    and "\<forall>inp \<in> set inps. tx_allocated inp \<longrightarrow> tx_input_ok par inp"
  shows "length (all_built os) = 64 * length (filter tx_allocated inps)"
  using assms
proof (induction inps arbitrary: w st os)
  case Nil
  then show ?case by (simp add: all_built_def)
next
  case (Cons inp inps)
  obtain o1 w1 st1 os2 where r: "tx_turn cksum par mac lcore inp w st = Some (o1, w1, st1)"
    "tx_loop cksum par mac lcore inps w1 st1 = Some (os2, w', st')" "os = o1 # os2"
    using Cons.prems(1) by (auto split: bind_splits prod.splits)
  have "length (fst o1 @ snd o1) = (if tx_allocated inp then 64 else 0)"
  proof (cases "tx_allocated inp")
    case True
    then have "length (tx_bufs inp) = 64" using Cons.prems(2) by (simp add: tx_input_ok_def BURST_SIZE_def)
    then show ?thesis using True r(1) tx_fill_length
      by (fastforce simp: tx_turn_def Let_def split: bind_splits prod.splits if_splits)
  next
    case False
    then show ?thesis using r(1) by (auto simp: tx_turn_def)
  qed
  moreover have "length (all_built os2) = 64 * length (filter tx_allocated inps)"
    using Cons.IH [OF r(2)] Cons.prems(2) by simp
  ultimately show ?case by (cases o1) (simp add: r(3) all_built_def)
qed

text \<open>Packet \<open>i\<close> of a worker is the one of its client \<open>i + 1\<close> modulo the range.\<close>

lemma tx_worker_built:
  assumes "20 \<le> g_payload_size par" and "length (conf_port_mac conf) = 6" and "lcore < 128"
    and "\<forall>inp \<in> set inps. tx_allocated inp \<longrightarrow> tx_input_ok par inp"
    and "g_ip_mask par = 2 ^ k - 1" and "k \<le> 30"
  shows "\<exists>os st'. tx_worker_loop cksum par conf lcore tsc inps st = Some (os, st') \<and>
    length (all_built os) = 64 * length (filter tx_allocated inps) \<and>
    (\<forall>i<length (all_built os). \<exists>p d. all_built os ! i =
      packet cksum (g_payload_size par) (conf_port_mac conf) (RTE_IPV4 10 lcore 0 0 + of_nat (Suc i mod 2 ^ k))
        (client_port_counter (tx_start lcore tsc)) p @ d)"
proof -
  have sane: "sane_params par" using assms(1) by (simp add: sane_params_def)
  let ?w = "tx_start lcore tsc" and ?mac = "conf_port_mac conf"
  from tx_loop_result [OF sane assms(2) tx_start_port [OF assms(3)] assms(4), of cksum lcore tsc st]
  obtain os w' st' where r: "tx_loop cksum par ?mac lcore inps ?w st = Some (os, w', st')"
    "tx_result cksum par ?mac lcore ?w os w'" by blast
  have "\<exists>p d. all_built os ! i = packet cksum (g_payload_size par) ?mac
      (RTE_IPV4 10 lcore 0 0 + of_nat (Suc i mod 2 ^ k)) (client_port_counter ?w) p @ d"
    if i: "i < length (all_built os)" for i
  proof -
    have "(1 + of_nat i) AND g_ip_mask par = of_nat (Suc i mod 2 ^ k)"
      unfolding assms(5) using arg_cong [OF client_number [OF assms(6), of i], of "of_nat :: nat \<Rightarrow> u32"]
      by (simp only: of_nat_unat ucast_id)
    moreover obtain n stamp d where "all_built os ! i =
        tx_packet cksum par ?mac lcore (base_ip ?w) (client_ip_counter ?w + of_nat i) (client_port_counter ?w) n stamp @ d"
      using r(2) i unfolding tx_result_def by blast
    ultimately show ?thesis by (auto simp: tx_packet_def tx_start_def)
  qed
  moreover have "tx_worker_loop cksum par conf lcore tsc inps st = Some (os, tx_publish w' st')"
    using r(1) by (simp add: tx_worker_loop_def)
  ultimately show ?thesis using tx_loop_length [OF r(1) assms(4)] by blast
qed

lemma unat_client:
  assumes "k \<le> 30"
  shows "unat (of_nat (i mod 2 ^ k) :: u32) = i mod 2 ^ k"
proof -
  have "(2::nat) ^ k \<le> 2 ^ 30" using assms by (intro power_increasing) simp_all
  then have "i mod 2 ^ k < 2 ^ 30" by (intro less_le_trans [OF mod_less_divisor]) simp_all
  then show ?thesis by (simp add: unat_of_nat)
qed

section \<open>The flows of a worker\<close>

text \<open>
  C34: the flows of a worker.  It draws its clients from a range of \<open>2 ^ k\<close>, for every \<open>k\<close> the
  options accept.  Packets whose positions, in the order they were built, agree modulo the range
  have the same flow hash.  Up to 32768 clients the converse holds too: the worker generates as
  many flows as announced, no two of them collide, and none is mixed up by bursts that were cut
  short.  From 65536 clients on it does not: as the hash takes the address bytes as signed
  characters, two clients of every worker have the same hash, so the flows are fewer than
  announced.
\<close>

theorem pktgen_flows:
  assumes "20 \<le> g_payload_size par" and "length (conf_port_mac conf) = 6" and "lcore < 128"
    and "\<forall>inp \<in> set inps. tx_allocated inp \<longrightarrow> tx_input_ok par inp"
    and "g_ip_mask par = 2 ^ k - 1" and "k \<le> 30"
  shows "\<exists>os st'. tx_worker_loop cksum par conf lcore tsc inps st = Some (os, st') \<and>
    (let n = length (all_built os); hash = (\<lambda>i. flowhash (all_built os ! i)) in
      n = 64 * length (filter tx_allocated inps) \<and>
      (\<forall>i<n. hash i \<noteq> None) \<and>
      (\<forall>i<n. \<forall>j<n. i mod 2 ^ k = j mod 2 ^ k \<longrightarrow> hash i = hash j) \<and>
      (k \<le> 15 \<longrightarrow> (\<forall>i<n. \<forall>j<n. hash i = hash j \<longrightarrow> i mod 2 ^ k = j mod 2 ^ k)) \<and>
      (16 \<le> k \<and> 2 ^ 16 \<le> n \<longrightarrow>
        (\<exists>i<2 ^ 16. \<exists>j<2 ^ 16. i mod 2 ^ k \<noteq> j mod 2 ^ k \<and> hash i = hash j)))"
proof -
  obtain os st' where r: "tx_worker_loop cksum par conf lcore tsc inps st = Some (os, st')"
    "length (all_built os) = 64 * length (filter tx_allocated inps)"
    "\<And>i. i < length (all_built os) \<Longrightarrow> \<exists>p d. all_built os ! i =
      packet cksum (g_payload_size par) (conf_port_mac conf) (RTE_IPV4 10 lcore 0 0 + of_nat (Suc i mod 2 ^ k))
        (client_port_counter (tx_start lcore tsc)) p @ d"
    using tx_worker_built [OF assms, of cksum tsc st] by blast
  let ?n = "length (all_built os)" and ?hash = "\<lambda>i. flowhash (all_built os ! i)"
  let ?h = "\<lambda>c. client_hash lcore (client_port_counter (tx_start lcore tsc)) (of_nat c)"
  have h: "?hash i = Some (?h (Suc i mod 2 ^ k))" if "i < ?n" for i
    using r(3) [OF that] flowhash_packet [OF assms(2)] unfolding client_hash_def by auto
  have few: "i mod 2 ^ k = j mod 2 ^ k" if "k \<le> 15" "?h (Suc i mod 2 ^ k) = ?h (Suc j mod 2 ^ k)" for i j
  proof -
    have "(2::nat) ^ k \<le> 2 ^ 15" using that(1) by (intro power_increasing) simp_all
    then have "m mod 2 ^ k < 2 ^ 15" for m :: nat by (intro less_le_trans [OF mod_less_divisor]) simp_all
    then have "unat (of_nat (m mod 2 ^ k) :: u32) < 32768" for m :: nat
      unfolding unat_client [OF assms(6)] by simp
    then have "(of_nat (Suc i mod 2 ^ k) :: u32) = of_nat (Suc j mod 2 ^ k)"
      using that(2) client_hash_inject [OF assms(3)] by blast
    then have "Suc i mod 2 ^ k = Suc j mod 2 ^ k" using unat_client [OF assms(6)] by metis
    then show ?thesis by (simp only: Suc_mod_eq)
  qed
  have many: "\<exists>i<2 ^ 16. \<exists>j<2 ^ 16. i mod 2 ^ k \<noteq> j mod 2 ^ k \<and> ?hash i = ?hash j" if "16 \<le> k" "2 ^ 16 \<le> ?n"
  proof -
    define i j :: nat where "i = (if even lcore then 0xfcfd else 0xfffd)" and "j = (if even lcore then 0x1ff else 0xff)"
    have l: "i < 2 ^ 16" "j < 2 ^ 16" "Suc i < 2 ^ 16" "Suc j < 2 ^ 16" "i \<noteq> j" by (simp_all add: i_def j_def)
    have le: "(2::nat) ^ 16 \<le> 2 ^ k" using that(1) by (intro power_increasing) simp_all
    have m: "m mod 2 ^ k = m" if "m < 2 ^ 16" for m :: nat using that le by (intro mod_less) linarith
    have "of_nat (Suc i) = (if even lcore then 0xfcfe else 0xfffe :: u32)"
      "of_nat (Suc j) = (if even lcore then 0x200 else 0x100 :: u32)" by (simp_all add: i_def j_def)
    then have "?h (Suc i) = ?h (Suc j)" using client_hash_collision [OF assms(3)] by (simp only:)
    moreover have "i < ?n" "j < ?n" using l(1,2) that(2) by linarith+
    ultimately have "?hash i = ?hash j" by (simp only: h m [OF l(3)] m [OF l(4)])
    moreover have "i mod 2 ^ k \<noteq> j mod 2 ^ k" unfolding m [OF l(1)] m [OF l(2)] by (rule l(5))
    ultimately show ?thesis using l(1,2) by blast
  qed
  have same: "?hash i = ?hash j" if "i < ?n" "j < ?n" "i mod 2 ^ k = j mod 2 ^ k" for i j
    using iffD2 [OF Suc_mod_eq that(3)] by (simp only: h [OF that(1)] h [OF that(2)])
  have inj: "i mod 2 ^ k = j mod 2 ^ k" if "k \<le> 15" "i < ?n" "j < ?n" "?hash i = ?hash j" for i j
    using that(4) few [OF that(1), of i j] unfolding h [OF that(2)] h [OF that(3)] option.inject by blast
  have "\<forall>i<?n. ?hash i \<noteq> None" by (metis h option.distinct(1))
  then show ?thesis unfolding Let_def using r(1,2) same inj many by blast
qed

section \<open>The ranges of the cores\<close>

text \<open>
  C40: the source addresses of two transmitting cores.  Packet \<open>i\<close> a core builds carries the
  address 10.\<open>l\<close>.0.0 of its core plus \<open>i + 1\<close> modulo the range of \<open>2 ^ k\<close> clients.  So two
  cores can only use the same address if the range, which the options allow up to \<open>2 ^ 30\<close>,
  reaches from the one to the other (65536 addresses for each core between), and never with a
  range of at most 65536; and if the range does reach so far, they do use the same address as
  soon as both have gone through it once: their flows are then told apart by the source ports
  only.
\<close>

theorem pktgen_core_ranges:
  assumes "20 \<le> g_payload_size par" and "g_ip_mask par = 2 ^ k - 1" and "k \<le> 30"
    and "l1 < l2" and "l2 < 128" and "length (conf_port_mac c1) = 6" and "length (conf_port_mac c2) = 6"
    and "\<forall>inp \<in> set is1 \<union> set is2. tx_allocated inp \<longrightarrow> tx_input_ok par inp"
  shows "\<exists>os1 st1 os2 st2.
    tx_worker_loop cksum par c1 l1 t1 is1 s1 = Some (os1, st1) \<and>
    tx_worker_loop cksum par c2 l2 t2 is2 s2 = Some (os2, st2) \<and>
    (\<forall>i<length (all_built os1). src_address (all_built os1 ! i) = 10 * 2 ^ 24 + unat l1 * 2 ^ 16 + Suc i mod 2 ^ k) \<and>
    (\<forall>i<length (all_built os2). src_address (all_built os2 ! i) = 10 * 2 ^ 24 + unat l2 * 2 ^ 16 + Suc i mod 2 ^ k) \<and>
    (let shared = (\<exists>m1 \<in> set (all_built os1). \<exists>m2 \<in> set (all_built os2). src_address m1 = src_address m2);
         reaches = (unat l2 - unat l1) * 2 ^ 16 < 2 ^ k in
       (shared \<longrightarrow> reaches \<and> 16 < k) \<and>
       (reaches \<and> 2 ^ k \<le> 64 * length (filter tx_allocated is1) \<and> 2 ^ k \<le> 64 * length (filter tx_allocated is2) \<longrightarrow> shared))"
proof -
  have l: "unat l1 < unat l2" "unat l2 < 128" using assms(4,5) by (simp_all add: word_less_nat_alt)
  have "l1 < 128" using assms(4,5) by simp
  have ok: "\<forall>inp \<in> set is1. tx_allocated inp \<longrightarrow> tx_input_ok par inp" "\<forall>inp \<in> set is2. tx_allocated inp \<longrightarrow> tx_input_ok par inp"
    using assms(8) by blast+
  have lt: "m mod 2 ^ k < 2 ^ 30" for m :: nat
    using power_increasing [OF assms(3), of "2 :: nat"] by (intro less_le_trans [OF mod_less_divisor]) simp_all
  have addr: "unat (RTE_IPV4 10 l 0 0 + of_nat (m mod 2 ^ k)) = 10 * 2 ^ 24 + unat l * 2 ^ 16 + m mod 2 ^ k"
    if "unat l < 128" for l m
    using that unat_client_address [of "of_nat (m mod 2 ^ k)" l] lt unfolding unat_client [OF assms(3)] by simp
  obtain os1 st1 where r1: "tx_worker_loop cksum par c1 l1 t1 is1 s1 = Some (os1, st1)"
    "length (all_built os1) = 64 * length (filter tx_allocated is1)"
    "\<And>i. i < length (all_built os1) \<Longrightarrow> \<exists>p d. all_built os1 ! i =
      packet cksum (g_payload_size par) (conf_port_mac c1) (RTE_IPV4 10 l1 0 0 + of_nat (Suc i mod 2 ^ k))
        (client_port_counter (tx_start l1 t1)) p @ d"
    using tx_worker_built [OF assms(1,6) \<open>l1 < 128\<close> ok(1) assms(2,3)] by blast
  obtain os2 st2 where r2: "tx_worker_loop cksum par c2 l2 t2 is2 s2 = Some (os2, st2)"
    "length (all_built os2) = 64 * length (filter tx_allocated is2)"
    "\<And>i. i < length (all_built os2) \<Longrightarrow> \<exists>p d. all_built os2 ! i =
      packet cksum (g_payload_size par) (conf_port_mac c2) (RTE_IPV4 10 l2 0 0 + of_nat (Suc i mod 2 ^ k))
        (client_port_counter (tx_start l2 t2)) p @ d"
    using tx_worker_built [OF assms(1,7,5) ok(2) assms(2,3)] by blast
  have a1: "src_address (all_built os1 ! i) = 10 * 2 ^ 24 + unat l1 * 2 ^ 16 + Suc i mod 2 ^ k"
    if "i < length (all_built os1)" for i
    using r1(3) [OF that] src_address_packet [OF assms(6)] addr [of l1 "Suc i"] l by auto
  have a2: "src_address (all_built os2 ! i) = 10 * 2 ^ 24 + unat l2 * 2 ^ 16 + Suc i mod 2 ^ k"
    if "i < length (all_built os2)" for i
    using r2(3) [OF that] src_address_packet [OF assms(7)] addr [of l2 "Suc i"] l by auto
  let ?shared = "\<exists>m1 \<in> set (all_built os1). \<exists>m2 \<in> set (all_built os2). src_address m1 = src_address m2"
  let ?D = "(unat l2 - unat l1) * 2 ^ 16"
  have s1: "?D < 2 ^ k \<and> 16 < k" if "?shared"
  proof -
    obtain i j where ij: "i < length (all_built os1)" "j < length (all_built os2)"
      "src_address (all_built os1 ! i) = src_address (all_built os2 ! j)"
      using \<open>?shared\<close> by (metis in_set_conv_nth)
    have "Suc i mod 2 ^ k = ?D + Suc j mod 2 ^ k"
      using ij(3) l(1) unfolding a1 [OF ij(1)] a2 [OF ij(2)] by (simp add: diff_mult_distrib)
    moreover have "Suc i mod 2 ^ k < 2 ^ k" by simp
    ultimately have D: "?D < 2 ^ k" by linarith
    moreover have "2 ^ 16 \<le> ?D" using l(1) by simp
    ultimately have "(2::nat) ^ 16 < 2 ^ k" by linarith
    then show ?thesis using D power_less_imp_less_exp [of "2 :: nat" 16 k] by simp
  qed
  have s2: "?shared" if s: "?D < 2 ^ k" "2 ^ k \<le> length (all_built os1)" "2 ^ k \<le> length (all_built os2)"
  proof -
    have d: "0 < ?D" using l(1) by simp
    then have i: "?D - 1 < length (all_built os1)" "Suc (?D - 1) mod 2 ^ k = ?D" using s(1,2) by simp_all
    have "(0::nat) < 2 ^ k" by simp
    then have j: "2 ^ k - 1 < length (all_built os2)" "Suc (2 ^ k - 1) mod 2 ^ k = 0" using s(3) by (linarith, simp)
    have "src_address (all_built os1 ! (?D - 1)) = src_address (all_built os2 ! (2 ^ k - 1))"
      unfolding a1 [OF i(1)] a2 [OF j(1)] i(2) j(2) using l(1) by (simp add: diff_mult_distrib)
    then show ?thesis using i(1) j(1) by (meson nth_mem)
  qed
  have "\<forall>i<length (all_built os1). src_address (all_built os1 ! i) = 10 * 2 ^ 24 + unat l1 * 2 ^ 16 + Suc i mod 2 ^ k"
    "\<forall>i<length (all_built os2). src_address (all_built os2 ! i) = 10 * 2 ^ 24 + unat l2 * 2 ^ 16 + Suc i mod 2 ^ k"
    using a1 a2 by blast+
  moreover have "?shared \<longrightarrow> ?D < 2 ^ k \<and> 16 < k" using s1 by blast
  moreover have "?D < 2 ^ k \<and> 2 ^ k \<le> 64 * length (filter tx_allocated is1) \<and>
      2 ^ k \<le> 64 * length (filter tx_allocated is2) \<longrightarrow> ?shared"
    using s2 unfolding r1(2) r2(2) by blast
  ultimately show ?thesis unfolding Let_def using r1(1) r2(1) by (intro exI conjI)
qed

section \<open>The receive loop\<close>

text \<open>
  A packet of the generator on its way back: built with a time stamp, its Ethernet addresses
  possibly rewritten by the forwarder.
\<close>

definition stamped :: "u64 \<Rightarrow> u8 list \<Rightarrow> bool" where
  "stamped ts m \<longleftrightarrow> (\<exists>cksum g mac ip cp p data m0.
     length mac = 6 \<and> 62 \<le> length data \<and> build_packet cksum g mac ip cp p data = Some m0 \<and>
     tx_timestamp p = ts \<and> same_packet m0 m)"

lemma stamped_latency:
  assumes "stamped ts m"
  shows "rx_packet_latency rx_tsc m acc = Some (acc + (if ts < rx_tsc then rx_tsc - ts else 0))"
proof -
  obtain cksum g mac ip cp p data m0 where s: "length mac = 6" "62 \<le> length data"
    "build_packet cksum g mac ip cp p data = Some m0" "tx_timestamp p = ts" "same_packet m0 m"
    using assms unfolding stamped_def by blast
  have m0: "m0 = packet cksum g mac ip cp p @ drop 62 data" using s(3) build_packet_eq [OF s(1,2)] by simp
  have "62 \<le> length m" "take 50 (drop 12 m) = take 50 (drop 12 m0)"
    using s(1,5) length_packet [OF s(1)] by (simp_all add: same_packet_def m0)
  then show ?thesis using rx_packet_latency_built [OF s(1)] s(4) unfolding m0 by blast
qed

definition burst_latency :: "u64 \<Rightarrow> u64 list \<Rightarrow> u64" where
  "burst_latency rx_tsc stamps = sum_list (List.map (\<lambda>ts. if ts < rx_tsc then rx_tsc - ts else 0) stamps)"

definition burst_bytes :: "u8 list list \<Rightarrow> u64" where
  "burst_bytes ms = sum_list (List.map (\<lambda>m. of_nat (length m + 24)) ms)"

lemma ucast_pkt_len: "n < 2 ^ 16 \<Longrightarrow> (ucast (of_nat n + 24 :: u32) :: u64) = of_nat (n + 24)"
proof -
  assume n: "n < 2 ^ 16"
  have "(of_nat n + 24 :: u32) = of_nat (n + 24)" by simp
  moreover have "unat (of_nat (n + 24) :: u32) = n + 24" using n by (simp only: unat_of_nat) simp
  ultimately show ?thesis by (metis of_nat_unat)
qed

lemma rx_packets_eq:
  assumes "list_all2 stamped stamps ms" and "\<forall>m \<in> set ms. length m < 2 ^ 16"
  shows "rx_packets rx_tsc ms w = Some (w\<lparr>rx_local_bytes := rx_local_bytes w + burst_bytes ms,
    local_latency_cycles := local_latency_cycles w + burst_latency rx_tsc stamps\<rparr>)"
  using assms
proof (induction stamps ms arbitrary: w rule: list_all2_induct)
  case Nil
  show ?case by (simp add: burst_bytes_def burst_latency_def)
next
  case (Cons ts stamps m ms)
  have u: "(ucast (of_nat (length m) + 24 :: u32) :: u64) = of_nat (length m + 24)"
    using Cons.prems by (intro ucast_pkt_len) simp
  show ?case
    using Cons.IH Cons.prems
    by (simp add: u stamped_latency [OF Cons.hyps(1)] burst_bytes_def burst_latency_def add.assoc del: of_nat_add)
qed

definition rx_input_ok :: "rx_input \<times> u64 list \<Rightarrow> bool" where
  "rx_input_ok t \<longleftrightarrow> list_all2 stamped (snd t) (rx_bufs (fst t)) \<and> (\<forall>m \<in> set (rx_bufs (fst t)). length m < 2 ^ 16)"

lemma rx_loop_eq:
  assumes "\<forall>t \<in> set turns. rx_input_ok t"
  shows "\<exists>w' st'. rx_loop par (List.map fst turns) w st = Some (w', st') \<and>
    rx_local_pkts w' = rx_local_pkts w + of_nat (\<Sum>t\<leftarrow>turns. length (rx_bufs (fst t))) \<and>
    rx_local_bytes w' = rx_local_bytes w + (\<Sum>t\<leftarrow>turns. burst_bytes (rx_bufs (fst t))) \<and>
    local_latency_cycles w' = local_latency_cycles w +
      (\<Sum>t\<leftarrow>turns. burst_latency (rx_burst_tsc (fst t)) (snd t))"
  using assms
proof (induction turns arbitrary: w st)
  case Nil
  show ?case by simp
next
  case (Cons t turns)
  have ok: "list_all2 stamped (snd t) (rx_bufs (fst t))" "\<forall>m \<in> set (rx_bufs (fst t)). length m < 2 ^ 16"
    using Cons.prems by (auto simp: rx_input_ok_def)
  have "\<exists>w1 st1. rx_turn par (fst t) w st = Some (w1, st1) \<and>
      rx_local_pkts w1 = rx_local_pkts w + of_nat (length (rx_bufs (fst t))) \<and>
      rx_local_bytes w1 = rx_local_bytes w + burst_bytes (rx_bufs (fst t)) \<and>
      local_latency_cycles w1 = local_latency_cycles w + burst_latency (rx_burst_tsc (fst t)) (snd t)"
  proof (cases "rx_bufs (fst t) = []")
    case True
    then show ?thesis using ok(1) by (simp add: rx_turn_def burst_bytes_def burst_latency_def)
  next
    case False
    then show ?thesis
      by (simp add: rx_turn_def rx_packets_eq [OF ok] Let_def)
  qed
  then obtain w1 st1 where t: "rx_turn par (fst t) w st = Some (w1, st1)"
      "rx_local_pkts w1 = rx_local_pkts w + of_nat (length (rx_bufs (fst t)))"
      "rx_local_bytes w1 = rx_local_bytes w + burst_bytes (rx_bufs (fst t))"
      "local_latency_cycles w1 = local_latency_cycles w + burst_latency (rx_burst_tsc (fst t)) (snd t)" by blast
  have "\<forall>t \<in> set turns. rx_input_ok t" using Cons.prems by simp
  from Cons.IH [OF this, of w1 st1] obtain w' st' where
    r: "rx_loop par (List.map fst turns) w1 st1 = Some (w', st')"
    "rx_local_pkts w' = rx_local_pkts w1 + of_nat (\<Sum>t\<leftarrow>turns. length (rx_bufs (fst t)))"
    "rx_local_bytes w' = rx_local_bytes w1 + (\<Sum>t\<leftarrow>turns. burst_bytes (rx_bufs (fst t)))"
    "local_latency_cycles w' = local_latency_cycles w1 +
      (\<Sum>t\<leftarrow>turns. burst_latency (rx_burst_tsc (fst t)) (snd t))" by blast
  show ?case using t(1) r(1) by (simp add: r(2-4) t(2-4) add.assoc)
qed

text \<open>
  The receiver measures what the transmitter stamped.  Whatever path the forwarder sent the
  packets, in whichever bursts they come back, a receive worker ends with the number of packets
  and their bytes on the wire published, and with the sum of the cycles from each packet's own
  time stamp to its burst (none for a stamp that is not in the past).
\<close>

lemma pktgen_rx_totals:
  assumes "\<forall>t \<in> set turns. rx_input_ok t"
  shows "\<exists>st'. rx_worker_loop par tsc (List.map fst turns) st = Some st' \<and>
    rx_pkts st' = of_nat (\<Sum>t\<leftarrow>turns. length (rx_bufs (fst t))) \<and>
    rx_bytes st' = (\<Sum>t\<leftarrow>turns. \<Sum>m\<leftarrow>rx_bufs (fst t). of_nat (length m + 24)) \<and>
    total_latency_cycles st' =
      (\<Sum>t\<leftarrow>turns. \<Sum>ts\<leftarrow>snd t. if ts < rx_burst_tsc (fst t) then rx_burst_tsc (fst t) - ts else 0)"
  using rx_loop_eq [OF assms, of par "\<lparr>rx_local_pkts = 0, rx_local_bytes = 0, local_latency_cycles = 0, rx_last_tsc = tsc\<rparr>" st]
  by (auto simp: rx_worker_loop_def rx_publish_def burst_bytes_def burst_latency_def)

section \<open>Samples\<close>

definition sample_params :: pktgen_params where
  "sample_params = \<lparr>g_ip_mask = 0xff, g_payload_size = 20, g_timer_hz = 1000\<rparr>"

definition sample_conf :: lcore_conf where
  "sample_conf = \<lparr>conf_type = CORE_TX, conf_port_id = 0, conf_queue_id = 0, conf_mbuf_pool = 0,
     conf_port_mac = [1, 2, 3, 4, 5, 6]\<rparr>"

definition sample_stats :: worker_stats where
  "sample_stats = \<lparr>tx_pkts = 0, tx_bytes = 0, rx_pkts = 0, rx_bytes = 0, total_latency_cycles = 0\<rparr>"

definition sample_tx :: "nat \<Rightarrow> tx_input" where
  "sample_tx n = \<lparr>tx_allocated = True, tx_bufs = replicate 64 (Some (replicate 62 0), 1000),
     tx_taken = n, tx_cur_tsc = 1001\<rparr>"

lemma sample_inputs:
  "20 \<le> g_payload_size sample_params" "length (conf_port_mac sample_conf) = 6"
  "\<forall>inp \<in> set [sample_tx 60, sample_tx 64]. tx_allocated inp \<longrightarrow> tx_input_ok sample_params inp"
  by (simp_all add: sample_params_def sample_conf_def sample_tx_def tx_input_ok_def BURST_SIZE_def l2_payload_len_nat)

theorem pktgen_tx_counts_witness:
  "\<exists>os st'. tx_worker_loop (\<lambda>_. 0) sample_params sample_conf 1 0 [sample_tx 60, sample_tx 64] sample_stats = Some (os, st') \<and>
    tx_pkts st' = of_nat (length (all_sent os))"
  using pktgen_tx_counts [OF sample_inputs(1,2) _ sample_inputs(3), of 1 "\<lambda>_. 0" 0 sample_stats]
  by (auto simp: Let_def)

theorem pktgen_flows_witness:
  "\<exists>os st'. tx_worker_loop (\<lambda>_. 0) (sample_params\<lparr>g_ip_mask := 0xffff\<rparr>) sample_conf 1 0 (replicate 1024 (sample_tx 64)) sample_stats = Some (os, st') \<and>
    (\<exists>i<2 ^ 16. \<exists>j<2 ^ 16. i \<noteq> j \<and> flowhash (all_built os ! i) = flowhash (all_built os ! j))"
proof -
  let ?par = "sample_params\<lparr>g_ip_mask := 0xffff\<rparr>" and ?is = "replicate 1024 (sample_tx 64)"
  have p: "20 \<le> g_payload_size ?par" "(1::u32) < 128" "g_ip_mask ?par = 2 ^ 16 - 1" "(16::nat) \<le> 30"
    "\<forall>inp \<in> set ?is. tx_allocated inp \<longrightarrow> tx_input_ok ?par inp"
    by (simp_all add: sample_params_def sample_tx_def tx_input_ok_def BURST_SIZE_def l2_payload_len_nat)
  have n: "64 * length (filter tx_allocated ?is) = 2 ^ 16" by (simp add: sample_tx_def)
  note pktgen_flows [OF p(1) sample_inputs(2) p(2,5,3,4), of "\<lambda>_. 0" 0 sample_stats]
  then obtain os st' where r: "tx_worker_loop (\<lambda>_. 0) ?par sample_conf 1 0 ?is sample_stats = Some (os, st')"
    "length (all_built os) = 2 ^ 16"
    "16 \<le> (16 :: nat) \<and> 2 ^ 16 \<le> length (all_built os) \<longrightarrow> (\<exists>i<2 ^ 16. \<exists>j<2 ^ 16. i mod 2 ^ 16 \<noteq> j mod 2 ^ 16 \<and>
       flowhash (all_built os ! i) = flowhash (all_built os ! j))"
    unfolding Let_def n by blast
  have "16 \<le> (16 :: nat) \<and> 2 ^ 16 \<le> length (all_built os)" using r(2) by (simp only: order.refl simp_thms)
  then show ?thesis using r(1,3) by blast
qed

theorem pktgen_core_ranges_witness:
  "\<exists>os1 st1 os2 st2. tx_worker_loop (\<lambda>_. 0) (sample_params\<lparr>g_ip_mask := 0x1ffff\<rparr>) sample_conf 1 0 (replicate 2048 (sample_tx 64)) sample_stats = Some (os1, st1) \<and>
    tx_worker_loop (\<lambda>_. 0) (sample_params\<lparr>g_ip_mask := 0x1ffff\<rparr>) sample_conf 2 0 (replicate 2048 (sample_tx 64)) sample_stats = Some (os2, st2) \<and>
    (\<exists>m1 \<in> set (all_built os1). \<exists>m2 \<in> set (all_built os2). src_address m1 = src_address m2)"
proof -
  let ?par = "sample_params\<lparr>g_ip_mask := 0x1ffff\<rparr>" and ?is = "replicate 2048 (sample_tx 64)"
  have p: "20 \<le> g_payload_size ?par" "g_ip_mask ?par = 2 ^ 17 - 1" "(17::nat) \<le> 30" "(1::u32) < 2" "(2::u32) < 128"
    "\<forall>inp \<in> set ?is \<union> set ?is. tx_allocated inp \<longrightarrow> tx_input_ok ?par inp"
    by (simp_all add: sample_params_def sample_tx_def tx_input_ok_def BURST_SIZE_def l2_payload_len_nat)
  have n: "64 * length (filter tx_allocated ?is) = 131072" by (simp add: sample_tx_def)
  from pktgen_core_ranges [OF p(1-5) sample_inputs(2,2) p(6), of "\<lambda>_. 0" 0 sample_stats 0 sample_stats, unfolded n Let_def]
  obtain os1 st1 os2 st2 where r:
    "tx_worker_loop (\<lambda>_. 0) ?par sample_conf 1 0 ?is sample_stats = Some (os1, st1)"
    "tx_worker_loop (\<lambda>_. 0) ?par sample_conf 2 0 ?is sample_stats = Some (os2, st2)"
    "(unat (2 :: u32) - unat (1 :: u32)) * 2 ^ 16 < 2 ^ 17 \<and> 2 ^ 17 \<le> (131072 :: nat) \<and> 2 ^ 17 \<le> (131072 :: nat) \<longrightarrow>
      (\<exists>m1 \<in> set (all_built os1). \<exists>m2 \<in> set (all_built os2). src_address m1 = src_address m2)" by blast
  have "(unat (2 :: u32) - unat (1 :: u32)) * 2 ^ 16 < 2 ^ 17 \<and> 2 ^ 17 \<le> (131072 :: nat) \<and> 2 ^ 17 \<le> (131072 :: nat)" by simp
  then show ?thesis using r by blast
qed

definition sample_packet :: "u8 list" where
  "sample_packet = packet (\<lambda>_. 0) 20 [1, 2, 3, 4, 5, 6] 0x0a010001 1125
     \<lparr>thread_id = 1, packet_id = 0, tx_timestamp = 1000\<rparr>"

lemma sample_packet_stamped: "stamped 1000 sample_packet" "length sample_packet = 62"
proof -
  have l: "length [1, 2, 3, 4, 5, 6::u8] = 6" "62 \<le> length (replicate 62 (0::u8))" by simp_all
  show "stamped 1000 sample_packet"
    unfolding stamped_def
    by (intro exI [of _ "\<lambda>_. 0"] exI [of _ 20] exI [of _ "[1, 2, 3, 4, 5, 6]"] exI [of _ "0x0a010001"] exI [of _ 1125]
        exI [of _ "\<lparr>thread_id = 1, packet_id = 0, tx_timestamp = 1000\<rparr>"] exI [of _ "replicate 62 0"]
        exI [of _ sample_packet])
      (simp add: build_packet_eq [OF l] sample_packet_def)
  show "length sample_packet = 62" unfolding sample_packet_def by (intro length_packet) simp
qed

lemma pktgen_rx_totals_witness:
  "\<exists>st'. rx_worker_loop sample_params 0
      [\<lparr>rx_bufs = [sample_packet, sample_packet], rx_burst_tsc = 1700, rx_cur_tsc = 1701\<rparr>] sample_stats = Some st' \<and>
    rx_pkts st' = 2 \<and> rx_bytes st' = 172 \<and> total_latency_cycles st' = 1400"
proof -
  let ?t = "(\<lparr>rx_bufs = [sample_packet, sample_packet], rx_burst_tsc = 1700, rx_cur_tsc = 1701\<rparr>, [1000, 1000])"
  have "\<forall>t \<in> set [?t]. rx_input_ok t" by (simp add: rx_input_ok_def sample_packet_stamped)
  from pktgen_rx_totals [OF this, of sample_params 0 sample_stats]
  show ?thesis by (simp add: sample_packet_stamped(2))
qed

end
