(* ===== verification/Pktgen_Main.thy ===== *)
theory Pktgen_Main
  imports Pktgen_Workers Devices Options
begin

text \<open>
  \<open>pktgen/pktgen.c\<close>, \<open>main\<close>: the options, the roles, ports and queues of the workers, the driver
  calls that bring the ports up, and the aggregation of the workers' counters once a second.
  The command line is again the sequence of what \<open>getopt\<close> reports, the worker cores are the
  list DPDK iterates over.
\<close>

section \<open>Options\<close>

text \<open>\<open>atoi\<close>: the low 32 bits of \<open>strtol\<close>, as a signed number.\<close>

definition atoi :: "string \<Rightarrow> u32" where
  "atoi s = of_int (strtol s 10)"

definition default_params :: "u64 \<Rightarrow> pktgen_params" where
  "default_params hz = \<lparr>g_ip_mask = 0xff, g_payload_size = 0, g_timer_hz = hz\<rparr>"

text \<open>Options other than the two are skipped.\<close>

definition pktgen_option :: "opt_event \<Rightarrow> pktgen_params \<Rightarrow> pktgen_params outcome" where
  "pktgen_option e par =
     (case e of
        Opt c optarg \<Rightarrow>
          if c = CHR ''r'' then
            let range = atoi optarg in
            if sint range \<le> 0 \<or> range AND (range - 1) \<noteq> 0 then Exit 1
            else Return (par\<lparr>g_ip_mask := range - 1\<rparr>)
          else if c = CHR ''p'' then
            let payload = atoi optarg in
            if sint payload < 0 \<or> sint payload > 1400 then Exit 1
            else Return (par\<lparr>g_payload_size := ucast payload\<rparr>)
          else Return par
      | _ \<Rightarrow> Return par)"

fun pktgen_options :: "opt_event list \<Rightarrow> pktgen_params \<Rightarrow> pktgen_params outcome" where
  "pktgen_options [] par = Return par"
| "pktgen_options (e # es) par =
     (case pktgen_option e par of Exit c \<Rightarrow> Exit c | Return par' \<Rightarrow> pktgen_options es par')"

definition min_payload :: "pktgen_params \<Rightarrow> pktgen_params" where
  "min_payload par =
     (if unat (g_payload_size par) < sizeof_custom_payload
      then par\<lparr>g_payload_size := of_nat sizeof_custom_payload\<rparr> else par)"

definition pktgen_config :: "opt_event list \<Rightarrow> u64 \<Rightarrow> pktgen_params outcome" where
  "pktgen_config es hz =
     (case pktgen_options es (default_params hz) of Exit c \<Rightarrow> Exit c | Return par \<Rightarrow> Return (min_payload par))"

definition params_ok :: "pktgen_params \<Rightarrow> bool" where
  "params_ok par \<longleftrightarrow> (\<exists>k\<in>{..30}. g_ip_mask par = 2 ^ k - 1) \<and> g_payload_size par \<le> 1400"

lemma u32_pow2:
  fixes x :: u32
  assumes "0 < sint x" and "x AND (x - 1) = 0"
  shows "\<exists>k\<in>{..30}. x = 2 ^ k"
proof -
  have x0: "x \<noteq> 0" using assms(1) by auto
  then have "unat (x - 1) = unat x - 1" by (simp add: unat_minus_one)
  then have "unat x AND (unat x - 1) = 0" using assms(2) by (metis unat_0 unsigned_and_eq)
  then obtain k where k: "unat x = 2 ^ k"
    using nat_pow2_trick [of "unat x"] x0 by (auto simp: unat_eq_zero)
  have "unat x < 2 ^ 32" using unsigned_less [of x, where ?'a = nat] by simp
  then have k32: "k < 32" unfolding k by (simp only: power_strict_increasing_iff)
  have x: "x = 2 ^ k" using k by (metis of_nat_numeral of_nat_power of_nat_unat ucast_id)
  have "sint ((2::u32) ^ 31) < 0" by simp
  then have "k \<noteq> 31" using assms(1) x by auto
  then show ?thesis using k32 x by (intro bexI [of _ k]) simp_all
qed

lemma ucast_small:
  fixes x :: u32
  assumes "0 \<le> sint x" and "sint x \<le> 1400"
  shows "(ucast x :: u16) \<le> 1400"
proof -
  have "of_int (sint x) = x" by simp
  then obtain n where n: "n \<le> 1400" "x = of_nat n" using assms by (metis int_nat_eq nat_le_iff of_int_of_nat_eq of_nat_numeral)
  then have "(ucast x :: u16) = of_nat n" by (simp add: unsigned_of_nat take_bit_nat_eq_self)
  then show ?thesis using n(1) by (simp add: word_le_nat_alt unat_of_nat)
qed

lemma pktgen_option_hz: "pktgen_option e par = Return par' \<Longrightarrow> g_timer_hz par' = g_timer_hz par"
  by (auto simp: pktgen_option_def Let_def split: opt_event.splits if_splits)

lemma pktgen_options_hz: "pktgen_options es par = Return par' \<Longrightarrow> g_timer_hz par' = g_timer_hz par"
  by (induction es arbitrary: par) (auto dest: pktgen_option_hz split: outcome.splits)

lemma pktgen_option_ok:
  assumes "pktgen_option e par = Return par'" and "params_ok par"
  shows "params_ok par'"
proof (cases e)
  case (Opt c s)
  consider (r) "c = CHR ''r''" | (p) "c = CHR ''p''" | (other) "c \<noteq> CHR ''r''" "c \<noteq> CHR ''p''" by blast
  then show ?thesis
  proof cases
    case r
    let ?x = "atoi s"
    have x: "0 < sint ?x" "?x AND (?x - 1) = 0" "par' = par\<lparr>g_ip_mask := ?x - 1\<rparr>"
      using assms(1) Opt r by (auto simp: pktgen_option_def Let_def split: if_splits)
    then show ?thesis using u32_pow2 [OF x(1,2)] assms(2) by (auto simp: params_ok_def)
  next
    case p
    let ?x = "atoi s"
    have x: "0 \<le> sint ?x" "sint ?x \<le> 1400" "par' = par\<lparr>g_payload_size := ucast ?x\<rparr>"
      using assms(1) Opt p by (auto simp: pktgen_option_def Let_def split: if_splits)
    then show ?thesis using ucast_small [OF x(1,2)] assms(2) by (simp add: params_ok_def)
  next
    case other
    then show ?thesis using assms Opt by (simp add: pktgen_option_def)
  qed
qed (use assms in \<open>auto simp: pktgen_option_def\<close>)

lemma pktgen_options_ok:
  "pktgen_options es par = Return par' \<Longrightarrow> params_ok par \<Longrightarrow> params_ok par'"
  by (induction es arbitrary: par) (auto intro: pktgen_option_ok split: outcome.splits)

lemma pktgen_options_exit: "pktgen_options es par = Exit c \<Longrightarrow> c = 1"
  by (induction es arbitrary: par)
    (auto simp: pktgen_option_def Let_def split: outcome.splits opt_event.splits if_splits)

lemma config_sane: "pktgen_config es hz = Return par \<Longrightarrow> sane_params par"
  by (auto simp: pktgen_config_def min_payload_def sizeof_custom_payload_def sane_params_def word_le_nat_alt
      split: outcome.splits if_splits)

text \<open>
  Whatever the command line, the generator exits with status 1 or starts with a range of
  \<open>2 ^ k\<close> clients for some \<open>k\<close> up to 30 and a payload of 20 to 1400 bytes: room for its own
  header, and a packet of at most 1442 bytes, less than a buffer and an Ethernet frame hold.
\<close>

lemma pktgen_config_ok:
  "case pktgen_config es hz of
     Exit c \<Rightarrow> c = 1
   | Return par \<Rightarrow> (\<exists>k\<in>{..30}. g_ip_mask par = 2 ^ k - 1) \<and>
       20 \<le> g_payload_size par \<and> g_payload_size par \<le> 1400 \<and>
       unat (l2_payload_len (g_payload_size par)) \<le> 1442 \<and> g_timer_hz par = hz"
proof (cases "pktgen_options es (default_params hz)")
  case (Exit c)
  then show ?thesis using pktgen_options_exit by (simp add: pktgen_config_def)
next
  case (Return par)
  have "params_ok (default_params hz)"
    unfolding params_ok_def by (intro conjI bexI [of _ 8]) (simp_all add: default_params_def)
  then have p: "params_ok par" using Return pktgen_options_ok by blast
  have "unat (1400::u16) = 1400" by simp
  then have g: "unat (g_payload_size par) \<le> 1400" using p by (simp add: params_ok_def word_le_nat_alt)
  have hz: "g_timer_hz par = hz"
    using Return pktgen_options_hz by (simp add: default_params_def)
  show ?thesis
    using p g hz Return
    by (auto simp: pktgen_config_def min_payload_def sizeof_custom_payload_def params_ok_def l2_payload_len_nat
        word_le_nat_alt)
qed

end
