(* ===== verification/Pktgen_Roles.thy ===== *)
theory Pktgen_Roles
  imports Pktgen_Workers Devices
begin

text \<open>
  \<open>pktgen/pktgen.c\<close>, \<open>main\<close>: the roles, ports and queues of the workers, and the driver calls that
  bring the ports up with these queues and down at the end.  The worker cores are the list DPDK
  iterates over; whether a pool of packet buffers can be created for a core, and the addresses of
  the ports, are arguments.  The pool of a core is named by the core.
\<close>

section \<open>Roles\<close>

record role_state =
  lcore_config :: "nat \<Rightarrow> lcore_conf"
  tx_queues_per_port :: "nat \<Rightarrow> u16"
  rx_queues_per_port :: "nat \<Rightarrow> u16"
  worker_idx :: u32
  port_rr :: u16

text \<open>\<open>(port_rr + 1) % nb_ports\<close> is computed in \<open>int\<close>.\<close>

definition role_step :: "(nat \<Rightarrow> u8 list) \<Rightarrow> u16 \<Rightarrow> u32 \<Rightarrow> nat \<Rightarrow> role_state \<Rightarrow> role_state" where
  "role_step macs nb_ports nb_workers lcore s =
     (let p = unat (port_rr s);
          c = (lcore_config s lcore)\<lparr>conf_mbuf_pool := lcore, conf_port_id := port_rr s\<rparr>;
          (c, s) = (if worker_idx s < nb_workers div 2
             then (c\<lparr>conf_type := CORE_TX, conf_queue_id := tx_queues_per_port s p\<rparr>,
                   s\<lparr>tx_queues_per_port := (tx_queues_per_port s)(p := tx_queues_per_port s p + 1)\<rparr>)
             else (c\<lparr>conf_type := CORE_RX, conf_queue_id := rx_queues_per_port s p\<rparr>,
                   s\<lparr>rx_queues_per_port := (rx_queues_per_port s)(p := rx_queues_per_port s p + 1)\<rparr>));
          c = c\<lparr>conf_port_mac := macs p\<rparr>
      in s\<lparr>lcore_config := (lcore_config s)(lcore := c),
           port_rr := of_nat ((p + 1) mod unat nb_ports), worker_idx := worker_idx s + 1\<rparr>)"

fun assign_roles ::
  "(nat \<Rightarrow> bool) \<Rightarrow> (nat \<Rightarrow> u8 list) \<Rightarrow> u16 \<Rightarrow> u32 \<Rightarrow> nat list \<Rightarrow> role_state \<Rightarrow> role_state outcome" where
  "assign_roles pool_fails macs nb_ports nb_workers [] s = Return s"
| "assign_roles pool_fails macs nb_ports nb_workers (lcore # lcores) s =
     (if pool_fails lcore then Exit 1
      else assign_roles pool_fails macs nb_ports nb_workers lcores (role_step macs nb_ports nb_workers lcore s))"

definition role_start :: "(nat \<Rightarrow> lcore_conf) \<Rightarrow> role_state" where
  "role_start conf = \<lparr>lcore_config = conf, tx_queues_per_port = (\<lambda>_. 0), rx_queues_per_port = (\<lambda>_. 0),
     worker_idx = 0, port_rr = 0\<rparr>"

text \<open>\<open>main\<close> up to the assignment: it needs a port, and two workers.\<close>

definition pktgen_roles ::
  "(nat \<Rightarrow> bool) \<Rightarrow> (nat \<Rightarrow> u8 list) \<Rightarrow> u16 \<Rightarrow> nat list \<Rightarrow> (nat \<Rightarrow> lcore_conf) \<Rightarrow> role_state outcome" where
  "pktgen_roles pool_fails macs nb_ports lcores conf =
     (if nb_ports = 0 then Exit 1
      else if (of_nat (length lcores) :: u32) < 2 then Exit 1
      else assign_roles pool_fails macs nb_ports (of_nat (length lcores)) lcores (role_start conf))"

section \<open>Which queues are given out\<close>

text \<open>The queues of a port that the cores of a list serve in a role, in the order of the cores.\<close>

definition served :: "core_type \<Rightarrow> nat \<Rightarrow> nat list \<Rightarrow> (nat \<Rightarrow> lcore_conf) \<Rightarrow> nat list" where
  "served ty p ls conf =
     List.map (\<lambda>l. unat (conf_queue_id (conf l)))
       (filter (\<lambda>l. conf_type (conf l) = ty \<and> unat (conf_port_id (conf l)) = p) ls)"

definition role_of :: "nat \<Rightarrow> nat \<Rightarrow> core_type" where
  "role_of n i = (if i < n div 2 then CORE_TX else CORE_RX)"

definition roles_inv :: "(nat \<Rightarrow> u8 list) \<Rightarrow> nat \<Rightarrow> nat \<Rightarrow> nat list \<Rightarrow> role_state \<Rightarrow> bool" where
  "roles_inv macs P n used s \<longleftrightarrow>
     unat (worker_idx s) = length used \<and> unat (port_rr s) = length used mod P \<and>
     (\<forall>p. served CORE_TX p used (lcore_config s) = [0..<unat (tx_queues_per_port s p)]) \<and>
     (\<forall>p. served CORE_RX p used (lcore_config s) = [0..<unat (rx_queues_per_port s p)]) \<and>
     (\<forall>i<length used. let c = lcore_config s (used ! i) in
        conf_type c = role_of n i \<and> unat (conf_port_id c) = i mod P \<and>
        conf_mbuf_pool c = used ! i \<and> conf_port_mac c = macs (i mod P))"

lemma served_length: "length (served ty p ls conf) \<le> length ls"
  by (simp add: served_def)

lemma served_other:
  assumes "l \<notin> set ls"
  shows "served ty p ls (conf(l := c)) = served ty p ls conf"
  using assms unfolding served_def by (intro map_cong filter_cong) auto

lemma served_snoc:
  assumes "l \<notin> set ls"
  shows "served ty p (ls @ [l]) (conf(l := c)) =
    served ty p ls conf @ (if conf_type c = ty \<and> unat (conf_port_id c) = p then [unat (conf_queue_id c)] else [])"
  using served_other [OF assms, of ty p conf c] by (simp add: served_def)

lemma unat_u16_inc: "unat (x::u16) < 65535 \<Longrightarrow> unat (x + 1) = unat x + 1"
  by (simp add: unat_word_ariths)

text \<open>The step in the two cases.\<close>

lemma role_step_eq:
  "role_step macs nb_ports nb_workers l s =
     (let p = unat (port_rr s); tx = worker_idx s < nb_workers div 2;
          c = (lcore_config s l)\<lparr>conf_type := (if tx then CORE_TX else CORE_RX), conf_port_id := port_rr s,
             conf_queue_id := (if tx then tx_queues_per_port s p else rx_queues_per_port s p),
             conf_mbuf_pool := l, conf_port_mac := macs p\<rparr>
      in s\<lparr>lcore_config := (lcore_config s)(l := c),
           tx_queues_per_port := (if tx then (tx_queues_per_port s)(p := tx_queues_per_port s p + 1) else tx_queues_per_port s),
           rx_queues_per_port := (if tx then rx_queues_per_port s else (rx_queues_per_port s)(p := rx_queues_per_port s p + 1)),
           worker_idx := worker_idx s + 1, port_rr := of_nat ((p + 1) mod unat nb_ports)\<rparr>)"
  by (cases s; cases "lcore_config s l") (simp add: role_step_def Let_def)

lemma roles_inv_step:
  assumes "roles_inv macs (unat nb_ports) (unat nb_workers) used s" and "l \<notin> set used" and "0 < unat nb_ports"
    and "length used < unat nb_workers" and "unat nb_workers < 2 ^ 16"
  shows "roles_inv macs (unat nb_ports) (unat nb_workers) (used @ [l]) (role_step macs nb_ports nb_workers l s)"
proof -
  let ?P = "unat nb_ports" and ?n = "unat nb_workers" and ?i = "length used"
  let ?p = "unat (port_rr s)" and ?tx = "worker_idx s < nb_workers div 2"
  let ?s = "role_step macs nb_ports nb_workers l s"
  define c0 where "c0 = lcore_config ?s l"
  note inv = assms(1) [unfolded roles_inv_def]
  have i: "unat (worker_idx s) = ?i" and p: "?p = ?i mod ?P" using inv by blast+
  have cfg: "lcore_config ?s = (lcore_config s)(l := c0)" by (simp add: c0_def role_step_eq Let_def)
  have tx: "?tx \<longleftrightarrow> ?i < ?n div 2" using i by (simp add: word_less_nat_alt unat_div)
  have c: "conf_type c0 = role_of ?n ?i" "unat (conf_port_id c0) = ?i mod ?P" "conf_mbuf_pool c0 = l"
    "conf_port_mac c0 = macs (?i mod ?P)" "unat (conf_queue_id c0) =
      unat (if ?tx then tx_queues_per_port s ?p else rx_queues_per_port s ?p)"
    using p tx by (simp_all add: c0_def role_step_eq Let_def role_of_def)
  have q: "unat (tx_queues_per_port s x) \<le> ?i" "unat (rx_queues_per_port s x) \<le> ?i" for x
    using inv served_length [of CORE_TX x used "lcore_config s"] served_length [of CORE_RX x used "lcore_config s"]
    by simp_all
  have lt: "unat (tx_queues_per_port s x) < 65535" "unat (rx_queues_per_port s x) < 65535" for x
  proof -
    have "unat nb_workers < 65536" using assms(5) by simp
    then show "unat (tx_queues_per_port s x) < 65535" "unat (rx_queues_per_port s x) < 65535"
      using q [of x] assms(4) by linarith+
  qed
  note inc = unat_u16_inc [OF lt(1)] unat_u16_inc [OF lt(2)]
  have srv: "served CORE_TX x used (lcore_config s) = [0..<unat (tx_queues_per_port s x)]"
    "served CORE_RX x used (lcore_config s) = [0..<unat (rx_queues_per_port s x)]" for x using inv by blast+
  have ty: "conf_type c0 = (if ?tx then CORE_TX else CORE_RX)" "unat (conf_port_id c0) = ?p"
    using c(1,2) tx p by (simp_all add: role_of_def)
  have "served CORE_TX x (used @ [l]) (lcore_config ?s) = [0..<unat (tx_queues_per_port ?s x)]" for x
  proof -
    have "served CORE_TX x (used @ [l]) (lcore_config ?s) = [0..<unat (tx_queues_per_port s x)] @
        (if ?tx \<and> ?p = x then [unat (tx_queues_per_port s ?p)] else [])"
      unfolding cfg served_snoc [OF assms(2)] srv ty c(5) by (cases ?tx) simp_all
    then show ?thesis by (simp add: role_step_eq Let_def inc)
  qed
  moreover have "served CORE_RX x (used @ [l]) (lcore_config ?s) = [0..<unat (rx_queues_per_port ?s x)]" for x
  proof -
    have "served CORE_RX x (used @ [l]) (lcore_config ?s) = [0..<unat (rx_queues_per_port s x)] @
        (if \<not> ?tx \<and> ?p = x then [unat (rx_queues_per_port s ?p)] else [])"
      unfolding cfg served_snoc [OF assms(2)] srv ty c(5) by (cases ?tx) simp_all
    then show ?thesis by (simp add: role_step_eq Let_def inc)
  qed
  moreover have "unat (worker_idx ?s) = Suc ?i"
    using i assms(4,5) by (simp add: role_step_eq Let_def unat_word_ariths)
  moreover have "unat (port_rr ?s) = Suc ?i mod ?P"
  proof -
    have "unat (port_rr ?s) = Suc ?p mod ?P mod 2 ^ 16" by (simp add: role_step_eq Let_def unat_of_nat)
    moreover have "Suc ?p mod ?P < 2 ^ 16"
      using mod_less_divisor [OF assms(3), of "Suc ?p"] unsigned_less [of nb_ports, where ?'a = nat] by simp
    ultimately show ?thesis by (simp add: p mod_Suc_eq)
  qed
  moreover have "let c = lcore_config ?s ((used @ [l]) ! j) in
        conf_type c = role_of ?n j \<and> unat (conf_port_id c) = j mod ?P \<and>
        conf_mbuf_pool c = (used @ [l]) ! j \<and> conf_port_mac c = macs (j mod ?P)" if "j < length (used @ [l])" for j
  proof (cases "j < ?i")
    case True
    then have "used ! j \<noteq> l" using assms(2) nth_mem by blast
    then show ?thesis using True inv unfolding cfg by (simp add: nth_append)
  next
    case False
    then have "j = ?i" using that by simp
    then show ?thesis using c unfolding cfg by (simp add: Let_def)
  qed
  ultimately show ?thesis unfolding roles_inv_def by simp
qed

lemma assign_roles_inv:
  assumes "roles_inv macs (unat nb_ports) (unat nb_workers) used s" and "distinct (used @ ls)"
    and "0 < unat nb_ports" and "length (used @ ls) = unat nb_workers" and "unat nb_workers < 2 ^ 16"
  shows "if \<exists>l \<in> set ls. pool_fails l then assign_roles pool_fails macs nb_ports nb_workers ls s = Exit 1
    else \<exists>s'. assign_roles pool_fails macs nb_ports nb_workers ls s = Return s' \<and>
      roles_inv macs (unat nb_ports) (unat nb_workers) (used @ ls) s'"
  using assms(1,2,4)
proof (induction ls arbitrary: used s)
  case Nil
  then show ?case by simp
next
  case (Cons l ls)
  have "roles_inv macs (unat nb_ports) (unat nb_workers) (used @ [l]) (role_step macs nb_ports nb_workers l s)"
    using Cons.prems assms(3,5) by (intro roles_inv_step) auto
  from Cons.IH [OF this] Cons.prems(2,3) show ?case by auto
qed

lemma pktgen_roles_cases:
  assumes "distinct ls" and "length ls < 2 ^ 16"
  shows "if nb_ports = 0 \<or> length ls < 2 \<or> (\<exists>l \<in> set ls. pool_fails l)
    then pktgen_roles pool_fails macs nb_ports ls conf = Exit 1
    else \<exists>s. pktgen_roles pool_fails macs nb_ports ls conf = Return s \<and>
      (\<forall>i<length ls. let c = lcore_config s (ls ! i) in
        conf_type c = (if i < length ls div 2 then CORE_TX else CORE_RX) \<and>
        unat (conf_port_id c) = i mod unat nb_ports \<and> conf_port_mac c = macs (i mod unat nb_ports)) \<and>
      conf_type (lcore_config s (hd ls)) = CORE_TX \<and> conf_type (lcore_config s (last ls)) = CORE_RX \<and>
      (\<forall>p. served CORE_TX p ls (lcore_config s) = [0..<unat (tx_queues_per_port s p)] \<and>
           served CORE_RX p ls (lcore_config s) = [0..<unat (rx_queues_per_port s p)])"
proof -
  let ?n = "of_nat (length ls) :: u32"
  have n: "unat ?n = length ls" using assms(2) by (simp add: unat_of_nat)
  have two: "?n < 2 \<longleftrightarrow> length ls < 2" using n by (simp add: word_less_nat_alt)
  have r: "pktgen_roles pool_fails macs nb_ports ls conf =
      (if nb_ports = 0 \<or> length ls < 2 then Exit 1 else assign_roles pool_fails macs nb_ports ?n ls (role_start conf))"
    unfolding pktgen_roles_def two by simp
  show ?thesis
  proof (cases "nb_ports = 0 \<or> length ls < 2")
    case True
    then show ?thesis unfolding r by (simp only: simp_thms if_True) (use True in argo)
  next
    case False
    then have P: "0 < unat nb_ports" by (simp add: unat_gt_0)
    have "roles_inv macs (unat nb_ports) (unat ?n) [] (role_start conf)"
      by (simp add: roles_inv_def role_start_def served_def)
    from assign_roles_inv [OF this _ P, of ls pool_fails]
    have a: "if \<exists>l \<in> set ls. pool_fails l then assign_roles pool_fails macs nb_ports ?n ls (role_start conf) = Exit 1
      else \<exists>s'. assign_roles pool_fails macs nb_ports ?n ls (role_start conf) = Return s' \<and>
        roles_inv macs (unat nb_ports) (unat ?n) ls s'" using assms n unfolding n append_Nil by blast
    show ?thesis
    proof (cases "\<exists>l \<in> set ls. pool_fails l")
      case True
      then show ?thesis using a False by (simp add: r)
    next
      case ok: False
      then obtain s where s: "assign_roles pool_fails macs nb_ports ?n ls (role_start conf) = Return s"
        "roles_inv macs (unat nb_ports) (unat ?n) ls s" using a by auto
      have c: "conf_type (lcore_config s (ls ! i)) = role_of (length ls) i" if "i < length ls" for i
        using s(2) that n by (simp add: roles_inv_def Let_def)
      have ne: "ls \<noteq> []" using False by auto
      have "conf_type (lcore_config s (hd ls)) = CORE_TX"
        using c [of 0] False ne by (simp add: hd_conv_nth role_of_def)
      moreover have "conf_type (lcore_config s (last ls)) = CORE_RX"
        using c [of "length ls - 1"] False ne by (simp add: last_conv_nth role_of_def)
      ultimately show ?thesis
        using s False ok n by (simp add: r roles_inv_def role_of_def Let_def)
    qed
  qed
qed

lemma pktgen_roles_served:
  assumes "distinct ls" and "length ls < 2 ^ 16" and "pktgen_roles pool_fails macs nb_ports ls conf = Return s"
  shows "served CORE_TX p ls (lcore_config s) = [0..<unat (tx_queues_per_port s p)] \<and>
    served CORE_RX p ls (lcore_config s) = [0..<unat (rx_queues_per_port s p)]"
  using pktgen_roles_cases [OF assms(1,2), of nb_ports pool_fails macs conf] assms(3) by (auto split: if_splits)

text \<open>
  C22: the workers share out the ports and queues without a clash.  With a port and at least two
  workers, and memory for every pool, the first half of the workers transmit and the others
  receive, both at least one; the workers take the ports in turn; and for either role, the
  queues the workers of a port serve are numbered from 0 without a gap or a repetition, as many
  as the port is then configured with.  If a pool is missing, or there is no port or only one
  worker, the program exits with status 1.
\<close>

theorem pktgen_roles_spec:
  assumes "distinct ls" and "length ls < 2 ^ 16"
  shows "if nb_ports = 0 \<or> length ls < 2 \<or> (\<exists>l \<in> set ls. pool_fails l)
    then pktgen_roles pool_fails macs nb_ports ls conf = Exit 1
    else \<exists>s. pktgen_roles pool_fails macs nb_ports ls conf = Return s \<and>
      (\<forall>i<length ls. let c = lcore_config s (ls ! i) in
        conf_type c = (if i < length ls div 2 then CORE_TX else CORE_RX) \<and>
        unat (conf_port_id c) = i mod unat nb_ports \<and> conf_port_mac c = macs (i mod unat nb_ports)) \<and>
      conf_type (lcore_config s (hd ls)) = CORE_TX \<and> conf_type (lcore_config s (last ls)) = CORE_RX \<and>
      (\<forall>p. served CORE_TX p ls (lcore_config s) = [0..<unat (tx_queues_per_port s p)] \<and>
           served CORE_RX p ls (lcore_config s) = [0..<unat (rx_queues_per_port s p)])"
  using assms by (rule pktgen_roles_cases)

theorem pktgen_roles_spec_witness:
  "\<exists>s. pktgen_roles (\<lambda>_. False) (\<lambda>p. replicate 6 (of_nat p)) 2 [1, 2, 3, 4, 5] (\<lambda>_. sample_conf) = Return s \<and>
    conf_type (lcore_config s 1) = CORE_TX \<and> conf_type (lcore_config s 5) = CORE_RX"
proof -
  have d: "distinct [1, 2, 3, 4, 5::nat]" "length [1, 2, 3, 4, 5::nat] < 2 ^ 16" by simp_all
  from pktgen_roles_spec [OF d, of 2 "\<lambda>_. False" "\<lambda>p. replicate 6 (of_nat p)" "\<lambda>_. sample_conf"]
  show ?thesis by auto
qed

section \<open>The ports\<close>

definition RX_RING_SIZE :: nat where "RX_RING_SIZE = 1024"

definition TX_RING_SIZE :: nat where "TX_RING_SIZE = 1024"

definition port_in_use :: "role_state \<Rightarrow> nat \<Rightarrow> bool" where
  "port_in_use s p \<longleftrightarrow> \<not> (tx_queues_per_port s p = 0 \<and> rx_queues_per_port s p = 0)"

definition pktgen_port_up :: "role_state \<Rightarrow> nat list \<Rightarrow> nat \<Rightarrow> (dev_call \<times> bool) list" where
  "pktgen_port_up s lcores p =
     [(Dev_configure p (unat (rx_queues_per_port s p)) (unat (tx_queues_per_port s p)) False, True)] @
     concat (List.map (\<lambda>l. let c = lcore_config s l in
       if unat (conf_port_id c) = p \<and> conf_type c = CORE_RX
       then [(Rx_queue_setup p (unat (conf_queue_id c)) RX_RING_SIZE, True)] else []) lcores) @
     concat (List.map (\<lambda>l. let c = lcore_config s l in
       if unat (conf_port_id c) = p \<and> conf_type c = CORE_TX
       then [(Tx_queue_setup p (unat (conf_queue_id c)) TX_RING_SIZE, True)] else []) lcores) @
     [(Promiscuous_enable p, False), (Dev_start p, True)]"

definition pktgen_ports_up :: "role_state \<Rightarrow> nat list \<Rightarrow> nat list \<Rightarrow> (dev_call \<times> bool) list" where
  "pktgen_ports_up s lcores ports =
     concat (List.map (\<lambda>p. if \<not> port_in_use s p then [] else pktgen_port_up s lcores p) ports)"

definition pktgen_ports_down :: "role_state \<Rightarrow> nat list \<Rightarrow> (dev_call \<times> bool) list" where
  "pktgen_ports_down s ports =
     concat (List.map (\<lambda>p. if \<not> port_in_use s p then [] else [(Dev_stop p, False), (Dev_close p, False)]) ports)"

lemma concat_in_use:
  "concat (List.map (\<lambda>p. if \<not> Q p then [] else f p) ports) = concat (List.map f (filter Q ports))"
  by (induction ports) simp_all

lemma setups_served:
  "List.map fst (concat (List.map (\<lambda>l. let c = conf l in
       if unat (conf_port_id c) = p \<and> conf_type c = ty
       then [(f (unat (conf_queue_id c)), True)] else []) lcores)) =
   List.map f (served ty p lcores conf)"
  by (induction lcores) (auto simp: served_def Let_def)

lemma pktgen_port_up_run:
  assumes "served CORE_TX p ls (lcore_config s) = [0..<unat (tx_queues_per_port s p)]"
    and "served CORE_RX p ls (lcore_config s) = [0..<unat (rx_queues_per_port s p)]" and "st p = Closed"
  shows "dev_run (List.map fst (pktgen_port_up s ls p)) st = Some (st(p := Started))"
proof -
  let ?r = "[0..<unat (rx_queues_per_port s p)]" and ?t = "[0..<unat (tx_queues_per_port s p)]"
  let ?up = "[Dev_configure p (unat (rx_queues_per_port s p)) (unat (tx_queues_per_port s p)) False] @
    List.map (\<lambda>q. Rx_queue_setup p q RX_RING_SIZE) ?r @ List.map (\<lambda>q. Tx_queue_setup p q TX_RING_SIZE) ?t"
  let ?c = "st(p := Configured (unat (rx_queues_per_port s p)) (unat (tx_queues_per_port s p)) ?r ?t)"
  have "dev_run ?up st = Some ?c" using assms(3) by (intro dev_run_bring_up) auto
  moreover have "dev_run [Promiscuous_enable p, Dev_start p] ?c = Some (st(p := Started))"
    by (simp add: dev_step_def all_queues_def)
  moreover have "List.map fst (pktgen_port_up s ls p) = ?up @ [Promiscuous_enable p, Dev_start p]"
    using setups_served [where f = "\<lambda>q. Rx_queue_setup p q RX_RING_SIZE" and conf = "lcore_config s" and p = p
        and ty = CORE_RX and lcores = ls]
      setups_served [where f = "\<lambda>q. Tx_queue_setup p q TX_RING_SIZE" and conf = "lcore_config s" and p = p
        and ty = CORE_TX and lcores = ls] assms(1,2)
    by (simp add: pktgen_port_up_def)
  ultimately show ?thesis by (simp only: dev_run_append bind.bind_lunit)
qed

text \<open>
  The generator's driver calls follow the protocol.  With the roles as they were assigned and
  whatever the calls return, every port in use is configured with as many queues as its workers
  serve, each of them is set up exactly once before the port is started, and the program goes on
  or exits with status 1; if it goes on, all ports in use are started, and the end stops and
  closes each of them.
\<close>

lemma pktgen_ports_protocol:
  assumes "distinct ls" and "length ls < 2 ^ 16" and "distinct ports"
    and "pktgen_roles pool_fails macs nb_ports ls conf = Return s"
    and "make_calls answer (pktgen_ports_up s ls ports) [] = (r, made)"
  shows "respects_protocol made \<and> (r = Return () \<or> r = Exit 1) \<and>
    (r = Return () \<longrightarrow>
      dev_run made (\<lambda>_. Closed) = Some (\<lambda>p. if p \<in> set ports \<and> port_in_use s p then Started else Closed) \<and>
      dev_run (made @ List.map fst (pktgen_ports_down s ports)) (\<lambda>_. Closed) = Some (\<lambda>_. Closed))"
proof -
  let ?used = "filter (port_in_use s) ports"
  let ?st = "\<lambda>p. if p \<in> set ?used then Started else Closed"
  have d: "distinct ?used" using assms(3) by simp
  have srv: "served CORE_TX p ls (lcore_config s) = [0..<unat (tx_queues_per_port s p)]"
    "served CORE_RX p ls (lcore_config s) = [0..<unat (rx_queues_per_port s p)]" for p
    using pktgen_roles_served [OF assms(1,2,4)] by blast+
  have "List.map fst (pktgen_ports_up s ls ports) = concat (List.map (\<lambda>p. List.map fst (pktgen_port_up s ls p)) ?used)"
    by (simp add: pktgen_ports_up_def concat_in_use map_concat comp_def)
  then have up: "dev_run (List.map fst (pktgen_ports_up s ls ports)) (\<lambda>_. Closed) = Some ?st"
    using dev_run_ports [OF d, of "\<lambda>_. Closed" Closed "\<lambda>p. List.map fst (pktgen_port_up s ls p)" Started]
      pktgen_port_up_run [OF srv] by simp
  have "List.map fst (pktgen_ports_down s ports) = concat (List.map (\<lambda>p. [Dev_stop p, Dev_close p]) ?used)"
    by (simp add: pktgen_ports_down_def concat_in_use map_concat comp_def)
  moreover have "dev_run [Dev_stop p, Dev_close p] t = Some (t(p := Closed))" if "t p = Started" for p t
    using that by (simp add: dev_step_def)
  ultimately have down: "dev_run (List.map fst (pktgen_ports_down s ports)) ?st = Some (\<lambda>_. Closed)"
    using dev_run_ports [OF d, of ?st Started "\<lambda>p. [Dev_stop p, Dev_close p]" Closed] by (simp add: fun_eq_iff)
  have st: "?st = (\<lambda>p. if p \<in> set ports \<and> port_in_use s p then Started else Closed)" by simp
  note m = make_calls_protocol [OF up assms(5)]
  show ?thesis using m down unfolding st by (auto simp: respects_protocol_def dev_run_append)
qed

lemma pktgen_ports_protocol_witness:
  "\<exists>s r made. pktgen_roles (\<lambda>_. False) (\<lambda>p. replicate 6 (of_nat p)) 2 [1, 2, 3, 4, 5] (\<lambda>_. sample_conf) = Return s \<and>
    make_calls (\<lambda>_ _. 0) (pktgen_ports_up s [1, 2, 3, 4, 5] [0, 1]) [] = (r, made) \<and> respects_protocol made"
proof -
  have d: "distinct [1, 2, 3, 4, 5::nat]" "length [1, 2, 3, 4, 5::nat] < 2 ^ 16" "distinct [0, 1::nat]" by simp_all
  obtain s where s: "pktgen_roles (\<lambda>_. False) (\<lambda>p. replicate 6 (of_nat p)) 2 [1, 2, 3, 4, 5] (\<lambda>_. sample_conf) = Return s"
    by (simp add: pktgen_roles_def)
  obtain r made where "make_calls (\<lambda>_ _. 0) (pktgen_ports_up s [1, 2, 3, 4, 5] [0, 1]) [] = (r, made)"
    by (metis surj_pair)
  with pktgen_ports_protocol [OF d s this] s show ?thesis by blast
qed

end
