(* ===== verification/Pktgen_Stats.thy ===== *)
theory Pktgen_Stats
  imports Pktgen_Roles Pktgen_Main
begin

text \<open>
  \<open>pktgen/pktgen.c\<close>, \<open>main\<close>: the loop of the main core, which once a second adds up what the
  workers and the devices counted since the second before.  A turn's inputs are the workers'
  published counters at that moment and what \<open>rte_eth_stats_get\<close> gives for each port (nothing, if
  it fails); its result is what is printed, before the conversion to rates in floating point.
\<close>

section \<open>One second\<close>

text \<open>The counters of a device that are looked at.\<close>

record hw_stats =
  imissed :: u64
  ierrors :: u64
  rx_nombuf :: u64
  oerrors :: u64

record second_stats =
  worker_part :: worker_stats
  hw_part :: hw_stats

text \<open>The arrays of previous values.\<close>

record stats_state =
  prev_workers :: "nat \<Rightarrow> worker_stats"
  prev_hw :: "nat \<Rightarrow> hw_stats"

definition zero_workers :: worker_stats where
  "zero_workers = \<lparr>tx_pkts = 0, tx_bytes = 0, rx_pkts = 0, rx_bytes = 0, total_latency_cycles = 0\<rparr>"

definition zero_hw :: hw_stats where
  "zero_hw = \<lparr>imissed = 0, ierrors = 0, rx_nombuf = 0, oerrors = 0\<rparr>"

definition add_worker :: "worker_stats \<Rightarrow> worker_stats \<Rightarrow> worker_stats \<Rightarrow> worker_stats" where
  "add_worker tot c p = \<lparr>
     tx_pkts = tx_pkts tot + (tx_pkts c - tx_pkts p),
     tx_bytes = tx_bytes tot + (tx_bytes c - tx_bytes p),
     rx_pkts = rx_pkts tot + (rx_pkts c - rx_pkts p),
     rx_bytes = rx_bytes tot + (rx_bytes c - rx_bytes p),
     total_latency_cycles = total_latency_cycles tot + (total_latency_cycles c - total_latency_cycles p)\<rparr>"

definition add_hw :: "hw_stats \<Rightarrow> hw_stats \<Rightarrow> hw_stats \<Rightarrow> hw_stats" where
  "add_hw tot c p = \<lparr>
     imissed = imissed tot + (imissed c - imissed p),
     ierrors = ierrors tot + (ierrors c - ierrors p),
     rx_nombuf = rx_nombuf tot + (rx_nombuf c - rx_nombuf p),
     oerrors = oerrors tot + (oerrors c - oerrors p)\<rparr>"

fun aggregate_workers ::
  "(nat \<Rightarrow> worker_stats) \<Rightarrow> nat list \<Rightarrow> (nat \<Rightarrow> worker_stats) \<Rightarrow> worker_stats \<Rightarrow>
     worker_stats \<times> (nat \<Rightarrow> worker_stats)" where
  "aggregate_workers g [] prev tot = (tot, prev)"
| "aggregate_workers g (l # ls) prev tot =
     aggregate_workers g ls (prev(l := g l)) (add_worker tot (g l) (prev l))"

fun aggregate_ports ::
  "role_state \<Rightarrow> (nat \<Rightarrow> hw_stats option) \<Rightarrow> nat list \<Rightarrow> (nat \<Rightarrow> hw_stats) \<Rightarrow> hw_stats \<Rightarrow>
     hw_stats \<times> (nat \<Rightarrow> hw_stats)" where
  "aggregate_ports s hw [] prev tot = (tot, prev)"
| "aggregate_ports s hw (p # ps) prev tot =
     (if \<not> port_in_use s p then aggregate_ports s hw ps prev tot
      else case hw p of
        None \<Rightarrow> aggregate_ports s hw ps prev tot
      | Some h \<Rightarrow> aggregate_ports s hw ps (prev(p := h)) (add_hw tot h (prev p)))"

definition one_second ::
  "role_state \<Rightarrow> nat list \<Rightarrow> nat list \<Rightarrow> (nat \<Rightarrow> worker_stats) \<Rightarrow> (nat \<Rightarrow> hw_stats option) \<Rightarrow> stats_state \<Rightarrow>
     second_stats \<times> stats_state" where
  "one_second s lcores ports g hw st =
     (let (wtot, wprev) = aggregate_workers g lcores (prev_workers st) zero_workers;
          (htot, hprev) = aggregate_ports s hw ports (prev_hw st) zero_hw
      in (\<lparr>worker_part = wtot, hw_part = htot\<rparr>, \<lparr>prev_workers = wprev, prev_hw = hprev\<rparr>))"

fun stats_seconds ::
  "role_state \<Rightarrow> nat list \<Rightarrow> nat list \<Rightarrow> ((nat \<Rightarrow> worker_stats) \<times> (nat \<Rightarrow> hw_stats option)) list \<Rightarrow> stats_state \<Rightarrow>
     second_stats list" where
  "stats_seconds s lcores ports [] st = []"
| "stats_seconds s lcores ports ((g, hw) # inps) st =
     (let (out, st') = one_second s lcores ports g hw st
      in out # stats_seconds s lcores ports inps st')"

definition stats_start :: stats_state where
  "stats_start = \<lparr>prev_workers = (\<lambda>_. zero_workers), prev_hw = (\<lambda>_. zero_hw)\<rparr>"

text \<open>The average latency, as the two numbers that are divided.\<close>

definition avg_cycles :: "second_stats \<Rightarrow> (u64 \<times> u64) option" where
  "avg_cycles o1 =
     (if rx_pkts (worker_part o1) > 0
      then Some (total_latency_cycles (worker_part o1), rx_pkts (worker_part o1)) else None)"

section \<open>The flows announced\<close>

definition max_capable_flows :: "pktgen_params \<Rightarrow> role_state \<Rightarrow> nat list \<Rightarrow> u64" where
  "max_capable_flows par s ports =
     ucast (g_ip_mask par + 1) * (\<Sum>p\<leftarrow>ports. ucast (tx_queues_per_port s p))"

lemma sum_ports_filter:
  assumes "\<forall>l \<in> set ls. f l < P"
  shows "(\<Sum>p\<leftarrow>[0..<P]. length (filter (\<lambda>l. Q l \<and> f l = p) ls)) = length (filter Q ls)"
  using assms
proof (induction ls)
  case Nil
  show ?case by (induction P) simp_all
next
  case (Cons l ls)
  have one: "(\<Sum>p\<leftarrow>[0..<P]. if f l = p then 1 else 0) = (1::nat)"
  proof -
    have "(\<Sum>p\<leftarrow>[0..<P]. if f l = p then 1 else 0) = (\<Sum>p\<in>{0..<P}. if f l = p then 1 else (0::nat))"
      by (simp add: sum_list_distinct_conv_sum_set)
    then show ?thesis using Cons.prems by simp
  qed
  have "length (filter (\<lambda>l. Q l \<and> f l = p) (l # ls)) =
      (if Q l then if f l = p then 1 else 0 else 0) + length (filter (\<lambda>l. Q l \<and> f l = p) ls)" for p by simp
  then have "(\<Sum>p\<leftarrow>[0..<P]. length (filter (\<lambda>l. Q l \<and> f l = p) (l # ls))) =
      (\<Sum>p\<leftarrow>[0..<P]. (if Q l then if f l = p then 1 else 0 else 0)) +
      (\<Sum>p\<leftarrow>[0..<P]. length (filter (\<lambda>l. Q l \<and> f l = p) ls))"
    by (simp only: sum_list_addf)
  then show ?case using Cons one by (cases "Q l") simp_all
qed

lemma length_filter_first_half:
  assumes "\<forall>i<length ls. Q (ls ! i) \<longleftrightarrow> i < m" and "m \<le> length ls"
  shows "length (filter Q ls) = m"
proof -
  have "length (filter Q ls) = card {i. i < length ls \<and> Q (ls ! i)}" by (rule length_filter_conv_card)
  also have "{i. i < length ls \<and> Q (ls ! i)} = {..<m}" using assms by auto
  finally show ?thesis by simp
qed

text \<open>
  What is announced as the number of flows is \<open>2 ^ k\<close> for a range of \<open>2 ^ k\<close> clients, times the
  number of transmitting workers, that is, half of the workers rounded down: with the roles as
  they were assigned over ports 0 up to the number of ports, the queues of all ports add up to
  the transmitting workers, and the 64-bit product does not wrap.
\<close>

lemma pktgen_max_flows:
  assumes "distinct ls" and "length ls < 2 ^ 16" and "g_ip_mask par = 2 ^ k - 1" and "k \<le> 30"
    and "pktgen_roles pool_fails macs nb_ports ls conf = Return s"
  shows "unat (max_capable_flows par s [0..<unat nb_ports]) = 2 ^ k * (length ls div 2)"
proof -
  let ?P = "unat nb_ports" and ?conf = "lcore_config s"
  have r: "nb_ports \<noteq> 0" "\<forall>i<length ls. let c = ?conf (ls ! i) in
        conf_type c = (if i < length ls div 2 then CORE_TX else CORE_RX) \<and> unat (conf_port_id c) = i mod ?P"
    using pktgen_roles_cases [OF assms(1,2), of nb_ports pool_fails macs conf] assms(5)
    by (auto split: if_splits simp: Let_def)
  have P: "0 < ?P" using r(1) by (simp add: unat_gt_0)
  have ports: "\<forall>l \<in> set ls. unat (conf_port_id (?conf l)) < ?P"
    using r(2) P by (auto simp: in_set_conv_nth Let_def)
  have tx: "length (filter (\<lambda>l. conf_type (?conf l) = CORE_TX) ls) = length ls div 2"
    using r(2) by (intro length_filter_first_half) (auto simp: Let_def)
  have q: "unat (tx_queues_per_port s p) =
      length (filter (\<lambda>l. conf_type (?conf l) = CORE_TX \<and> unat (conf_port_id (?conf l)) = p) ls)" for p
    using arg_cong [where f = length, OF conjunct1 [OF pktgen_roles_served [OF assms(1,2,5), of p]]]
    by (simp add: served_def)
  have n: "(\<Sum>p\<leftarrow>[0..<?P]. unat (tx_queues_per_port s p)) = length ls div 2"
    using sum_ports_filter [OF ports, of "\<lambda>l. conf_type (?conf l) = CORE_TX"] tx by (simp add: q)
  have o: "(\<Sum>p\<leftarrow>ps. ucast (tx_queues_per_port s p)) = (of_nat (\<Sum>p\<leftarrow>ps. unat (tx_queues_per_port s p)) :: u64)" for ps
    by (induction ps) simp_all
  have sum: "(\<Sum>p\<leftarrow>[0..<?P]. ucast (tx_queues_per_port s p)) = (of_nat (length ls div 2) :: u64)"
    unfolding o n by (rule refl)
  have "(2::nat) ^ k \<le> 2 ^ 30" using assms(4) by (intro power_increasing) simp_all
  then have "unat (of_nat (2 ^ k) :: u32) = 2 ^ k" by (simp only: unat_of_nat) simp
  then have "unat (2 ^ k :: u32) = 2 ^ k" by (simp only: of_nat_power of_nat_numeral)
  then have mask: "(ucast (g_ip_mask par + 1) :: u64) = of_nat (2 ^ k)"
    unfolding assms(3) by (metis diff_add_cancel of_nat_unat)
  have "2 ^ k * (length ls div 2) \<le> 2 ^ 30 * 2 ^ 16"
    using \<open>(2::nat) ^ k \<le> 2 ^ 30\<close> assms(2) by (intro mult_le_mono) simp_all
  then have "2 ^ k * (length ls div 2) < 2 ^ 64" by simp
  then have "unat (of_nat (2 ^ k * (length ls div 2)) :: u64) = 2 ^ k * (length ls div 2)"
    by (simp only: unat_of_nat) simp
  then show ?thesis unfolding max_capable_flows_def sum mask of_nat_mult by simp
qed

lemma pktgen_max_flows_witness:
  "\<exists>s. pktgen_roles (\<lambda>_. False) (\<lambda>p. replicate 6 (of_nat p)) 2 [1, 2, 3, 4, 5] (\<lambda>_. sample_conf) = Return s \<and>
    unat (max_capable_flows \<lparr>g_ip_mask = 7, g_payload_size = 64, g_timer_hz = 1\<rparr> s [0, 1]) = 16"
proof -
  obtain s where s: "pktgen_roles (\<lambda>_. False) (\<lambda>p. replicate 6 (of_nat p)) 2 [1, 2, 3, 4, 5] (\<lambda>_. sample_conf) = Return s"
    by (simp add: pktgen_roles_def)
  have "[0..<unat (2::u16)] = [0, 1]" by (simp add: upt_rec)
  then show ?thesis
    using pktgen_max_flows [OF _ _ _ _ s, of "\<lparr>g_ip_mask = 7, g_payload_size = 64, g_timer_hz = 1\<rparr>" 3] s by auto
qed

section \<open>The seconds add up\<close>

text \<open>What was last read from a port over a run of seconds, starting from a value.\<close>

fun last_read :: "nat \<Rightarrow> (nat \<Rightarrow> hw_stats option) list \<Rightarrow> hw_stats \<Rightarrow> hw_stats" where
  "last_read p [] h = h"
| "last_read p (hw # hws) h = last_read p hws (case hw p of None \<Rightarrow> h | Some h' \<Rightarrow> h')"

lemma aggregate_workers_spec:
  fixes f :: "worker_stats \<Rightarrow> u64"
  assumes "\<And>t c q. f (add_worker t c q) = f t + (f c - f q)" and "distinct ls"
  shows "\<exists>tot'. aggregate_workers g ls prev tot = (tot', \<lambda>l. if l \<in> set ls then g l else prev l) \<and>
    f tot' = f tot + (\<Sum>l\<leftarrow>ls. f (g l) - f (prev l))"
  using assms(2)
proof (induction ls arbitrary: prev tot)
  case Nil
  show ?case by simp
next
  case (Cons l ls)
  let ?prev = "prev(l := g l)" and ?tot = "add_worker tot (g l) (prev l)"
  have "distinct ls" using Cons.prems by simp
  from Cons.IH [OF this, of ?prev ?tot] obtain tot' where
    t: "aggregate_workers g ls ?prev ?tot = (tot', \<lambda>k. if k \<in> set ls then g k else ?prev k)"
    "f tot' = f ?tot + (\<Sum>k\<leftarrow>ls. f (g k) - f (?prev k))" by blast
  have "(\<Sum>k\<leftarrow>ls. f (g k) - f (?prev k)) = (\<Sum>k\<leftarrow>ls. f (g k) - f (prev k))"
    using Cons.prems by (intro arg_cong [where f = sum_list] map_cong) auto
  then have "f tot' = f tot + (\<Sum>k\<leftarrow>l # ls. f (g k) - f (prev k))" using t(2) assms(1) by simp
  moreover have "(\<lambda>k. if k \<in> set ls then g k else ?prev k) = (\<lambda>k. if k \<in> set (l # ls) then g k else prev k)"
    by auto
  ultimately show ?case using t(1) by simp
qed

lemma aggregate_ports_spec:
  fixes f :: "hw_stats \<Rightarrow> u64"
  assumes "\<And>t c q. f (add_hw t c q) = f t + (f c - f q)" and "distinct ports"
  shows "\<exists>tot'. aggregate_ports s hw ports prev tot =
      (tot', \<lambda>p. if p \<in> set (filter (port_in_use s) ports) then last_read p [hw] (prev p) else prev p) \<and>
    f tot' = f tot + (\<Sum>p\<leftarrow>filter (port_in_use s) ports. f (last_read p [hw] (prev p)) - f (prev p))"
  using assms(2)
proof (induction ports arbitrary: prev tot)
  case Nil
  show ?case by simp
next
  case (Cons p ports)
  let ?used = "filter (port_in_use s) ports" and ?r = "\<lambda>prev q. last_read q [hw] (prev q)"
  have ih: "\<exists>tot'. aggregate_ports s hw ports prev tot =
        (tot', \<lambda>q. if q \<in> set ?used then ?r prev q else prev q) \<and>
      f tot' = f tot + (\<Sum>q\<leftarrow>?used. f (?r prev q) - f (prev q))" for prev tot
    using Cons.prems by (intro Cons.IH) simp
  show ?case
  proof (cases "port_in_use s p \<and> hw p \<noteq> None")
    case False
    then have "aggregate_ports s hw (p # ports) prev tot = aggregate_ports s hw ports prev tot"
      and "\<not> port_in_use s p \<or> ?r prev p = prev p" by auto
    then show ?thesis using ih [of prev tot] by (auto simp: fun_eq_iff)
  next
    case True
    then obtain h where h: "port_in_use s p" "hw p = Some h" by blast
    let ?prev = "prev(p := h)" and ?tot = "add_hw tot h (prev p)"
    from ih [of ?prev ?tot] obtain tot' where
      t: "aggregate_ports s hw ports ?prev ?tot = (tot', \<lambda>q. if q \<in> set ?used then ?r ?prev q else ?prev q)"
      "f tot' = f ?tot + (\<Sum>q\<leftarrow>?used. f (?r ?prev q) - f (?prev q))" by blast
    have "(\<Sum>q\<leftarrow>?used. f (?r ?prev q) - f (?prev q)) = (\<Sum>q\<leftarrow>?used. f (?r prev q) - f (prev q))"
      using Cons.prems by (intro arg_cong [where f = sum_list] map_cong) auto
    then have "f tot' = f tot + (\<Sum>q\<leftarrow>filter (port_in_use s) (p # ports). f (?r prev q) - f (prev q))"
      using t(2) assms(1) h by simp
    moreover have "(\<lambda>q. if q \<in> set ?used then ?r ?prev q else ?prev q) =
        (\<lambda>q. if q \<in> set (filter (port_in_use s) (p # ports)) then ?r prev q else prev q)"
      using Cons.prems h by (auto simp: fun_eq_iff)
    ultimately show ?thesis using t(1) h by simp
  qed
qed

lemma sum_list_telescope:
  "(\<Sum>x\<leftarrow>xs. b x - a x) + (\<Sum>x\<leftarrow>xs. c x - b x) = (\<Sum>x\<leftarrow>xs. c x - a x :: u64)"
  by (induction xs) (simp_all add: algebra_simps)

lemma stats_seconds_workers:
  fixes f :: "worker_stats \<Rightarrow> u64"
  assumes "\<And>t c q. f (add_worker t c q) = f t + (f c - f q)" and "f zero_workers = 0" and "distinct ls"
    and "inps \<noteq> []"
  shows "(\<Sum>out\<leftarrow>stats_seconds s ls ports inps st. f (worker_part out)) =
    (\<Sum>l\<leftarrow>ls. f (fst (last inps) l) - f (prev_workers st l))"
  using assms(4)
proof (induction inps arbitrary: st)
  case Nil
  then show ?case by simp
next
  case (Cons inp inps)
  obtain g hw where inp: "inp = (g, hw)" by (cases inp)
  obtain tot where w: "aggregate_workers g ls (prev_workers st) zero_workers =
      (tot, \<lambda>l. if l \<in> set ls then g l else prev_workers st l)"
    "f tot = (\<Sum>l\<leftarrow>ls. f (g l) - f (prev_workers st l))"
    using aggregate_workers_spec [where f = f, OF assms(1,3)] assms(2) by fastforce
  obtain htot hprev where h: "aggregate_ports s hw ports (prev_hw st) zero_hw = (htot, hprev)"
    by (cases "aggregate_ports s hw ports (prev_hw st) zero_hw")
  let ?st = "\<lparr>prev_workers = (\<lambda>l. if l \<in> set ls then g l else prev_workers st l), prev_hw = hprev\<rparr>"
  have r: "(\<Sum>out\<leftarrow>stats_seconds s ls ports (inp # inps) st. f (worker_part out)) =
      f tot + (\<Sum>out\<leftarrow>stats_seconds s ls ports inps ?st. f (worker_part out))"
    by (simp add: inp one_second_def w(1) h)
  show ?case
  proof (cases "inps = []")
    case True
    have "stats_seconds s ls ports [] ?st = []" by simp
    then show ?thesis using w(2) unfolding r unfolding True inp by simp
  next
    case False
    have "(\<Sum>out\<leftarrow>stats_seconds s ls ports inps ?st. f (worker_part out)) =
        (\<Sum>l\<leftarrow>ls. f (fst (last inps) l) - f (prev_workers ?st l))" using False by (rule Cons.IH)
    also have "\<dots> = (\<Sum>l\<leftarrow>ls. f (fst (last inps) l) - f (g l))"
      by (intro arg_cong [where f = sum_list] map_cong) auto
    finally show ?thesis using False w(2) sum_list_telescope [where xs = ls] by (simp add: r)
  qed
qed

lemma stats_seconds_ports:
  fixes f :: "hw_stats \<Rightarrow> u64"
  assumes "\<And>t c q. f (add_hw t c q) = f t + (f c - f q)" and "f zero_hw = 0" and "distinct ports"
  shows "(\<Sum>out\<leftarrow>stats_seconds s ls ports inps st. f (hw_part out)) =
    (\<Sum>p\<leftarrow>filter (port_in_use s) ports.
       f (last_read p (List.map snd inps) (prev_hw st p)) - f (prev_hw st p))"
proof (induction inps arbitrary: st)
  case Nil
  show ?case by simp
next
  case (Cons inp inps)
  let ?used = "filter (port_in_use s) ports"
  obtain g hw where inp: "inp = (g, hw)" by (cases inp)
  let ?r = "\<lambda>p. last_read p [hw] (prev_hw st p)"
  obtain tot where w: "aggregate_ports s hw ports (prev_hw st) zero_hw =
      (tot, \<lambda>p. if p \<in> set ?used then ?r p else prev_hw st p)"
    "f tot = (\<Sum>p\<leftarrow>?used. f (?r p) - f (prev_hw st p))"
    using aggregate_ports_spec [where f = f, OF assms(1,3)] assms(2) by fastforce
  obtain wtot wprev where h: "aggregate_workers g ls (prev_workers st) zero_workers = (wtot, wprev)"
    by (cases "aggregate_workers g ls (prev_workers st) zero_workers")
  let ?st = "\<lparr>prev_workers = wprev, prev_hw = (\<lambda>p. if p \<in> set ?used then ?r p else prev_hw st p)\<rparr>"
  have r: "(\<Sum>out\<leftarrow>stats_seconds s ls ports (inp # inps) st. f (hw_part out)) =
      f tot + (\<Sum>out\<leftarrow>stats_seconds s ls ports inps ?st. f (hw_part out))"
    by (simp add: inp one_second_def w(1) h)
  have "(\<Sum>out\<leftarrow>stats_seconds s ls ports inps ?st. f (hw_part out)) =
      (\<Sum>p\<leftarrow>?used. f (last_read p (List.map snd inps) (prev_hw ?st p)) - f (prev_hw ?st p))" by (rule Cons.IH)
  also have "\<dots> = (\<Sum>p\<leftarrow>?used. f (last_read p (List.map snd (inp # inps)) (prev_hw st p)) - f (?r p))"
    by (intro arg_cong [where f = sum_list] map_cong) (auto simp: inp)
  finally show ?case using w(2) sum_list_telescope [where xs = ?used] by (simp add: r)
qed

text \<open>
  C35: the generator's statistics lose and repeat nothing.  Over any number of seconds, the values
  reported for the workers add up to the counters the workers had published at the last of them,
  and the values reported for the devices add up, over the ports in use, to what was last read
  from each of them, a second in which a device could not be read being made good by the next in
  which it can; all modulo \<open>2 ^ 64\<close>.
\<close>

theorem pktgen_stats_add_up:
  assumes "distinct ls" and "distinct ports" and "inps \<noteq> []"
    and "f \<in> {tx_pkts, tx_bytes, rx_pkts, rx_bytes, total_latency_cycles}"
    and "e \<in> {imissed, ierrors, rx_nombuf, oerrors}"
  shows "(\<Sum>out\<leftarrow>stats_seconds s ls ports inps stats_start. f (worker_part out)) = (\<Sum>l\<leftarrow>ls. f (fst (last inps) l)) \<and>
    (\<Sum>out\<leftarrow>stats_seconds s ls ports inps stats_start. e (hw_part out)) =
      (\<Sum>p\<leftarrow>filter (port_in_use s) ports. e (last_read p (List.map snd inps) zero_hw))"
proof -
  have f: "f (add_worker t c q) = f t + (f c - f q)" "f zero_workers = 0" for t c q
    using assms(4) by (auto simp: add_worker_def zero_workers_def)
  have e: "e (add_hw t c q) = e t + (e c - e q)" "e zero_hw = 0" for t c q
    using assms(5) by (auto simp: add_hw_def zero_hw_def)
  show ?thesis
    using stats_seconds_workers [where f = f, OF f assms(1,3), of s ports stats_start]
      stats_seconds_ports [where f = e, OF e assms(2), of s ls inps stats_start]
    by (simp add: stats_start_def f(2) e(2))
qed

theorem pktgen_stats_add_up_witness:
  "let w = (\<lambda>n l. \<lparr>tx_pkts = n * of_nat l, tx_bytes = 0, rx_pkts = 0, rx_bytes = 0, total_latency_cycles = 0\<rparr>);
       h = (\<lambda>n _. Some \<lparr>imissed = n, ierrors = 0, rx_nombuf = 0, oerrors = 0\<rparr>);
       s = (role_start (\<lambda>_. sample_conf))\<lparr>tx_queues_per_port := (\<lambda>_. 1)\<rparr>;
       outs = stats_seconds s [1, 2] [0] [(w 5, h 3), (w 8, \<lambda>_. None), (w 10, h 7)] stats_start
   in (\<Sum>out\<leftarrow>outs. tx_pkts (worker_part out)) = 30 \<and> (\<Sum>out\<leftarrow>outs. imissed (hw_part out)) = 7"
proof -
  define w where "w = (\<lambda>n l. \<lparr>tx_pkts = n * of_nat l, tx_bytes = 0, rx_pkts = 0, rx_bytes = 0, total_latency_cycles = 0\<rparr> :: worker_stats)"
  define h where "h = (\<lambda>n (_::nat). Some \<lparr>imissed = n, ierrors = 0, rx_nombuf = 0, oerrors = 0\<rparr>)"
  define s where "s = (role_start (\<lambda>_. sample_conf))\<lparr>tx_queues_per_port := (\<lambda>_. 1)\<rparr>"
  let ?inps = "[(w 5, h 3), (w 8, \<lambda>_. None), (w 10, h 7)]"
  have "port_in_use s 0" by (simp add: s_def port_in_use_def)
  then show ?thesis
    using pktgen_stats_add_up [of "[1, 2]" "[0]" ?inps tx_pkts imissed s]
    unfolding Let_def w_def [symmetric] h_def [symmetric] s_def [symmetric]
    by (simp add: w_def h_def)
qed

end
