(* ===== verification/Pktgen_Program.thy ===== *)
theory Pktgen_Program
  imports Pktgen_Stats
begin

text \<open>
  \<open>pktgen/pktgen.c\<close> as a whole: the options, the roles and the workers launched with them.  Each
  worker writes its own entry of \<open>g_stats\<close> only, so the workers are taken one after the other.
  The inputs of a worker are the turns of its loop until \<open>force_quit\<close> is seen.
\<close>

definition worker_launcher ::
  "(u8 list \<Rightarrow> u16) \<Rightarrow> pktgen_params \<Rightarrow> lcore_conf \<Rightarrow> nat \<Rightarrow> u64 \<Rightarrow> tx_input list \<Rightarrow> rx_input list \<Rightarrow> worker_stats \<Rightarrow>
     worker_stats option" where
  "worker_launcher cksum par conf lcore tsc txs rxs st =
     (if conf_type conf = CORE_TX
      then do { (os, st') \<leftarrow> tx_worker_loop cksum par conf (of_nat lcore) tsc txs st; Some st' }
      else rx_worker_loop par tsc rxs st)"

fun run_workers ::
  "(u8 list \<Rightarrow> u16) \<Rightarrow> pktgen_params \<Rightarrow> role_state \<Rightarrow> (nat \<Rightarrow> u64) \<Rightarrow> (nat \<Rightarrow> tx_input list) \<Rightarrow> (nat \<Rightarrow> rx_input list) \<Rightarrow>
     nat list \<Rightarrow> (nat \<Rightarrow> worker_stats) \<Rightarrow> (nat \<Rightarrow> worker_stats) option" where
  "run_workers cksum par s tsc txs rxs [] g = Some g"
| "run_workers cksum par s tsc txs rxs (l # ls) g = do {
     st \<leftarrow> worker_launcher cksum par (lcore_config s l) l (tsc l) (txs l) (rxs l) (g l);
     run_workers cksum par s tsc txs rxs ls (g(l := st))
   }"

section \<open>Receiving anything\<close>

text \<open>A frame that is long enough for the payload header is read within its bounds, whatever it is.\<close>

lemma rx_packet_latency_long:
  assumes "62 \<le> length m"
  shows "\<exists>acc'. rx_packet_latency tsc m acc = Some acc'"
  using assms by (simp add: rx_packet_latency_def)

lemma rx_packets_long:
  assumes "\<forall>m \<in> set ms. 62 \<le> length m"
  shows "\<exists>w'. rx_packets tsc ms w = Some w'"
  using assms
proof (induction ms arbitrary: w)
  case (Cons m ms)
  then have "62 \<le> length m" by simp
  then obtain acc where "rx_packet_latency tsc m (local_latency_cycles w) = Some acc"
    using rx_packet_latency_long by blast
  then show ?case using Cons by simp
qed simp

lemma rx_loop_long:
  assumes "\<forall>inp \<in> set inps. \<forall>m \<in> set (rx_bufs inp). 62 \<le> length m"
  shows "\<exists>w' st'. rx_loop par inps w st = Some (w', st')"
  using assms
proof (induction inps arbitrary: w st)
  case (Cons inp inps)
  then have long: "\<forall>m \<in> set (rx_bufs inp). 62 \<le> length m" by simp
  have "\<exists>w1 st1. rx_turn par inp w st = Some (w1, st1)"
  proof (cases "rx_bufs inp = []")
    case False
    obtain w1 where "rx_packets (rx_burst_tsc inp) (rx_bufs inp) w = Some w1"
      using rx_packets_long [OF long] by blast
    then show ?thesis by (simp add: rx_turn_def Let_def)
  qed (simp add: rx_turn_def)
  then show ?case using Cons by auto
qed simp

text \<open>
  A UDP frame that ends before the time stamp is read beyond its end: the frame of 60 bytes that
  Ethernet pads short packets to.
\<close>

lemma rx_short_frame:
  "rx_packet_latency tsc (replicate 12 0 @ [8, 0] @ replicate 9 0 @ [17] @ replicate 36 0) acc = None"
proof -
  have "rd_bytes (replicate 12 0 @ [8, 0] @ replicate 9 0 @ [17] @ replicate 36 (0::u8)) 12 2 = Some (be16 0x0800)"
    by (simp add: rd_bytes_def be16_bytes)
  then show ?thesis by (simp add: rx_packet_latency_def rd_bytes_def rd_def nth_append)
qed

section \<open>All workers\<close>

lemma few_cores:
  fixes ls :: "nat list"
  assumes "distinct ls" and "\<forall>l \<in> set ls. l < 128"
  shows "length ls < 2 ^ 16"
proof -
  have "card (set ls) \<le> card {..<128::nat}" using assms(2) by (intro card_mono) auto
  then show ?thesis using distinct_card [OF assms(1)] by simp
qed

lemma run_workers_all:
  assumes "\<forall>l \<in> set ls. \<forall>st. \<exists>st'. worker_launcher cksum par (lcore_config s l) l (tsc l) (txs l) (rxs l) st = Some st'"
    and "distinct ls"
  shows "\<exists>g'. run_workers cksum par s tsc txs rxs ls g = Some g' \<and>
    (\<forall>l. if l \<in> set ls then worker_launcher cksum par (lcore_config s l) l (tsc l) (txs l) (rxs l) (g l) = Some (g' l)
         else g' l = g l)"
  using assms
proof (induction ls arbitrary: g)
  case Nil
  then show ?case by simp
next
  case (Cons l ls)
  obtain st where st: "worker_launcher cksum par (lcore_config s l) l (tsc l) (txs l) (rxs l) (g l) = Some st"
    using Cons.prems(1) by (meson list.set_intros(1))
  have "\<exists>g'. run_workers cksum par s tsc txs rxs ls (g(l := st)) = Some g' \<and>
    (\<forall>k. if k \<in> set ls then worker_launcher cksum par (lcore_config s k) k (tsc k) (txs k) (rxs k) ((g(l := st)) k) = Some (g' k)
         else g' k = (g(l := st)) k)"
    using Cons.prems by (intro Cons.IH) auto
  then obtain g' where g': "run_workers cksum par s tsc txs rxs ls (g(l := st)) = Some g'"
    "\<And>k. if k \<in> set ls then worker_launcher cksum par (lcore_config s k) k (tsc k) (txs k) (rxs k) ((g(l := st)) k) = Some (g' k)
         else g' k = (g(l := st)) k" by blast
  have "if k \<in> set (l # ls) then worker_launcher cksum par (lcore_config s k) k (tsc k) (txs k) (rxs k) (g k) = Some (g' k)
      else g' k = g k" for k
    using g'(2) [of k] st Cons.prems(2) by (cases "k = l") (auto split: if_splits)
  then show ?case using st g'(1) by auto
qed

text \<open>
  The generator as a whole is safe.  For every accepted command line and every assignment of
  roles to cores below 128, if the buffers have room for a packet, the driver takes no more
  packets than it is given, and frames received reach to the end of the payload header, then
  every worker runs to its end without an access out of bounds; and a transmitting worker ends
  with the number of packets it sent published.
\<close>

lemma pktgen_program_safe:
  assumes "pktgen_config es hz = Return par" and "distinct ls" and "\<forall>l \<in> set ls. l < 128"
    and "pktgen_roles pool_fails macs nb_ports ls conf = Return s" and "\<forall>p. length (macs p) = 6"
    and "\<forall>l. \<forall>inp \<in> set (txs l). tx_allocated inp \<longrightarrow> tx_input_ok par inp"
    and "\<forall>l. \<forall>inp \<in> set (rxs l). \<forall>m \<in> set (rx_bufs inp). 62 \<le> length m"
  shows "\<exists>g'. run_workers cksum par s tsc txs rxs ls g = Some g' \<and>
    (\<forall>l \<in> set ls. conf_type (lcore_config s l) = CORE_TX \<longrightarrow>
      (\<exists>os. tx_worker_loop cksum par (lcore_config s l) (of_nat l) (tsc l) (txs l) (g l) = Some (os, g' l) \<and>
         tx_pkts (g' l) = of_nat (length (all_sent os))))"
proof -
  have sane: "sane_params par" using assms(1) config_sane by blast
  have mac: "length (conf_port_mac (lcore_config s l)) = 6" if l: "l \<in> set ls" for l
  proof -
    obtain i where i: "i < length ls" "ls ! i = l" using l by (auto simp: in_set_conv_nth)
    have "conf_port_mac (lcore_config s (ls ! i)) = macs (i mod unat nb_ports)"
      using pktgen_roles_cases [OF assms(2) few_cores [OF assms(2,3)], of nb_ports pool_fails macs conf] assms(4) i(1)
      by (auto simp: Let_def split: if_splits)
    then show ?thesis using assms(5) i(2) by simp
  qed
  have tx: "\<exists>os st'. tx_worker_loop cksum par (lcore_config s l) (of_nat l) (tsc l) (txs l) st = Some (os, st') \<and>
      tx_pkts st' = of_nat (length (all_sent os))" if "l \<in> set ls" for l st
  proof -
    have "l < 128" using assms(3) that by blast
    then have "unat (of_nat l :: u32) < 128" by (simp add: unat_of_nat)
    then have "(of_nat l :: u32) < 128" by (simp add: word_less_nat_alt)
    note port = tx_start_port [OF this]
    from tx_loop_result [OF sane mac [OF that] port assms(6) [THEN spec [of _ l]], of cksum "of_nat l" "tsc l" st]
    obtain os w' st' where r: "tx_loop cksum par (conf_port_mac (lcore_config s l)) (of_nat l) (txs l) (tx_start (of_nat l) (tsc l)) st =
        Some (os, w', st')"
      "tx_result cksum par (conf_port_mac (lcore_config s l)) (of_nat l) (tx_start (of_nat l) (tsc l)) os w'" by blast
    then have "local_pkts w' = of_nat (length (all_sent os))" by (simp add: tx_result_def tx_start_def)
    then show ?thesis using r(1)
      by (intro exI [of _ os] exI [of _ "tx_publish w' st'"]) (simp add: tx_worker_loop_def tx_publish_def)
  qed
  have "\<forall>l \<in> set ls. \<forall>st. \<exists>st'. worker_launcher cksum par (lcore_config s l) l (tsc l) (txs l) (rxs l) st = Some st'"
  proof (intro ballI allI)
    fix l st assume l: "l \<in> set ls"
    obtain os st1 where t: "tx_worker_loop cksum par (lcore_config s l) (of_nat l) (tsc l) (txs l) st = Some (os, st1)"
      using tx [OF l, of st] by blast
    obtain w2 st2 where "rx_loop par (rxs l)
        \<lparr>rx_local_pkts = 0, rx_local_bytes = 0, local_latency_cycles = 0, rx_last_tsc = tsc l\<rparr> st = Some (w2, st2)"
      using rx_loop_long [OF assms(7) [THEN spec [of _ l]]] by blast
    then show "\<exists>st'. worker_launcher cksum par (lcore_config s l) l (tsc l) (txs l) (rxs l) st = Some st'"
      using t by (simp add: worker_launcher_def rx_worker_loop_def)
  qed
  from run_workers_all [OF this assms(2), of g] obtain g' where
    g': "run_workers cksum par s tsc txs rxs ls g = Some g'"
    "\<And>l. l \<in> set ls \<Longrightarrow> worker_launcher cksum par (lcore_config s l) l (tsc l) (txs l) (rxs l) (g l) = Some (g' l)"
    by metis
  have "\<exists>os. tx_worker_loop cksum par (lcore_config s l) (of_nat l) (tsc l) (txs l) (g l) = Some (os, g' l) \<and>
      tx_pkts (g' l) = of_nat (length (all_sent os))" if l: "l \<in> set ls" and ty: "conf_type (lcore_config s l) = CORE_TX" for l
  proof -
    obtain os st' where t: "tx_worker_loop cksum par (lcore_config s l) (of_nat l) (tsc l) (txs l) (g l) = Some (os, st')"
      "tx_pkts st' = of_nat (length (all_sent os))" using tx [OF l] by blast
    then have "g' l = st'" using g'(2) [OF l] ty by (simp add: worker_launcher_def)
    then show ?thesis using t by blast
  qed
  then show ?thesis using g'(1) by blast
qed

lemma pktgen_program_safe_witness:
  "\<exists>par s g'. pktgen_config [Opt CHR ''p'' (dec 20)] 1000 = Return par \<and>
    pktgen_roles (\<lambda>_. False) (\<lambda>_. [1, 2, 3, 4, 5, 6]) 2 [1, 2, 3, 4] (\<lambda>_. sample_conf) = Return s \<and>
    run_workers (\<lambda>_. 0) par s (\<lambda>_. 0) (\<lambda>_. [sample_tx 60]) (\<lambda>_. []) [1, 2, 3, 4] (\<lambda>_. sample_stats) = Some g'"
proof -
  have "strtol (dec 20) 10 = 20" using strtol_dec [of 20] by simp
  then have c: "pktgen_config [Opt CHR ''p'' (dec 20)] 1000 = Return \<lparr>g_ip_mask = 0xff, g_payload_size = 20, g_timer_hz = 1000\<rparr>"
    by (simp add: pktgen_config_def pktgen_option_def atoi_def default_params_def min_payload_def sizeof_custom_payload_def)
  obtain s where s: "pktgen_roles (\<lambda>_. False) (\<lambda>_. [1, 2, 3, 4, 5, 6]) 2 [1, 2, 3, 4] (\<lambda>_. sample_conf) = Return s"
    by (simp add: pktgen_roles_def)
  have "\<forall>l. \<forall>inp \<in> set ((\<lambda>_. [sample_tx 60]) (l::nat)). tx_allocated inp \<longrightarrow>
      tx_input_ok \<lparr>g_ip_mask = 0xff, g_payload_size = 20, g_timer_hz = 1000\<rparr> inp"
    by (simp add: sample_tx_def tx_input_ok_def BURST_SIZE_def l2_payload_len_nat)
  from pktgen_program_safe [OF c _ _ s _ this, of "\<lambda>_. []" "\<lambda>_. 0" "\<lambda>_. 0" "\<lambda>_. sample_stats"] c s
  show ?thesis by (fastforce simp del: run_workers.simps)
qed

end
