(* ===== verification/Pktgen_Run.thy ===== *)
theory Pktgen_Run
  imports Pktgen_Program
begin

text \<open>
  \<open>pktgen/pktgen.c\<close> while it runs: the loops of the workers, the loop of the main core and the
  signal handler, interleaved in any order.  A turn of a worker is one burst; the main core takes
  a snapshot of the published counters once a second.  The lemmas show that every worker does in
  any interleaving what its own loop does alone with the same inputs, and that all of them come
  to an end once \<open>force_quit\<close> is set.
\<close>

section \<open>State and steps\<close>

datatype pktgen_worker = Transmitting tx_worker | Receiving rx_worker | Returned

text \<open>The log has the inputs of the turns each worker took, and the packets sent and freed.\<close>

record pktgen_run =
  pg_workers :: "nat \<Rightarrow> pktgen_worker"
  g_stats :: "nat \<Rightarrow> worker_stats"
  pg_quit :: bool
  pg_seconds :: "((nat \<Rightarrow> worker_stats) \<times> (nat \<Rightarrow> hw_stats option)) list"
  pg_tins :: "nat \<Rightarrow> tx_input list"
  pg_rins :: "nat \<Rightarrow> rx_input list"
  pg_sent :: "nat \<Rightarrow> (u8 list list \<times> u8 list list) list"

datatype pktgen_event =
    Pktgen_turn nat tx_input rx_input
  | Pktgen_second "nat \<Rightarrow> hw_stats option"
  | Pktgen_signal int

definition pktgen_signal_handler :: "int \<Rightarrow> bool \<Rightarrow> bool" where
  "pktgen_signal_handler signum quit = (if signum = SIGINT \<or> signum = SIGTERM then True else quit)"

text \<open>The launcher looks at the role; a receiver starts with its counters at zero.\<close>

definition pktgen_launch :: "lcore_conf \<Rightarrow> nat \<Rightarrow> u64 \<Rightarrow> pktgen_worker" where
  "pktgen_launch conf lcore tsc =
     (if conf_type conf = CORE_TX then Transmitting (tx_start (of_nat lcore) tsc)
      else Receiving \<lparr>rx_local_pkts = 0, rx_local_bytes = 0, local_latency_cycles = 0, rx_last_tsc = tsc\<rparr>)"

definition pktgen_worker_turn ::
  "(u8 list \<Rightarrow> u16) \<Rightarrow> pktgen_params \<Rightarrow> (nat \<Rightarrow> lcore_conf) \<Rightarrow> nat \<Rightarrow> tx_input \<Rightarrow> rx_input \<Rightarrow> pktgen_run \<Rightarrow>
     pktgen_run option" where
  "pktgen_worker_turn cksum par conf l tin rin r =
     (case pg_workers r l of
        Returned \<Rightarrow> Some r
      | Transmitting w \<Rightarrow>
          if pg_quit r then Some (r\<lparr>pg_workers := (pg_workers r)(l := Returned),
            g_stats := (g_stats r)(l := tx_publish w (g_stats r l))\<rparr>)
          else do {
            (o1, w', st) \<leftarrow> tx_turn cksum par (conf_port_mac (conf l)) (of_nat l) tin w (g_stats r l);
            Some (r\<lparr>pg_workers := (pg_workers r)(l := Transmitting w'), g_stats := (g_stats r)(l := st),
              pg_tins := (pg_tins r)(l := pg_tins r l @ [tin]),
              pg_sent := (pg_sent r)(l := pg_sent r l @ [o1])\<rparr>)
          }
      | Receiving w \<Rightarrow>
          if pg_quit r then Some (r\<lparr>pg_workers := (pg_workers r)(l := Returned),
            g_stats := (g_stats r)(l := rx_publish w (g_stats r l))\<rparr>)
          else do {
            (w', st) \<leftarrow> rx_turn par rin w (g_stats r l);
            Some (r\<lparr>pg_workers := (pg_workers r)(l := Receiving w'), g_stats := (g_stats r)(l := st),
              pg_rins := (pg_rins r)(l := pg_rins r l @ [rin])\<rparr>)
          })"

text \<open>A second is only evaluated if the program is not to end.\<close>

fun pktgen_step ::
  "(u8 list \<Rightarrow> u16) \<Rightarrow> pktgen_params \<Rightarrow> (nat \<Rightarrow> lcore_conf) \<Rightarrow> pktgen_event \<Rightarrow> pktgen_run \<Rightarrow> pktgen_run option" where
  "pktgen_step cksum par conf (Pktgen_turn l tin rin) r = pktgen_worker_turn cksum par conf l tin rin r"
| "pktgen_step cksum par conf (Pktgen_second hw) r =
     Some (if pg_quit r then r else r\<lparr>pg_seconds := pg_seconds r @ [(g_stats r, hw)]\<rparr>)"
| "pktgen_step cksum par conf (Pktgen_signal s) r = Some (r\<lparr>pg_quit := pktgen_signal_handler s (pg_quit r)\<rparr>)"

fun pktgen_steps ::
  "(u8 list \<Rightarrow> u16) \<Rightarrow> pktgen_params \<Rightarrow> (nat \<Rightarrow> lcore_conf) \<Rightarrow> pktgen_event list \<Rightarrow> pktgen_run \<Rightarrow> pktgen_run option" where
  "pktgen_steps cksum par conf [] r = Some r"
| "pktgen_steps cksum par conf (e # es) r = do { r' \<leftarrow> pktgen_step cksum par conf e r; pktgen_steps cksum par conf es r' }"

definition pktgen_run_start :: "role_state \<Rightarrow> nat list \<Rightarrow> (nat \<Rightarrow> u64) \<Rightarrow> pktgen_run" where
  "pktgen_run_start s lcores tsc = \<lparr>
     pg_workers = (\<lambda>l. if l \<in> set lcores then pktgen_launch (lcore_config s l) l (tsc l) else Returned),
     g_stats = (\<lambda>_. zero_workers), pg_quit = False, pg_seconds = [], pg_tins = (\<lambda>_. []), pg_rins = (\<lambda>_. []), pg_sent = (\<lambda>_. [])\<rparr>"

definition pktgen_over :: "nat list \<Rightarrow> pktgen_run \<Rightarrow> bool" where
  "pktgen_over lcores r \<longleftrightarrow> pg_quit r \<and> (\<forall>l \<in> set lcores. pg_workers r l = Returned)"

section \<open>Every worker runs its own loop\<close>

lemma tx_loop_snoc:
  "tx_loop cksum par mac lcore (inps @ [inp]) w st = do {
     (os, w1, st1) \<leftarrow> tx_loop cksum par mac lcore inps w st;
     (o1, w2, st2) \<leftarrow> tx_turn cksum par mac lcore inp w1 st1;
     Some (os @ [o1], w2, st2)
   }"
  by (induction inps arbitrary: w st) (auto split: Option.bind_splits prod.splits)

lemma rx_loop_snoc:
  "rx_loop par (inps @ [inp]) w st = do {
     (w1, st1) \<leftarrow> rx_loop par inps w st;
     rx_turn par inp w1 st1
   }"
  by (induction inps arbitrary: w st) (auto split: Option.bind_splits prod.splits)

definition alone ::
  "(u8 list \<Rightarrow> u16) \<Rightarrow> pktgen_params \<Rightarrow> (nat \<Rightarrow> lcore_conf) \<Rightarrow> (nat \<Rightarrow> u64) \<Rightarrow> pktgen_run \<Rightarrow> nat \<Rightarrow> bool" where
  "alone cksum par conf tsc r l \<longleftrightarrow>
     (if conf_type (conf l) = CORE_TX then pg_rins r l = [] \<and>
        (case pg_workers r l of
           Transmitting w \<Rightarrow> tx_loop cksum par (conf_port_mac (conf l)) (of_nat l) (pg_tins r l) (tx_start (of_nat l) (tsc l))
             zero_workers = Some (pg_sent r l, w, g_stats r l)
         | Returned \<Rightarrow> tx_worker_loop cksum par (conf l) (of_nat l) (tsc l) (pg_tins r l) zero_workers =
             Some (pg_sent r l, g_stats r l)
         | Receiving w \<Rightarrow> False)
      else pg_sent r l = [] \<and>
        (case pg_workers r l of
           Receiving w \<Rightarrow> rx_loop par (pg_rins r l)
             \<lparr>rx_local_pkts = 0, rx_local_bytes = 0, local_latency_cycles = 0, rx_last_tsc = tsc l\<rparr> zero_workers =
             Some (w, g_stats r l)
         | Returned \<Rightarrow> rx_worker_loop par (tsc l) (pg_rins r l) zero_workers = Some (g_stats r l)
         | Transmitting w \<Rightarrow> False))"

text \<open>Inputs a turn may have.\<close>

definition tin_ok :: "pktgen_params \<Rightarrow> tx_input \<Rightarrow> bool" where
  "tin_ok par tin \<longleftrightarrow> (tx_allocated tin \<longrightarrow> tx_input_ok par tin)"

definition rin_ok :: "rx_input \<Rightarrow> bool" where
  "rin_ok rin \<longleftrightarrow> (\<forall>m \<in> set (rx_bufs rin). 62 \<le> length m)"

fun pktgen_event_ok :: "pktgen_params \<Rightarrow> pktgen_event \<Rightarrow> bool" where
  "pktgen_event_ok par (Pktgen_turn l tin rin) = (tin_ok par tin \<and> rin_ok rin)"
| "pktgen_event_ok par (Pktgen_second hw) = True"
| "pktgen_event_ok par (Pktgen_signal s) = True"

definition workers_ok :: "pktgen_params \<Rightarrow> (nat \<Rightarrow> lcore_conf) \<Rightarrow> nat list \<Rightarrow> bool" where
  "workers_ok par conf lcores \<longleftrightarrow> sane_params par \<and>
     (\<forall>l \<in> set lcores. l < 128 \<and> length (conf_port_mac (conf l)) = 6)"

definition pktgen_run_ok ::
  "(u8 list \<Rightarrow> u16) \<Rightarrow> pktgen_params \<Rightarrow> (nat \<Rightarrow> lcore_conf) \<Rightarrow> (nat \<Rightarrow> u64) \<Rightarrow> nat list \<Rightarrow> pktgen_run \<Rightarrow> bool" where
  "pktgen_run_ok cksum par conf tsc lcores r \<longleftrightarrow>
     (\<forall>l \<in> set lcores. alone cksum par conf tsc r l \<and> (\<forall>tin \<in> set (pg_tins r l). tin_ok par tin)) \<and>
     (\<forall>l. l \<notin> set lcores \<longrightarrow> pg_workers r l = Returned)"

lemma tx_turn_total:
  assumes "sane_params par" and "length mac = 6" and "l < 128"
    and "\<forall>inp \<in> set inps. tx_allocated inp \<longrightarrow> tx_input_ok par inp" and "tx_allocated inp \<longrightarrow> tx_input_ok par inp"
    and "tx_loop cksum par mac (of_nat l) inps (tx_start (of_nat l) tsc) st = Some (os, w, st')"
  shows "\<exists>o1 w' st''. tx_turn cksum par mac (of_nat l) inp w st' = Some (o1, w', st'')"
proof -
  have "unat (of_nat l :: u32) < 128" using assms(3) by (simp add: unat_of_nat)
  then have "(of_nat l :: u32) < 128" by (simp add: word_less_nat_alt)
  note port = tx_start_port [OF this, of tsc]
  have "tx_result cksum par mac (of_nat l) (tx_start (of_nat l) tsc) os w"
    using tx_loop_result [OF assms(1,2) port assms(4), of cksum "of_nat l" st] assms(6) by auto
  then have "client_port_counter w \<le> 65000" using port by (simp add: tx_result_def)
  from tx_turn_result [OF assms(1,2) this, of inp cksum "of_nat l" st'] assms(5) show ?thesis by blast
qed

lemma rx_turn_total:
  assumes "\<forall>m \<in> set (rx_bufs rin). 62 \<le> length m"
  shows "\<exists>w' st'. rx_turn par rin w st = Some (w', st')"
proof (cases "rx_bufs rin = []")
  case False
  obtain w1 where "rx_packets (rx_burst_tsc rin) (rx_bufs rin) w = Some w1" using rx_packets_long [OF assms] by blast
  then show ?thesis by (simp add: rx_turn_def Let_def)
qed (simp add: rx_turn_def)

lemma alone_cong:
  "pg_workers r' l = pg_workers r l \<Longrightarrow> g_stats r' l = g_stats r l \<Longrightarrow> pg_tins r' l = pg_tins r l \<Longrightarrow>
   pg_rins r' l = pg_rins r l \<Longrightarrow> pg_sent r' l = pg_sent r l \<Longrightarrow> alone cksum par conf tsc r' l = alone cksum par conf tsc r l"
  by (simp only: alone_def)

lemma alone_main [simp]:
  shows "alone cksum par conf tsc (r\<lparr>pg_seconds := x\<rparr>) l = alone cksum par conf tsc r l"
    and "alone cksum par conf tsc (r\<lparr>pg_quit := q\<rparr>) l = alone cksum par conf tsc r l"
  by (rule alone_cong; simp)+

text \<open>A turn concerns its own worker only.\<close>

lemma worker_turn_frame:
  assumes "pktgen_worker_turn cksum par conf l tin rin r = Some r'"
  shows "pg_quit r' = pg_quit r" and "pg_seconds r' = pg_seconds r"
    and "l' \<noteq> l \<Longrightarrow> pg_workers r' l' = pg_workers r l' \<and> g_stats r' l' = g_stats r l' \<and>
      pg_tins r' l' = pg_tins r l' \<and> pg_rins r' l' = pg_rins r l' \<and> pg_sent r' l' = pg_sent r l'"
  using assms
  by (auto simp: pktgen_worker_turn_def split: pktgen_worker.splits Option.bind_splits if_splits)

lemma worker_turn_alone:
  assumes "workers_ok par conf lcores" and "l \<in> set lcores" and "alone cksum par conf tsc r l"
    and "\<forall>tin \<in> set (pg_tins r l). tin_ok par tin" and "tin_ok par tin" and "rin_ok rin"
  shows "\<exists>r'. pktgen_worker_turn cksum par conf l tin rin r = Some r' \<and> alone cksum par conf tsc r' l \<and>
    (\<forall>tin \<in> set (pg_tins r' l). tin_ok par tin)"
proof -
  have w: "sane_params par" "l < 128" "length (conf_port_mac (conf l)) = 6"
    using assms(1,2) by (auto simp: workers_ok_def)
  have old: "\<forall>inp \<in> set (pg_tins r l). tx_allocated inp \<longrightarrow> tx_input_ok par inp"
    using assms(4) by (auto simp: tin_ok_def)
  have new: "tx_allocated tin \<longrightarrow> tx_input_ok par tin" "\<forall>m \<in> set (rx_bufs rin). 62 \<le> length m"
    using assms(5,6) by (auto simp: tin_ok_def rin_ok_def)
  show ?thesis
  proof (cases "pg_workers r l")
    case (Transmitting w')
    then have tx: "conf_type (conf l) = CORE_TX" "pg_rins r l = []" and t: "tx_loop cksum par (conf_port_mac (conf l)) (of_nat l)
        (pg_tins r l) (tx_start (of_nat l) (tsc l)) zero_workers = Some (pg_sent r l, w', g_stats r l)"
      using assms(3) by (auto simp: alone_def Let_def split: if_splits)
    show ?thesis
    proof (cases "pg_quit r")
      case True
      then show ?thesis using Transmitting tx t assms(4)
        by (simp add: pktgen_worker_turn_def alone_def tx_worker_loop_def)
    next
      case False
      obtain o1 w'' st where o: "tx_turn cksum par (conf_port_mac (conf l)) (of_nat l) tin w' (g_stats r l) = Some (o1, w'', st)"
        using tx_turn_total [OF w(1,3,2) old new(1) t] by blast
      then show ?thesis using Transmitting False tx t assms(4,5)
        by (simp add: pktgen_worker_turn_def alone_def tx_loop_snoc)
    qed
  next
    case (Receiving w')
    then have rx: "conf_type (conf l) \<noteq> CORE_TX" "pg_sent r l = []" and t: "rx_loop par (pg_rins r l)
        \<lparr>rx_local_pkts = 0, rx_local_bytes = 0, local_latency_cycles = 0, rx_last_tsc = tsc l\<rparr> zero_workers = Some (w', g_stats r l)"
      using assms(3) by (auto simp: alone_def Let_def split: if_splits)
    show ?thesis
    proof (cases "pg_quit r")
      case True
      then show ?thesis using Receiving rx t assms(4)
        by (simp add: pktgen_worker_turn_def alone_def rx_worker_loop_def)
    next
      case False
      obtain w'' st where o: "rx_turn par rin w' (g_stats r l) = Some (w'', st)" using rx_turn_total [OF new(2)] by blast
      then show ?thesis using Receiving False rx t assms(4,5)
        by (simp add: pktgen_worker_turn_def alone_def rx_loop_snoc)
    qed
  next
    case Returned
    then show ?thesis using assms(3,4) by (simp add: pktgen_worker_turn_def)
  qed
qed

lemma pktgen_step_ok:
  assumes "workers_ok par conf lcores" and "pktgen_run_ok cksum par conf tsc lcores r" and "pktgen_event_ok par e"
  shows "\<exists>r'. pktgen_step cksum par conf e r = Some r' \<and> pktgen_run_ok cksum par conf tsc lcores r'"
proof (cases e)
  case (Pktgen_turn l tin rin)
  show ?thesis
  proof (cases "l \<in> set lcores")
    case False
    then have "pktgen_step cksum par conf e r = Some r"
      using assms(2) Pktgen_turn by (simp add: pktgen_run_ok_def pktgen_worker_turn_def)
    then show ?thesis using assms(2) by blast
  next
    case True
    obtain r' where r': "pktgen_worker_turn cksum par conf l tin rin r = Some r'" "alone cksum par conf tsc r' l"
      "\<forall>tin \<in> set (pg_tins r' l). tin_ok par tin"
      using worker_turn_alone [OF assms(1) True, of cksum tsc r tin rin] assms(2,3) True Pktgen_turn
      by (auto simp: pktgen_run_ok_def)
    have "alone cksum par conf tsc r' l' \<and> (\<forall>tin \<in> set (pg_tins r' l'). tin_ok par tin)"
      if "l' \<in> set lcores" for l'
    proof (cases "l' = l")
      case True
      then show ?thesis using r' by simp
    next
      case False
      note f = worker_turn_frame(3) [OF r'(1) False]
      show ?thesis using assms(2) that f alone_cong [of r' l' r cksum par conf tsc] by (simp add: pktgen_run_ok_def)
    qed
    moreover have "pg_workers r' l' = Returned" if "l' \<notin> set lcores" for l'
    proof -
      have "l' \<noteq> l" using that True by blast
      then show ?thesis using worker_turn_frame(3) [OF r'(1)] assms(2) that by (simp add: pktgen_run_ok_def)
    qed
    ultimately show ?thesis using r'(1) Pktgen_turn by (simp add: pktgen_run_ok_def)
  qed
next
  case (Pktgen_second hw)
  then show ?thesis using assms(2) by (simp add: pktgen_run_ok_def)
next
  case (Pktgen_signal s)
  then show ?thesis using assms(2) by (simp add: pktgen_run_ok_def)
qed

lemma pktgen_steps_ok:
  assumes "workers_ok par conf lcores" and "pktgen_run_ok cksum par conf tsc lcores r"
    and "\<forall>e \<in> set es. pktgen_event_ok par e"
  shows "\<exists>r'. pktgen_steps cksum par conf es r = Some r' \<and> pktgen_run_ok cksum par conf tsc lcores r'"
  using assms(2,3)
proof (induction es arbitrary: r)
  case (Cons e es)
  obtain r1 where "pktgen_step cksum par conf e r = Some r1" "pktgen_run_ok cksum par conf tsc lcores r1"
    using pktgen_step_ok [OF assms(1) Cons.prems(1)] Cons.prems(2) by (meson list.set_intros(1))
  then show ?case using Cons.IH [of r1] Cons.prems(2) by simp
qed simp

lemma pktgen_start_ok: "pktgen_run_ok cksum par (lcore_config s) tsc lcores (pktgen_run_start s lcores tsc)"
  by (simp add: pktgen_run_ok_def pktgen_run_start_def alone_def pktgen_launch_def)

section \<open>The end\<close>

lemma pktgen_step_quit:
  assumes "pktgen_step cksum par conf e r = Some r'" and "pg_quit r"
  shows "pg_quit r' \<and> (\<forall>l. pg_workers r l = Returned \<longrightarrow> pg_workers r' l = Returned) \<and>
    (\<forall>l tin rin. e = Pktgen_turn l tin rin \<longrightarrow> pg_workers r' l = Returned)"
  using assms
  by (cases e) (auto simp: pktgen_worker_turn_def pktgen_signal_handler_def split: pktgen_worker.splits)

lemma pktgen_steps_quit:
  assumes "pktgen_steps cksum par conf es r = Some r'" and "pg_quit r"
  shows "pg_quit r' \<and> (\<forall>l. pg_workers r l = Returned \<or> (\<exists>tin rin. Pktgen_turn l tin rin \<in> set es) \<longrightarrow>
    pg_workers r' l = Returned)"
  using assms
proof (induction es arbitrary: r)
  case (Cons e es)
  obtain r1 where r1: "pktgen_step cksum par conf e r = Some r1" "pktgen_steps cksum par conf es r1 = Some r'"
    using Cons.prems(1) by (auto split: Option.bind_splits)
  note q = pktgen_step_quit [OF r1(1) Cons.prems(2)]
  show ?case using Cons.IH [OF r1(2)] q by auto
qed simp

lemma pktgen_steps_append:
  "pktgen_steps cksum par conf (es @ es') r = do { r' \<leftarrow> pktgen_steps cksum par conf es r; pktgen_steps cksum par conf es' r' }"
  by (induction es arbitrary: r) (auto split: Option.bind_splits)

end
