(* ===== verification/Pktgen_Whole.thy ===== *)
theory Pktgen_Whole
  imports Pktgen_Run
begin

text \<open>
  \<open>pktgen/pktgen.c\<close>, \<open>main\<close> from its first line to its last, over an environment with every answer
  of DPDK and the devices, and a list of the events of the run.  The theorems say when it gives
  up, that it comes to its end, and what holds then.
\<close>

section \<open>The environment and main\<close>

record pktgen_env =
  pk_eal_result :: int
  pk_options :: "opt_event list"
  pk_timer_hz :: u64
  pk_ports :: "nat list"
  pk_lcores :: "nat list"
  pk_pool_fails :: "nat \<Rightarrow> bool"
  pk_macs :: "nat \<Rightarrow> u8 list"
  pk_static_conf :: "nat \<Rightarrow> lcore_conf"
  pk_driver :: "dev_call list \<Rightarrow> dev_call \<Rightarrow> int"
  pk_tsc :: "nat \<Rightarrow> u64"

record pktgen_booted =
  pb_params :: pktgen_params
  pb_roles :: role_state
  pb_calls :: "dev_call list"

definition pktgen_boot :: "pktgen_env \<Rightarrow> pktgen_booted outcome" where
  "pktgen_boot e =
     (if pk_eal_result e < 0 then Exit 1
      else case pktgen_config (pk_options e) (pk_timer_hz e) of
        Exit c \<Rightarrow> Exit c
      | Return par \<Rightarrow>
          (case pktgen_roles (pk_pool_fails e) (pk_macs e) (of_nat (length (pk_ports e))) (pk_lcores e) (pk_static_conf e) of
             Exit c \<Rightarrow> Exit c
           | Return s \<Rightarrow>
               (case make_calls (pk_driver e) (pktgen_ports_up s (pk_lcores e) (pk_ports e)) [] of
                  (Exit c, made) \<Rightarrow> Exit c
                | (Return u, made) \<Rightarrow> Return \<lparr>pb_params = par, pb_roles = s, pb_calls = made\<rparr>)))"

text \<open>
  What is printed, in the form of \<open>Pktgen_Stats\<close>: the flows announced and the seconds.  The value
  returned does not depend on the workers.
\<close>

record pktgen_end =
  pe_status :: int
  pe_flows :: u64
  pe_lines :: "second_stats list"
  pe_calls :: "dev_call list"
  pe_run :: pktgen_run

definition pktgen_finish :: "pktgen_env \<Rightarrow> pktgen_booted \<Rightarrow> pktgen_run \<Rightarrow> pktgen_end option" where
  "pktgen_finish e b r =
     (if \<not> pktgen_over (pk_lcores e) r then None
      else
        let s = pb_roles b;
            (done, made) = make_calls (pk_driver e) (pktgen_ports_down s (pk_ports e)) (pb_calls b)
        in Some \<lparr>pe_status = 0, pe_flows = max_capable_flows (pb_params b) s (pk_ports e),
                 pe_lines = stats_seconds s (pk_lcores e) (pk_ports e) (pg_seconds r) stats_start,
                 pe_calls = made, pe_run = r\<rparr>)"

text \<open>The result is \<open>None\<close> inside while the program is still running.\<close>

definition pktgen_main ::
  "(u8 list \<Rightarrow> u16) \<Rightarrow> pktgen_env \<Rightarrow> pktgen_event list \<Rightarrow> pktgen_end option outcome option" where
  "pktgen_main cksum e es =
     (case pktgen_boot e of
        Exit c \<Rightarrow> Some (Exit c)
      | Return b \<Rightarrow> do {
          r \<leftarrow> pktgen_steps cksum (pb_params b) (lcore_config (pb_roles b)) es
                 (pktgen_run_start (pb_roles b) (pk_lcores e) (pk_tsc e));
          Some (Return (pktgen_finish e b r))
        })"

section \<open>When the start fails\<close>

definition pktgen_boot_fails :: "pktgen_env \<Rightarrow> bool" where
  "pktgen_boot_fails e \<longleftrightarrow> pk_eal_result e < 0 \<or>
     (\<exists>c. pktgen_config (pk_options e) (pk_timer_hz e) = Exit c) \<or>
     pk_ports e = [] \<or> length (pk_lcores e) < 2 \<or> (\<exists>l \<in> set (pk_lcores e). pk_pool_fails e l) \<or>
     (\<exists>s. pktgen_roles (pk_pool_fails e) (pk_macs e) (of_nat (length (pk_ports e))) (pk_lcores e) (pk_static_conf e) = Return s \<and>
        some_call_fails (pk_driver e) (pktgen_ports_up s (pk_lcores e) (pk_ports e)))"

definition pktgen_env_ok :: "pktgen_env \<Rightarrow> bool" where
  "pktgen_env_ok e \<longleftrightarrow> distinct (pk_lcores e) \<and> (\<forall>l \<in> set (pk_lcores e). l < 128) \<and>
     distinct (pk_ports e) \<and> length (pk_ports e) < 2 ^ 16 \<and> (\<forall>p. length (pk_macs e p) = 6)"

definition pktgen_program_ok :: "pktgen_env \<Rightarrow> pktgen_event list \<Rightarrow> bool" where
  "pktgen_program_ok e es \<longleftrightarrow> pktgen_env_ok e \<and>
     (\<forall>par. pktgen_config (pk_options e) (pk_timer_hz e) = Return par \<longrightarrow> (\<forall>ev \<in> set es. pktgen_event_ok par ev))"

lemma config_exit: "pktgen_config es hz = Exit c \<Longrightarrow> c = 1"
  using pktgen_options_exit by (auto simp: pktgen_config_def split: outcome.splits)

lemma no_ports:
  assumes "pktgen_env_ok e"
  shows "(of_nat (length (pk_ports e)) :: u16) = 0 \<longleftrightarrow> pk_ports e = []"
proof -
  have "unat (of_nat (length (pk_ports e)) :: u16) = length (pk_ports e)"
    using assms by (simp add: pktgen_env_ok_def unat_of_nat)
  then show ?thesis by (cases "pk_ports e = []") (auto simp: unat_eq_0 [symmetric])
qed

lemma pktgen_boot_cases:
  assumes "pktgen_env_ok e"
  shows "if pktgen_boot_fails e then pktgen_boot e = Exit 1
    else \<exists>par s. pktgen_config (pk_options e) (pk_timer_hz e) = Return par \<and>
      pktgen_roles (pk_pool_fails e) (pk_macs e) (of_nat (length (pk_ports e))) (pk_lcores e) (pk_static_conf e) = Return s \<and>
      pktgen_boot e = Return \<lparr>pb_params = par, pb_roles = s,
        pb_calls = List.map fst (pktgen_ports_up s (pk_lcores e) (pk_ports e))\<rparr> \<and>
      workers_ok par (lcore_config s) (pk_lcores e)"
proof (cases "pk_eal_result e < 0 \<or> (\<exists>c. pktgen_config (pk_options e) (pk_timer_hz e) = Exit c)")
  case True
  then show ?thesis using config_exit by (auto simp: pktgen_boot_def pktgen_boot_fails_def)
next
  case False
  let ?P = "of_nat (length (pk_ports e)) :: u16" and ?ls = "pk_lcores e"
  obtain par where par: "pktgen_config (pk_options e) (pk_timer_hz e) = Return par"
    using False by (cases "pktgen_config (pk_options e) (pk_timer_hz e)") auto
  have d: "distinct ?ls" "length ?ls < 2 ^ 16" using assms few_cores by (auto simp: pktgen_env_ok_def)
  note roles = pktgen_roles_cases [OF d, of ?P "pk_pool_fails e" "pk_macs e" "pk_static_conf e"]
  show ?thesis
  proof (cases "?P = 0 \<or> length ?ls < 2 \<or> (\<exists>l \<in> set ?ls. pk_pool_fails e l)")
    case True
    then have "pktgen_boot_fails e" unfolding pktgen_boot_fails_def no_ports [OF assms] by blast
    moreover have "pktgen_roles (pk_pool_fails e) (pk_macs e) ?P ?ls (pk_static_conf e) = Exit 1"
      using roles True by (simp only: if_True)
    ultimately show ?thesis using False par by (simp add: pktgen_boot_def)
  next
    case up: False
    then obtain s where s: "pktgen_roles (pk_pool_fails e) (pk_macs e) ?P ?ls (pk_static_conf e) = Return s"
      "\<forall>i<length ?ls. conf_port_mac (lcore_config s (?ls ! i)) = pk_macs e (i mod unat ?P)"
      using roles by (auto simp: Let_def)
    have "length (conf_port_mac (lcore_config s l)) = 6" if "l \<in> set ?ls" for l
      using that s(2) assms by (auto simp: in_set_conv_nth pktgen_env_ok_def)
    then have w: "workers_ok par (lcore_config s) ?ls"
      using assms config_sane [OF par] by (simp add: workers_ok_def pktgen_env_ok_def)
    have f: "pktgen_boot_fails e \<longleftrightarrow> some_call_fails (pk_driver e) (pktgen_ports_up s ?ls (pk_ports e))"
      using False up s(1) unfolding pktgen_boot_fails_def no_ports [OF assms] by auto
    show ?thesis
      using make_calls_fails [of "pk_driver e" "pktgen_ports_up s ?ls (pk_ports e)"] False par s(1) w
      unfolding f by (auto simp: pktgen_boot_def split: if_splits)
  qed
qed

lemma pktgen_main_cases:
  assumes "pktgen_program_ok e es"
  shows "if pktgen_boot_fails e then pktgen_main cksum e es = Some (Exit 1)
    else \<exists>par s r.
      pktgen_config (pk_options e) (pk_timer_hz e) = Return par \<and>
      pktgen_roles (pk_pool_fails e) (pk_macs e) (of_nat (length (pk_ports e))) (pk_lcores e) (pk_static_conf e) = Return s \<and>
      pktgen_steps cksum par (lcore_config s) es (pktgen_run_start s (pk_lcores e) (pk_tsc e)) = Some r \<and>
      pktgen_run_ok cksum par (lcore_config s) (pk_tsc e) (pk_lcores e) r \<and> workers_ok par (lcore_config s) (pk_lcores e) \<and>
      pktgen_main cksum e es = Some (Return (pktgen_finish e
        \<lparr>pb_params = par, pb_roles = s, pb_calls = List.map fst (pktgen_ports_up s (pk_lcores e) (pk_ports e))\<rparr> r))"
proof (cases "pktgen_boot_fails e")
  case True
  then show ?thesis using pktgen_boot_cases [of e] assms by (simp add: pktgen_program_ok_def pktgen_main_def)
next
  case False
  have env: "pktgen_env_ok e" using assms by (simp add: pktgen_program_ok_def)
  obtain par s where b: "pktgen_config (pk_options e) (pk_timer_hz e) = Return par"
    "pktgen_roles (pk_pool_fails e) (pk_macs e) (of_nat (length (pk_ports e))) (pk_lcores e) (pk_static_conf e) = Return s"
    "pktgen_boot e = Return \<lparr>pb_params = par, pb_roles = s,
      pb_calls = List.map fst (pktgen_ports_up s (pk_lcores e) (pk_ports e))\<rparr>"
    "workers_ok par (lcore_config s) (pk_lcores e)"
    using pktgen_boot_cases [OF env] False by auto
  have "\<forall>ev \<in> set es. pktgen_event_ok par ev" using assms b(1) by (simp add: pktgen_program_ok_def)
  from pktgen_steps_ok [OF b(4) pktgen_start_ok this, of cksum "pk_tsc e"] obtain r where
    "pktgen_steps cksum par (lcore_config s) es (pktgen_run_start s (pk_lcores e) (pk_tsc e)) = Some r"
    "pktgen_run_ok cksum par (lcore_config s) (pk_tsc e) (pk_lcores e) r" by blast
  then show ?thesis using False b by (simp add: pktgen_main_def)
qed

text \<open>What a transmitting worker leaves.\<close>

lemma tx_worker_counts:
  assumes "workers_ok par conf lcores" and "l \<in> set lcores"
    and "\<forall>inp \<in> set inps. tx_allocated inp \<longrightarrow> tx_input_ok par inp"
    and "tx_worker_loop cksum par (conf l) (of_nat l) tsc inps st = Some (os, st')"
  shows "List.map packet_number (all_sent os) = List.map of_nat [0..<length (all_sent os)] \<and>
    tx_pkts st' = of_nat (length (all_sent os))"
proof -
  have w: "sane_params par" "length (conf_port_mac (conf l)) = 6" "l < 128"
    using assms(1,2) by (auto simp: workers_ok_def)
  then have "unat (of_nat l :: u32) < 128" by (simp add: unat_of_nat)
  then have "(of_nat l :: u32) < 128" by (simp add: word_less_nat_alt)
  from tx_loop_result [OF w(1,2) tx_start_port [OF this] assms(3), of cksum "of_nat l" tsc st] obtain os' w' st1 where
    r: "tx_loop cksum par (conf_port_mac (conf l)) (of_nat l) inps (tx_start (of_nat l) tsc) st = Some (os', w', st1)"
    "tx_result cksum par (conf_port_mac (conf l)) (of_nat l) (tx_start (of_nat l) tsc) os' w'" by blast
  have "List.map packet_number (all_sent os') = List.map of_nat [0..<length (all_sent os')]"
    using r(2) by (intro nth_equalityI) (simp_all add: tx_result_def tx_start_def)
  then show ?thesis
    using assms(4) r by (auto simp: tx_worker_loop_def tx_publish_def tx_result_def tx_start_def)
qed

lemma rx_packets_pkts: "rx_packets t ms w = Some w' \<Longrightarrow> rx_local_pkts w' = rx_local_pkts w"
  by (induction ms arbitrary: w) (auto split: Option.bind_splits)

lemma rx_loop_pkts:
  "rx_loop par inps w st = Some (w', st') \<Longrightarrow>
   rx_local_pkts w' = rx_local_pkts w + of_nat (\<Sum>inp\<leftarrow>inps. length (rx_bufs inp))"
proof (induction inps arbitrary: w st)
  case (Cons inp inps)
  obtain w1 st1 where t: "rx_turn par inp w st = Some (w1, st1)" "rx_loop par inps w1 st1 = Some (w', st')"
    using Cons.prems by (auto split: Option.bind_splits)
  have "rx_local_pkts w1 = rx_local_pkts w + of_nat (length (rx_bufs inp))"
    using t(1) by (auto simp: rx_turn_def Let_def rx_packets_pkts split: if_splits Option.bind_splits)
  then show ?case using Cons.IH [OF t(2)] by simp
qed simp

lemma rx_worker_counts:
  "rx_worker_loop par tsc inps st = Some st' \<Longrightarrow> rx_pkts st' = of_nat (\<Sum>inp\<leftarrow>inps. length (rx_bufs inp))"
  by (auto simp: rx_worker_loop_def rx_publish_def dest: rx_loop_pkts split: Option.bind_splits)

text \<open>What a worker leaves, in terms of its own loop.\<close>

lemma worker_leaves:
  assumes "workers_ok par conf lcores" and "pktgen_run_ok cksum par conf tsc lcores r" and "pktgen_over lcores r"
    and "l \<in> set lcores"
  shows "let tins = pg_tins r l; rins = pg_rins r l; sent = all_sent (pg_sent r l); st = g_stats r l in
    if conf_type (conf l) = CORE_TX
    then tx_worker_loop cksum par (conf l) (of_nat l) (tsc l) tins zero_workers = Some (pg_sent r l, st) \<and>
      List.map packet_number sent = List.map of_nat [0..<length sent] \<and> tx_pkts st = of_nat (length sent)
    else rx_worker_loop par (tsc l) rins zero_workers = Some st \<and>
      rx_pkts st = of_nat (\<Sum>inp\<leftarrow>rins. length (rx_bufs inp))"
proof -
  have tins: "\<forall>inp \<in> set (pg_tins r l). tx_allocated inp \<longrightarrow> tx_input_ok par inp"
    using assms(2,4) by (simp add: pktgen_run_ok_def tin_ok_def)
  have a: "alone cksum par conf tsc r l" "pg_workers r l = Returned"
    using assms(2-4) by (simp_all add: pktgen_run_ok_def pktgen_over_def)
  show ?thesis
  proof (cases "conf_type (conf l) = CORE_TX")
    case True
    then have "tx_worker_loop cksum par (conf l) (of_nat l) (tsc l) (pg_tins r l) zero_workers =
        Some (pg_sent r l, g_stats r l)" using a by (simp add: alone_def)
    with tx_worker_counts [OF assms(1,4) tins this] True show ?thesis by simp
  next
    case False
    then have "rx_worker_loop par (tsc l) (pg_rins r l) zero_workers = Some (g_stats r l)" using a by (simp add: alone_def)
    with rx_worker_counts [OF this] False show ?thesis by simp
  qed
qed

lemma pktgen_calls_closed:
  assumes "pktgen_env_ok e"
    and "pktgen_roles (pk_pool_fails e) (pk_macs e) (of_nat (length (pk_ports e))) (pk_lcores e) (pk_static_conf e) = Return s"
  shows "dev_run (List.map fst (pktgen_ports_up s (pk_lcores e) (pk_ports e)) @ List.map fst (pktgen_ports_down s (pk_ports e)))
    (\<lambda>_. Closed) = Some (\<lambda>_. Closed)"
proof -
  let ?ups = "pktgen_ports_up s (pk_lcores e) (pk_ports e)"
  have d: "distinct (pk_lcores e)" "length (pk_lcores e) < 2 ^ 16" "distinct (pk_ports e)"
    using assms few_cores by (auto simp: pktgen_env_ok_def)
  have "\<not> some_call_fails (\<lambda>_ _. 0) ?ups" by (simp add: some_call_fails_def)
  then have "make_calls (\<lambda>_ _. 0) ?ups [] = (Return (), List.map fst ?ups)"
    using make_calls_fails [of "\<lambda>_ _. 0" ?ups] by simp
  from pktgen_ports_protocol [OF d assms(2) this] show ?thesis by blast
qed

lemma pktgen_main_result:
  assumes "pktgen_program_ok e es" and "pktgen_main cksum e es = Some (Return (Some f))"
  obtains par s where "pktgen_config (pk_options e) (pk_timer_hz e) = Return par"
    and "pktgen_roles (pk_pool_fails e) (pk_macs e) (of_nat (length (pk_ports e))) (pk_lcores e) (pk_static_conf e) = Return s"
    and "pktgen_run_ok cksum par (lcore_config s) (pk_tsc e) (pk_lcores e) (pe_run f)"
    and "workers_ok par (lcore_config s) (pk_lcores e)" and "pktgen_over (pk_lcores e) (pe_run f)"
    and "pe_status f = 0" and "pe_lines f = stats_seconds s (pk_lcores e) (pk_ports e) (pg_seconds (pe_run f)) stats_start"
    and "pe_calls f = List.map fst (pktgen_ports_up s (pk_lcores e) (pk_ports e)) @ List.map fst (pktgen_ports_down s (pk_ports e))"
proof -
  obtain par s r where m: "pktgen_config (pk_options e) (pk_timer_hz e) = Return par"
    "pktgen_roles (pk_pool_fails e) (pk_macs e) (of_nat (length (pk_ports e))) (pk_lcores e) (pk_static_conf e) = Return s"
    "pktgen_run_ok cksum par (lcore_config s) (pk_tsc e) (pk_lcores e) r" "workers_ok par (lcore_config s) (pk_lcores e)"
    "pktgen_finish e \<lparr>pb_params = par, pb_roles = s,
      pb_calls = List.map fst (pktgen_ports_up s (pk_lcores e) (pk_ports e))\<rparr> r = Some f"
    using pktgen_main_cases [OF assms(1), of cksum] assms(2) by (auto split: if_splits)
  have "\<forall>c \<in> set (pktgen_ports_down s (pk_ports e)). \<not> snd c" by (auto simp: pktgen_ports_down_def)
  note down = unchecked_calls [OF this, of "pk_driver e"]
  have "pktgen_over (pk_lcores e) r" "pe_run f = r" "pe_status f = 0"
    "pe_lines f = stats_seconds s (pk_lcores e) (pk_ports e) (pg_seconds r) stats_start"
    "pe_calls f = List.map fst (pktgen_ports_up s (pk_lcores e) (pk_ports e)) @ List.map fst (pktgen_ports_down s (pk_ports e))"
    using m(5) down by (auto simp: pktgen_finish_def Let_def split: if_splits)
  then show thesis using that m(1-4) by simp
qed

lemma pktgen_comes_to_end:
  assumes "pktgen_program_ok e (es @ Pktgen_signal sig # es')" and "\<not> pktgen_boot_fails e"
    and "sig = SIGINT \<or> sig = SIGTERM"
    and "\<forall>l \<in> set (pk_lcores e). \<exists>tin rin. Pktgen_turn l tin rin \<in> set es'"
  shows "\<exists>f. pktgen_main cksum e (es @ Pktgen_signal sig # es') = Some (Return (Some f))"
proof -
  obtain par s r where m: "pktgen_steps cksum par (lcore_config s) (es @ Pktgen_signal sig # es')
      (pktgen_run_start s (pk_lcores e) (pk_tsc e)) = Some r"
    "pktgen_main cksum e (es @ Pktgen_signal sig # es') = Some (Return (pktgen_finish e
      \<lparr>pb_params = par, pb_roles = s, pb_calls = List.map fst (pktgen_ports_up s (pk_lcores e) (pk_ports e))\<rparr> r))"
    using pktgen_main_cases [OF assms(1), of cksum] assms(2) by auto
  obtain r1 where r1: "pktgen_steps cksum par (lcore_config s) es' (r1\<lparr>pg_quit := pktgen_signal_handler sig (pg_quit r1)\<rparr>) = Some r"
    using m(1) by (auto simp: pktgen_steps_append split: Option.bind_splits)
  have "pg_quit (r1\<lparr>pg_quit := pktgen_signal_handler sig (pg_quit r1)\<rparr>)"
    using assms(3) by (auto simp: pktgen_signal_handler_def)
  from pktgen_steps_quit [OF r1 this] have "pktgen_over (pk_lcores e) r"
    using assms(4) by (auto simp: pktgen_over_def)
  then show ?thesis using m(2) by (simp add: pktgen_finish_def Let_def split: prod.split)
qed

section \<open>An example\<close>

definition sample_pktgen_env :: pktgen_env where
  "sample_pktgen_env = \<lparr>pk_eal_result = 2, pk_options = [Opt CHR ''p'' (dec 20)], pk_timer_hz = 1000,
     pk_ports = [0, 1], pk_lcores = [1, 2, 3, 4], pk_pool_fails = (\<lambda>_. False), pk_macs = (\<lambda>_. [1, 2, 3, 4, 5, 6]),
     pk_static_conf = (\<lambda>_. sample_conf), pk_driver = (\<lambda>_ _. 0), pk_tsc = (\<lambda>_. 0)\<rparr>"

definition sample_rx :: rx_input where
  "sample_rx = \<lparr>rx_bufs = [sample_packet], rx_burst_tsc = 1700, rx_cur_tsc = 1701\<rparr>"

definition sample_pktgen_events :: "pktgen_event list" where
  "sample_pktgen_events =
     [Pktgen_turn 1 (sample_tx 60) sample_rx, Pktgen_turn 3 (sample_tx 0) sample_rx, Pktgen_second (\<lambda>_. None)]"

definition sample_pktgen_rest :: "pktgen_event list" where
  "sample_pktgen_rest = List.map (\<lambda>l. Pktgen_turn l (sample_tx 0) sample_rx) [1, 2, 3, 4]"

lemma sample_pktgen_config:
  "pktgen_config (pk_options sample_pktgen_env) (pk_timer_hz sample_pktgen_env) =
   Return \<lparr>g_ip_mask = 0xff, g_payload_size = 20, g_timer_hz = 1000\<rparr>"
proof -
  have "strtol (dec 20) 10 = 20" using strtol_dec [of 20] by simp
  then show ?thesis
    by (simp add: sample_pktgen_env_def pktgen_config_def pktgen_option_def atoi_def default_params_def min_payload_def
        sizeof_custom_payload_def)
qed

lemma sample_pktgen_ok:
  "pktgen_program_ok sample_pktgen_env (sample_pktgen_events @ Pktgen_signal SIGTERM # sample_pktgen_rest)"
proof -
  let ?par = "\<lparr>g_ip_mask = 0xff, g_payload_size = 20, g_timer_hz = 1000\<rparr>"
  have "tin_ok ?par (sample_tx n)" if "n \<le> 64" for n
    using that by (simp add: tin_ok_def sample_tx_def tx_input_ok_def BURST_SIZE_def l2_payload_len_nat)
  moreover have "rin_ok sample_rx" by (simp add: rin_ok_def sample_rx_def sample_packet_stamped(2))
  moreover have "pktgen_env_ok sample_pktgen_env" by (simp add: pktgen_env_ok_def sample_pktgen_env_def)
  ultimately show ?thesis
    unfolding pktgen_program_ok_def sample_pktgen_config
    by (auto simp: sample_pktgen_events_def sample_pktgen_rest_def)
qed

lemma sample_pktgen_boots: "\<not> pktgen_boot_fails sample_pktgen_env"
  unfolding pktgen_boot_fails_def sample_pktgen_config
  by (auto simp: sample_pktgen_env_def some_call_fails_def)

lemma sample_pktgen_turns:
  "\<forall>l \<in> set (pk_lcores sample_pktgen_env). \<exists>tin rin. Pktgen_turn l tin rin \<in> set sample_pktgen_rest"
  by (auto simp: sample_pktgen_env_def sample_pktgen_rest_def)

section \<open>What main does\<close>

text \<open>
  C18: when the generator gives up.  \<open>main\<close> leaves with status 1 exactly when the EAL or an option
  is refused, there is no port, there are fewer than two workers, the buffers of a worker are not
  granted, or a checked driver call fails; otherwise, in every interleaving of its cores, it never
  leaves early and accesses nothing out of bounds.
\<close>

theorem pktgen_main_exits:
  assumes "pktgen_program_ok e es"
  shows "if pktgen_boot_fails e then pktgen_main cksum e es = Some (Exit 1)
    else \<exists>f. pktgen_main cksum e es = Some (Return f)"
  using pktgen_main_cases [OF assms, of cksum] by (auto split: if_splits)

theorem pktgen_main_exits_witness:
  "\<exists>f. pktgen_main (\<lambda>_. 0) sample_pktgen_env (sample_pktgen_events @ Pktgen_signal SIGTERM # sample_pktgen_rest) = Some (Return f)"
  using pktgen_main_exits [OF sample_pktgen_ok, of "\<lambda>_. 0"] sample_pktgen_boots by simp

text \<open>
  C17: what the generator leaves.  However its cores were interleaved, when \<open>main\<close> has returned (with
  0) every port is closed again by the driver's protocol; every worker ends with the result of its
  own loop run alone on its inputs: a transmitter with its packets numbered from 0 without a gap
  and their number published, a receiver with the number of packets it received; and the seconds
  printed add up to the counters published at the last of them.
\<close>

theorem pktgen_main_ends:
  assumes "pktgen_program_ok e es" and "pktgen_main cksum e es = Some (Return (Some f))"
  shows "pe_status f = 0 \<and> dev_run (pe_calls f) (\<lambda>_. Closed) = Some (\<lambda>_. Closed) \<and>
    (\<exists>par s. pktgen_config (pk_options e) (pk_timer_hz e) = Return par \<and>
      pktgen_roles (pk_pool_fails e) (pk_macs e) (of_nat (length (pk_ports e))) (pk_lcores e) (pk_static_conf e) = Return s \<and>
      (\<forall>l \<in> set (pk_lcores e).
         let tins = pg_tins (pe_run f) l; rins = pg_rins (pe_run f) l; sent = all_sent (pg_sent (pe_run f) l); st = g_stats (pe_run f) l in
         if conf_type (lcore_config s l) = CORE_TX
         then tx_worker_loop cksum par (lcore_config s l) (of_nat l) (pk_tsc e l) tins zero_workers =
               Some (pg_sent (pe_run f) l, st) \<and>
             List.map packet_number sent = List.map of_nat [0..<length sent] \<and> tx_pkts st = of_nat (length sent)
         else rx_worker_loop par (pk_tsc e l) rins zero_workers = Some st \<and>
             rx_pkts st = of_nat (\<Sum>inp\<leftarrow>rins. length (rx_bufs inp)))) \<and>
    (pg_seconds (pe_run f) \<noteq> [] \<longrightarrow> (\<forall>c \<in> {tx_pkts, tx_bytes, rx_pkts, rx_bytes, total_latency_cycles}.
       (\<Sum>out\<leftarrow>pe_lines f. c (worker_part out)) = (\<Sum>l\<leftarrow>pk_lcores e. c (fst (last (pg_seconds (pe_run f))) l))))"
proof (rule pktgen_main_result [OF assms])
  fix par s
  assume m: "pktgen_config (pk_options e) (pk_timer_hz e) = Return par"
    "pktgen_roles (pk_pool_fails e) (pk_macs e) (of_nat (length (pk_ports e))) (pk_lcores e) (pk_static_conf e) = Return s"
    "pktgen_run_ok cksum par (lcore_config s) (pk_tsc e) (pk_lcores e) (pe_run f)"
    "workers_ok par (lcore_config s) (pk_lcores e)" "pktgen_over (pk_lcores e) (pe_run f)" "pe_status f = 0"
    "pe_lines f = stats_seconds s (pk_lcores e) (pk_ports e) (pg_seconds (pe_run f)) stats_start"
    "pe_calls f = List.map fst (pktgen_ports_up s (pk_lcores e) (pk_ports e)) @ List.map fst (pktgen_ports_down s (pk_ports e))"
  have env: "pktgen_env_ok e" using assms(1) by (simp add: pktgen_program_ok_def)
  note closed = pktgen_calls_closed [OF env m(2)]
  note worker = worker_leaves [OF m(4,3,5)]
  have d: "distinct (pk_lcores e)" using env by (simp add: pktgen_env_ok_def)
  have sums: "(\<Sum>out\<leftarrow>pe_lines f. c (worker_part out)) = (\<Sum>l\<leftarrow>pk_lcores e. c (fst (last (pg_seconds (pe_run f))) l))"
    if "pg_seconds (pe_run f) \<noteq> []" "c \<in> {tx_pkts, tx_bytes, rx_pkts, rx_bytes, total_latency_cycles}" for c
  proof -
    have "c (add_worker t x q) = c t + (c x - c q)" "c zero_workers = 0" for t x q
      using that(2) by (auto simp: add_worker_def zero_workers_def)
    from stats_seconds_workers [where f = c, OF this d that(1), of s "pk_ports e" stats_start] this(2)
    show ?thesis unfolding m(7) by (simp add: stats_start_def)
  qed
  show ?thesis
    unfolding m(8) using m(1,2,6) closed worker sums by blast
qed

theorem pktgen_main_ends_witness:
  "\<exists>f. pktgen_main (\<lambda>_. 0) sample_pktgen_env (sample_pktgen_events @ Pktgen_signal SIGTERM # sample_pktgen_rest) =
      Some (Return (Some f)) \<and> dev_run (pe_calls f) (\<lambda>_. Closed) = Some (\<lambda>_. Closed)"
proof -
  obtain f where f: "pktgen_main (\<lambda>_. 0) sample_pktgen_env (sample_pktgen_events @ Pktgen_signal SIGTERM # sample_pktgen_rest) =
      Some (Return (Some f))"
    using pktgen_comes_to_end [OF sample_pktgen_ok sample_pktgen_boots _ sample_pktgen_turns, of "\<lambda>_. 0"] by auto
  show ?thesis using pktgen_main_ends [OF sample_pktgen_ok f] f by blast
qed

text \<open>
  C19: the generator comes to its end.  Once a signal arrives, one further turn of every worker is
  enough for all of them to publish their counters and return, and for \<open>main\<close> to return too.
\<close>

theorem pktgen_main_returns:
  assumes "pktgen_program_ok e (es @ Pktgen_signal sig # es')" and "\<not> pktgen_boot_fails e"
    and "sig = SIGINT \<or> sig = SIGTERM"
    and "\<forall>l \<in> set (pk_lcores e). \<exists>tin rin. Pktgen_turn l tin rin \<in> set es'"
  shows "\<exists>f. pktgen_main cksum e (es @ Pktgen_signal sig # es') = Some (Return (Some f))"
  using assms by (rule pktgen_comes_to_end)

theorem pktgen_main_returns_witness:
  "\<exists>f. pktgen_main (\<lambda>_. 0) sample_pktgen_env (sample_pktgen_events @ Pktgen_signal SIGTERM # sample_pktgen_rest) =
      Some (Return (Some f))"
  using pktgen_main_returns [OF sample_pktgen_ok sample_pktgen_boots _ sample_pktgen_turns, of "\<lambda>_. 0"] by auto

end
