(* ===== verification/Netblast.thy ===== *)
theory Netblast
  imports "HOL-Library.Multiset" Pktgen_Whole L2fwd_Program
begin

text \<open>
  The two programs together: the generator of \<open>pktgen/pktgen.c\<close> on one machine, the forwarder of
  \<open>l2fwd/main.c\<close> on another, and links between them that may lose packets, deliver them in another
  order and leave bytes behind the end of a packet in the buffer, but invent and duplicate none.
  The theorem follows the packets around and says what the latencies and counts the generator
  prints are.
\<close>

section \<open>Selections of a list\<close>

text \<open>Some of the elements of the first list, in any order, each related to its counterpart.\<close>

definition related :: "('a \<Rightarrow> 'b \<Rightarrow> bool) \<Rightarrow> 'a list \<Rightarrow> 'b list \<Rightarrow> bool" where
  "related R xs ys \<longleftrightarrow> (\<exists>zs. mset zs \<subseteq># mset xs \<and> list_all2 R zs ys)"

lemma related_Nil [simp]: "related R xs []"
  by (auto simp: related_def)

lemma list_all2_part:
  assumes "list_all2 R ws ys" and "mset us \<subseteq># mset ys"
  shows "related R ws us"
proof -
  obtain vs where vs: "mset ys = mset (us @ vs)"
    using assms(2) ex_mset by (metis mset_append subset_mset.le_iff_add)
  have "list_all2 R\<inverse>\<inverse> ys ws" using assms(1) by (simp add: list.rel_flip)
  from list_all2_reorder_left_invariance [OF this vs [symmetric]] obtain ws' where
    ws': "list_all2 R ws' (us @ vs)" "mset ws' = mset ws" by (auto simp: list.rel_flip)
  obtain a b where "ws' = a @ b" "list_all2 R a us" using ws'(1) by (auto simp: list_all2_append2)
  then show ?thesis using ws'(2) unfolding related_def by (metis mset_append mset_subset_eq_add_left)
qed

lemma related_trans:
  assumes "related R xs ys" and "related S ys zs"
  shows "related (R OO S) xs zs"
proof -
  obtain us where us: "mset us \<subseteq># mset ys" "list_all2 S us zs" using assms(2) by (auto simp: related_def)
  obtain ws where ws: "mset ws \<subseteq># mset xs" "list_all2 R ws ys" using assms(1) by (auto simp: related_def)
  obtain vs where vs: "mset vs \<subseteq># mset ws" "list_all2 R vs us"
    using list_all2_part [OF ws(2) us(1)] by (auto simp: related_def)
  have "list_all2 (R OO S) vs zs"
    using list_all2_trans [OF _ vs(2) us(2), of "R OO S"] by blast
  then show ?thesis using subset_mset.order_trans [OF vs(1) ws(1)] by (auto simp: related_def)
qed

lemma related_append:
  assumes "related R xs ys" and "related R xs' ys'"
  shows "related R (xs @ xs') (ys @ ys')"
proof -
  obtain zs zs' where "mset zs \<subseteq># mset xs" "list_all2 R zs ys" "mset zs' \<subseteq># mset xs'" "list_all2 R zs' ys'"
    using assms by (auto simp: related_def)
  then show ?thesis
    unfolding related_def by (intro exI [of _ "zs @ zs'"]) (simp add: subset_mset.add_mono list_all2_appendI)
qed

lemma related_mono: "related R xs ys \<Longrightarrow> (\<And>x y. R x y \<Longrightarrow> S x y) \<Longrightarrow> related S xs ys"
  by (auto simp: related_def intro: list_all2_mono)

lemma related_length: "related R xs ys \<Longrightarrow> length ys \<le> length xs"
  unfolding related_def using size_mset_mono list_all2_lengthD by (metis size_mset)

section \<open>The packets of the two programs\<close>

text \<open>The buffer at the other end of a link holds the packet, and perhaps more bytes behind it.\<close>

definition carries :: "u8 list \<Rightarrow> u8 list \<Rightarrow> bool" where
  "carries m m' \<longleftrightarrow> take (length m) m' = m"

abbreviation wire :: "u8 list list \<Rightarrow> u8 list list \<Rightarrow> bool" where
  "wire \<equiv> related carries"

definition generated :: "pktgen_env \<Rightarrow> pktgen_end \<Rightarrow> u8 list list" where
  "generated e f = concat (List.map (\<lambda>l. all_sent (pg_sent (pe_run f) l)) (pk_lcores e))"

text \<open>What the receivers got, each packet with the clock read for its burst.\<close>

definition burst_arrivals :: "rx_input \<Rightarrow> (u64 \<times> u8 list) list" where
  "burst_arrivals inp = List.map (\<lambda>m. (rx_burst_tsc inp, m)) (rx_bufs inp)"

definition arrivals :: "pktgen_env \<Rightarrow> pktgen_end \<Rightarrow> (u64 \<times> u8 list) list" where
  "arrivals e f = concat (List.map (\<lambda>l. concat (List.map burst_arrivals (pg_rins (pe_run f) l))) (pk_lcores e))"

definition forwarder_in :: "l2fwd_end \<Rightarrow> u8 list list" where
  "forwarder_in g = concat (List.map (\<lambda>(l, p, ms, out). ms) (run_log (end_run g)))"

definition forwarder_out :: "l2fwd_end \<Rightarrow> u8 list list" where
  "forwarder_out g = concat (List.map (\<lambda>(l, p, ms, out). sent out) (run_log (end_run g)))"

definition forwarder_freed :: "l2fwd_end \<Rightarrow> u8 list list" where
  "forwarder_freed g = concat (List.map (\<lambda>(l, p, ms, out). freed out) (run_log (end_run g)))"

text \<open>The received packet is the generated one behind its Ethernet addresses.\<close>

definition comes_from :: "u8 list \<Rightarrow> u8 list \<Rightarrow> bool" where
  "comes_from m0 m \<longleftrightarrow> length m0 \<le> length m \<and> take (length m0 - 12) (drop 12 m) = drop 12 m0"

definition packet_stamp :: "u8 list \<Rightarrow> u64" where
  "packet_stamp m = le_value (take 8 (drop 54 m))"

definition cycles_between :: "u64 \<Rightarrow> u64 \<Rightarrow> u64" where
  "cycles_between stamp tsc = (if stamp < tsc then tsc - stamp else 0)"

section \<open>The way of a packet\<close>

lemma carried:
  assumes "(carries OO same_packet OO carries) m0 m"
  shows "comes_from m0 m"
proof -
  obtain a b where c: "take (length m0) a = m0" "length b = length a" "drop 12 b = drop 12 a" "take (length b) m = b"
    using assms by (auto simp: carries_def same_packet_def relcompp_apply)
  have n: "length m0 \<le> length a" "length b \<le> length m"
    using arg_cong [OF c(1), of length] arg_cong [OF c(4), of length] by simp_all
  have "drop 12 m0 = drop 12 (take (length m0) a)" using c(1) by simp
  also have "\<dots> = take (length m0 - 12) (drop 12 b)" by (simp add: drop_take c(3))
  also have "drop 12 b = take (length b - 12) (drop 12 m)" using arg_cong [OF c(4), of "drop 12"] by (simp add: drop_take)
  finally show ?thesis using n c(2) by (simp add: comes_from_def min_def)
qed

lemma forwarder_related:
  assumes "\<forall>(l, p, ms, out) \<in> set log. list_all2 same_packet ms (sent out @ freed out)"
  shows "related same_packet (concat (List.map (\<lambda>(l, p, ms, out). ms) log)) (concat (List.map (\<lambda>(l, p, ms, out). sent out) log)) \<and>
    length (concat (List.map (\<lambda>(l, p, ms, out). ms) log)) =
      length (concat (List.map (\<lambda>(l, p, ms, out). sent out) log)) +
      length (concat (List.map (\<lambda>(l, p, ms, out). freed out) log))"
  using assms
proof (induction log)
  case (Cons t log)
  obtain l p ms out where t: "t = (l, p, ms, out)" by (cases t)
  have a: "list_all2 same_packet ms (sent out @ freed out)" using Cons.prems t by simp
  have "related same_packet ms (sent out)" by (rule list_all2_part [OF a]) simp
  from related_append [OF this] show ?case
    using Cons list_all2_lengthD [OF a] unfolding t by simp
qed simp

text \<open>What a transmitter builds, and what a receiver makes of it.\<close>

definition built :: "u8 list \<Rightarrow> bool" where
  "built m \<longleftrightarrow> (\<exists>cksum g mac ip cp p d. length mac = 6 \<and> m = packet cksum g mac ip cp p @ d)"

lemma built_latency:
  assumes "built m0" and "comes_from m0 m"
  shows "rx_packet_latency t m acc = Some (acc + cycles_between (packet_stamp m0) t)"
    and "packet_stamp m = packet_stamp m0" and "packet_number m = packet_number m0"
proof -
  obtain cksum g mac ip cp p d where b: "length mac = 6" "m0 = packet cksum g mac ip cp p @ d"
    using assms(1) by (auto simp: built_def)
  have n: "62 \<le> length m0" using b length_packet by simp
  have m: "62 \<le> length m" using n assms(2) by (simp add: comes_from_def)
  have c: "take (length m0 - 12) (drop 12 m) = drop 12 m0" using assms(2) by (simp add: comes_from_def)
  have piece: "take k (drop i m) = take k (drop i m0)" if "12 \<le> i" "i + k \<le> 62" for i k
  proof -
    have "take k (drop (i - 12) (take (length m0 - 12) (drop 12 m))) = take k (drop (i - 12) (drop 12 m0))" by (simp only: c)
    moreover have "k \<le> length m0 - 12 - (i - 12)" using that n by simp
    ultimately show ?thesis using that by (simp add: drop_take min_def)
  qed
  have s: "packet_stamp m0 = tx_timestamp p"
    using b(1) by (simp add: b(2) packet_stamp_def packet_def payload_part_def)
  show "rx_packet_latency t m acc = Some (acc + cycles_between (packet_stamp m0) t)"
    using rx_packet_latency_built [OF b(1) m, of cksum g ip cp p d] piece [of 12 50] s
    by (simp add: b(2) cycles_between_def)
  show "packet_stamp m = packet_stamp m0" using piece [of 54 8] by (simp add: packet_stamp_def)
  show "packet_number m = packet_number m0" using piece [of 46 8] by (simp add: packet_number_def)
qed

section \<open>One worker\<close>

lemma set_all_sent: "set (all_sent os) \<subseteq> set (all_built os)"
  by (force simp: all_sent_def all_built_def)

lemma tx_publish_rest: "rx_pkts (tx_publish w st) = rx_pkts st" "total_latency_cycles (tx_publish w st) = total_latency_cycles st"
  by (simp_all add: tx_publish_def)

lemma tx_loop_rest:
  "tx_loop cksum par mac lcore inps w st = Some (os, w', st') \<Longrightarrow>
   rx_pkts st' = rx_pkts st \<and> total_latency_cycles st' = total_latency_cycles st"
proof (induction inps arbitrary: w st os)
  case (Cons inp inps)
  obtain o1 w1 st1 os1 where t: "tx_turn cksum par mac lcore inp w st = Some (o1, w1, st1)"
    "tx_loop cksum par mac lcore inps w1 st1 = Some (os1, w', st')"
    using Cons.prems by (auto split: Option.bind_splits)
  have "rx_pkts st1 = rx_pkts st \<and> total_latency_cycles st1 = total_latency_cycles st"
    using t(1) by (auto simp: tx_turn_def Let_def tx_publish_rest split: if_splits Option.bind_splits)
  then show ?case using Cons.IH [OF t(2)] by simp
qed simp

lemma tx_worker_rest:
  "tx_worker_loop cksum par conf lcore tsc inps st = Some (os, st') \<Longrightarrow>
   rx_pkts st' = rx_pkts st \<and> total_latency_cycles st' = total_latency_cycles st"
  by (auto simp: tx_worker_loop_def tx_publish_rest dest: tx_loop_rest split: Option.bind_splits)

lemma rx_publish_rest: "tx_pkts (rx_publish w st) = tx_pkts st"
  by (simp add: rx_publish_def)

lemma rx_loop_rest: "rx_loop par inps w st = Some (w', st') \<Longrightarrow> tx_pkts st' = tx_pkts st"
proof (induction inps arbitrary: w st)
  case (Cons inp inps)
  obtain w1 st1 where t: "rx_turn par inp w st = Some (w1, st1)" "rx_loop par inps w1 st1 = Some (w', st')"
    using Cons.prems by (auto split: Option.bind_splits)
  have "tx_pkts st1 = tx_pkts st"
    using t(1) by (auto simp: rx_turn_def Let_def rx_publish_rest split: if_splits Option.bind_splits)
  then show ?case using Cons.IH [OF t(2)] by simp
qed simp

lemma rx_worker_rest: "rx_worker_loop par tsc inps st = Some st' \<Longrightarrow> tx_pkts st' = tx_pkts st"
  by (auto simp: rx_worker_loop_def rx_publish_rest dest: rx_loop_rest split: Option.bind_splits)

text \<open>The receiver adds up the latencies of packets it can read.\<close>

definition readable :: "u8 list \<Rightarrow> bool" where
  "readable m \<longleftrightarrow> (\<forall>t acc. rx_packet_latency t m acc = Some (acc + cycles_between (packet_stamp m) t))"

lemma rx_packets_latency:
  assumes "\<forall>m \<in> set ms. readable m" and "rx_packets t ms w = Some w'"
  shows "local_latency_cycles w' = local_latency_cycles w + (\<Sum>m\<leftarrow>ms. cycles_between (packet_stamp m) t)"
  using assms
proof (induction ms arbitrary: w)
  case (Cons m ms)
  then show ?case using Cons.IH by (fastforce simp: readable_def add.assoc)
qed simp

lemma rx_loop_latency:
  assumes "\<forall>(t, m) \<in> set (concat (List.map burst_arrivals inps)). readable m" and "rx_loop par inps w st = Some (w', st')"
  shows "local_latency_cycles w' = local_latency_cycles w +
    (\<Sum>(t, m)\<leftarrow>concat (List.map burst_arrivals inps). cycles_between (packet_stamp m) t)"
  using assms
proof (induction inps arbitrary: w st)
  case (Cons inp inps)
  obtain w1 st1 where t: "rx_turn par inp w st = Some (w1, st1)" "rx_loop par inps w1 st1 = Some (w', st')"
    using Cons.prems(2) by (auto split: Option.bind_splits)
  have r: "\<forall>m \<in> set (rx_bufs inp). readable m" using Cons.prems(1) by (auto simp: burst_arrivals_def)
  have "local_latency_cycles w1 = local_latency_cycles w +
      (\<Sum>m\<leftarrow>rx_bufs inp. cycles_between (packet_stamp m) (rx_burst_tsc inp))"
  proof (cases "rx_bufs inp = []")
    case False
    then obtain w2 where "rx_packets (rx_burst_tsc inp) (rx_bufs inp) w = Some w2"
      "local_latency_cycles w1 = local_latency_cycles w2"
      using t(1) by (auto simp: rx_turn_def Let_def split: if_splits Option.bind_splits)
    then show ?thesis using rx_packets_latency [OF r] by simp
  qed (use t(1) in \<open>simp add: rx_turn_def\<close>)
  moreover have "local_latency_cycles w' = local_latency_cycles w1 +
      (\<Sum>(t, m)\<leftarrow>concat (List.map burst_arrivals inps). cycles_between (packet_stamp m) t)"
    by (rule Cons.IH [OF _ t(2)]) (use Cons.prems(1) in simp)
  moreover have "(\<Sum>(t, m)\<leftarrow>burst_arrivals inp. cycles_between (packet_stamp m) t) =
      (\<Sum>m\<leftarrow>rx_bufs inp. cycles_between (packet_stamp m) (rx_burst_tsc inp))"
    by (simp add: burst_arrivals_def comp_def)
  ultimately show ?case by (simp only: list.map concat.simps map_append sum_list_append add.assoc)
qed simp

lemma rx_worker_latency:
  assumes "\<forall>(t, m) \<in> set (concat (List.map burst_arrivals inps)). readable m" and "rx_worker_loop par tsc inps st = Some st'"
  shows "total_latency_cycles st' = (\<Sum>(t, m)\<leftarrow>concat (List.map burst_arrivals inps). cycles_between (packet_stamp m) t)"
proof -
  obtain w st1 where "rx_loop par inps \<lparr>rx_local_pkts = 0, rx_local_bytes = 0, local_latency_cycles = 0, rx_last_tsc = tsc\<rparr> st =
      Some (w, st1)" "st' = rx_publish w st1"
    using assms(2) by (auto simp: rx_worker_loop_def split: Option.bind_splits)
  then show ?thesis using rx_loop_latency [OF assms(1)] by (simp add: rx_publish_def)
qed

lemma length_burst_arrivals: "length (concat (List.map burst_arrivals inps)) = (\<Sum>inp\<leftarrow>inps. length (rx_bufs inp))"
  by (simp add: length_concat burst_arrivals_def comp_def)

lemma worker_totals:
  assumes "workers_ok par conf lcores" and "l \<in> set lcores" and "alone cksum par conf tsc r l" and "pg_workers r l = Returned"
    and "\<forall>tin \<in> set (pg_tins r l). tin_ok par tin"
    and "\<forall>(t, m) \<in> set (concat (List.map burst_arrivals (pg_rins r l))). readable m"
  shows "tx_pkts (g_stats r l) = of_nat (length (all_sent (pg_sent r l)))"
    and "rx_pkts (g_stats r l) = of_nat (length (concat (List.map burst_arrivals (pg_rins r l))))"
    and "total_latency_cycles (g_stats r l) =
      (\<Sum>(t, m)\<leftarrow>concat (List.map burst_arrivals (pg_rins r l)). cycles_between (packet_stamp m) t)"
proof -
  have tins: "\<forall>inp \<in> set (pg_tins r l). tx_allocated inp \<longrightarrow> tx_input_ok par inp" using assms(5) by (simp add: tin_ok_def)
  have "tx_pkts (g_stats r l) = of_nat (length (all_sent (pg_sent r l))) \<and>
    rx_pkts (g_stats r l) = of_nat (length (concat (List.map burst_arrivals (pg_rins r l)))) \<and>
    total_latency_cycles (g_stats r l) =
      (\<Sum>(t, m)\<leftarrow>concat (List.map burst_arrivals (pg_rins r l)). cycles_between (packet_stamp m) t)"
  proof (cases "conf_type (conf l) = CORE_TX")
    case True
    then have t: "tx_worker_loop cksum par (conf l) (of_nat l) (tsc l) (pg_tins r l) zero_workers =
        Some (pg_sent r l, g_stats r l)" and n: "pg_rins r l = []" using assms(3,4) by (simp_all add: alone_def)
    from tx_worker_counts [OF assms(1,2) tins t] have "tx_pkts (g_stats r l) = of_nat (length (all_sent (pg_sent r l)))" by simp
    moreover have "rx_pkts (g_stats r l) = 0 \<and> total_latency_cycles (g_stats r l) = 0"
      using tx_worker_rest [OF t] by (simp add: zero_workers_def)
    ultimately show ?thesis using n by simp
  next
    case False
    then have t: "rx_worker_loop par (tsc l) (pg_rins r l) zero_workers = Some (g_stats r l)" and n: "pg_sent r l = []"
      using assms(3,4) by (simp_all add: alone_def)
    have "tx_pkts (g_stats r l) = 0"
      using rx_worker_rest [OF t] by (simp add: zero_workers_def)
    moreover have "total_latency_cycles (g_stats r l) =
        (\<Sum>(t, m)\<leftarrow>concat (List.map burst_arrivals (pg_rins r l)). cycles_between (packet_stamp m) t)"
      by (rule rx_worker_latency [OF assms(6) t])
    moreover note rx_worker_counts [OF t]
    ultimately show ?thesis using n by (simp add: length_burst_arrivals all_sent_def del: length_concat)
  qed
  then show "tx_pkts (g_stats r l) = of_nat (length (all_sent (pg_sent r l)))"
    and "rx_pkts (g_stats r l) = of_nat (length (concat (List.map burst_arrivals (pg_rins r l))))"
    and "total_latency_cycles (g_stats r l) =
      (\<Sum>(t, m)\<leftarrow>concat (List.map burst_arrivals (pg_rins r l)). cycles_between (packet_stamp m) t)" by blast+
qed

lemma worker_built:
  assumes "workers_ok par conf lcores" and "l \<in> set lcores" and "alone cksum par conf tsc r l" and "pg_workers r l = Returned"
    and "\<forall>tin \<in> set (pg_tins r l). tin_ok par tin" and "m \<in> set (all_sent (pg_sent r l))"
  shows "built m"
proof -
  have c: "conf_type (conf l) = CORE_TX" using assms(3,6) by (auto simp: alone_def all_sent_def split: if_splits)
  then have t: "tx_worker_loop cksum par (conf l) (of_nat l) (tsc l) (pg_tins r l) zero_workers =
      Some (pg_sent r l, g_stats r l)" using assms(3,4) by (simp add: alone_def)
  have w: "sane_params par" "length (conf_port_mac (conf l)) = 6" "l < 128"
    using assms(1,2) by (auto simp: workers_ok_def)
  then have "unat (of_nat l :: u32) < 128" by (simp add: unat_of_nat)
  then have "(of_nat l :: u32) < 128" by (simp add: word_less_nat_alt)
  note port = tx_start_port [OF this]
  have "\<forall>inp \<in> set (pg_tins r l). tx_allocated inp \<longrightarrow> tx_input_ok par inp" using assms(5) by (simp add: tin_ok_def)
  from tx_loop_result [OF w(1,2) port this, of cksum "of_nat l" "tsc l" zero_workers] t obtain w' where
    "tx_result cksum par (conf_port_mac (conf l)) (of_nat l) (tx_start (of_nat l) (tsc l)) (pg_sent r l) w'"
    by (auto simp: tx_worker_loop_def)
  moreover obtain j where "j < length (all_built (pg_sent r l))" "m = all_built (pg_sent r l) ! j"
    using assms(6) set_all_sent by (metis in_set_conv_nth subsetD)
  ultimately show ?thesis using w(2) by (fastforce simp: tx_result_def tx_packet_def built_def)
qed

lemma generator_totals:
  assumes "pktgen_program_ok e es" and "pktgen_main cksum e es = Some (Return (Some f))"
    and "\<forall>(t, m) \<in> set (arrivals e f). readable m"
  shows "(\<Sum>l\<leftarrow>pk_lcores e. tx_pkts (g_stats (pe_run f) l)) = of_nat (length (generated e f))"
    and "(\<Sum>l\<leftarrow>pk_lcores e. rx_pkts (g_stats (pe_run f) l)) = of_nat (length (arrivals e f))"
    and "(\<Sum>l\<leftarrow>pk_lcores e. total_latency_cycles (g_stats (pe_run f) l)) =
      (\<Sum>(t, m)\<leftarrow>arrivals e f. cycles_between (packet_stamp m) t)"
proof -
  have "(\<Sum>l\<leftarrow>pk_lcores e. tx_pkts (g_stats (pe_run f) l)) = of_nat (length (generated e f)) \<and>
    (\<Sum>l\<leftarrow>pk_lcores e. rx_pkts (g_stats (pe_run f) l)) = of_nat (length (arrivals e f)) \<and>
    (\<Sum>l\<leftarrow>pk_lcores e. total_latency_cycles (g_stats (pe_run f) l)) =
      (\<Sum>(t, m)\<leftarrow>arrivals e f. cycles_between (packet_stamp m) t)"
  proof (rule pktgen_main_result [OF assms(1,2)])
    fix par s
    assume m: "pktgen_run_ok cksum par (lcore_config s) (pk_tsc e) (pk_lcores e) (pe_run f)"
      "workers_ok par (lcore_config s) (pk_lcores e)" "pktgen_over (pk_lcores e) (pe_run f)"
    let ?r = "pe_run f"
    have w: "tx_pkts (g_stats ?r l) = of_nat (length (all_sent (pg_sent ?r l)))"
      "rx_pkts (g_stats ?r l) = of_nat (length (concat (List.map burst_arrivals (pg_rins ?r l))))"
      "total_latency_cycles (g_stats ?r l) =
        (\<Sum>(t, m)\<leftarrow>concat (List.map burst_arrivals (pg_rins ?r l)). cycles_between (packet_stamp m) t)"
      if "l \<in> set (pk_lcores e)" for l
    proof -
      have "alone cksum par (lcore_config s) (pk_tsc e) ?r l" "pg_workers ?r l = Returned"
        "\<forall>tin \<in> set (pg_tins ?r l). tin_ok par tin"
        using m(1,3) that by (simp_all add: pktgen_run_ok_def pktgen_over_def)
      moreover have "\<forall>(t, m) \<in> set (concat (List.map burst_arrivals (pg_rins ?r l))). readable m"
        using assms(3) that by (fastforce simp: arrivals_def)
      ultimately show "tx_pkts (g_stats ?r l) = of_nat (length (all_sent (pg_sent ?r l)))"
        "rx_pkts (g_stats ?r l) = of_nat (length (concat (List.map burst_arrivals (pg_rins ?r l))))"
        "total_latency_cycles (g_stats ?r l) =
          (\<Sum>(t, m)\<leftarrow>concat (List.map burst_arrivals (pg_rins ?r l)). cycles_between (packet_stamp m) t)"
        using worker_totals [OF m(2) that] by blast+
    qed
    have len: "(\<Sum>l\<leftarrow>ls. of_nat (length (g l))) = (of_nat (length (concat (List.map g ls))) :: u64)" for g :: "nat \<Rightarrow> 'z list" and ls
      by (induction ls) simp_all
    have sum: "(\<Sum>l\<leftarrow>ls. \<Sum>x\<leftarrow>g l. h x) = (\<Sum>x\<leftarrow>concat (List.map g ls). h x)" for g :: "nat \<Rightarrow> (u64 \<times> u8 list) list" and h :: "_ \<Rightarrow> u64" and ls
      by (induction ls) simp_all
    show ?thesis unfolding generated_def arrivals_def len [symmetric] sum [symmetric]
      using w by (auto intro!: arg_cong [of _ _ sum_list])
  qed
  then show "(\<Sum>l\<leftarrow>pk_lcores e. tx_pkts (g_stats (pe_run f) l)) = of_nat (length (generated e f))"
    and "(\<Sum>l\<leftarrow>pk_lcores e. rx_pkts (g_stats (pe_run f) l)) = of_nat (length (arrivals e f))"
    and "(\<Sum>l\<leftarrow>pk_lcores e. total_latency_cycles (g_stats (pe_run f) l)) =
      (\<Sum>(t, m)\<leftarrow>arrivals e f. cycles_between (packet_stamp m) t)" by blast+
qed

lemma generator_built:
  assumes "pktgen_program_ok e es" and "pktgen_main cksum e es = Some (Return (Some f))" and "m \<in> set (generated e f)"
  shows "built m"
proof (rule pktgen_main_result [OF assms(1,2)])
  fix par s
  assume ok: "pktgen_run_ok cksum par (lcore_config s) (pk_tsc e) (pk_lcores e) (pe_run f)"
    "workers_ok par (lcore_config s) (pk_lcores e)" "pktgen_over (pk_lcores e) (pe_run f)"
  obtain l where l: "l \<in> set (pk_lcores e)" "m \<in> set (all_sent (pg_sent (pe_run f) l))"
    using assms(3) by (auto simp: generated_def)
  then have "alone cksum par (lcore_config s) (pk_tsc e) (pe_run f) l" "pg_workers (pe_run f) l = Returned"
    "\<forall>tin \<in> set (pg_tins (pe_run f) l). tin_ok par tin"
    using ok(1,3) by (simp_all add: pktgen_run_ok_def pktgen_over_def)
  from worker_built [OF ok(2) l(1) this l(2)] show ?thesis .
qed

text \<open>The packets that came back, read through their originals.\<close>

lemma origins_of_arrivals:
  assumes "list_all2 comes_from origins (List.map snd ars)" and "\<forall>m0 \<in> set origins. built m0"
  shows "\<forall>(t, m) \<in> set ars. readable m"
    and "List.map packet_number (List.map snd ars) = List.map packet_number origins"
    and "(\<Sum>(t, m)\<leftarrow>ars. cycles_between (packet_stamp m) t) =
      (\<Sum>(t, m0)\<leftarrow>zip (List.map fst ars) origins. cycles_between (packet_stamp m0) t)"
proof -
  have "(\<forall>(t, m) \<in> set ars. readable m) \<and> List.map packet_number (List.map snd ars) = List.map packet_number origins \<and>
    (\<Sum>(t, m)\<leftarrow>ars. cycles_between (packet_stamp m) t) =
      (\<Sum>(t, m0)\<leftarrow>zip (List.map fst ars) origins. cycles_between (packet_stamp m0) t)"
    using assms
  proof (induction ars arbitrary: origins)
    case (Cons a ars)
    obtain m0 ms where o: "origins = m0 # ms" "comes_from m0 (snd a)" "list_all2 comes_from ms (List.map snd ars)"
      using Cons.prems(1) by (auto simp: list_all2_Cons2)
    have b: "built m0" "\<forall>m0 \<in> set ms. built m0" using Cons.prems(2) o(1) by simp_all
    note l = built_latency [OF b(1) o(2)]
    have "readable (snd a)" using l(1,2) by (simp add: readable_def)
    then show ?case using Cons.IH [OF o(3) b(2)] l(2,3) o(1) by (cases a) simp
  qed simp
  then show "\<forall>(t, m) \<in> set ars. readable m"
    and "List.map packet_number (List.map snd ars) = List.map packet_number origins"
    and "(\<Sum>(t, m)\<leftarrow>ars. cycles_between (packet_stamp m) t) =
      (\<Sum>(t, m0)\<leftarrow>zip (List.map fst ars) origins. cycles_between (packet_stamp m0) t)" by blast+
qed

section \<open>All the way round\<close>

text \<open>
  C7: what the generator measures.  Both programs ran to their end, each in any interleaving of its
  cores, the forwarder got its packets from the generator and the generator its packets from the
  forwarder, over links that may lose and reorder.  Then every packet the generator received is
  one that it sent, none twice, intact behind the Ethernet addresses.  The latency its receivers
  added up is the sum, over those packets, of the cycles from the time stamp the packet was sent
  with to the arrival of its burst, or nothing where the clock of the receiving core was not
  ahead.  Its packet counters are the numbers of packets sent and received, and the packets that
  came back and those the forwarder dropped are together no more than were sent.
\<close>

theorem netblast_round_trip:
  assumes "program_ok le les" and "l2fwd_main crc True mpps le les = Some (Return (Some g))"
    and "pktgen_program_ok e es" and "pktgen_main cksum e es = Some (Return (Some f))"
    and "wire (generated e f) (forwarder_in g)" and "wire (forwarder_out g) (List.map snd (arrivals e f))"
  shows "\<exists>origins. mset origins \<subseteq># mset (generated e f) \<and>
    list_all2 comes_from origins (List.map snd (arrivals e f)) \<and>
    List.map packet_number (List.map snd (arrivals e f)) = List.map packet_number origins \<and>
    (\<Sum>l\<leftarrow>pk_lcores e. total_latency_cycles (g_stats (pe_run f) l)) =
      (\<Sum>(t, m0)\<leftarrow>zip (List.map fst (arrivals e f)) origins. cycles_between (packet_stamp m0) t) \<and>
    (\<Sum>l\<leftarrow>pk_lcores e. tx_pkts (g_stats (pe_run f) l)) = of_nat (length (generated e f)) \<and>
    (\<Sum>l\<leftarrow>pk_lcores e. rx_pkts (g_stats (pe_run f) l)) = of_nat (length (arrivals e f)) \<and>
    length (arrivals e f) + length (forwarder_freed g) \<le> length (generated e f)"
proof -
  have log: "\<forall>(l, p, ms, out) \<in> set (run_log (end_run g)). list_all2 same_packet ms (sent out @ freed out)"
    using main_cases [OF assms(1), of crc mpps] assms(2) by (auto simp: run_ok_def logged_ok_def split: if_splits)
  have fwd: "related same_packet (forwarder_in g) (forwarder_out g)"
    "length (forwarder_in g) = length (forwarder_out g) + length (forwarder_freed g)"
    unfolding forwarder_in_def forwarder_out_def forwarder_freed_def using forwarder_related [OF log] by blast+
  have "related (carries OO same_packet OO carries) (generated e f) (List.map snd (arrivals e f))"
    by (rule related_trans [OF assms(5) related_trans [OF fwd(1) assms(6)]])
  then have "related comes_from (generated e f) (List.map snd (arrivals e f))"
    using carried by (rule related_mono)
  then obtain origins where o: "mset origins \<subseteq># mset (generated e f)" "list_all2 comes_from origins (List.map snd (arrivals e f))"
    by (auto simp: related_def)
  have b: "\<forall>m0 \<in> set origins. built m0"
    using generator_built [OF assms(3,4)] set_mset_mono [OF o(1)] by auto
  note home = origins_of_arrivals [OF o(2) b]
  note totals = generator_totals [OF assms(3,4) home(1)]
  have "length (forwarder_in g) \<le> length (generated e f)" "length (arrivals e f) \<le> length (forwarder_out g)"
    using related_length [OF assms(5)] related_length [OF assms(6)] by simp_all
  then have "length (arrivals e f) + length (forwarder_freed g) \<le> length (generated e f)" using fwd(2) by linarith
  then show ?thesis
    using o home(2) totals(1,2) unfolding totals(3) home(3) by (intro exI [of _ origins] conjI refl)
qed

section \<open>An example\<close>

text \<open>What the turns of a worker add to its inputs, before and after the signal.\<close>

definition turns_taken :: "nat \<Rightarrow> pktgen_event list \<Rightarrow> (tx_input \<times> rx_input) list" where
  "turns_taken l es = concat (List.map (\<lambda>e. case e of Pktgen_turn l' tin rin \<Rightarrow> if l' = l then [(tin, rin)] else [] | _ \<Rightarrow> []) es)"

lemma pktgen_steps_inputs:
  assumes "pktgen_steps cksum par conf es r = Some r'" and "\<forall>s. Pktgen_signal s \<notin> set es" and "\<not> pg_quit r"
  shows "\<not> pg_quit r' \<and> (case pg_workers r l of
      Transmitting w \<Rightarrow> (\<exists>w'. pg_workers r' l = Transmitting w') \<and>
        pg_tins r' l = pg_tins r l @ List.map fst (turns_taken l es) \<and> pg_rins r' l = pg_rins r l
    | Receiving w \<Rightarrow> (\<exists>w'. pg_workers r' l = Receiving w') \<and>
        pg_rins r' l = pg_rins r l @ List.map snd (turns_taken l es) \<and> pg_tins r' l = pg_tins r l
    | Returned \<Rightarrow> True)"
  using assms
proof (induction es arbitrary: r)
  case Nil
  then show ?case by (auto simp: turns_taken_def split: pktgen_worker.split)
next
  case (Cons e es)
  obtain r1 where r1: "pktgen_step cksum par conf e r = Some r1" "pktgen_steps cksum par conf es r1 = Some r'"
    using Cons.prems(1) by (auto split: Option.bind_splits)
  have q: "\<not> pg_quit r1"
    using r1(1) Cons.prems(2,3)
    by (cases e) (auto simp: pktgen_worker_turn_def split: pktgen_worker.splits Option.bind_splits if_splits)
  have t: "turns_taken l (e # es) = turns_taken l [e] @ turns_taken l es" by (simp add: turns_taken_def)
  have "case pg_workers r l of
      Transmitting w \<Rightarrow> (\<exists>w'. pg_workers r1 l = Transmitting w') \<and>
        pg_tins r1 l = pg_tins r l @ List.map fst (turns_taken l [e]) \<and> pg_rins r1 l = pg_rins r l
    | Receiving w \<Rightarrow> (\<exists>w'. pg_workers r1 l = Receiving w') \<and>
        pg_rins r1 l = pg_rins r l @ List.map snd (turns_taken l [e]) \<and> pg_tins r1 l = pg_tins r l
    | Returned \<Rightarrow> True"
    using r1(1) Cons.prems(2,3)
    by (cases e) (auto simp: pktgen_worker_turn_def turns_taken_def split: pktgen_worker.splits Option.bind_splits if_splits)
  with Cons.IH [OF r1(2) _ q] Cons.prems(2) show ?case
    unfolding t by (auto split: pktgen_worker.splits)
qed

lemma pktgen_steps_quit_inputs:
  assumes "pktgen_steps cksum par conf es r = Some r'" and "pg_quit r"
  shows "pg_tins r' = pg_tins r \<and> pg_rins r' = pg_rins r"
  using assms
proof (induction es arbitrary: r)
  case (Cons e es)
  obtain r1 where r1: "pktgen_step cksum par conf e r = Some r1" "pktgen_steps cksum par conf es r1 = Some r'"
    using Cons.prems(1) by (auto split: Option.bind_splits)
  have "pg_quit r1 \<and> pg_tins r1 = pg_tins r \<and> pg_rins r1 = pg_rins r"
    using r1(1) Cons.prems(2)
    by (cases e) (auto simp: pktgen_worker_turn_def pktgen_signal_handler_def split: pktgen_worker.splits)
  then show ?case using Cons.IH [OF r1(2)] by simp
qed simp

text \<open>Core 1 sends 60 packets of a burst of 64; core 3 receives.\<close>

definition round_trip_events :: "u8 list list \<Rightarrow> pktgen_event list" where
  "round_trip_events ms = [Pktgen_turn 1 (sample_tx 60) sample_rx,
     Pktgen_turn 3 (sample_tx 0) \<lparr>rx_bufs = ms, rx_burst_tsc = 1700, rx_cur_tsc = 1701\<rparr>]"

definition forwarder_events :: "u8 list \<Rightarrow> run_event list" where
  "forwarder_events m = [Worker_turn 1 \<lparr>pkts_burst = [m], cycles = 10, nb_tx = 1\<rparr>]"

lemma round_trip_ok:
  assumes "\<forall>m \<in> set ms. 62 \<le> length m"
  shows "pktgen_program_ok sample_pktgen_env (round_trip_events ms @ Pktgen_signal SIGTERM # sample_pktgen_rest)"
  using sample_pktgen_ok assms unfolding pktgen_program_ok_def sample_pktgen_config
  by (auto simp: round_trip_events_def sample_pktgen_events_def rin_ok_def)

lemma generator_example:
  obtains sent where "60 = length sent"
    and "\<And>ms. \<forall>m \<in> set ms. 62 \<le> length m \<Longrightarrow>
      \<exists>f. pktgen_main (\<lambda>_. 0) sample_pktgen_env (round_trip_events ms @ Pktgen_signal SIGTERM # sample_pktgen_rest) =
          Some (Return (Some f)) \<and> generated sample_pktgen_env f = sent \<and>
        arrivals sample_pktgen_env f = List.map (\<lambda>m. (1700, m)) ms"
proof -
  let ?e = sample_pktgen_env and ?par = "\<lparr>g_ip_mask = 0xff, g_payload_size = 20, g_timer_hz = 1000\<rparr>"
  have env: "pktgen_env_ok ?e" by (simp add: pktgen_env_ok_def sample_pktgen_env_def)
  obtain s where s: "pktgen_roles (pk_pool_fails ?e) (pk_macs ?e) (of_nat (length (pk_ports ?e))) (pk_lcores ?e) (pk_static_conf ?e) = Return s"
    "workers_ok ?par (lcore_config s) (pk_lcores ?e)"
    using pktgen_boot_cases [OF env] sample_pktgen_boots sample_pktgen_config by auto
  have types: "conf_type (lcore_config s 1) = CORE_TX" "conf_type (lcore_config s 2) = CORE_TX"
    "conf_type (lcore_config s 3) = CORE_RX" "conf_type (lcore_config s 4) = CORE_RX"
  proof -
    have "distinct (pk_lcores ?e)" "length (pk_lcores ?e) < 2 ^ 16" by (simp_all add: sample_pktgen_env_def)
    from pktgen_roles_cases [OF this, of "of_nat (length (pk_ports ?e))" "pk_pool_fails ?e" "pk_macs ?e" "pk_static_conf ?e"] s(1)
    have t: "\<forall>i<length (pk_lcores ?e). conf_type (lcore_config s (pk_lcores ?e ! i)) =
        (if i < length (pk_lcores ?e) div 2 then CORE_TX else CORE_RX)"
      by (auto simp: Let_def split: if_splits)
    show "conf_type (lcore_config s 1) = CORE_TX" "conf_type (lcore_config s 2) = CORE_TX"
      "conf_type (lcore_config s 3) = CORE_RX" "conf_type (lcore_config s 4) = CORE_RX"
      using spec [OF t, of 0] spec [OF t, of 1] spec [OF t, of 2] spec [OF t, of 3] by (simp_all add: sample_pktgen_env_def)
  qed
  have mac: "length (conf_port_mac (lcore_config s 1)) = 6" using s(2) by (simp add: workers_ok_def sample_pktgen_env_def)
  have cores: "pk_lcores ?e = [1, 2, 3, 4]" by (simp add: sample_pktgen_env_def)
  obtain os w st where one: "tx_loop (\<lambda>_. 0) ?par (conf_port_mac (lcore_config s 1)) (of_nat 1) [sample_tx 60]
      (tx_start (of_nat 1) (pk_tsc ?e 1)) zero_workers = Some (os, w, st)" "length (all_sent os) = 60"
  proof -
    let ?w = "tx_start (of_nat 1) (pk_tsc ?e 1)"
    have "sane_params ?par" by (simp add: sane_params_def)
    moreover have "client_port_counter ?w \<le> 65000" by (rule tx_start_port) simp
    moreover have "tx_input_ok ?par (sample_tx 60)"
      by (simp add: sample_tx_def tx_input_ok_def BURST_SIZE_def l2_payload_len_nat)
    ultimately obtain ms w1 where "tx_fill (\<lambda>_. 0) ?par (conf_port_mac (lcore_config s 1)) (of_nat 1) 0 (tx_bufs (sample_tx 60)) ?w =
        Some (ms, w1)" "length ms = 64"
      using tx_fill_nth [OF _ mac] by blast
    then obtain w' st' where "tx_turn (\<lambda>_. 0) ?par (conf_port_mac (lcore_config s 1)) (of_nat 1) (sample_tx 60) ?w zero_workers =
        Some ((take 60 ms, drop 60 ms), w', st')"
      by (cases "100 \<le> 1001 - last_tsc w1") (simp_all add: tx_turn_def Let_def sample_tx_def case_prod_unfold)
    with \<open>length ms = 64\<close> show thesis by (intro that [of "[(take 60 ms, drop 60 ms)]"]) (simp_all add: all_sent_def)
  qed
  let ?es = "\<lambda>ms. round_trip_events ms @ Pktgen_signal SIGTERM # sample_pktgen_rest"
  show thesis
  proof (rule that)
    show "60 = length (all_sent os)" using one(2) by simp
    fix ms :: "u8 list list"
    assume ms: "\<forall>m \<in> set ms. 62 \<le> length m"
    note ok = round_trip_ok [OF ms]
    obtain f where f: "pktgen_main (\<lambda>_. 0) ?e (?es ms) = Some (Return (Some f))"
      using pktgen_comes_to_end [OF ok sample_pktgen_boots _ sample_pktgen_turns, of "\<lambda>_. 0"] by auto
    obtain r where r: "pktgen_steps (\<lambda>_. 0) ?par (lcore_config s) (?es ms) (pktgen_run_start s (pk_lcores ?e) (pk_tsc ?e)) = Some r"
      "pktgen_run_ok (\<lambda>_. 0) ?par (lcore_config s) (pk_tsc ?e) (pk_lcores ?e) r"
      "pktgen_finish ?e \<lparr>pb_params = ?par, pb_roles = s,
        pb_calls = List.map fst (pktgen_ports_up s (pk_lcores ?e) (pk_ports ?e))\<rparr> r = Some f"
      using pktgen_main_cases [OF ok, of "\<lambda>_. 0"] f s(1) sample_pktgen_boots by (auto simp: sample_pktgen_config)
    have over: "pktgen_over (pk_lcores ?e) r" and run: "pe_run f = r"
      using r(3) by (auto simp: pktgen_finish_def Let_def split: if_splits prod.splits)
    have ins: "pg_tins r 1 = [sample_tx 60]" "pg_tins r 2 = []" "pg_rins r 3 = [\<lparr>rx_bufs = ms, rx_burst_tsc = 1700, rx_cur_tsc = 1701\<rparr>]"
      "pg_rins r 4 = []"
    proof -
      let ?r0 = "pktgen_run_start s (pk_lcores ?e) (pk_tsc ?e)"
      obtain r1 where r1: "pktgen_steps (\<lambda>_. 0) ?par (lcore_config s) (round_trip_events ms) ?r0 = Some r1"
        "pktgen_steps (\<lambda>_. 0) ?par (lcore_config s) sample_pktgen_rest (r1\<lparr>pg_quit := True\<rparr>) = Some r"
        using r(1) by (auto simp: pktgen_steps_append pktgen_signal_handler_def split: Option.bind_splits)
      have "pg_tins r = pg_tins r1 \<and> pg_rins r = pg_rins r1" using pktgen_steps_quit_inputs [OF r1(2)] by simp
      moreover have "\<forall>s. Pktgen_signal s \<notin> set (round_trip_events ms)" "\<not> pg_quit ?r0"
        by (simp_all add: round_trip_events_def pktgen_run_start_def)
      note pktgen_steps_inputs [OF r1(1) this]
      note this [of 1] this [of 2] this [of 3] this [of 4]
      moreover have "pg_tins ?r0 l = []" "pg_rins ?r0 l = []" for l by (simp_all add: pktgen_run_start_def)
      moreover have "pg_workers ?r0 l = pktgen_launch (lcore_config s l) l (pk_tsc ?e l)" if "l \<in> set (pk_lcores ?e)" for l
        using that by (simp add: pktgen_run_start_def)
      note this [of 1] this [of 2] this [of 3] this [of 4]
      ultimately show "pg_tins r 1 = [sample_tx 60]" "pg_tins r 2 = []" "pg_rins r 3 = [\<lparr>rx_bufs = ms, rx_burst_tsc = 1700, rx_cur_tsc = 1701\<rparr>]"
        "pg_rins r 4 = []"
        using types unfolding cores by (simp_all add: pktgen_launch_def turns_taken_def round_trip_events_def)
    qed
    have a: "alone (\<lambda>_. 0) ?par (lcore_config s) (pk_tsc ?e) r l" "pg_workers r l = Returned" if "l \<in> set (pk_lcores ?e)" for l
      using r(2) over that unfolding pktgen_run_ok_def pktgen_over_def by blast+
    have out: "pg_sent r 1 = os" "pg_sent r 2 = []" "pg_sent r 3 = []" "pg_sent r 4 = []" "pg_rins r 1 = []" "pg_rins r 2 = []"
      using a [of 1] a [of 2] a [of 3] a [of 4] types ins one(1) unfolding cores by (simp_all add: alone_def tx_worker_loop_def)
    have "generated ?e f = all_sent os" "arrivals ?e f = List.map (\<lambda>m. (1700, m)) ms"
      unfolding generated_def arrivals_def run cores using out ins
      by (simp_all add: all_sent_def burst_arrivals_def)
    then show "\<exists>f. pktgen_main (\<lambda>_. 0) ?e (?es ms) = Some (Return (Some f)) \<and> generated ?e f = all_sent os \<and>
        arrivals ?e f = List.map (\<lambda>m. (1700, m)) ms" using f by blast
  qed
qed

lemma run_events_quit_log:
  assumes "run_events crc ra cfg conf end_tsc es r = Some (Return r')" and "run_quit r"
    and "\<forall>l i. run_pos r l = Some i \<longrightarrow> i = 0"
  shows "run_log r' = run_log r"
  using assms
proof (induction es arbitrary: r)
  case (Cons e es)
  obtain r1 where r1: "run_step crc ra cfg conf end_tsc e r = Some (Return r1)"
    "run_events crc ra cfg conf end_tsc es r1 = Some (Return r')"
    using Cons.prems(1) by (auto split: Option.bind_splits outcome.splits)
  have "run_quit r1 \<and> run_log r1 = run_log r \<and> (\<forall>l i. run_pos r1 l = Some i \<longrightarrow> i = 0)"
    using r1(1) Cons.prems(2,3)
    by (cases e) (auto simp: worker_turn_def main_turn_def signal_handler_def split: option.splits if_splits)
  then show ?case using Cons.IH [OF r1(2)] by simp
qed simp

lemma forwarder_example:
  assumes "78 \<le> length m"
  obtains g m' where "program_ok sample_env (forwarder_events m @ Signal_raised SIGINT # sample_rest)"
    and "l2fwd_main (\<lambda>_ k. k) True (\<lambda>_. 7) sample_env (forwarder_events m @ Signal_raised SIGINT # sample_rest) =
      Some (Return (Some g))"
    and "forwarder_in g = [m]" and "forwarder_out g = [m']" and "same_packet m m'"
proof -
  let ?crc = "\<lambda>_ k. k" and ?inp = "\<lparr>pkts_burst = [m], cycles = 10, nb_tx = 1\<rparr>"
  let ?es = "forwarder_events m @ Signal_raised SIGINT # sample_rest"
  have inp: "input_ok ?inp" using assms by (simp add: input_ok_def packets_ok_def)
  have ok: "program_ok sample_env ?es"
    using sample_program_ok inp unfolding program_ok_def sample_parse
    by (auto simp: clock_ok_def sample_parse forwarder_events_def sample_rest_def)
  obtain g where g: "l2fwd_main ?crc True (\<lambda>_. 7) sample_env ?es = Some (Return (Some g))"
    using main_comes_to_end [OF ok sample_boots _ sample_rest_turns, of ?crc "\<lambda>_. 7"] by auto
  obtain o1 b r where b: "l2fwd_parse_args (getopt_events sample_env) default_options = Some o1" "boot_of sample_env o1 b"
    "config_ok (boot_config sample_env b)" "run_ok ?crc (boot_config sample_env b) (boot_conf b) (run_start sample_env b)"
    "run_of ?crc sample_env b ?es = Some (Return r)" "end_run g = r"
    using main_cases [OF ok, of ?crc "\<lambda>_. 7"] g sample_boots by (auto split: if_splits)
  have conf: "boot_conf b = one_each [1, 2, 3] (port_queues 3 [0, 1] 1) (\<lambda>_. [])"
    using b(2) b(1) unfolding sample_parse boot_of_def sample_workers
    by (auto simp: sample_options_def sample_env_def default_options_def)
  obtain r1 where r1: "worker_turn ?crc True (boot_config sample_env b) (boot_conf b) 1 ?inp (run_start sample_env b) = Some (Return r1)"
    "run_ok ?crc (boot_config sample_env b) (boot_conf b) r1"
    using worker_turn_ok [OF b(3,4) inp, of 1] by blast
  have pos: "run_pos (run_start sample_env b) 1 = Some 0" "boot_conf b 1 = [(0, 0)]"
    using conf by (simp_all add: run_start_def worker_start_def one_each_def port_queues_def enabled_ports_def port_enabled_def)
  obtain p ms where log: "run_log r1 = [(1, p, [m], \<lparr>sent = take 1 ms, freed = drop 1 ms\<rparr>)]"
    using r1(1) pos
    by (auto simp: worker_turn_def l2fwd_rx_port_def Let_def run_start_def split: Option.bind_splits outcome.splits)
  then have "list_all2 same_packet [m] (take 1 ms @ drop 1 ms)" using r1(2) by (simp add: run_ok_def logged_ok_def)
  then obtain m' where m': "ms = [m']" "same_packet m m'" by (auto simp: list_all2_Cons1)
  have "run_log r = run_log r1"
  proof -
    have "run_events ?crc True (boot_config sample_env b) (boot_conf b) (end_clock sample_env) sample_rest (r1\<lparr>run_quit := True\<rparr>) =
        Some (Return r)" using b(5) r1(1) by (simp add: run_of_def forwarder_events_def signal_handler_def)
    moreover have "\<forall>l i. run_pos r1 l = Some i \<longrightarrow> i = 0"
    proof (intro allI impI)
      fix l i assume "run_pos r1 l = Some i"
      then have "i < length (boot_conf b l)" using r1(2) by (simp add: run_ok_def)
      then show "i = 0" using one_each_length [of "[1, 2, 3]" "port_queues 3 [0, 1] 1" l] unfolding conf by linarith
    qed
    ultimately show ?thesis using run_events_quit_log [of ?crc True _ _ _ sample_rest "r1\<lparr>run_quit := True\<rparr>" r] by simp
  qed
  then have "forwarder_in g = [m]" "forwarder_out g = [m']"
    unfolding forwarder_in_def forwarder_out_def b(6) using log m' by simp_all
  then show thesis using that ok g m'(2) by blast
qed

theorem netblast_round_trip_witness:
  "\<exists>m' m g f. l2fwd_main (\<lambda>_ k. k) True (\<lambda>_. 7) sample_env (forwarder_events m' @ Signal_raised SIGINT # sample_rest) =
      Some (Return (Some g)) \<and>
    pktgen_main (\<lambda>_. 0) sample_pktgen_env (round_trip_events [m] @ Pktgen_signal SIGTERM # sample_pktgen_rest) =
      Some (Return (Some f)) \<and>
    (\<exists>m0 \<in> set (generated sample_pktgen_env f). comes_from m0 m \<and>
      (\<Sum>l\<leftarrow>pk_lcores sample_pktgen_env. total_latency_cycles (g_stats (pe_run f) l)) = cycles_between (packet_stamp m0) 1700)"
proof -
  obtain sent where s: "60 = length sent" and run: "\<And>ms. \<forall>m \<in> set ms. 62 \<le> length m \<Longrightarrow>
      \<exists>f. pktgen_main (\<lambda>_. 0) sample_pktgen_env (round_trip_events ms @ Pktgen_signal SIGTERM # sample_pktgen_rest) =
          Some (Return (Some f)) \<and> generated sample_pktgen_env f = sent \<and>
        arrivals sample_pktgen_env f = List.map (\<lambda>m. (1700, m)) ms"
    using generator_example by blast
  obtain m0 rest where m0: "sent = m0 # rest" using s by (cases sent) auto
  let ?m = "m0 @ replicate 78 0"
  have "78 \<le> length ?m" by simp
  from forwarder_example [OF this] obtain g m' where
    g: "program_ok sample_env (forwarder_events ?m @ Signal_raised SIGINT # sample_rest)"
    "l2fwd_main (\<lambda>_ k. k) True (\<lambda>_. 7) sample_env (forwarder_events ?m @ Signal_raised SIGINT # sample_rest) =
      Some (Return (Some g))"
    "forwarder_in g = [?m]" "forwarder_out g = [m']" "same_packet ?m m'" by blast
  have len: "\<forall>m \<in> set [m']. 62 \<le> length m" using g(5) by (simp add: same_packet_def)
  from run [OF this] obtain f where
    f: "pktgen_main (\<lambda>_. 0) sample_pktgen_env (round_trip_events [m'] @ Pktgen_signal SIGTERM # sample_pktgen_rest) =
          Some (Return (Some f))" "generated sample_pktgen_env f = sent" "arrivals sample_pktgen_env f = [(1700, m')]" by auto
  have "related carries (generated sample_pktgen_env f) (forwarder_in g)"
    unfolding f(2) g(3) m0 related_def by (intro exI [of _ "[m0]"]) (simp add: carries_def)
  moreover have "related carries (forwarder_out g) (List.map snd (arrivals sample_pktgen_env f))"
    unfolding f(3) g(4) related_def by (intro exI [of _ "[m']"]) (simp add: carries_def)
  ultimately obtain origins where o: "mset origins \<subseteq># mset (generated sample_pktgen_env f)"
    "list_all2 comes_from origins [m']"
    "(\<Sum>l\<leftarrow>pk_lcores sample_pktgen_env. total_latency_cycles (g_stats (pe_run f) l)) =
      (\<Sum>(t, m0)\<leftarrow>zip [1700] origins. cycles_between (packet_stamp m0) t)"
    using netblast_round_trip [OF g(1,2) round_trip_ok [OF len] f(1)] unfolding f(3) by auto
  obtain m1 where m1: "origins = [m1]" "comes_from m1 m'" using o(2) by (auto simp: list_all2_Cons2)
  have "m1 \<in> set (generated sample_pktgen_env f)" using set_mset_mono [OF o(1)] m1(1) by simp
  then show ?thesis using g(2) f(1) o(3) m1 by auto
qed

end
