(* ===== verification/Cores.thy ===== *)
theory Cores
  imports Prelude
begin

text \<open>
  Several cores on one shared state.  A core is a local state with a small-step function: a step
  is one atomic access to the shared state.  A schedule is the list of the cores in the order in
  which they take their steps; every interleaving is one.  The locales state what a step must
  guarantee so that properties of one core hold in every schedule: its part of the invariant is
  stable under what the others may do to the shared state, every step comes closer to the end,
  and the step that ends an operation is the moment at which it takes effect.
\<close>

section \<open>Schedules\<close>

text \<open>
  The result has the cores that finished, in the order in which they did.  A core that has
  finished, or does not exist, does nothing; a step may fail by an access out of bounds.
\<close>

fun run_cores ::
  "('s \<Rightarrow> 'l \<Rightarrow> ('s \<times> 'l) option) \<Rightarrow> ('l \<Rightarrow> bool) \<Rightarrow> nat list \<Rightarrow> 's \<Rightarrow> 'l list \<Rightarrow> (nat list \<times> 's \<times> 'l list) option" where
  "run_cores step fin [] s ls = Some ([], s, ls)"
| "run_cores step fin (i # is) s ls =
     (if i < length ls \<and> \<not> fin (ls ! i) then do {
        (s', l') \<leftarrow> step s (ls ! i);
        (log, s'', ls') \<leftarrow> run_cores step fin is s' (ls[i := l']);
        Some (if fin l' then i # log else log, s'', ls')
      }
      else run_cores step fin is s ls)"

text \<open>What no step of a core changes stays as it was.\<close>

lemma run_cores_keeps:
  assumes "\<And>s l s' l'. step s l = Some (s', l') \<Longrightarrow> g l' = g l" and "run_cores step fin sched s ls = Some (log, s', ls')"
  shows "List.map g ls' = List.map g ls"
  using assms(2)
proof (induction sched arbitrary: s ls log)
  case (Cons i sched)
  show ?case
  proof (cases "i < length ls \<and> \<not> fin (ls ! i)")
    case True
    then obtain s1 l1 log1 where "step s (ls ! i) = Some (s1, l1)" "run_cores step fin sched s1 (ls[i := l1]) = Some (log1, s', ls')"
      using Cons.prems by (auto split: Option.bind_splits)
    then show ?thesis using Cons.IH assms(1) True by (metis list_update_id map_update nth_map)
  next
    case False
    then have "run_cores step fin sched s ls = Some (log, s', ls')" using Cons.prems by auto
    then show ?thesis by (rule Cons.IH)
  qed
qed simp

text \<open>Operations one after the other, with their results.\<close>

fun spec_run :: "('o \<Rightarrow> 'a \<Rightarrow> 'r \<times> 'a) \<Rightarrow> 'o list \<Rightarrow> 'a \<Rightarrow> 'r list \<times> 'a" where
  "spec_run spec [] a = ([], a)"
| "spec_run spec (op # ops) a =
     (let (r, a') = spec op a; (rs, a'') = spec_run spec ops a' in (r # rs, a''))"

section \<open>One core in the presence of the others\<close>

locale shared_step =
  fixes step :: "'s \<Rightarrow> 'l \<Rightarrow> ('s \<times> 'l) option"
    and fin :: "'l \<Rightarrow> bool"
    and inv :: "'s \<Rightarrow> bool"
    and core_ok :: "'s \<Rightarrow> 'l \<Rightarrow> bool"
    and rely :: "'s \<Rightarrow> 's \<Rightarrow> bool"
    and rank :: "'l \<Rightarrow> nat"
  assumes step_ok: "inv s \<Longrightarrow> core_ok s l \<Longrightarrow> \<not> fin l \<Longrightarrow>
      \<exists>s' l'. step s l = Some (s', l') \<and> inv s' \<and> core_ok s' l' \<and> rely s s' \<and> rank l' < rank l"
    and stable: "core_ok s l \<Longrightarrow> rely s s' \<Longrightarrow> core_ok s' l"
begin

abbreviation "run \<equiv> run_cores step fin"

text \<open>One turn of a schedule.\<close>

lemma run_turn:
  assumes "inv s" and "\<forall>l \<in> set ls. core_ok s l" and "i < length ls" and "\<not> fin (ls ! i)"
  obtains s' l' where "step s (ls ! i) = Some (s', l')" and "inv s'" and "\<forall>l \<in> set (ls[i := l']). core_ok s' l"
    and "rank l' < rank (ls ! i)"
proof -
  have "core_ok s (ls ! i)" using assms(2,3) by simp
  then obtain s' l' where s: "step s (ls ! i) = Some (s', l')" "inv s'" "core_ok s' l'" "rely s s'"
    "rank l' < rank (ls ! i)" using step_ok assms(1,4) by blast
  moreover have "\<forall>l \<in> set (ls[i := l']). core_ok s' l"
    using s(3,4) assms(2) stable set_update_subset_insert [of ls i l'] by blast
  ultimately show thesis using that by blast
qed

text \<open>Every schedule runs, and no access is out of bounds.\<close>

lemma run_returns:
  assumes "inv s" and "\<forall>l \<in> set ls. core_ok s l"
  shows "\<exists>log s' ls'. run sched s ls = Some (log, s', ls') \<and> inv s' \<and> (\<forall>l \<in> set ls'. core_ok s' l) \<and>
    length ls' = length ls"
  using assms
proof (induction sched arbitrary: s ls)
  case Nil
  then show ?case by simp
next
  case (Cons i sched)
  show ?case
  proof (cases "i < length ls \<and> \<not> fin (ls ! i)")
    case True
    then obtain s' l' where t: "step s (ls ! i) = Some (s', l')" "inv s'" "\<forall>l \<in> set (ls[i := l']). core_ok s' l"
      using run_turn [OF Cons.prems] by metis
    from Cons.IH [OF t(2,3)] True t(1) show ?thesis by auto
  next
    case False
    then show ?thesis using Cons.IH [OF Cons.prems] by auto
  qed
qed

lemma run_keeps_finished:
  "run sched s ls = Some (log, s', ls') \<Longrightarrow> fin (ls ! i) \<Longrightarrow> ls' ! i = ls ! i \<and> i \<notin> set log"
proof (induction sched arbitrary: s ls log)
  case (Cons j sched)
  then show ?case by (cases "j = i") (auto split: if_splits Option.bind_splits)
qed simp

text \<open>
  No core can be kept from finishing: whatever the others do, a core is done as soon as it was
  scheduled as often as its rank says.
\<close>

lemma run_finishes:
  assumes "inv s" and "\<forall>l \<in> set ls. core_ok s l" and "i < length ls"
    and "rank (ls ! i) \<le> length (filter (\<lambda>j. j = i) sched)" and "run sched s ls = Some (log, s', ls')"
  shows "fin (ls' ! i)"
  using assms
proof (induction sched arbitrary: s ls log)
  case Nil
  have "fin (ls ! i)"
  proof (rule ccontr)
    assume "\<not> fin (ls ! i)"
    then obtain s' l' where "rank l' < rank (ls ! i)" using run_turn [OF Nil.prems(1-3)] by metis
    then show False using Nil.prems(4) by simp
  qed
  then show ?case using Nil.prems(5) by simp
next
  case (Cons j sched)
  show ?case
  proof (cases "j < length ls \<and> \<not> fin (ls ! j)")
    case True
    then obtain s1 l1 where t: "step s (ls ! j) = Some (s1, l1)" "inv s1" "\<forall>l \<in> set (ls[j := l1]). core_ok s1 l"
      "rank l1 < rank (ls ! j)" using run_turn [OF Cons.prems(1,2)] by metis
    obtain log1 where r: "run sched s1 (ls[j := l1]) = Some (log1, s', ls')"
      using Cons.prems(5) True t(1) by (auto split: Option.bind_splits)
    have "rank (ls[j := l1] ! i) \<le> length (filter (\<lambda>j. j = i) sched)"
      using Cons.prems(3,4) t(4) by (cases "j = i") auto
    then show ?thesis using Cons.IH [OF t(2,3) _ _ r] Cons.prems(3) by simp
  next
    case False
    then have r: "run sched s ls = Some (log, s', ls')" using Cons.prems(5) by auto
    show ?thesis
    proof (cases "j = i")
      case True
      then show ?thesis using run_keeps_finished [OF r, of i] False Cons.prems(3) by simp
    next
      case ne: False
      then show ?thesis using Cons.IH [OF Cons.prems(1-3) _ r] Cons.prems(4) by simp
    qed
  qed
qed

end

section \<open>Operations that take effect at one step\<close>

locale atomic_step = shared_step step fin inv core_ok rely rank
  for step :: "'s \<Rightarrow> 'l \<Rightarrow> ('s \<times> 'l) option" and fin inv core_ok rely rank +
  fixes abs :: "'s \<Rightarrow> 'a"
    and operation :: "'l \<Rightarrow> 'o"
    and res :: "'l \<Rightarrow> 'r"
    and spec :: "'o \<Rightarrow> 'a \<Rightarrow> 'r \<times> 'a"
  assumes step_effect: "inv s \<Longrightarrow> core_ok s l \<Longrightarrow> \<not> fin l \<Longrightarrow> step s l = Some (s', l') \<Longrightarrow>
      operation l' = operation l \<and> (if fin l' then spec (operation l) (abs s) = (res l', abs s') else abs s' = abs s)"
begin

lemma run_linearizable:
  assumes "inv s" and "\<forall>l \<in> set ls. core_ok s l" and "run sched s ls = Some (log, s', ls')"
  shows "spec_run spec (List.map (\<lambda>i. operation (ls ! i)) log) (abs s) = (List.map (\<lambda>i. res (ls' ! i)) log, abs s') \<and>
    distinct log \<and> set log = {i. i < length ls \<and> \<not> fin (ls ! i) \<and> fin (ls' ! i)}"
  using assms
proof (induction sched arbitrary: s ls log)
  case Nil
  then show ?case by auto
next
  case (Cons i sched)
  show ?case
  proof (cases "i < length ls \<and> \<not> fin (ls ! i)")
    case False
    then have "run sched s ls = Some (log, s', ls')" using Cons.prems(3) by auto
    then show ?thesis using Cons.IH [OF Cons.prems(1,2)] by blast
  next
    case True
    then obtain s1 l1 where t: "step s (ls ! i) = Some (s1, l1)" "inv s1" "\<forall>l \<in> set (ls[i := l1]). core_ok s1 l"
      using run_turn [OF Cons.prems(1,2)] by metis
    let ?ls = "ls[i := l1]"
    obtain log1 where r: "run sched s1 ?ls = Some (log1, s', ls')" and log: "log = (if fin l1 then i # log1 else log1)"
      using Cons.prems(3) True t(1) by (auto split: Option.bind_splits)
    have eff: "operation l1 = operation (ls ! i)"
      "if fin l1 then spec (operation (ls ! i)) (abs s) = (res l1, abs s1) else abs s1 = abs s"
      using step_effect [OF Cons.prems(1) _ _ t(1)] Cons.prems(2) True by auto
    have ops: "List.map (\<lambda>j. operation (?ls ! j)) log1 = List.map (\<lambda>j. operation (ls ! j)) log1"
      using eff(1) by (intro map_cong refl) (metis True nth_list_update_eq nth_list_update_neq)
    from Cons.IH [OF t(2,3) r]
    have ih: "spec_run spec (List.map (\<lambda>j. operation (ls ! j)) log1) (abs s1) = (List.map (\<lambda>j. res (ls' ! j)) log1, abs s')"
      "distinct log1" "set log1 = {j. j < length ls \<and> \<not> fin (?ls ! j) \<and> fin (ls' ! j)}" unfolding ops by simp_all
    show ?thesis
    proof (cases "fin l1")
      case fin: True
      then have kept: "ls' ! i = l1" "i \<notin> set log1" using run_keeps_finished [OF r, of i] True by simp_all
      have "{j. j < length ls \<and> \<not> fin (ls ! j) \<and> fin (ls' ! j)} =
          insert i {j. j < length ls \<and> \<not> fin (?ls ! j) \<and> fin (ls' ! j)}"
        using True fin kept(1) by (auto simp: nth_list_update)
      then show ?thesis using ih eff(2) fin kept by (simp add: log)
    next
      case False
      have "{j. j < length ls \<and> \<not> fin (ls ! j) \<and> fin (ls' ! j)} =
          {j. j < length ls \<and> \<not> fin (?ls ! j) \<and> fin (ls' ! j)}"
        using True False by (auto simp: nth_list_update)
      then show ?thesis using ih eff(2) False by (simp add: log)
    qed
  qed
qed

end

end
