(* ===== verification/Dram_Cores.thy ===== *)
theory Dram_Cores
  imports Cores Dramblast
begin

text \<open>
  \<open>l2fwd/libsashstore/dramblast.c\<close>, \<open>dramblast_insert_one\<close> called by several cores at the same time.
  The routine is cut into its accesses to the shared table: the load of the key, the 16-byte
  compare-and-swap on an empty slot, the second load of the key, the store of the value; between
  any two of them the other cores may write.  The result: the insertions are linearizable, and
  no core waits for another.
\<close>

section \<open>The steps of an insertion\<close>

datatype insert_pc =
    Enter
  | Load_key
  | Swap
  | Compare_key
  | Store_value
  | Advance
  | Finished int

record inserter =
  in_pc :: insert_pc
  in_k :: u64
  in_v :: u64
  in_idx :: u64
  in_count :: u64

definition insert_step ::
  "(u64 \<Rightarrow> u64 \<Rightarrow> u64) \<Rightarrow> dramblast_ht \<Rightarrow> inserter \<Rightarrow> (dramblast_ht \<times> inserter) option" where
  "insert_step crc ht w =
     (case in_pc w of
        Enter \<Rightarrow>
          Some (ht, if in_k w = 0 then w\<lparr>in_pc := Finished (-1)\<rparr>
                    else w\<lparr>in_pc := Load_key, in_idx := dramblast_hash crc ht (in_k w), in_count := 0\<rparr>)
      | Load_key \<Rightarrow> do {
          kv \<leftarrow> rd (ht_table ht) (unat (in_idx w));
          Some (ht, w\<lparr>in_pc := (if kv_k kv = 0 then Swap else Compare_key), in_count := in_count w + 1\<rparr>)
        }
      | Swap \<Rightarrow> do {
          kv \<leftarrow> rd (ht_table ht) (unat (in_idx w));
          Some (case dramblast_cas (ht_table ht) (unat (in_idx w)) \<lparr>kv_k = in_k w, kv_v = in_v w\<rparr> of
              Some T \<Rightarrow> (ht\<lparr>ht_table := T\<rparr>, w\<lparr>in_pc := Finished 0\<rparr>)
            | None \<Rightarrow> (ht, w\<lparr>in_pc := Compare_key\<rparr>))
        }
      | Compare_key \<Rightarrow> do {
          kv \<leftarrow> rd (ht_table ht) (unat (in_idx w));
          Some (ht, w\<lparr>in_pc := (if kv_k kv = in_k w then Store_value else Advance)\<rparr>)
        }
      | Store_value \<Rightarrow> do {
          kv \<leftarrow> rd (ht_table ht) (unat (in_idx w));
          Some (ht\<lparr>ht_table := (ht_table ht)[unat (in_idx w) := kv\<lparr>kv_v := in_v w\<rparr>]\<rparr>, w\<lparr>in_pc := Finished 0\<rparr>)
        }
      | Advance \<Rightarrow>
          Some (ht, w\<lparr>in_pc := (if in_count w \<ge> ht_len ht then Finished (-1) else Load_key),
                      in_idx := (in_idx w + 1) AND (ht_len ht - 1)\<rparr>)
      | Finished rc \<Rightarrow> Some (ht, w))"

fun finished :: "inserter \<Rightarrow> bool" where
  "finished w = (case in_pc w of Finished rc \<Rightarrow> True | _ \<Rightarrow> False)"

definition insert_rc :: "inserter \<Rightarrow> int" where
  "insert_rc w = (case in_pc w of Finished rc \<Rightarrow> rc | _ \<Rightarrow> 0)"

definition start_insert :: "u64 \<times> u64 \<Rightarrow> inserter" where
  "start_insert kv = \<lparr>in_pc = Enter, in_k = fst kv, in_v = snd kv, in_idx = 0, in_count = 0\<rparr>"

section \<open>What a core knows\<close>

definition inserter_at :: "(u64 \<Rightarrow> nat) \<Rightarrow> (u64 \<times> u64) list \<Rightarrow> inserter \<Rightarrow> nat \<Rightarrow> nat \<Rightarrow> bool" where
  "inserter_at home T w m c \<longleftrightarrow>
     in_k w \<noteq> 0 \<and> m < length T \<and> unat (in_idx w) = (home (in_k w) + m) mod length T \<and>
     unat (in_count w) = c \<and> passed 0 home T (in_k w) m"

definition inserter_ok :: "(u64 \<Rightarrow> u64 \<Rightarrow> u64) \<Rightarrow> dramblast_ht \<Rightarrow> inserter \<Rightarrow> bool" where
  "inserter_ok crc ht w =
     (let T = dview ht; home = dhome crc (ht_len ht) in
      case in_pc w of
        Enter \<Rightarrow> True
      | Load_key \<Rightarrow> \<exists>m. inserter_at home T w m m
      | Swap \<Rightarrow> \<exists>m. inserter_at home T w m (Suc m)
      | Compare_key \<Rightarrow> \<exists>m. inserter_at home T w m (Suc m) \<and> occupied 0 T (unat (in_idx w))
      | Store_value \<Rightarrow> \<exists>m. inserter_at home T w m (Suc m) \<and> fst (T ! unat (in_idx w)) = in_k w
      | Advance \<Rightarrow> \<exists>m. inserter_at home T w m (Suc m) \<and> passed 0 home T (in_k w) (Suc m)
      | Finished rc \<Rightarrow> True)"

definition insert_rank :: "nat \<Rightarrow> inserter \<Rightarrow> nat" where
  "insert_rank n w =
     (let left = 4 * (n - unat (in_count w)) in
      case in_pc w of
        Enter \<Rightarrow> 4 * n + 1
      | Load_key \<Rightarrow> left
      | Swap \<Rightarrow> left + 3
      | Compare_key \<Rightarrow> left + 2
      | Store_value \<Rightarrow> left + 1
      | Advance \<Rightarrow> left + 1
      | Finished rc \<Rightarrow> 0)"

text \<open>The insertion as one operation on the map of a table with room for \<open>n\<close> keys.\<close>

definition insert_spec :: "nat \<Rightarrow> u64 \<times> u64 \<Rightarrow> (u64 \<rightharpoonup> u64) \<Rightarrow> int \<times> (u64 \<rightharpoonup> u64)" where
  "insert_spec n kv m =
     (if fst kv \<noteq> 0 \<and> (fst kv \<in> dom m \<or> card (dom m) < n) then (0, m(fst kv \<mapsto> snd kv)) else (-1, m))"

lemma inserter_at_grows:
  assumes "inserter_at home T w m c" and "grows 0 T T'"
  shows "inserter_at home T' w m c"
proof -
  have "T \<noteq> []" using assms(1) by (auto simp: inserter_at_def)
  then show ?thesis using assms passed_grows [OF _ assms(2)] by (auto simp: inserter_at_def grows_def)
qed

lemma inserter_at_idx: "inserter_at home T w m c \<Longrightarrow> unat (in_idx w) < length T \<and> T \<noteq> []"
  unfolding inserter_at_def by (metis length_0_conv less_nat_zero_code mod_less_divisor neq0_conv)

lemma inserter_ok_stable:
  assumes "inserter_ok crc ht w" and "grows 0 (dview ht) (dview ht')" and "ht_len ht' = ht_len ht"
  shows "inserter_ok crc ht' w"
proof -
  let ?home = "dhome crc (ht_len ht)"
  note at = inserter_at_grows [OF _ assms(2)] and idx = inserter_at_idx [where T = "dview ht"]
  have occ: "occupied 0 (dview ht') p" if "p < length (dview ht)" "occupied 0 (dview ht) p" for p
    using grows_occupied [OF assms(2)] that by blast
  have key: "fst (dview ht' ! p) = fst (dview ht ! p)" if "p < length (dview ht)" "fst (dview ht ! p) \<noteq> 0" for p
    using that assms(2) unfolding grows_def occupied_def by blast
  show ?thesis
  proof (cases "in_pc w")
    case Compare_key
    then obtain m where m: "inserter_at ?home (dview ht) w m (Suc m)" "occupied 0 (dview ht) (unat (in_idx w))"
      using assms(1) by (auto simp: inserter_ok_def Let_def)
    then have "occupied 0 (dview ht') (unat (in_idx w))" using occ idx [OF m(1)] by blast
    then show ?thesis using Compare_key at [OF m(1)] by (auto simp: inserter_ok_def Let_def assms(3))
  next
    case Store_value
    then obtain m where m: "inserter_at ?home (dview ht) w m (Suc m)" "fst (dview ht ! unat (in_idx w)) = in_k w"
      using assms(1) by (auto simp: inserter_ok_def Let_def)
    then have "in_k w \<noteq> 0" by (simp add: inserter_at_def)
    then have "fst (dview ht' ! unat (in_idx w)) = in_k w" using m key [of "unat (in_idx w)"] idx [OF m(1)] by simp
    then show ?thesis using Store_value at [OF m(1)] by (auto simp: inserter_ok_def Let_def assms(3))
  next
    case Advance
    then obtain m where m: "inserter_at ?home (dview ht) w m (Suc m)" "passed 0 ?home (dview ht) (in_k w) (Suc m)"
      using assms(1) by (auto simp: inserter_ok_def Let_def)
    then have "passed 0 ?home (dview ht') (in_k w) (Suc m)" using passed_grows [OF m(2) assms(2)] idx [OF m(1)] by blast
    then show ?thesis using Advance at [OF m(1)] by (auto simp: inserter_ok_def Let_def assms(3))
  qed (use assms(1) in \<open>auto simp: inserter_ok_def Let_def assms(3) intro: at\<close>)
qed

section \<open>One step\<close>

definition insert_turn :: "(u64 \<Rightarrow> u64 \<Rightarrow> u64) \<Rightarrow> dramblast_ht \<Rightarrow> inserter \<Rightarrow> dramblast_ht \<Rightarrow> inserter \<Rightarrow> bool" where
  "insert_turn crc ht w ht' w' \<longleftrightarrow>
     dram_inv crc ht' \<and> ht_len ht' = ht_len ht \<and> ht_queues ht' = ht_queues ht \<and> inserter_ok crc ht' w' \<and>
     grows 0 (dview ht) (dview ht') \<and>
     insert_rank (unat (ht_len ht)) w' < insert_rank (unat (ht_len ht)) w \<and> in_k w' = in_k w \<and> in_v w' = in_v w \<and>
     (if finished w' then insert_spec (unat (ht_len ht)) (in_k w, in_v w) (dram_map ht) = (insert_rc w', dram_map ht')
      else dram_map ht' = dram_map ht)"

lemma dram_inv_facts:
  assumes "dram_inv crc ht"
  shows "pow2_u64 (ht_len ht)" and "length (dview ht) = unat (ht_len ht)" and "length (ht_table ht) = unat (ht_len ht)"
    and "wf_probe 0 (dhome crc (ht_len ht)) (dview ht)" and "unique_keys 0 (dview ht)"
    and "p < unat (ht_len ht) \<Longrightarrow> kv_k (ht_table ht ! p) = 0 \<Longrightarrow> kv_v (ht_table ht ! p) = 0"
  using assms by (auto simp: dram_inv_def wf_probe_def)

lemma dram_room:
  assumes "dram_inv crc ht"
  shows "card (dom (dram_map ht)) < unat (ht_len ht) \<longleftrightarrow> (\<exists>p<unat (ht_len ht). \<not> occupied 0 (dview ht) p)"
  using card_dom_full [OF dram_inv_facts(5) [OF assms]] dram_inv_facts(2) [OF assms] by (simp only: dram_map_def)

lemma turn_Enter:
  assumes "dram_inv crc ht" and "in_pc w = Enter"
  shows "\<exists>ht' w'. insert_step crc ht w = Some (ht', w') \<and> insert_turn crc ht w ht' w'"
proof (cases "in_k w = 0")
  case True
  then show ?thesis using assms
    by (auto simp: insert_step_def insert_turn_def inserter_ok_def insert_rank_def insert_spec_def insert_rc_def Let_def)
next
  case False
  let ?w = "w\<lparr>in_pc := Load_key, in_idx := dramblast_hash crc ht (in_k w), in_count := 0\<rparr>"
  note f = dram_inv_facts [OF assms(1)]
  have "inserter_at (dhome crc (ht_len ht)) (dview ht) ?w 0 0"
    using False dhome_less [OF f(1)] pow2_pos [OF f(1)] by (simp add: inserter_at_def dramblast_hash_home f(3))
  then have "insert_turn crc ht w ht ?w"
    using assms by (auto simp: insert_turn_def inserter_ok_def insert_rank_def Let_def)
  then show ?thesis using False assms(2) by (auto simp: insert_step_def)
qed

lemma turn_Load:
  assumes "dram_inv crc ht" and "inserter_ok crc ht w" and "in_pc w = Load_key"
  shows "\<exists>ht' w'. insert_step crc ht w = Some (ht', w') \<and> insert_turn crc ht w ht' w'"
proof -
  note f = dram_inv_facts [OF assms(1)]
  let ?p = "unat (in_idx w)" and ?home = "dhome crc (ht_len ht)"
  let ?w = "w\<lparr>in_pc := (if kv_k (ht_table ht ! ?p) = 0 then Swap else Compare_key), in_count := in_count w + 1\<rparr>"
  obtain m where m: "inserter_at ?home (dview ht) w m m" using assms(2,3) by (auto simp: inserter_ok_def Let_def)
  have p: "?p < unat (ht_len ht)" using inserter_at_idx [OF m] f(2) by simp
  have c: "unat (in_count w) = m" "m < unat (ht_len ht)" using m f(2) by (simp_all add: inserter_at_def)
  then have c1: "unat (in_count w + 1) = Suc m" using unat_inc [of "in_count w" "ht_len ht"] by (simp add: word_less_nat_alt)
  have "inserter_at ?home (dview ht) ?w m (Suc m)" using m c1 by (simp add: inserter_at_def)
  then have "insert_turn crc ht w ht ?w"
    using assms c c1 p f(3)
    by (auto simp: insert_turn_def inserter_ok_def insert_rank_def Let_def occupied_def)
  then show ?thesis using assms(3) p f(3) by (auto simp: insert_step_def)
qed

lemma turn_Swap:
  assumes "dram_inv crc ht" and "inserter_ok crc ht w" and "in_pc w = Swap"
  shows "\<exists>ht' w'. insert_step crc ht w = Some (ht', w') \<and> insert_turn crc ht w ht' w'"
proof -
  note f = dram_inv_facts [OF assms(1)]
  let ?p = "unat (in_idx w)" and ?home = "dhome crc (ht_len ht)"
  let ?kv = "ht_table ht ! ?p"
  obtain m where m: "inserter_at ?home (dview ht) w m (Suc m)" using assms(2,3) by (auto simp: inserter_ok_def Let_def)
  have p: "?p < unat (ht_len ht)" using inserter_at_idx [OF m] f(2) by simp
  show ?thesis
  proof (cases "kv_k ?kv = 0")
    case True
    let ?ht = "dstore ht ?p (in_k w) (in_v w)" and ?w = "w\<lparr>in_pc := Finished 0\<rparr>"
    have room: "room_at 0 ?home (dview ht) (in_k w) ?p"
      using passed_room [OF f(4), of "in_k w" m] m True p f(3) by (simp add: inserter_at_def)
    have k: "in_k w \<noteq> 0" using m by (simp add: inserter_at_def)
    have "card (dom (dram_map ht)) < unat (ht_len ht)"
      unfolding dram_room [OF assms(1)] using True p f(3) by (auto simp: occupied_def)
    then have "insert_turn crc ht w ?ht ?w"
      using dram_inv_dstore [OF assms(1) wf_probe_store [OF f(4) room] k] tab_map_store [OF f(4) room] True p f(3) k
      by (auto simp: insert_turn_def inserter_ok_def insert_rank_def insert_spec_def insert_rc_def dram_map_def assms(3)
          intro: grows_update)
    then show ?thesis
      using True p f(3) f(6) [OF p] assms(3) by (auto simp: insert_step_def dramblast_cas_def dstore_def)
  next
    case False
    let ?w = "w\<lparr>in_pc := Compare_key\<rparr>"
    have "inserter_at ?home (dview ht) ?w m (Suc m)" using m by (simp add: inserter_at_def)
    then have "insert_turn crc ht w ht ?w"
      using assms False p f(3) by (auto simp: insert_turn_def inserter_ok_def insert_rank_def Let_def occupied_def)
    then show ?thesis using False p f(3) assms(3) by (auto simp: insert_step_def dramblast_cas_def)
  qed
qed

lemma turn_Compare:
  assumes "dram_inv crc ht" and "inserter_ok crc ht w" and "in_pc w = Compare_key"
  shows "\<exists>ht' w'. insert_step crc ht w = Some (ht', w') \<and> insert_turn crc ht w ht' w'"
proof -
  note f = dram_inv_facts [OF assms(1)]
  let ?p = "unat (in_idx w)" and ?home = "dhome crc (ht_len ht)"
  let ?w = "w\<lparr>in_pc := (if kv_k (ht_table ht ! ?p) = in_k w then Store_value else Advance)\<rparr>"
  obtain m where m: "inserter_at ?home (dview ht) w m (Suc m)" "occupied 0 (dview ht) ?p"
    using assms(2,3) by (auto simp: inserter_ok_def Let_def)
  have p: "?p < unat (ht_len ht)" using inserter_at_idx [OF m(1)] f(2) by simp
  have "inserter_at ?home (dview ht) ?w m (Suc m)" using m by (simp add: inserter_at_def)
  moreover have "kv_k (ht_table ht ! ?p) \<noteq> in_k w \<Longrightarrow> passed 0 ?home (dview ht) (in_k w) (Suc m)"
    using m p f(3) by (auto simp: inserter_at_def passed_Suc)
  ultimately have "insert_turn crc ht w ht ?w"
    using assms p f(3) by (auto simp: insert_turn_def inserter_ok_def insert_rank_def Let_def)
  then show ?thesis using assms(3) p f(3) by (auto simp: insert_step_def)
qed

lemma turn_Store:
  assumes "dram_inv crc ht" and "inserter_ok crc ht w" and "in_pc w = Store_value"
  shows "\<exists>ht' w'. insert_step crc ht w = Some (ht', w') \<and> insert_turn crc ht w ht' w'"
proof -
  note f = dram_inv_facts [OF assms(1)]
  let ?p = "unat (in_idx w)" and ?home = "dhome crc (ht_len ht)"
  let ?ht = "dstore ht ?p (in_k w) (in_v w)" and ?w = "w\<lparr>in_pc := Finished 0\<rparr>"
  obtain m where m: "inserter_at ?home (dview ht) w m (Suc m)" "fst (dview ht ! ?p) = in_k w"
    using assms(2,3) by (auto simp: inserter_ok_def Let_def)
  have p: "?p < length (dview ht)" using inserter_at_idx [OF m(1)] by simp
  have k: "in_k w \<noteq> 0" using m by (simp add: inserter_at_def)
  have "in_k w \<in> dom (dram_map ht)"
    using tab_map_slot [OF f(5) p] m(2) k by (auto simp: dram_map_def occupied_def)
  then have "insert_turn crc ht w ?ht ?w"
    using dram_inv_dstore [OF assms(1) wf_probe_update [OF f(4) p m(2)] k] tab_map_update [OF f(4) p m(2) k] k m(2)
    by (auto simp: insert_turn_def inserter_ok_def insert_rank_def insert_spec_def insert_rc_def dram_map_def assms(3)
        intro: grows_update)
  moreover have "kv_k (ht_table ht ! ?p) = in_k w" using m(2) p by simp
  ultimately show ?thesis
    using p assms(3) by (auto simp: insert_step_def dstore_def dram_kv_update)
qed

lemma turn_Advance:
  assumes "dram_inv crc ht" and "inserter_ok crc ht w" and "in_pc w = Advance"
  shows "\<exists>ht' w'. insert_step crc ht w = Some (ht', w') \<and> insert_turn crc ht w ht' w'"
proof -
  note f = dram_inv_facts [OF assms(1)]
  let ?home = "dhome crc (ht_len ht)" and ?n = "unat (ht_len ht)"
  obtain m where m: "inserter_at ?home (dview ht) w m (Suc m)" "passed 0 ?home (dview ht) (in_k w) (Suc m)"
    using assms(2,3) by (auto simp: inserter_ok_def Let_def)
  have c: "unat (in_count w) = Suc m" "m < ?n" and k: "in_k w \<noteq> 0" and idx: "unat (in_idx w) = (?home (in_k w) + m) mod ?n"
    using m f(2) by (simp_all add: inserter_at_def)
  have e: "in_count w \<ge> ht_len ht \<longleftrightarrow> Suc m = ?n" using c by (auto simp: word_le_nat_alt)
  let ?w = "w\<lparr>in_pc := (if in_count w \<ge> ht_len ht then Finished (-1) else Load_key),
              in_idx := (in_idx w + 1) AND (ht_len ht - 1)\<rparr>"
  have "insert_turn crc ht w ht ?w"
  proof (cases "Suc m = ?n")
    case True
    then have "passed 0 ?home (dview ht) (in_k w) (length (dview ht))" using m(2) f(2) by simp
    note full = passed_all [OF f(4) this k]
    have "\<not> card (dom (dram_map ht)) < ?n" unfolding dram_room [OF assms(1)] using full(2) f(2) by simp
    then show ?thesis using True e full(1) assms
      by (auto simp: insert_turn_def inserter_ok_def insert_rank_def insert_spec_def insert_rc_def dram_map_def)
  next
    case False
    have "unat (in_idx w) < ?n" using idx pow2_pos [OF f(1)] by simp
    then have "unat (in_idx w + 1) = Suc (unat (in_idx w))" using unat_inc [of "in_idx w" "ht_len ht"] by (simp add: word_less_nat_alt)
    then have "unat ((in_idx w + 1) AND (ht_len ht - 1)) = (?home (in_k w) + Suc m) mod ?n"
      by (simp add: unat_and_mask [OF f(1)] idx mod_Suc_eq)
    then have "inserter_at ?home (dview ht) ?w (Suc m) (Suc m)"
      using c k m(2) f(2) False by (simp add: inserter_at_def)
    then show ?thesis using False e c assms
      by (auto simp: insert_turn_def inserter_ok_def insert_rank_def Let_def)
  qed
  then show ?thesis using assms(3) by (auto simp: insert_step_def)
qed

lemma insert_step_turn:
  assumes "dram_inv crc ht" and "inserter_ok crc ht w" and "\<not> finished w"
  shows "\<exists>ht' w'. insert_step crc ht w = Some (ht', w') \<and> insert_turn crc ht w ht' w'"
  using assms turn_Enter turn_Load turn_Swap turn_Compare turn_Store turn_Advance
  by (cases "in_pc w") (blast | simp)+

interpretation dram_cores: atomic_step "insert_step crc" finished
    "\<lambda>ht. dram_inv crc ht \<and> ht_len ht = len \<and> ht_queues ht = qs" "inserter_ok crc"
    "\<lambda>ht ht'. grows 0 (dview ht) (dview ht') \<and> ht_len ht' = ht_len ht" "insert_rank (unat len)"
    dram_map "\<lambda>w. (in_k w, in_v w)" insert_rc "insert_spec (unat len)"
  for crc len qs
proof unfold_locales
  fix s l
  assume a: "dram_inv crc s \<and> ht_len s = len \<and> ht_queues s = qs" "inserter_ok crc s l" "\<not> finished l"
  then obtain s' l' where t: "insert_step crc s l = Some (s', l')" "insert_turn crc s l s' l'"
    using insert_step_turn by blast
  then show "\<exists>s' l'. insert_step crc s l = Some (s', l') \<and> (dram_inv crc s' \<and> ht_len s' = len \<and> ht_queues s' = qs) \<and>
      inserter_ok crc s' l' \<and> (grows 0 (dview s) (dview s') \<and> ht_len s' = ht_len s) \<and>
      insert_rank (unat len) l' < insert_rank (unat len) l"
    using a(1) by (intro exI [of _ s'] exI [of _ l']) (auto simp: insert_turn_def)
  fix s1 l1
  assume "insert_step crc s l = Some (s1, l1)"
  then show "(in_k l1, in_v l1) = (in_k l, in_v l) \<and>
      (if finished l1 then insert_spec (unat len) (in_k l, in_v l) (dram_map s) = (insert_rc l1, dram_map s1)
       else dram_map s1 = dram_map s)"
    using t a(1) by (auto simp: insert_turn_def)
next
  fix s l s'
  assume "inserter_ok crc s l" "grows 0 (dview s) (dview s') \<and> ht_len s' = ht_len s"
  then show "inserter_ok crc s' l" using inserter_ok_stable by blast
qed

section \<open>One core alone\<close>

text \<open>Without interference the steps are the routine as it is written.\<close>

lemma run_one_step:
  assumes "insert_step crc ht w = Some (ht1, w1)" and "\<not> finished w"
  shows "run_cores (insert_step crc) finished (0 # sched) ht [w] =
    (case run_cores (insert_step crc) finished sched ht1 [w1] of
       None \<Rightarrow> None | Some (log, ht', ws') \<Rightarrow> Some (if finished w1 then 0 # log else log, ht', ws'))"
  using assms by (auto split: option.splits)

lemma run_compare:
  assumes "rd (ht_table ht) (unat idx) = Some kv"
    and "(if kv_k kv = 0 then dramblast_cas (ht_table ht) (unat idx) \<lparr>kv_k = k, kv_v = v\<rparr> else None) = None"
  shows "\<exists>j. \<forall>n. run_cores (insert_step crc) finished (replicate (j + n) 0) ht
      [\<lparr>in_pc = Load_key, in_k = k, in_v = v, in_idx = idx, in_count = count\<rparr>] =
    run_cores (insert_step crc) finished (replicate n 0) ht
      [\<lparr>in_pc = Compare_key, in_k = k, in_v = v, in_idx = idx, in_count = count + 1\<rparr>]"
proof (cases "kv_k kv = 0")
  case True
  then show ?thesis using assms by (intro exI [of _ 2]) (simp add: insert_step_def eval_nat_numeral)
next
  case False
  then show ?thesis using assms by (intro exI [of _ 1]) (simp add: insert_step_def)
qed

lemma try_insert_alone:
  assumes "try_insert ht k v idx count = Some (rc, ht')"
  shows "\<exists>n w'. run_cores (insert_step crc) finished (replicate n 0) ht
      [\<lparr>in_pc = Load_key, in_k = k, in_v = v, in_idx = idx, in_count = count\<rparr>] = Some ([0], ht', [w']) \<and>
    in_pc w' = Finished rc"
proof -
  let ?run = "\<lambda>n ht w. run_cores (insert_step crc) finished (replicate n 0) ht [w]"
  let ?w = "\<lambda>pc k v idx count. \<lparr>in_pc = pc, in_k = k, in_v = v, in_idx = idx, in_count = count\<rparr>"
  let ?P = "\<lambda>ht k v idx count y. \<exists>n w'. ?run n ht (?w Load_key k v idx count) = Some ([0], snd y, [w']) \<and>
    in_pc w' = Finished (fst y)"
  have "?P ht k v idx count (rc, ht')"
  proof (rule try_insert.raw_induct [where P = ?P, OF _ assms])
    fix rec ht k v idx count y
    assume IH: "\<And>ht k v idx count y. rec ht k v idx count = Some y \<Longrightarrow> ?P ht k v idx count y"
      and y: "(case rd (ht_table ht) (unat idx) of None \<Rightarrow> None | Some kv \<Rightarrow> let count = count + 1 in
          case (if kv_k kv = 0 then dramblast_cas (ht_table ht) (unat idx) \<lparr>kv_k = k, kv_v = v\<rparr> else None) of
            None \<Rightarrow> if kv_k kv = k then Some (0, ht\<lparr>ht_table := (ht_table ht)[unat idx := kv\<lparr>kv_v := v\<rparr>]\<rparr>)
              else let idx = idx + 1 AND ht_len ht - 1
                in if ht_len ht \<le> count then Some (- 1, ht) else rec ht k v idx count
          | Some T \<Rightarrow> Some (0, ht\<lparr>ht_table := T\<rparr>)) = Some y"
    obtain kv where kv: "rd (ht_table ht) (unat idx) = Some kv" using y by (auto split: option.splits)
    let ?cas = "if kv_k kv = 0 then dramblast_cas (ht_table ht) (unat idx) \<lparr>kv_k = k, kv_v = v\<rparr> else None"
    show "?P ht k v idx count y"
    proof (cases ?cas)
      case (Some T)
      then have "y = (0, ht\<lparr>ht_table := T\<rparr>)" "kv_k kv = 0" using y kv by (auto split: if_splits)
      then show ?thesis using kv Some
        by (intro exI [of _ 2]) (simp add: insert_step_def eval_nat_numeral)
    next
      case None
      obtain j where j: "\<And>n. ?run (j + n) ht (?w Load_key k v idx count) = ?run n ht (?w Compare_key k v idx (count + 1))"
        using run_compare [OF kv None] by blast
      have "\<exists>n w'. ?run n ht (?w Compare_key k v idx (count + 1)) = Some ([0], snd y, [w']) \<and> in_pc w' = Finished (fst y)"
      proof (cases "kv_k kv = k")
        case True
        then have "y = (0, ht\<lparr>ht_table := (ht_table ht)[unat idx := kv\<lparr>kv_v := v\<rparr>]\<rparr>)"
          using y kv None by (auto simp: Let_def)
        then show ?thesis using kv True
          by (intro exI [of _ 2]) (simp add: insert_step_def eval_nat_numeral)
      next
        case ne: False
        let ?idx = "idx + 1 AND ht_len ht - 1"
        have y': "(if ht_len ht \<le> count + 1 then Some (- 1, ht) else rec ht k v ?idx (count + 1)) = Some y"
          using y kv None ne by (simp add: Let_def)
        show ?thesis
        proof (cases "ht_len ht \<le> count + 1")
          case True
          then show ?thesis using y' kv ne
            by (intro exI [of _ 2]) (auto simp: insert_step_def eval_nat_numeral)
        next
          case False
          then obtain n w' where "?run n ht (?w Load_key k v ?idx (count + 1)) = Some ([0], snd y, [w'])"
            "in_pc w' = Finished (fst y)" using IH y' by fastforce
          then show ?thesis using kv ne False
            by (intro exI [of _ "Suc (Suc n)"]) (simp add: insert_step_def)
        qed
      qed
      then show ?thesis using j by metis
    qed
  qed
  then show ?thesis by simp
qed

lemma insert_one_alone:
  assumes "dramblast_insert_one crc ht k v = Some (rc, ht')"
  shows "\<exists>n w'. run_cores (insert_step crc) finished (replicate n 0) ht [start_insert (k, v)] = Some ([0], ht', [w']) \<and>
    in_pc w' = Finished rc"
proof (cases "k = 0")
  case True
  then show ?thesis using assms
    by (intro exI [of _ 1]) (simp add: dramblast_insert_one_def insert_step_def start_insert_def)
next
  case False
  then have "try_insert ht k v (dramblast_hash crc ht k) 0 = Some (rc, ht')"
    using assms by (simp add: dramblast_insert_one_def)
  from try_insert_alone [OF this] obtain n w' where
    "run_cores (insert_step crc) finished (replicate n 0) ht
      [\<lparr>in_pc = Load_key, in_k = k, in_v = v, in_idx = dramblast_hash crc ht k, in_count = 0\<rparr>] = Some ([0], ht', [w'])"
    "in_pc w' = Finished rc" by blast
  then show ?thesis using False
    by (intro exI [of _ "Suc n"]) (simp add: insert_step_def start_insert_def)
qed

section \<open>All cores together\<close>

text \<open>The sequential routine meets the same specification.\<close>

lemma insert_one_spec:
  assumes "dram_inv crc ht"
  shows "\<exists>rc ht'. dramblast_insert_one crc ht k v = Some (rc, ht') \<and> dram_inv crc ht' \<and> ht_len ht' = ht_len ht \<and>
    insert_spec (unat (ht_len ht)) (k, v) (dram_map ht) = (rc, dram_map ht')"
proof (cases "k = 0")
  case True
  then show ?thesis using assms by (simp add: dram_insert_zero_key insert_spec_def)
next
  case False
  have "(\<exists>kv \<in> set (ht_table ht). kv_k kv = 0) \<longleftrightarrow> (\<exists>p<length (ht_table ht). \<not> occupied 0 (dview ht) p)"
    unfolding occupied_def not_not by (metis fst_conv in_set_conv_nth nth_dview)
  then have "(\<exists>kv \<in> set (ht_table ht). kv_k kv = 0) \<longleftrightarrow> card (dom (dram_map ht)) < unat (ht_len ht)"
    unfolding dram_room [OF assms] dram_inv_facts(3) [OF assms] .
  then show ?thesis
    using dram_insert_cases [OF assms False, of v] False by (auto simp: insert_spec_def)
qed

lemma insert_all_spec:
  assumes "dram_inv crc ht"
  shows "\<exists>ht'. insert_all (dramblast_insert_one crc) ht kvs =
      Some (fst (spec_run (insert_spec (unat (ht_len ht))) kvs (dram_map ht)), ht') \<and>
    dram_map ht' = snd (spec_run (insert_spec (unat (ht_len ht))) kvs (dram_map ht))"
  using assms
proof (induction kvs arbitrary: ht)
  case Nil
  then show ?case by simp
next
  case (Cons kv kvs)
  obtain k v where kv: "kv = (k, v)" by force
  obtain rc ht1 where i: "dramblast_insert_one crc ht k v = Some (rc, ht1)" "dram_inv crc ht1"
    "ht_len ht1 = ht_len ht" "insert_spec (unat (ht_len ht)) (k, v) (dram_map ht) = (rc, dram_map ht1)"
    using insert_one_spec [OF Cons.prems] by blast
  from Cons.IH [OF i(2)] obtain ht2 where
    "insert_all (dramblast_insert_one crc) ht1 kvs =
       Some (fst (spec_run (insert_spec (unat (ht_len ht))) kvs (dram_map ht1)), ht2)"
    "dram_map ht2 = snd (spec_run (insert_spec (unat (ht_len ht))) kvs (dram_map ht1))" unfolding i(3) by blast
  then show ?case using i(1,4) by (simp add: kv split: prod.splits)
qed

lemma start_inserts:
  "\<forall>w \<in> set (List.map start_insert ops). inserter_ok crc ht w"
  "i < length ops \<Longrightarrow> \<not> finished (List.map start_insert ops ! i)"
  "insert_rank n (start_insert kv) = 4 * n + 1"
  by (auto simp: start_insert_def inserter_ok_def insert_rank_def)

lemma cores_run:
  assumes "dram_inv crc ht"
    and "run_cores (insert_step crc) finished sched ht (List.map start_insert ops) = Some (log, ht', ws')"
  shows "spec_run (insert_spec (unat (ht_len ht))) (List.map (\<lambda>i. ops ! i) log) (dram_map ht) =
      (List.map (\<lambda>i. insert_rc (ws' ! i)) log, dram_map ht')"
    and "distinct log" and "set log = {i. i < length ops \<and> finished (ws' ! i)}"
proof -
  have inv: "dram_inv crc ht \<and> ht_len ht = ht_len ht \<and> ht_queues ht = ht_queues ht" using assms(1) by simp
  note l = dram_cores.run_linearizable [OF inv start_inserts(1) assms(2)]
  show d: "distinct log" and st: "set log = {i. i < length ops \<and> finished (ws' ! i)}"
    using l start_inserts(2) by auto
  have e: "List.map (\<lambda>i. (in_k (List.map start_insert ops ! i), in_v (List.map start_insert ops ! i))) log =
      List.map (\<lambda>i. ops ! i) log"
    using st by (intro map_cong) (auto simp: start_insert_def)
  show "spec_run (insert_spec (unat (ht_len ht))) (List.map (\<lambda>i. ops ! i) log) (dram_map ht) =
      (List.map (\<lambda>i. insert_rc (ws' ! i)) log, dram_map ht')" using l unfolding e by blast
qed

text \<open>
  C3: insertions by several cores are linearizable.  In every interleaving of their accesses to
  the table, no access is out of bounds and the table stays well formed; and the insertions that
  have finished returned what they return when they are carried out one after the other, in
  some order, which leaves the same map.  In particular two cores that insert the same new key
  at the same time do not store it twice, and no insertion is lost.
\<close>

theorem dramblast_cores_linearizable:
  assumes "dram_inv crc ht"
  shows "\<exists>log ht' ws'. run_cores (insert_step crc) finished sched ht (List.map start_insert ops) = Some (log, ht', ws') \<and>
    dram_inv crc ht' \<and> ht_queues ht' = ht_queues ht \<and>
    distinct log \<and> set log = {i. i < length ops \<and> finished (ws' ! i)} \<and>
    (\<exists>ht2. insert_all (dramblast_insert_one crc) ht (List.map (\<lambda>i. ops ! i) log) =
        Some (List.map (\<lambda>i. insert_rc (ws' ! i)) log, ht2) \<and> dram_map ht2 = dram_map ht')"
proof -
  have inv: "dram_inv crc ht \<and> ht_len ht = ht_len ht \<and> ht_queues ht = ht_queues ht" using assms by simp
  from dram_cores.run_returns [OF inv start_inserts(1)] obtain log ht' ws' where
    r: "run_cores (insert_step crc) finished sched ht (List.map start_insert ops) = Some (log, ht', ws')"
    "dram_inv crc ht' \<and> ht_len ht' = ht_len ht \<and> ht_queues ht' = ht_queues ht" by blast
  note c = cores_run [OF assms r(1)]
  from insert_all_spec [OF assms, of "List.map (\<lambda>i. ops ! i) log"] obtain ht2 where
    "insert_all (dramblast_insert_one crc) ht (List.map (\<lambda>i. ops ! i) log) =
       Some (List.map (\<lambda>i. insert_rc (ws' ! i)) log, ht2)" "dram_map ht2 = dram_map ht'" unfolding c(1) by auto
  then show ?thesis using r c(2,3) by blast
qed

theorem dramblast_cores_linearizable_witness:
  "\<exists>log ht' ws'. run_cores (insert_step (\<lambda>_ k. k)) finished [0, 1, 0, 1, 0, 1, 1, 1] (fresh_ht 8 [])
      (List.map start_insert [(5, 7), (5, 7)]) = Some (log, ht', ws') \<and> dram_inv (\<lambda>_ k. k) ht'"
  using dramblast_cores_linearizable [OF fresh_ht_inv(1) [OF pow2_u64_8], where sched = "[0, 1, 0, 1, 0, 1, 1, 1]"
    and ops = "[(5, 7), (5, 7)]"] by blast

text \<open>
  C16: no core waits for another.  Whatever the other cores do, and however the accesses are
  interleaved, an insertion has returned once its core made at most \<open>4 n + 1\<close> accesses, for a
  table of \<open>n\<close> slots: a compare-and-swap that fails because another core was faster is never
  repeated on the same slot.
\<close>

theorem dramblast_insert_wait_free:
  assumes "dram_inv crc ht" and "i < length ops" and "4 * unat (ht_len ht) + 1 \<le> length (filter (\<lambda>j. j = i) sched)"
  shows "\<exists>log ht' ws'. run_cores (insert_step crc) finished sched ht (List.map start_insert ops) = Some (log, ht', ws') \<and>
    finished (ws' ! i)"
proof -
  have inv: "dram_inv crc ht \<and> ht_len ht = ht_len ht \<and> ht_queues ht = ht_queues ht" using assms(1) by simp
  from dram_cores.run_returns [OF inv start_inserts(1)] obtain log ht' ws' where
    r: "run_cores (insert_step crc) finished sched ht (List.map start_insert ops) = Some (log, ht', ws')" by blast
  have "finished (ws' ! i)"
    using dram_cores.run_finishes [OF inv start_inserts(1) _ _ r] assms(2,3) by (simp add: start_inserts(3))
  then show ?thesis using r by blast
qed

theorem dramblast_insert_wait_free_witness:
  "\<exists>log ht' ws'. run_cores (insert_step (\<lambda>_ k. k)) finished (replicate 9 0 @ replicate 33 1) (fresh_ht 8 [])
      (List.map start_insert [(5, 7), (13, 8)]) = Some (log, ht', ws') \<and> finished (ws' ! 1)"
proof -
  have "4 * unat (ht_len (fresh_ht 8 [])) + 1 \<le> length (filter (\<lambda>j. j = 1) (replicate 9 0 @ replicate 33 (1::nat)))"
    by (simp add: fresh_ht_def)
  from dramblast_insert_wait_free [OF fresh_ht_inv(1) [OF pow2_u64_8] _ this, of "[(5, 7), (13, 8)]" "\<lambda>_ k. k"]
  show ?thesis by simp
qed

text \<open>The values stored come from the insertions.\<close>

lemma spec_run_agrees:
  assumes "\<forall>(k, v) \<in> set kvs. v = f k" and "\<forall>k v. m k = Some v \<longrightarrow> v = f k" and "spec_run (insert_spec n) kvs m = (rcs, m')"
  shows "(\<forall>k v. m' k = Some v \<longrightarrow> v = f k) \<and> m \<subseteq>\<^sub>m m' \<and>
    (\<forall>i<length kvs. rcs ! i = 0 \<longrightarrow> m' (fst (kvs ! i)) = Some (f (fst (kvs ! i))))"
  using assms
proof (induction kvs arbitrary: m rcs)
  case Nil
  then show ?case by simp
next
  case (Cons kv kvs)
  obtain k v where kv: "kv = (k, v)" by force
  have v: "v = f k" using Cons.prems(1) kv by simp
  obtain rc m1 rcs1 where s: "insert_spec n kv m = (rc, m1)" "spec_run (insert_spec n) kvs m1 = (rcs1, m')" "rcs = rc # rcs1"
    using Cons.prems(3) by (auto split: prod.splits)
  have m1: "m1 = (if rc = 0 then m(k \<mapsto> v) else m)" "rc = 0 \<Longrightarrow> m1 k = Some (f k)"
    using s(1) v by (auto simp: insert_spec_def kv split: if_splits)
  have f1: "\<forall>k v. m1 k = Some v \<longrightarrow> v = f k" and le: "m \<subseteq>\<^sub>m m1"
    using m1(1) Cons.prems(2) v by (auto simp: map_le_def split: if_splits)
  have "\<forall>(k, v) \<in> set kvs. v = f k" using Cons.prems(1) by simp
  from Cons.IH [OF this f1 s(2)]
  have ih: "\<forall>k v. m' k = Some v \<longrightarrow> v = f k" "m1 \<subseteq>\<^sub>m m'"
    "\<forall>i<length kvs. rcs1 ! i = 0 \<longrightarrow> m' (fst (kvs ! i)) = Some (f (fst (kvs ! i)))" by blast+
  have "m' k = Some (f k)" if "rc = 0" using m1(2) [OF that] ih(2) by (metis domI map_le_def)
  then have "rcs ! i = 0 \<longrightarrow> m' (fst ((kv # kvs) ! i)) = Some (f (fst ((kv # kvs) ! i)))" if "i < length (kv # kvs)" for i
    using ih(3) [rule_format, of "i - 1"] that by (cases i) (simp_all add: s(3) kv)
  then show ?case using ih(1,2) map_le_trans [OF le] by blast
qed

text \<open>
  Cores agree on the backend of a flow.  If every core chooses the backend by the same
  function of the flow hash, as \<open>dramblast_process_frames\<close> does with the table of backends, then in
  every interleaving a flow that was mapped keeps its backend, a flow whose insertion succeeded
  on any core is mapped to its backend, and nothing else is ever stored.
\<close>

lemma dramblast_cores_affinity:
  assumes "dram_inv crc ht" and "\<forall>(k, v) \<in> set ops. v = f k" and "\<forall>k v. dram_map ht k = Some v \<longrightarrow> v = f k"
  shows "\<exists>log ht' ws'. run_cores (insert_step crc) finished sched ht (List.map start_insert ops) = Some (log, ht', ws') \<and>
    dram_map ht \<subseteq>\<^sub>m dram_map ht' \<and> (\<forall>k v. dram_map ht' k = Some v \<longrightarrow> v = f k) \<and>
    (\<forall>i<length ops. in_pc (ws' ! i) = Finished 0 \<longrightarrow> dram_map ht' (fst (ops ! i)) = Some (f (fst (ops ! i))))"
proof -
  have inv: "dram_inv crc ht \<and> ht_len ht = ht_len ht \<and> ht_queues ht = ht_queues ht" using assms(1) by simp
  from dram_cores.run_returns [OF inv start_inserts(1)] obtain log ht' ws' where
    r: "run_cores (insert_step crc) finished sched ht (List.map start_insert ops) = Some (log, ht', ws')" by blast
  note c = cores_run [OF assms(1) r]
  let ?kvs = "List.map (\<lambda>i. ops ! i) log" and ?rcs = "List.map (\<lambda>i. insert_rc (ws' ! i)) log"
  have sub: "set ?kvs \<subseteq> set ops" using c(3) by (simp add: image_subset_iff)
  have "\<forall>(k, v) \<in> set ?kvs. v = f k" by (rule ballI, rule bspec [OF assms(2)], rule subsetD [OF sub])
  note agrees = spec_run_agrees [OF this assms(3) c(1)]
  have a: "\<forall>k v. dram_map ht' k = Some v \<longrightarrow> v = f k" "dram_map ht \<subseteq>\<^sub>m dram_map ht'"
    and stored: "\<forall>j<length ?kvs. ?rcs ! j = 0 \<longrightarrow> dram_map ht' (fst (?kvs ! j)) = Some (f (fst (?kvs ! j)))"
    by (rule conjunct1 [OF agrees], rule conjunct1 [OF conjunct2 [OF agrees]], rule conjunct2 [OF conjunct2 [OF agrees]])
  have b: "dram_map ht' (fst (ops ! i)) = Some (f (fst (ops ! i)))" if "i < length ops" "in_pc (ws' ! i) = Finished 0" for i
  proof -
    have "i \<in> set log" using that c(3) by simp
    then obtain j where "j < length log" "log ! j = i" by (auto simp: in_set_conv_nth)
    then show ?thesis using stored [rule_format, of j] that(2) by (simp add: insert_rc_def)
  qed
  show ?thesis
    by (intro exI [of _ log] exI [of _ ht'] exI [of _ ws'] conjI r a) (intro allI impI b)
qed

lemma dramblast_cores_affinity_witness:
  "\<exists>log ht' ws'. run_cores (insert_step (\<lambda>_ k. k)) finished [0, 1, 0, 1, 0, 1, 1, 1] (fresh_ht 8 [])
      (List.map start_insert [(5, 6), (5, 6)]) = Some (log, ht', ws') \<and>
    (dram_map ht' 5 = None \<or> dram_map ht' 5 = Some 6)"
proof -
  have "\<forall>(k, v) \<in> set [(5, 6), (5, 6)]. v = (\<lambda>k. k + 1) (k::u64)"
    "\<forall>k v. dram_map (fresh_ht 8 []) k = Some v \<longrightarrow> v = (\<lambda>k. k + 1) k"
    by (simp_all add: fresh_ht_inv(2) [OF pow2_u64_8])
  from dramblast_cores_affinity [OF fresh_ht_inv(1) [OF pow2_u64_8] this, of "\<lambda>_ k. k" "[0, 1, 0, 1, 0, 1, 1, 1]"]
  obtain log ht' ws' where "run_cores (insert_step (\<lambda>_ k. k)) finished [0, 1, 0, 1, 0, 1, 1, 1] (fresh_ht 8 [])
      (List.map start_insert [(5, 6), (5, 6)]) = Some (log, ht', ws')"
    "\<forall>k v. dram_map ht' k = Some v \<longrightarrow> v = k + 1" by blast
  moreover have "v = 6" if "dram_map ht' 5 = Some v" for v
    using calculation(2) [rule_format, OF that] by simp
  ultimately show ?thesis by (metis not_None_eq)
qed

end
