(* ===== verification/Maglev_Cores.thy ===== *)
theory Maglev_Cores
  imports Cores Maglev
begin

text \<open>
  \<open>l2fwd/libsashstore/maglev.c\<close> and \<open>hashmap.c\<close>: frames handled by several cores at the same time, on
  the connection table they share.  \<open>maglev_process_frame\<close> with the lookup and the insertion it
  calls is cut into the accesses to the table: the two loads of a key in each round of the
  lookup, the load of the cached value, and in each round of the insertion the load of the key,
  the compare-and-swap, the second load and the store of the value.  The table of backends is
  only read.
\<close>

section \<open>The steps of a frame\<close>

datatype frame_pc =
    Frame_start
  | Get_empty
  | Get_match
  | Get_value
  | Insert_load
  | Insert_swap
  | Insert_compare
  | Insert_store
  | Answered u64

record frame_core =
  fc_pc :: frame_pc
  fc_frame :: "u8 list"
  fc_hash :: u64
  fc_i :: u64
  fc_backend :: u64

definition probe_slot :: "(u64 \<Rightarrow> u64 \<Rightarrow> u64) \<Rightarrow> u64 \<Rightarrow> frame_core \<Rightarrow> nat" where
  "probe_slot crc CAPACITY w =
     (let hash = maglev_hash crc (fc_hash w) AND (CAPACITY - 1); probe = hash + fc_i w
      in unat (probe AND (CAPACITY - 1)))"

text \<open>After a lookup that returned NULL: the backend of the lookup table, then the insertion.\<close>

definition begin_insert :: "maglev_state \<Rightarrow> frame_core \<Rightarrow> frame_core option" where
  "begin_insert st w = do {
     backend \<leftarrow> rd (maglev_lookup st) (unat (fc_hash w) mod TABLE_SIZE);
     Some (w\<lparr>fc_pc := Insert_load, fc_i := 0, fc_backend := backend\<rparr>)
   }"

definition frame_step ::
  "(u64 \<Rightarrow> u64 \<Rightarrow> u64) \<Rightarrow> u64 \<Rightarrow> maglev_state \<Rightarrow> frame_core \<Rightarrow> (maglev_state \<times> frame_core) option" where
  "frame_step crc CAPACITY st w =
     (let ps = mpairs (maglev_conntrack st); p = probe_slot crc CAPACITY w;
          put = (\<lambda>ps'. st\<lparr>maglev_conntrack := (maglev_conntrack st)\<lparr>mpairs := ps'\<rparr>\<rparr>) in
      case fc_pc w of
        Frame_start \<Rightarrow> do {
          hash \<leftarrow> flowhash (fc_frame w);
          Some (st, if hash > 0 then w\<lparr>fc_pc := Get_empty, fc_hash := hash, fc_i := 0\<rparr>
                    else w\<lparr>fc_pc := Answered 0\<rparr>)
        }
      | Get_empty \<Rightarrow>
          if fc_i w < CAPACITY then do {
            pair \<leftarrow> rd ps p;
            if mkey pair = 0 then do { w' \<leftarrow> begin_insert st w; Some (st, w') }
            else Some (st, w\<lparr>fc_pc := Get_match\<rparr>)
          }
          else do { w' \<leftarrow> begin_insert st w; Some (st, w') }
      | Get_match \<Rightarrow> do {
          pair \<leftarrow> rd ps p;
          Some (st, if mkey pair = fc_hash w then w\<lparr>fc_pc := Get_value\<rparr>
                    else w\<lparr>fc_pc := Get_empty, fc_i := fc_i w + 1\<rparr>)
        }
      | Get_value \<Rightarrow> do {
          pair \<leftarrow> rd ps p;
          Some (st, w\<lparr>fc_pc := Answered (mvalue pair)\<rparr>)
        }
      | Insert_load \<Rightarrow>
          if fc_i w < CAPACITY then do {
            pair \<leftarrow> rd ps p;
            Some (st, w\<lparr>fc_pc := (if mkey pair = 0 then Insert_swap else Insert_compare)\<rparr>)
          }
          else Some (st, w\<lparr>fc_pc := Answered 0\<rparr>)
      | Insert_swap \<Rightarrow> do {
          pair \<leftarrow> rd ps p;
          Some (case maglev_cas ps p \<lparr>mkey = fc_hash w, mvalue = fc_backend w\<rparr> of
              Some ps' \<Rightarrow> (put ps', w\<lparr>fc_pc := Answered (fc_backend w)\<rparr>)
            | None \<Rightarrow> (st, w\<lparr>fc_pc := Insert_compare\<rparr>))
        }
      | Insert_compare \<Rightarrow> do {
          pair \<leftarrow> rd ps p;
          Some (st, if mkey pair = fc_hash w then w\<lparr>fc_pc := Insert_store\<rparr>
                    else w\<lparr>fc_pc := Insert_load, fc_i := fc_i w + 1\<rparr>)
        }
      | Insert_store \<Rightarrow> do {
          pair \<leftarrow> rd ps p;
          Some (put (ps[p := pair\<lparr>mvalue := fc_backend w\<rparr>]), w\<lparr>fc_pc := Answered (fc_backend w)\<rparr>)
        }
      | Answered b \<Rightarrow> Some (st, w))"

definition answered :: "frame_core \<Rightarrow> bool" where
  "answered w = (case fc_pc w of Answered b \<Rightarrow> True | _ \<Rightarrow> False)"

definition answer :: "frame_core \<Rightarrow> u64" where
  "answer w = (case fc_pc w of Answered b \<Rightarrow> b | _ \<Rightarrow> 0)"

definition start_frame :: "u8 list \<Rightarrow> frame_core" where
  "start_frame frame = \<lparr>fc_pc = Frame_start, fc_frame = frame, fc_hash = 0, fc_i = 0, fc_backend = 0\<rparr>"

section \<open>What a core knows\<close>

definition core_probe :: "(u64 \<Rightarrow> u64 \<Rightarrow> u64) \<Rightarrow> u64 \<Rightarrow> maglev_state \<Rightarrow> frame_core \<Rightarrow> bool" where
  "core_probe crc CAPACITY st w \<longleftrightarrow>
     fc_backend w = lut_backend st (fc_hash w) \<and>
     passed 0 (mhome crc CAPACITY) (mview (maglev_conntrack st)) (fc_hash w) (unat (fc_i w))"

definition core_holds :: "(u64 \<Rightarrow> u64 \<Rightarrow> u64) \<Rightarrow> u64 \<Rightarrow> maglev_state \<Rightarrow> frame_core \<Rightarrow> bool" where
  "core_holds crc CAPACITY st w \<longleftrightarrow>
     (let T = mview (maglev_conntrack st); p = probe_slot crc CAPACITY w; h = fc_hash w in
      case fc_pc w of
        Frame_start \<Rightarrow> flowhash (fc_frame w) \<noteq> None
      | Answered b \<Rightarrow> True
      | Get_empty \<Rightarrow> fc_i w \<le> CAPACITY
      | Get_match \<Rightarrow> fc_i w < CAPACITY
      | Get_value \<Rightarrow> fc_i w < CAPACITY \<and> fst (T ! p) = h
      | Insert_load \<Rightarrow> fc_i w \<le> CAPACITY \<and> core_probe crc CAPACITY st w
      | Insert_swap \<Rightarrow> fc_i w < CAPACITY \<and> core_probe crc CAPACITY st w
      | Insert_compare \<Rightarrow> fc_i w < CAPACITY \<and> core_probe crc CAPACITY st w \<and> occupied 0 T p
      | Insert_store \<Rightarrow> fc_i w < CAPACITY \<and> core_probe crc CAPACITY st w \<and> fst (T ! p) = h)"

definition frame_ok :: "(u64 \<Rightarrow> u64 \<Rightarrow> u64) \<Rightarrow> u64 \<Rightarrow> maglev_state \<Rightarrow> frame_core \<Rightarrow> bool" where
  "frame_ok crc CAPACITY st w \<longleftrightarrow>
     (fc_pc w \<noteq> Frame_start \<and> \<not> answered w \<longrightarrow> flowhash (fc_frame w) = Some (fc_hash w) \<and> fc_hash w \<noteq> 0) \<and>
     core_holds crc CAPACITY st w"

definition frame_rank :: "nat \<Rightarrow> frame_core \<Rightarrow> nat" where
  "frame_rank n w =
     (let left = n - unat (fc_i w) in
      case fc_pc w of
        Frame_start \<Rightarrow> 5 * n + 3
      | Get_empty \<Rightarrow> 2 * left + 3 * n + 2
      | Get_match \<Rightarrow> 2 * left + 3 * n + 1
      | Get_value \<Rightarrow> 1
      | Insert_load \<Rightarrow> 3 * left + 1
      | Insert_swap \<Rightarrow> 3 * left
      | Insert_compare \<Rightarrow> 3 * left - 1
      | Insert_store \<Rightarrow> 1
      | Answered b \<Rightarrow> 0)"

text \<open>The frame as one operation on the map of tracked flows.\<close>

definition frame_spec :: "(u64 \<Rightarrow> u64) \<Rightarrow> nat \<Rightarrow> u8 list \<Rightarrow> (u64 \<rightharpoonup> u64) \<Rightarrow> u64 \<times> (u64 \<rightharpoonup> u64)" where
  "frame_spec lut n frame m =
     (case flowhash frame of
        None \<Rightarrow> (0, m)
      | Some h \<Rightarrow>
          if h = 0 then (0, m)
          else case m h of
            Some v \<Rightarrow> (v, m)
          | None \<Rightarrow> if card (dom m) < n then (lut h, m(h \<mapsto> lut h)) else (0, m))"

text \<open>The shared state: well formed, and every flow has the backend the lookup table gives it.\<close>

definition conntrack_ok :: "(u64 \<Rightarrow> u64 \<Rightarrow> u64) \<Rightarrow> u64 \<Rightarrow> maglev_state \<Rightarrow> bool" where
  "conntrack_ok crc CAPACITY st \<longleftrightarrow>
     maglev_ok crc CAPACITY st \<and> (\<forall>h v. flows st h = Some v \<longrightarrow> v = lut_backend st h)"

definition conntrack_grows :: "maglev_state \<Rightarrow> maglev_state \<Rightarrow> bool" where
  "conntrack_grows st st' \<longleftrightarrow>
     grows 0 (mview (maglev_conntrack st)) (mview (maglev_conntrack st')) \<and> maglev_lookup st' = maglev_lookup st"

lemma conntrack_facts:
  assumes "conntrack_ok crc c st"
  shows "pow2_u64 c" and "length (mpairs (maglev_conntrack st)) = unat c" and "0 < unat c"
    and "wf_probe 0 (mhome crc c) (mview (maglev_conntrack st))" and "unique_keys 0 (mview (maglev_conntrack st))"
    and "p < unat c \<Longrightarrow> mkey (mpairs (maglev_conntrack st) ! p) = 0 \<Longrightarrow> mvalue (mpairs (maglev_conntrack st) ! p) = 0"
    and "length (maglev_lookup st) = TABLE_SIZE" and "maglev_inv crc c (maglev_conntrack st)"
  using assms by (auto simp: conntrack_ok_def maglev_ok_def maglev_inv_def wf_probe_def pow2_pos)

lemma probe_slot_eq:
  assumes "pow2_u64 c"
  shows "probe_slot crc c w = (mhome crc c (fc_hash w) + unat (fc_i w)) mod unat c"
proof -
  have "maglev_hash crc (fc_hash w) AND (c - 1) < c"
    using pow2_pos [OF assms] by (simp add: word_less_nat_alt unat_and_mask [OF assms])
  from masked_slot [OF assms this] show ?thesis by (simp add: probe_slot_def mhome_def)
qed

lemma conntrack_room:
  assumes "conntrack_ok crc c st"
  shows "card (dom (flows st)) < unat c \<longleftrightarrow> (\<exists>p<unat c. \<not> occupied 0 (mview (maglev_conntrack st)) p)"
  using card_dom_full [OF conntrack_facts(5) [OF assms]] conntrack_facts(2) [OF assms]
  by (simp add: flows_def maglev_map_def)

lemma frame_ok_stable:
  assumes "frame_ok crc c st w" and "conntrack_grows st st'" and "conntrack_ok crc c st"
  shows "frame_ok crc c st' w"
proof -
  let ?T = "mview (maglev_conntrack st)" and ?T' = "mview (maglev_conntrack st')" and ?p = "probe_slot crc c w"
  have g: "grows 0 ?T ?T'" and lut: "lut_backend st' = lut_backend st"
    using assms(2) by (auto simp: conntrack_grows_def lut_backend_def)
  have p: "?p < length ?T"
    using conntrack_facts(1-3) [OF assms(3)] by (simp add: probe_slot_eq)
  have ne: "?T \<noteq> []" using p by (metis length_0_conv less_nat_zero_code)
  have occ: "occupied 0 ?T ?p \<Longrightarrow> occupied 0 ?T' ?p" using grows_occupied [OF g p] .
  have key: "fst (?T' ! ?p) = fst (?T ! ?p)" if "fst (?T ! ?p) \<noteq> 0"
    using g p that unfolding grows_def occupied_def by blast
  have probe: "core_probe crc c st w \<Longrightarrow> core_probe crc c st' w"
    using passed_grows [OF _ g ne] lut by (simp add: core_probe_def)
  have hash: "fc_hash w \<noteq> 0" if "fc_pc w \<noteq> Frame_start" "\<not> answered w"
    using assms(1) that by (simp add: frame_ok_def)
  have "core_holds crc c st' w"
    using assms(1) probe occ key hash
    by (cases "fc_pc w") (simp_all add: frame_ok_def core_holds_def Let_def answered_def)
  then show ?thesis using assms(1) by (simp add: frame_ok_def)
qed

section \<open>One step\<close>

definition frame_turn ::
  "(u64 \<Rightarrow> u64 \<Rightarrow> u64) \<Rightarrow> u64 \<Rightarrow> maglev_state \<Rightarrow> frame_core \<Rightarrow> maglev_state \<Rightarrow> frame_core \<Rightarrow> bool" where
  "frame_turn crc CAPACITY st w st' w' \<longleftrightarrow>
     conntrack_ok crc CAPACITY st' \<and> conntrack_grows st st' \<and> frame_ok crc CAPACITY st' w' \<and>
     frame_rank (unat CAPACITY) w' < frame_rank (unat CAPACITY) w \<and> fc_frame w' = fc_frame w \<and>
     (if answered w' then frame_spec (lut_backend st) (unat CAPACITY) (fc_frame w) (flows st) = (answer w', flows st')
      else flows st' = flows st)"

text \<open>A step that only moves on leaves the shared state alone.\<close>

lemma frame_turn_same:
  assumes "conntrack_ok crc c st" and "frame_ok crc c st w'" and "frame_rank (unat c) w' < frame_rank (unat c) w"
    and "fc_frame w' = fc_frame w"
    and "answered w' \<Longrightarrow> frame_spec (lut_backend st) (unat c) (fc_frame w) (flows st) = (answer w', flows st)"
  shows "frame_turn crc c st w st w'"
  using assms by (simp add: frame_turn_def conntrack_grows_def)

text \<open>A step that writes the backend of the flow into a slot.\<close>

lemma frame_turn_store:
  assumes "conntrack_ok crc c st" and "flowhash (fc_frame w) = Some h" and "h \<noteq> 0" and "0 < frame_rank (unat c) w"
    and "p < unat c" and "mkey (mpairs (maglev_conntrack st) ! p) = 0 \<or> mkey (mpairs (maglev_conntrack st) ! p) = h"
    and "wf_probe 0 (mhome crc c) ((mview (maglev_conntrack st))[p := (h, lut_backend st h)])"
    and "tab_map 0 ((mview (maglev_conntrack st))[p := (h, lut_backend st h)]) = (flows st)(h \<mapsto> lut_backend st h)"
    and "flows st h = None \<Longrightarrow> card (dom (flows st)) < unat c"
  shows "frame_turn crc c st w (st\<lparr>maglev_conntrack := mstore (maglev_conntrack st) p h (lut_backend st h)\<rparr>)
    (w\<lparr>fc_pc := Answered (lut_backend st h)\<rparr>)"
proof -
  let ?st = "st\<lparr>maglev_conntrack := mstore (maglev_conntrack st) p h (lut_backend st h)\<rparr>"
  note f = conntrack_facts [OF assms(1)]
  have lut: "lut_backend ?st = lut_backend st" by (auto simp: lut_backend_def)
  have flows: "flows ?st = (flows st)(h \<mapsto> lut_backend st h)" using assms(8) by (simp add: flows_def maglev_map_def)
  have "maglev_inv crc c (maglev_conntrack ?st)" using maglev_inv_mstore [OF f(8) assms(7,3)] by simp
  moreover have agree: "v = lut_backend st k" if "flows st k = Some v" for k v
    using assms(1) that by (simp add: conntrack_ok_def)
  ultimately have "conntrack_ok crc c ?st"
    using f(7) by (auto simp: conntrack_ok_def maglev_ok_def lut flows split: if_splits)
  moreover have "conntrack_grows st ?st"
    using assms(5,6) f(2) by (auto simp: conntrack_grows_def intro!: grows_update)
  moreover have "frame_spec (lut_backend st) (unat c) (fc_frame w) (flows st) = (lut_backend st h, flows ?st)"
  proof (cases "flows st h")
    case None
    then show ?thesis using assms(2,3,9) by (simp add: frame_spec_def flows)
  next
    case (Some v)
    then have "v = lut_backend st h" by (rule agree)
    then have "(flows st)(h \<mapsto> lut_backend st h) = flows st" using Some by (simp add: fun_upd_idem)
    then show ?thesis using assms(2,3) Some \<open>v = lut_backend st h\<close> by (simp add: frame_spec_def flows)
  qed
  ultimately show ?thesis
    using assms(4) by (simp add: frame_turn_def frame_ok_def core_holds_def answered_def answer_def frame_rank_def)
qed

lemma begin_insert_turn:
  assumes "conntrack_ok crc c st" and "frame_ok crc c st w" and "fc_pc w = Get_empty"
  shows "\<exists>w'. begin_insert st w = Some w' \<and> frame_turn crc c st w st w'"
proof -
  let ?w = "w\<lparr>fc_pc := Insert_load, fc_i := 0, fc_backend := lut_backend st (fc_hash w)\<rparr>"
  have "begin_insert st w = Some ?w"
    using conntrack_facts(7) [OF assms(1)] lut_index [of "fc_hash w"] by (simp add: begin_insert_def lut_backend_def)
  moreover have "frame_turn crc c st w st ?w"
    using assms
    by (intro frame_turn_same)
      (simp_all add: frame_ok_def core_holds_def core_probe_def answered_def frame_rank_def Let_def)
  ultimately show ?thesis by blast
qed

lemmas frame_simps = frame_ok_def core_holds_def core_probe_def answered_def answer_def frame_rank_def Let_def

lemma frame_slot:
  assumes "conntrack_ok crc c st"
  shows "probe_slot crc c w < unat c" and "probe_slot crc c w < length (mpairs (maglev_conntrack st))"
  using conntrack_facts(1-3) [OF assms] by (simp_all add: probe_slot_eq)

lemma next_round: "(i::u64) < c \<Longrightarrow> i + 1 \<le> c \<and> unat (i + 1) = Suc (unat i)"
  using inc_le unat_inc by blast

lemma turn_Frame_start:
  assumes "conntrack_ok crc c st" and "frame_ok crc c st w" and "fc_pc w = Frame_start"
  shows "\<exists>st' w'. frame_step crc c st w = Some (st', w') \<and> frame_turn crc c st w st' w'"
proof -
  obtain h where h: "flowhash (fc_frame w) = Some h" using assms(2,3) by (auto simp: frame_simps)
  let ?w = "if h > 0 then w\<lparr>fc_pc := Get_empty, fc_hash := h, fc_i := 0\<rparr> else w\<lparr>fc_pc := Answered 0\<rparr>"
  have "frame_turn crc c st w st ?w"
    using assms h by (intro frame_turn_same) (auto simp: frame_simps frame_spec_def)
  then show ?thesis using h assms(3) by (auto simp: frame_step_def Let_def)
qed

lemma turn_Get_empty:
  assumes "conntrack_ok crc c st" and "frame_ok crc c st w" and "fc_pc w = Get_empty"
  shows "\<exists>st' w'. frame_step crc c st w = Some (st', w') \<and> frame_turn crc c st w st' w'"
proof -
  note p = frame_slot [OF assms(1), of w]
  obtain w' where b: "begin_insert st w = Some w'" "frame_turn crc c st w st w'" using begin_insert_turn [OF assms] by blast
  show ?thesis
  proof (cases "fc_i w < c \<and> mkey (mpairs (maglev_conntrack st) ! probe_slot crc c w) \<noteq> 0")
    case False
    then show ?thesis using b p assms(3) by (auto simp: frame_step_def Let_def)
  next
    case True
    let ?w = "w\<lparr>fc_pc := Get_match\<rparr>"
    have "unat (fc_i w) < unat c" using True by (simp add: word_less_nat_alt)
    then have "frame_turn crc c st w st ?w"
      using assms True by (intro frame_turn_same) (auto simp: frame_simps split: if_splits)
    then show ?thesis using True p assms(3) by (auto simp: frame_step_def Let_def)
  qed
qed

lemma turn_Get_match:
  assumes "conntrack_ok crc c st" and "frame_ok crc c st w" and "fc_pc w = Get_match"
  shows "\<exists>st' w'. frame_step crc c st w = Some (st', w') \<and> frame_turn crc c st w st' w'"
proof -
  let ?p = "probe_slot crc c w"
  note p = frame_slot [OF assms(1), of w]
  have i: "fc_i w < c" using assms(2,3) by (simp add: frame_simps)
  then have n: "unat (fc_i w) < unat c" by (simp add: word_less_nat_alt)
  let ?w = "if mkey (mpairs (maglev_conntrack st) ! ?p) = fc_hash w then w\<lparr>fc_pc := Get_value\<rparr>
      else w\<lparr>fc_pc := Get_empty, fc_i := fc_i w + 1\<rparr>"
  have s: "probe_slot crc c (w\<lparr>fc_pc := Get_value\<rparr>) = ?p" by (simp add: probe_slot_def)
  have "frame_turn crc c st w st ?w"
    using assms i n next_round [OF i] p s by (intro frame_turn_same) (auto simp: frame_simps split: if_splits)
  then show ?thesis using p assms(3) by (auto simp: frame_step_def Let_def)
qed

lemma turn_Get_value:
  assumes "conntrack_ok crc c st" and "frame_ok crc c st w" and "fc_pc w = Get_value"
  shows "\<exists>st' w'. frame_step crc c st w = Some (st', w') \<and> frame_turn crc c st w st' w'"
proof -
  let ?p = "probe_slot crc c w" and ?T = "mview (maglev_conntrack st)"
  note p = frame_slot [OF assms(1), of w] and f = conntrack_facts [OF assms(1)]
  have h: "flowhash (fc_frame w) = Some (fc_hash w)" "fc_hash w \<noteq> 0" "fst (?T ! ?p) = fc_hash w"
    using assms(2,3) by (auto simp: frame_simps)
  then have "tab_map 0 ?T (fc_hash w) = Some (snd (?T ! ?p))"
    using tab_map_slot [OF f(5), of ?p] p by (auto simp: occupied_def)
  then have m: "flows st (fc_hash w) = Some (mvalue (mpairs (maglev_conntrack st) ! ?p))"
    using p by (simp add: flows_def maglev_map_def)
  let ?w = "w\<lparr>fc_pc := Answered (mvalue (mpairs (maglev_conntrack st) ! ?p))\<rparr>"
  have "frame_turn crc c st w st ?w"
    using assms h m by (intro frame_turn_same) (auto simp: frame_simps frame_spec_def)
  then show ?thesis using p assms(3) by (auto simp: frame_step_def Let_def)
qed

lemma turn_Insert_load:
  assumes "conntrack_ok crc c st" and "frame_ok crc c st w" and "fc_pc w = Insert_load"
  shows "\<exists>st' w'. frame_step crc c st w = Some (st', w') \<and> frame_turn crc c st w st' w'"
proof (cases "fc_i w < c")
  case True
  let ?p = "probe_slot crc c w"
  note p = frame_slot [OF assms(1), of w]
  have n: "unat (fc_i w) < unat c" using True by (simp add: word_less_nat_alt)
  let ?w = "w\<lparr>fc_pc := (if mkey (mpairs (maglev_conntrack st) ! ?p) = 0 then Insert_swap else Insert_compare)\<rparr>"
  have s: "probe_slot crc c ?w = ?p" by (simp add: probe_slot_def)
  have "frame_turn crc c st w st ?w"
    using assms True n p s by (intro frame_turn_same) (auto simp: frame_simps occupied_def split: if_splits)
  then show ?thesis using True p assms(3) by (auto simp: frame_step_def Let_def)
next
  case False
  note f = conntrack_facts [OF assms(1)]
  have h: "flowhash (fc_frame w) = Some (fc_hash w)" "fc_hash w \<noteq> 0" "fc_i w \<le> c"
    "passed 0 (mhome crc c) (mview (maglev_conntrack st)) (fc_hash w) (unat (fc_i w))"
    using assms(2,3) by (auto simp: frame_simps)
  then have "fc_i w = c" using False by simp
  then have "passed 0 (mhome crc c) (mview (maglev_conntrack st)) (fc_hash w) (length (mview (maglev_conntrack st)))"
    using h(4) f(2) by simp
  note full = passed_all [OF f(4) this h(2)]
  have "\<not> card (dom (flows st)) < unat c" unfolding conntrack_room [OF assms(1)] using full(2) f(2) by simp
  then have "frame_turn crc c st w st (w\<lparr>fc_pc := Answered 0\<rparr>)"
    using assms h full(1) by (intro frame_turn_same) (auto simp: frame_simps frame_spec_def flows_def maglev_map_def)
  then show ?thesis using False assms(3) by (auto simp: frame_step_def Let_def)
qed

lemma turn_Insert_swap:
  assumes "conntrack_ok crc c st" and "frame_ok crc c st w" and "fc_pc w = Insert_swap"
  shows "\<exists>st' w'. frame_step crc c st w = Some (st', w') \<and> frame_turn crc c st w st' w'"
proof -
  let ?p = "probe_slot crc c w" and ?T = "mview (maglev_conntrack st)" and ?h = "fc_hash w"
  note p = frame_slot [OF assms(1), of w] and f = conntrack_facts [OF assms(1)]
  have h: "flowhash (fc_frame w) = Some ?h" "?h \<noteq> 0" "fc_i w < c" "fc_backend w = lut_backend st ?h"
    "passed 0 (mhome crc c) ?T ?h (unat (fc_i w))" using assms(2,3) by (auto simp: frame_simps)
  have n: "unat (fc_i w) < unat c" using h(3) by (simp add: word_less_nat_alt)
  show ?thesis
  proof (cases "mkey (mpairs (maglev_conntrack st) ! ?p) = 0")
    case True
    have room: "room_at 0 (mhome crc c) ?T ?h ?p"
      using passed_room [OF f(4) h(5) _ h(2)] n True p f(2) by (simp add: probe_slot_eq [OF f(1)])
    have free: "card (dom (flows st)) < unat c"
      unfolding conntrack_room [OF assms(1)] using True p by (auto simp: occupied_def)
    have "0 < frame_rank (unat c) w" using assms(3) n by (simp add: frame_rank_def)
    from frame_turn_store [OF assms(1) h(1,2) this p(1) _ wf_probe_store [OF f(4) room] tab_map_store [OF f(4) room, folded maglev_map_def flows_def] free]
    have "frame_turn crc c st w (st\<lparr>maglev_conntrack := mstore (maglev_conntrack st) ?p ?h (lut_backend st ?h)\<rparr>)
        (w\<lparr>fc_pc := Answered (lut_backend st ?h)\<rparr>)" using True by blast
    then show ?thesis
      using True p f(6) [OF p(1)] h(4) assms(3) by (auto simp: frame_step_def Let_def maglev_cas_def mstore_def)
  next
    case False
    let ?w = "w\<lparr>fc_pc := Insert_compare\<rparr>"
    have s: "probe_slot crc c ?w = ?p" by (simp add: probe_slot_def)
    have "frame_turn crc c st w st ?w"
      using assms False h n p s by (intro frame_turn_same) (auto simp: frame_simps occupied_def split: if_splits)
    then show ?thesis using False p assms(3) by (auto simp: frame_step_def Let_def maglev_cas_def)
  qed
qed

lemma turn_Insert_compare:
  assumes "conntrack_ok crc c st" and "frame_ok crc c st w" and "fc_pc w = Insert_compare"
  shows "\<exists>st' w'. frame_step crc c st w = Some (st', w') \<and> frame_turn crc c st w st' w'"
proof -
  let ?p = "probe_slot crc c w" and ?T = "mview (maglev_conntrack st)" and ?h = "fc_hash w"
  note p = frame_slot [OF assms(1), of w] and f = conntrack_facts [OF assms(1)]
  have h: "flowhash (fc_frame w) = Some ?h" "?h \<noteq> 0" "fc_i w < c" "fc_backend w = lut_backend st ?h"
    "passed 0 (mhome crc c) ?T ?h (unat (fc_i w))" "occupied 0 ?T ?p" using assms(2,3) by (auto simp: frame_simps)
  have n: "unat (fc_i w) < unat c" using h(3) by (simp add: word_less_nat_alt)
  let ?w = "if mkey (mpairs (maglev_conntrack st) ! ?p) = ?h then w\<lparr>fc_pc := Insert_store\<rparr>
      else w\<lparr>fc_pc := Insert_load, fc_i := fc_i w + 1\<rparr>"
  have s: "probe_slot crc c (w\<lparr>fc_pc := Insert_store\<rparr>) = ?p" by (simp add: probe_slot_def)
  have "passed 0 (mhome crc c) ?T ?h (Suc (unat (fc_i w)))" if "mkey (mpairs (maglev_conntrack st) ! ?p) \<noteq> ?h"
    using that h(5,6) p f(2) by (simp add: passed_Suc probe_slot_eq [OF f(1)])
  then have "frame_turn crc c st w st ?w"
    using assms h n next_round [OF h(3)] p s by (intro frame_turn_same) (auto simp: frame_simps split: if_splits)
  then show ?thesis using p assms(3) by (auto simp: frame_step_def Let_def)
qed

lemma turn_Insert_store:
  assumes "conntrack_ok crc c st" and "frame_ok crc c st w" and "fc_pc w = Insert_store"
  shows "\<exists>st' w'. frame_step crc c st w = Some (st', w') \<and> frame_turn crc c st w st' w'"
proof -
  let ?p = "probe_slot crc c w" and ?T = "mview (maglev_conntrack st)" and ?h = "fc_hash w"
  note p = frame_slot [OF assms(1), of w] and f = conntrack_facts [OF assms(1)]
  have h: "flowhash (fc_frame w) = Some ?h" "?h \<noteq> 0" "fc_backend w = lut_backend st ?h" "fst (?T ! ?p) = ?h"
    using assms(2,3) by (auto simp: frame_simps)
  have pT: "?p < length ?T" using p by simp
  have rank: "0 < frame_rank (unat c) w" using assms(3) by (simp add: frame_rank_def)
  have key: "mkey (mpairs (maglev_conntrack st) ! ?p) = ?h" using h(4) p by simp
  have "flows st ?h \<noteq> None"
    using tab_map_slot [OF f(5) pT] h(2,4) by (auto simp: flows_def maglev_map_def occupied_def)
  then have room: "flows st ?h = None \<Longrightarrow> card (dom (flows st)) < unat c" by simp
  have "frame_turn crc c st w (st\<lparr>maglev_conntrack := mstore (maglev_conntrack st) ?p ?h (lut_backend st ?h)\<rparr>)
      (w\<lparr>fc_pc := Answered (lut_backend st ?h)\<rparr>)"
    by (rule frame_turn_store [OF assms(1) h(1,2) rank p(1) disjI2 [OF key] wf_probe_update [OF f(4) pT h(4)]
        tab_map_update [OF f(4) pT h(4,2), folded maglev_map_def flows_def] room])
  then show ?thesis
    using p h(3) assms(3) key
    by (auto simp: frame_step_def Let_def mstore_def maglev_kv_update)
qed

lemma frame_step_turn:
  assumes "conntrack_ok crc c st" and "frame_ok crc c st w" and "\<not> answered w"
  shows "\<exists>st' w'. frame_step crc c st w = Some (st', w') \<and> frame_turn crc c st w st' w'"
  using assms(3) turn_Frame_start [OF assms(1,2)] turn_Get_empty [OF assms(1,2)] turn_Get_match [OF assms(1,2)]
    turn_Get_value [OF assms(1,2)] turn_Insert_load [OF assms(1,2)] turn_Insert_swap [OF assms(1,2)]
    turn_Insert_compare [OF assms(1,2)] turn_Insert_store [OF assms(1,2)]
  by (cases "fc_pc w") (simp_all add: answered_def)

interpretation maglev_cores: atomic_step "frame_step crc c" answered
    "\<lambda>st. conntrack_ok crc c st \<and> maglev_lookup st = lut" "frame_ok crc c"
    "\<lambda>st st'. conntrack_grows st st' \<and> conntrack_ok crc c st" "frame_rank (unat c)"
    flows fc_frame answer "frame_spec (\<lambda>h. lut ! (unat h mod TABLE_SIZE)) (unat c)"
  for crc c lut
proof unfold_locales
  fix s l
  assume a: "conntrack_ok crc c s \<and> maglev_lookup s = lut" "frame_ok crc c s l" "\<not> answered l"
  then obtain s' l' where t: "frame_step crc c s l = Some (s', l')" "frame_turn crc c s l s' l'"
    using frame_step_turn by blast
  then show "\<exists>s' l'. frame_step crc c s l = Some (s', l') \<and> (conntrack_ok crc c s' \<and> maglev_lookup s' = lut) \<and>
      frame_ok crc c s' l' \<and> (conntrack_grows s s' \<and> conntrack_ok crc c s) \<and>
      frame_rank (unat c) l' < frame_rank (unat c) l"
    using a(1) by (intro exI [of _ s'] exI [of _ l']) (simp add: frame_turn_def conntrack_grows_def)
  have lut: "lut_backend s = (\<lambda>h. lut ! (unat h mod TABLE_SIZE))" using a(1) by (auto simp: lut_backend_def)
  fix s1 l1
  assume "frame_step crc c s l = Some (s1, l1)"
  then have "s1 = s'" "l1 = l'" using t(1) by simp_all
  then show "fc_frame l1 = fc_frame l \<and>
      (if answered l1 then frame_spec (\<lambda>h. lut ! (unat h mod TABLE_SIZE)) (unat c) (fc_frame l) (flows s) = (answer l1, flows s1)
       else flows s1 = flows s)"
    using t(2) unfolding frame_turn_def lut by blast
next
  fix s l s'
  assume "frame_ok crc c s l" "conntrack_grows s s' \<and> conntrack_ok crc c s"
  then show "frame_ok crc c s' l" using frame_ok_stable by blast
qed

section \<open>All cores together\<close>

text \<open>The sequential handler meets the same specification.\<close>

lemma process_frame_spec:
  assumes "conntrack_ok crc c st" and "flowhash f = Some h"
  shows "\<exists>b st'. maglev_process_frame crc c f st = Some (b, st') \<and> conntrack_ok crc c st' \<and>
    maglev_lookup st' = maglev_lookup st \<and> frame_spec (lut_backend st) (unat c) f (flows st) = (b, flows st')"
proof -
  have "maglev_ok crc c st" using assms(1) by (simp add: conntrack_ok_def)
  from maglev_process_cases [OF this assms(2)] obtain b st' where
    r: "maglev_process_frame crc c f st = Some (b, st')" "maglev_ok crc c st'" "maglev_lookup st' = maglev_lookup st"
    and cases: "h = 0 \<and> b = 0 \<and> st' = st \<or>
     h \<noteq> 0 \<and> flows st h = Some b \<and> st' = st \<or>
     h \<noteq> 0 \<and> flows st h = None \<and> b = lut_backend st h \<and> flows st' = (flows st)(h \<mapsto> b) \<or>
     h \<noteq> 0 \<and> flows st h = None \<and> b = 0 \<and> st' = st \<and>
       (\<forall>kv \<in> set (mpairs (maglev_conntrack st)). mkey kv \<noteq> 0)" by blast
  have lut: "lut_backend st' = lut_backend st" using r(3) by (auto simp: lut_backend_def)
  have full: "\<not> card (dom (flows st)) < unat c" if "\<forall>kv \<in> set (mpairs (maglev_conntrack st)). mkey kv \<noteq> 0"
    unfolding conntrack_room [OF assms(1)] using that conntrack_facts(2) [OF assms(1)] by (auto simp: occupied_def)
  have room: "card (dom (flows st)) < unat c" if new: "flows st h = None" "flows st' = (flows st)(h \<mapsto> b)"
  proof -
    have ok': "maglev_inv crc c (maglev_conntrack st')" using r(2) by (simp add: maglev_ok_def)
    have len: "length (mview (maglev_conntrack st')) = unat c" and u: "unique_keys 0 (mview (maglev_conntrack st'))"
      using ok' by (auto simp: maglev_inv_def wf_probe_def)
    have "card (dom (flows st')) \<le> unat c"
      using card_dom_tab_map [OF u] card_mono [of "{..<unat c}" "{p. p < unat c \<and> occupied 0 (mview (maglev_conntrack st')) p}"]
      by (auto simp: flows_def maglev_map_def len simp del: length_mview)
    moreover have "finite (dom (flows st))" by (simp add: flows_def maglev_map_def tab_map_def finite_dom_map_of)
    then have "card (dom (flows st')) = Suc (card (dom (flows st)))" using new by (simp add: card_insert_if domIff)
    ultimately show ?thesis by simp
  qed
  have "\<forall>k v. flows st' k = Some v \<longrightarrow> v = lut_backend st' k"
    using cases assms(1) unfolding lut conntrack_ok_def by (auto split: if_splits)
  moreover have "frame_spec (lut_backend st) (unat c) f (flows st) = (b, flows st')"
    using cases full room assms(2) by (auto simp: frame_spec_def)
  ultimately show ?thesis using r by (auto simp: conntrack_ok_def)
qed

lemma maglev_run_spec:
  assumes "conntrack_ok crc c st" and "\<forall>f \<in> set fs. flowhash f \<noteq> None"
  shows "\<exists>st'. maglev_run crc c fs st = Some (fst (spec_run (frame_spec (lut_backend st) (unat c)) fs (flows st)), st') \<and>
    flows st' = snd (spec_run (frame_spec (lut_backend st) (unat c)) fs (flows st))"
  using assms
proof (induction fs arbitrary: st)
  case Nil
  then show ?case by simp
next
  case (Cons f fs)
  obtain h where h: "flowhash f = Some h" using Cons.prems(2) by auto
  obtain b st1 where s: "maglev_process_frame crc c f st = Some (b, st1)" "conntrack_ok crc c st1"
    "maglev_lookup st1 = maglev_lookup st" "frame_spec (lut_backend st) (unat c) f (flows st) = (b, flows st1)"
    using process_frame_spec [OF Cons.prems(1) h] by blast
  have lut: "lut_backend st1 = lut_backend st" using s(3) by (auto simp: lut_backend_def)
  have "\<forall>f \<in> set fs. flowhash f \<noteq> None" using Cons.prems(2) by simp
  from Cons.IH [OF s(2) this] obtain st2 where
    "maglev_run crc c fs st1 = Some (fst (spec_run (frame_spec (lut_backend st) (unat c)) fs (flows st1)), st2)"
    "flows st2 = snd (spec_run (frame_spec (lut_backend st) (unat c)) fs (flows st1))" unfolding lut by blast
  then show ?case using s(1,4) by (simp split: prod.splits)
qed

lemma start_frames:
  assumes "\<forall>f \<in> set frames. 78 \<le> length f"
  shows "\<forall>w \<in> set (List.map start_frame frames). frame_ok crc c st w"
    and "i < length frames \<Longrightarrow> \<not> answered (List.map start_frame frames ! i)"
    and "frame_rank n (start_frame f) = 5 * n + 3" and "\<forall>f \<in> set frames. flowhash f \<noteq> None"
proof -
  show f: "\<forall>f \<in> set frames. flowhash f \<noteq> None" using assms flowhash_Some_len by fastforce
  then show "\<forall>w \<in> set (List.map start_frame frames). frame_ok crc c st w"
    by (auto simp: start_frame_def frame_ok_def core_holds_def Let_def answered_def)
  show "i < length frames \<Longrightarrow> \<not> answered (List.map start_frame frames ! i)"
    by (simp add: start_frame_def answered_def)
  show "frame_rank n (start_frame f) = 5 * n + 3" by (simp add: start_frame_def frame_rank_def)
qed

lemma maglev_cores_run:
  assumes "conntrack_ok crc c st" and "\<forall>f \<in> set frames. 78 \<le> length f"
  obtains log st' ws' where
    "run_cores (frame_step crc c) answered sched st (List.map start_frame frames) = Some (log, st', ws')"
    and "conntrack_ok crc c st'" and "maglev_lookup st' = maglev_lookup st"
    and "distinct log" and "set log = {i. i < length frames \<and> answered (ws' ! i)}"
    and "spec_run (frame_spec (lut_backend st) (unat c)) (List.map (\<lambda>i. frames ! i) log) (flows st) =
      (List.map (\<lambda>i. answer (ws' ! i)) log, flows st')"
    and "\<forall>i<length frames. 5 * unat c + 3 \<le> length (filter (\<lambda>j. j = i) sched) \<longrightarrow> answered (ws' ! i)"
proof -
  have inv: "conntrack_ok crc c st \<and> maglev_lookup st = maglev_lookup st" using assms(1) by simp
  note start = start_frames [OF assms(2)]
  from maglev_cores.run_returns [OF inv start(1)] obtain log st' ws' where
    r: "run_cores (frame_step crc c) answered sched st (List.map start_frame frames) = Some (log, st', ws')"
    "conntrack_ok crc c st' \<and> maglev_lookup st' = maglev_lookup st" by blast
  note l = maglev_cores.run_linearizable [OF inv start(1) r(1)]
  have st: "set log = {i. i < length frames \<and> answered (ws' ! i)}" using l start(2) by auto
  have e: "List.map (\<lambda>i. fc_frame (List.map start_frame frames ! i)) log = List.map (\<lambda>i. frames ! i) log"
    using st by (intro map_cong) (auto simp: start_frame_def)
  have lut: "(\<lambda>h. maglev_lookup st ! (unat h mod TABLE_SIZE)) = lut_backend st" by (auto simp: lut_backend_def)
  have spec: "spec_run (frame_spec (lut_backend st) (unat c)) (List.map (\<lambda>i. frames ! i) log) (flows st) =
      (List.map (\<lambda>i. answer (ws' ! i)) log, flows st')" using l unfolding e lut by blast
  have d: "distinct log" using l by blast
  have fin: "\<forall>i<length frames. 5 * unat c + 3 \<le> length (filter (\<lambda>j. j = i) sched) \<longrightarrow> answered (ws' ! i)"
    using maglev_cores.run_finishes [OF inv start(1) _ _ r(1)] by (simp add: start(3))
  show thesis by (rule that [OF r(1) conjunct1 [OF r(2)] conjunct2 [OF r(2)] d st spec fin])
qed

text \<open>
  C4: frames handled by several cores at the same time are handled as if one after the other.
  In every interleaving of the cores' accesses to the connection table, none is out of bounds
  and the table stays well formed; the frames that were answered got the backends, and left the
  flows, that \<open>maglev_process_frame\<close> gives when it handles them one after the other in some order;
  and a core that made \<open>5 n + 3\<close> accesses, for a table of \<open>n\<close> slots, has its answer, whatever the
  others do.
\<close>

theorem maglev_cores_linearizable:
  assumes "maglev_ok crc CAPACITY st" and "\<forall>h v. flows st h = Some v \<longrightarrow> v = lut_backend st h"
    and "\<forall>f \<in> set frames. 78 \<le> length f"
  shows "\<exists>log st' ws'. run_cores (frame_step crc CAPACITY) answered sched st (List.map start_frame frames) = Some (log, st', ws') \<and>
    maglev_ok crc CAPACITY st' \<and> distinct log \<and> set log = {i. i < length frames \<and> answered (ws' ! i)} \<and>
    (\<exists>st2. maglev_run crc CAPACITY (List.map (\<lambda>i. frames ! i) log) st = Some (List.map (\<lambda>i. answer (ws' ! i)) log, st2) \<and>
       flows st2 = flows st') \<and>
    (\<forall>i<length frames. 5 * unat CAPACITY + 3 \<le> length (filter (\<lambda>j. j = i) sched) \<longrightarrow> answered (ws' ! i))"
proof -
  have ok: "conntrack_ok crc CAPACITY st" using assms(1,2) by (simp add: conntrack_ok_def)
  obtain log st' ws' where
    r: "run_cores (frame_step crc CAPACITY) answered sched st (List.map start_frame frames) = Some (log, st', ws')"
    and ok': "conntrack_ok crc CAPACITY st'" and lut: "maglev_lookup st' = maglev_lookup st" and d: "distinct log" and st: "set log = {i. i < length frames \<and> answered (ws' ! i)}"
    and spec: "spec_run (frame_spec (lut_backend st) (unat CAPACITY)) (List.map (\<lambda>i. frames ! i) log) (flows st) =
      (List.map (\<lambda>i. answer (ws' ! i)) log, flows st')"
    and fin: "\<forall>i<length frames. 5 * unat CAPACITY + 3 \<le> length (filter (\<lambda>j. j = i) sched) \<longrightarrow> answered (ws' ! i)"
    by (rule maglev_cores_run [OF ok assms(3), of sched], rule that)
  have "set (List.map (\<lambda>i. frames ! i) log) \<subseteq> set frames" using st by (simp add: image_subset_iff)
  then have "\<forall>f \<in> set (List.map (\<lambda>i. frames ! i) log). flowhash f \<noteq> None"
    using start_frames(4) [OF assms(3)] by (meson subsetD)
  from maglev_run_spec [OF ok this, unfolded spec fst_conv snd_conv] obtain st2 where
    seq: "maglev_run crc CAPACITY (List.map (\<lambda>i. frames ! i) log) st = Some (List.map (\<lambda>i. answer (ws' ! i)) log, st2) \<and>
      flows st2 = flows st'" by (rule exE)
  have ok'': "maglev_ok crc CAPACITY st'" using ok' unfolding conntrack_ok_def by (rule conjunct1)
  show ?thesis
    by (intro exI [of _ log] exI [of _ st'] exI [of _ ws'] conjI r ok'' d st seq [THEN conjunct1] seq [THEN conjunct2] fin exI [of _ st2])
qed

theorem maglev_cores_linearizable_witness:
  "\<exists>log st' ws'. run_cores (frame_step (\<lambda>s k. k) 4) answered [0, 1, 0, 1, 1, 0, 0, 0, 1, 1, 1, 0] sample_maglev
      (List.map start_frame [sample_frame, sample_frame]) = Some (log, st', ws') \<and> maglev_ok (\<lambda>s k. k) 4 st'"
proof -
  have e: "\<forall>h v. flows sample_maglev h = Some v \<longrightarrow> v = lut_backend sample_maglev h" by (simp add: flows_sample)
  have f: "\<forall>f \<in> set [sample_frame, sample_frame]. 78 \<le> length f" by (simp add: sample_frame_def)
  from maglev_cores_linearizable [OF maglev_ok_sample e f, of "\<lambda>s k. k" "[0, 1, 0, 1, 1, 0, 0, 0, 1, 1, 1, 0]"]
  show ?thesis by (elim exE conjE) (intro exI conjI, assumption+)
qed

end
