(* ===== verification/Dram_Batches.thy ===== *)
theory Dram_Batches
  imports Dram_Cores Dram_Frames
begin

text \<open>
  \<open>l2fwd/libsashstore/dramblast.c\<close>: \<open>dramblast_process_frames\<close> called by several cores at the same
  time, each with a batch of its own.  The lookups of a batch run while other cores insert: a step
  loads one bucket, and the value of a match is loaded by another step, as in the C code.  The
  insertions are those of \<open>Dram_Cores\<close>.  The ring of pending lookups of a core is used by no other
  core and is part of its local state.
\<close>

section \<open>The steps of a batch\<close>

datatype batch_pc =
    Look_up
  | Read_value
  | Report
  | Insert
  | Handled

record batch_core =
  bt_pc :: batch_pc
  bt_args :: "dramblast_arg list"
  bt_queue :: dramblast_queue
  bt_head :: nat
  bt_item :: dramblast_queue_item
  bt_offset :: nat
  bt_results :: "dramblast_result list"
  bt_i :: nat
  bt_insert :: inserter
  bt_ret :: "u64 list"

text \<open>The table with the ring of this core, for the queue operations, as that of core 0.\<close>

definition own :: "dramblast_ht \<Rightarrow> batch_core \<Rightarrow> dramblast_ht" where
  "own ht w = ht\<lparr>ht_queues := [bt_queue w]\<rparr>"

text \<open>The bucket is loaded once; a match has the lane of the key, its value is not yet loaded.\<close>

datatype bucket_look =
    Match nat
  | Answer dramblast_result
  | Onward u64 u64

definition dramblast_look :: "dramblast_ht \<Rightarrow> dramblast_queue_item \<Rightarrow> bucket_look option" where
  "dramblast_look ht queue_tail_slot = do {
     let idx = item_idx queue_tail_slot;
     let cnt = item_visit_count queue_tail_slot;
     cacheline \<leftarrow> mm512_load_bucket (ht_table ht) (unat idx);
     let key_vector = mm512_set1_epi64 (item_k queue_tail_slot);
     let zero_vector = mm512_set1_epi64 0;
     let key_cmp = mm512_mask_cmpeq_epu64_mask DRAMBLAST_SIMD_KEY_MASK cacheline key_vector;
     if key_cmp > 0 then Some (Match (builtin_ctz key_cmp))
     else do {
       let cnt = cnt + 4;
       if cnt \<ge> ht_len ht then
         Some (Answer \<lparr>res_v = 0, res_id = item_id queue_tail_slot, res_status = DRAMBLAST_TABLE_FULL\<rparr>)
       else do {
         let ept_cmp = mm512_mask_cmpeq_epu64_mask DRAMBLAST_SIMD_KEY_MASK cacheline zero_vector;
         if ept_cmp = 0 then do {
           let idx = idx + 4;
           let idx = idx AND (ht_len ht - 1);
           let idx = idx AND DRAMBLAST_BUCKET_IDX_MASK;
           Some (Onward idx cnt)
         }
         else
           Some (Answer \<lparr>res_v = 0, res_id = item_id queue_tail_slot, res_status = DRAMBLAST_ABSENT\<rparr>)
       }
     }
   }"

text \<open>\<open>bucket[lane]\<close>, a 64-bit load from the table.\<close>

definition bucket_lane :: "dramblast_ht \<Rightarrow> u64 \<Rightarrow> nat \<Rightarrow> u64 option" where
  "bucket_lane ht idx lane = do {
     kv \<leftarrow> rd (ht_table ht) (unat idx + lane div 2);
     Some (if even lane then kv_k kv else kv_v kv)
   }"

definition look_up_step ::
  "(u64 \<Rightarrow> u64 \<Rightarrow> u64) \<Rightarrow> dramblast_ht \<Rightarrow> batch_core \<Rightarrow> batch_core option" where
  "look_up_step crc ht w =
     (if length (bt_results w) < length (bt_args w) then do {
        (ht1, args_head) \<leftarrow> dramblast_fill crc (own ht w) (bt_args w) (bt_head w) 0;
        (queue_tail_slot, ht2) \<leftarrow> dramblast_pop_queue ht1 0;
        r \<leftarrow> dramblast_look ht2 queue_tail_slot;
        case r of
          Match offset \<Rightarrow> Some (w\<lparr>bt_pc := Read_value, bt_queue := ht_queues ht2 ! 0, bt_head := args_head,
            bt_item := queue_tail_slot, bt_offset := offset\<rparr>)
        | Answer result \<Rightarrow> Some (w\<lparr>bt_queue := ht_queues ht2 ! 0, bt_head := args_head,
            bt_results := bt_results w @ [result]\<rparr>)
        | Onward idx cnt \<Rightarrow> do {
            ht3 \<leftarrow> dramblast_push_queue ht2 idx (item_k queue_tail_slot) cnt (item_id queue_tail_slot) 0;
            Some (w\<lparr>bt_queue := ht_queues ht3 ! 0, bt_head := args_head\<rparr>)
          }
      }
      else Some (w\<lparr>bt_pc := Report\<rparr>))"

text \<open>The entry of \<open>ret\<close> for result \<open>i\<close>, which completes that result.\<close>

definition report :: "batch_core \<Rightarrow> dramblast_result \<Rightarrow> u64 \<Rightarrow> batch_core option" where
  "report w result backend_mac_addr = do {
     ret \<leftarrow> wr (bt_ret w) (unat (res_id result)) backend_mac_addr;
     Some (w\<lparr>bt_pc := Report, bt_i := Suc (bt_i w), bt_ret := ret\<rparr>)
   }"

definition report_step :: "LookUpTable \<Rightarrow> batch_core \<Rightarrow> batch_core option" where
  "report_step dramblast_backends w =
     (if bt_i w < length (bt_results w) then do {
        let result = bt_results w ! bt_i w;
        if res_status result = DRAMBLAST_ABSENT then do {
          arg \<leftarrow> rd (bt_args w) (unat (res_id result));
          let client_hash = arg_k arg;
          backend_mac_addr \<leftarrow> rd dramblast_backends (unat client_hash mod TABLE_SIZE);
          Some (w\<lparr>bt_pc := Insert, bt_insert := start_insert (client_hash, backend_mac_addr)\<rparr>)
        }
        else if res_status result = DRAMBLAST_TABLE_FULL then report w result 0
        else report w result (res_v result)
      }
      else Some (w\<lparr>bt_pc := Handled\<rparr>))"

definition batch_step ::
  "(u64 \<Rightarrow> u64 \<Rightarrow> u64) \<Rightarrow> LookUpTable \<Rightarrow> dramblast_ht \<Rightarrow> batch_core \<Rightarrow> (dramblast_ht \<times> batch_core) option" where
  "batch_step crc dramblast_backends ht w =
     (case bt_pc w of
        Look_up \<Rightarrow> do { w' \<leftarrow> look_up_step crc ht w; Some (ht, w') }
      | Read_value \<Rightarrow> do {
          v \<leftarrow> bucket_lane ht (item_idx (bt_item w)) (bt_offset w + 1);
          Some (ht, w\<lparr>bt_pc := Look_up, bt_results := bt_results w @
            [\<lparr>res_v = v, res_id = item_id (bt_item w), res_status = DRAMBLAST_FOUND\<rparr>]\<rparr>)
        }
      | Report \<Rightarrow> do { w' \<leftarrow> report_step dramblast_backends w; Some (ht, w') }
      | Insert \<Rightarrow> do {
          (ht', ins) \<leftarrow> insert_step crc ht (bt_insert w);
          if finished ins then do {
            result \<leftarrow> rd (bt_results w) (bt_i w);
            w' \<leftarrow> report w result (if insert_rc ins < 0 then 0 else in_v ins);
            Some (ht', w')
          }
          else Some (ht', w\<lparr>bt_insert := ins\<rparr>)
        }
      | Handled \<Rightarrow> Some (ht, w))"

definition handled :: "batch_core \<Rightarrow> bool" where
  "handled w \<longleftrightarrow> bt_pc w = Handled"

text \<open>A core that enters the function with its ring and its batch.\<close>

definition start_batch :: "dramblast_queue \<times> dramblast_arg list \<Rightarrow> batch_core" where
  "start_batch qa = \<lparr>bt_pc = Look_up, bt_args = snd qa, bt_queue = fst qa, bt_head = 0,
     bt_item = \<lparr>item_k = 0, item_idx = 0, item_visit_count = 0, item_id = 0\<rparr>, bt_offset = 0, bt_results = [],
     bt_i = 0, bt_insert = start_insert (0, 0), bt_ret = replicate (length (snd qa)) 0\<rparr>"

section \<open>What a core knows\<close>

text \<open>A pending lookup has passed the slots it visited; a result is still true later.\<close>

definition item_known :: "(u64 \<Rightarrow> u64 \<Rightarrow> u64) \<Rightarrow> dramblast_arg list \<Rightarrow> dramblast_ht \<Rightarrow> dramblast_queue_item \<Rightarrow> bool" where
  "item_known crc args ht it \<longleftrightarrow>
     item_ok ht it \<and> unat (item_id it) < length args \<and> item_k it = arg_k (args ! unat (item_id it)) \<and>
     unat (item_idx it) = (dhome crc (ht_len ht) (item_k it) + unat (item_visit_count it)) mod unat (ht_len ht) \<and>
     passed 0 (dhome crc (ht_len ht)) (dview ht) (item_k it) (unat (item_visit_count it))"

definition result_known :: "(u64 \<Rightarrow> u64 \<Rightarrow> u64) \<Rightarrow> dramblast_arg list \<Rightarrow> dramblast_ht \<Rightarrow> dramblast_result \<Rightarrow> bool" where
  "result_known crc args ht r \<longleftrightarrow>
     unat (res_id r) < length args \<and>
     (res_status r = DRAMBLAST_FOUND \<and> dram_map ht (arg_k (args ! unat (res_id r))) = Some (res_v r) \<or>
      res_status r = DRAMBLAST_TABLE_FULL \<and> gives_up crc ht (arg_k (args ! unat (res_id r))) \<or>
      res_status r = DRAMBLAST_ABSENT)"

text \<open>What the entry of \<open>ret\<close> for a flow says about the table.\<close>

definition reported :: "(u64 \<Rightarrow> u64 \<Rightarrow> u64) \<Rightarrow> dramblast_ht \<Rightarrow> u64 \<Rightarrow> u64 \<Rightarrow> bool" where
  "reported crc ht k b \<longleftrightarrow> dram_map ht k = Some b \<or> b = 0 \<and> gives_up crc ht k"

text \<open>The results, with the one whose value is still to be loaded.\<close>

definition taken :: "batch_core \<Rightarrow> dramblast_result list" where
  "taken w = bt_results w @
     (if bt_pc w = Read_value then [\<lparr>res_v = 0, res_id = item_id (bt_item w), res_status = DRAMBLAST_ABSENT\<rparr>] else [])"

definition lookups_known :: "(u64 \<Rightarrow> u64 \<Rightarrow> u64) \<Rightarrow> dramblast_ht \<Rightarrow> batch_core \<Rightarrow> bool" where
  "lookups_known crc ht w \<longleftrightarrow>
     batch_inv (own ht w) (bt_args w) (bt_head w) (taken w) 0 \<and>
     (\<forall>it \<in> set (pending (own ht w) 0). item_known crc (bt_args w) ht it) \<and>
     mset (List.map res_id (taken w)) + mset (List.map item_id (todo crc (own ht w) (bt_args w) (bt_head w) 0)) =
       mset (List.map arg_id (bt_args w))"

definition reports_known :: "(u64 \<Rightarrow> u64 \<Rightarrow> u64) \<Rightarrow> dramblast_ht \<Rightarrow> batch_core \<Rightarrow> bool" where
  "reports_known crc ht w \<longleftrightarrow>
     mset (List.map res_id (bt_results w)) = mset (List.map arg_id (bt_args w)) \<and>
     (\<forall>r \<in> set (take (bt_i w) (bt_results w)).
        reported crc ht (arg_k (bt_args w ! unat (res_id r))) (bt_ret w ! unat (res_id r)))"

definition batch_known :: "(u64 \<Rightarrow> u64 \<Rightarrow> u64) \<Rightarrow> LookUpTable \<Rightarrow> dramblast_ht \<Rightarrow> batch_core \<Rightarrow> bool" where
  "batch_known crc lut ht w \<longleftrightarrow>
     batch_args (bt_args w) \<and> length (bt_ret w) = length (bt_args w) \<and>
     (\<forall>r \<in> set (bt_results w). result_known crc (bt_args w) ht r) \<and>
     (case bt_pc w of
        Look_up \<Rightarrow> bt_i w = 0 \<and> lookups_known crc ht w
      | Read_value \<Rightarrow> bt_i w = 0 \<and> lookups_known crc ht w \<and> item_known crc (bt_args w) ht (bt_item w) \<and>
          bt_offset w \<in> {0, 2, 4, 6} \<and>
          fst (dview ht ! (unat (item_idx (bt_item w)) + bt_offset w div 2)) = item_k (bt_item w)
      | Report \<Rightarrow> bt_i w \<le> length (bt_results w) \<and> reports_known crc ht w
      | Insert \<Rightarrow> bt_i w < length (bt_results w) \<and> reports_known crc ht w \<and>
          in_k (bt_insert w) = arg_k (bt_args w ! unat (res_id (bt_results w ! bt_i w))) \<and>
          in_v (bt_insert w) = backend_of lut (in_k (bt_insert w)) \<and>
          inserter_ok crc ht (bt_insert w) \<and> \<not> finished (bt_insert w)
      | Handled \<Rightarrow> bt_i w = length (bt_results w) \<and> reports_known crc ht w)"

text \<open>The accesses a core may still make.\<close>

definition bucket_work :: "nat \<Rightarrow> batch_core \<Rightarrow> nat" where
  "bucket_work n w =
     sum_list (List.map (\<lambda>it. (n - unat (item_visit_count it)) div 4) (ring_items (bt_queue w))) +
     (length (bt_args w) - bt_head w) * (n div 4)"

definition batch_rank :: "nat \<Rightarrow> batch_core \<Rightarrow> nat" where
  "batch_rank n w =
     (let m = length (bt_args w); reports = (\<lambda>i. (m - i) * (4 * n + 3)) in
      case bt_pc w of
        Look_up \<Rightarrow> 2 * bucket_work n w + reports 0 + 2
      | Read_value \<Rightarrow> 2 * bucket_work n w + reports 0 + 3
      | Report \<Rightarrow> reports (bt_i w) + 1
      | Insert \<Rightarrow> reports (Suc (bt_i w)) + insert_rank n (bt_insert w) + 2
      | Handled \<Rightarrow> 0)"

section \<open>What others do keeps it true\<close>

definition table_grows :: "dramblast_ht \<Rightarrow> dramblast_ht \<Rightarrow> bool" where
  "table_grows ht ht' \<longleftrightarrow>
     grows 0 (dview ht) (dview ht') \<and> ht_len ht' = ht_len ht \<and> dram_map ht \<subseteq>\<^sub>m dram_map ht'"

lemma table_grows_refl [simp]: "table_grows ht ht"
  by (simp add: table_grows_def)

lemma table_grows_map: "table_grows ht ht' \<Longrightarrow> dram_map ht k = Some v \<Longrightarrow> dram_map ht' k = Some v"
  by (simp add: table_grows_def map_le_def dom_def)

lemma gives_up_passed:
  "gives_up crc ht k \<longleftrightarrow> (\<forall>j<length (dview ht) - 4. occupied 0 (dview ht) ((dhome crc (ht_len ht) k + j) mod length (dview ht)))"
proof -
  have "ht_table ht \<noteq> []" if "j < length (ht_table ht) - 4" for j using that by auto
  then have "kv_k (ht_table ht ! ((dhome crc (ht_len ht) k + j) mod length (ht_table ht))) =
      fst (dview ht ! ((dhome crc (ht_len ht) k + j) mod length (ht_table ht)))" if "j < length (ht_table ht) - 4" for j
    using that by simp
  then show ?thesis by (auto simp: gives_up_def occupied_def)
qed

lemma gives_up_grows:
  assumes "gives_up crc ht k" and "table_grows ht ht'"
  shows "gives_up crc ht' k"
proof -
  have g: "grows 0 (dview ht) (dview ht')" "ht_len ht' = ht_len ht" using assms(2) by (simp_all add: table_grows_def)
  then have len: "length (dview ht') = length (dview ht)" by (simp add: grows_def)
  have "occupied 0 (dview ht') ((dhome crc (ht_len ht) k + j) mod length (dview ht))" if "j < length (dview ht) - 4" for j
  proof (rule grows_occupied [OF g(1)])
    show "(dhome crc (ht_len ht) k + j) mod length (dview ht) < length (dview ht)"
      using that by (intro mod_less_divisor) auto
    show "occupied 0 (dview ht) ((dhome crc (ht_len ht) k + j) mod length (dview ht))"
      using assms(1) that unfolding gives_up_passed by blast
  qed
  then show ?thesis unfolding gives_up_passed len g(2) by blast
qed

lemma reported_grows: "reported crc ht k b \<Longrightarrow> table_grows ht ht' \<Longrightarrow> reported crc ht' k b"
  unfolding reported_def using table_grows_map gives_up_grows by blast

lemma result_known_grows: "result_known crc args ht r \<Longrightarrow> table_grows ht ht' \<Longrightarrow> result_known crc args ht' r"
  unfolding result_known_def using table_grows_map gives_up_grows by blast

lemma item_known_grows:
  assumes "item_known crc args ht it" and "table_grows ht ht'" and "ht_table ht \<noteq> []"
  shows "item_known crc args ht' it"
proof -
  have g: "grows 0 (dview ht) (dview ht')" and l: "ht_len ht' = ht_len ht" using assms(2) by (simp_all add: table_grows_def)
  have "dview ht \<noteq> []" using assms(3) by (simp add: dview_def)
  then show ?thesis using assms(1) passed_grows [OF _ g] by (auto simp: item_known_def item_ok_def l)
qed

lemma lookups_known_grows:
  assumes "lookups_known crc ht w" and "table_grows ht ht'"
  shows "lookups_known crc ht' w"
proof -
  have len: "length (ht_table ht') = length (ht_table ht)" and l: "ht_len ht' = ht_len ht"
    using assms(2) by (simp_all add: table_grows_def grows_def)
  have g: "geometry_ok (own ht w)" using assms(1) by (simp add: lookups_known_def batch_inv_def)
  then have ne: "ht_table ht \<noteq> []" by (auto simp: geometry_ok_def own_def)
  have "batch_inv (own ht' w) = batch_inv (own ht w)" "pending (own ht' w) = pending (own ht w)"
    "todo crc (own ht' w) = todo crc (own ht w)"
    using len l by (auto simp: batch_inv_def own_def geometry_ok_def queue_ok_def queue_cap_def pending_def item_ok_def
        todo_def arg_item_def dramblast_hash_def fun_eq_iff)
  then show ?thesis using assms(1) item_known_grows [OF _ assms(2) ne] by (simp add: lookups_known_def)
qed

lemma reports_known_grows: "reports_known crc ht w \<Longrightarrow> table_grows ht ht' \<Longrightarrow> reports_known crc ht' w"
  unfolding reports_known_def using reported_grows by blast

lemma item_slot:
  assumes "item_known crc args ht it" and "geometry_ok ht" and "j < 4"
  shows "unat (item_idx it) + j < length (ht_table ht)"
    and "unat (item_idx it) + j = (dhome crc (ht_len ht) (item_k it) + (unat (item_visit_count it) + j)) mod unat (ht_len ht)"
proof -
  have d: "4 dvd unat (ht_len ht)" by (rule geometry_dvd [OF assms(2)])
  have it: "4 dvd unat (item_idx it)" "unat (item_idx it) < unat (ht_len ht)" "4 dvd unat (item_visit_count it)"
    using assms(1) by (auto simp: item_known_def item_ok_def)
  then show lt: "unat (item_idx it) + j < length (ht_table ht)"
    using four_step [OF it(1) d it(2)] assms(2,3) by (simp add: geometry_ok_def)
  have "(unat (item_idx it) + j) mod unat (ht_len ht) =
      (dhome crc (ht_len ht) (item_k it) + (unat (item_visit_count it) + j)) mod unat (ht_len ht)"
    using assms(1) by (simp add: item_known_def mod_add_left_eq add.assoc)
  then show "unat (item_idx it) + j =
      (dhome crc (ht_len ht) (item_k it) + (unat (item_visit_count it) + j)) mod unat (ht_len ht)"
    using lt assms(2) by (simp add: geometry_ok_def)
qed

lemma batch_known_stable:
  assumes "batch_known crc lut ht w" and "table_grows ht ht'"
  shows "batch_known crc lut ht' w"
proof -
  have g: "grows 0 (dview ht) (dview ht')" and l: "ht_len ht' = ht_len ht" using assms(2) by (simp_all add: table_grows_def)
  have res: "\<forall>r \<in> set (bt_results w). result_known crc (bt_args w) ht' r"
    using assms(1) result_known_grows [OF _ assms(2)] by (simp add: batch_known_def)
  show ?thesis
  proof (cases "bt_pc w = Read_value")
    case True
    let ?it = "bt_item w" and ?p = "unat (item_idx (bt_item w)) + bt_offset w div 2"
    have k: "lookups_known crc ht w" "item_known crc (bt_args w) ht ?it" "bt_offset w \<in> {0, 2, 4, 6}"
      "fst (dview ht ! ?p) = item_k ?it" and args: "batch_args (bt_args w)"
      using assms(1) True by (simp_all add: batch_known_def)
    have geo: "geometry_ok ht" using k(1) by (simp add: lookups_known_def batch_inv_def geometry_ok_def own_def)
    then have ne: "ht_table ht \<noteq> []" by (auto simp: geometry_ok_def)
    have p: "?p < length (dview ht)" using item_slot(1) [OF k(2) geo, of "bt_offset w div 2"] k(3) by auto
    have "item_k ?it \<noteq> 0" using k(2) batch_args_id(2) [OF args] by (simp add: item_known_def)
    then have "fst (dview ht' ! ?p) = item_k ?it"
      using g p k(4) unfolding grows_def occupied_def by metis
    then show ?thesis
      using assms(1) True res lookups_known_grows [OF k(1) assms(2)] item_known_grows [OF k(2) assms(2) ne]
      by (simp add: batch_known_def)
  next
    case False
    then show ?thesis
      using assms(1) res lookups_known_grows [OF _ assms(2)] reports_known_grows [OF _ assms(2)]
        inserter_ok_stable [OF _ g l]
      by (cases "bt_pc w") (simp_all add: batch_known_def)
  qed
qed

section \<open>The load of a bucket\<close>

lemma dramblast_look_bucket:
  assumes "4 dvd unat (item_idx it)" and "unat (item_idx it) + 4 \<le> length (ht_table ht)"
  shows "dramblast_look ht it = Some
    (case find (\<lambda>j. fst (dview ht ! (unat (item_idx it) + j)) = item_k it) [0..<4] of
       Some j \<Rightarrow> Match (2 * j)
     | None \<Rightarrow>
         if ht_len ht \<le> item_visit_count it + 4
         then Answer \<lparr>res_v = 0, res_id = item_id it, res_status = DRAMBLAST_TABLE_FULL\<rparr>
         else if bucket_has_empty (dview ht) (unat (item_idx it))
         then Answer \<lparr>res_v = 0, res_id = item_id it, res_status = DRAMBLAST_ABSENT\<rparr>
         else Onward (next_bucket ht (item_idx it)) (item_visit_count it + 4))"
proof -
  have gt: "(0::u8) < m \<longleftrightarrow> m \<noteq> 0" for m by (simp add: word_gt_0)
  show ?thesis
    using assms
    by (simp add: dramblast_look_def load_bucket_lanes cmpeq_key_lanes Let_def bucket_has_empty_def upt_4 next_bucket_def gt)
qed

text \<open>Looking and reading the value at once, with nothing in between, is the probe of \<open>Dram_Find\<close>.\<close>

lemma dramblast_look_probe:
  assumes "4 dvd unat (item_idx it)" and "unat (item_idx it) + 4 \<le> length (ht_table ht)"
  shows "dramblast_probe ht it = do {
     r \<leftarrow> dramblast_look ht it;
     case r of
       Match offset \<Rightarrow> do {
         v \<leftarrow> bucket_lane ht (item_idx it) (offset + 1);
         Some (Inl \<lparr>res_v = v, res_id = item_id it, res_status = DRAMBLAST_FOUND\<rparr>)
       }
     | Answer result \<Rightarrow> Some (Inl result)
     | Onward idx cnt \<Rightarrow> Some (Inr (idx, cnt))
   }"
proof -
  have "j < 4" if "find (\<lambda>j. fst (dview ht ! (unat (item_idx it) + j)) = item_k it) [0..<4] = Some j" for j
    using that by (auto simp: find_Some_iff)
  then show ?thesis
    using assms unfolding dramblast_probe_bucket [OF assms] dramblast_look_bucket [OF assms]
    by (auto simp: bucket_hit_def bucket_lane_def split: option.splits)
qed

lemma item_known_next:
  assumes known: "item_known crc args ht it" and g: "geometry_ok ht" and c: "unat (item_visit_count it) + 4 < unat (ht_len ht)"
    and slots: "\<forall>j<4. occupied 0 (dview ht) (unat (item_idx it) + j) \<and> fst (dview ht ! (unat (item_idx it) + j)) \<noteq> item_k it"
  shows "item_known crc args ht (it\<lparr>item_idx := next_bucket ht (item_idx it), item_visit_count := item_visit_count it + 4\<rparr>)"
proof -
  let ?home = "dhome crc (ht_len ht)" and ?n = "unat (ht_len ht)" and ?c = "unat (item_visit_count it)"
  have ok: "item_ok ht it" and idx: "unat (item_idx it) = (?home (item_k it) + ?c) mod ?n"
    using known by (simp_all add: item_known_def)
  have len: "length (dview ht) = ?n" using g by (simp add: geometry_ok_def)
  have c4: "unat (item_visit_count it + 4) = ?c + 4" using c by (intro unat_add_4 [of _ "ht_len ht"]) simp
  have "?home (item_k it) + ?c + 4 = ?home (item_k it) + (?c + 4)" by simp
  then have next_idx: "unat (next_bucket ht (item_idx it)) = (?home (item_k it) + (?c + 4)) mod ?n"
    unfolding next_bucket_nat(1) [OF g ok] idx by (simp add: mod_add_left_eq add.assoc)
  have "passed 0 ?home (dview ht) (item_k it) ?c" using known unfolding item_known_def by blast
  moreover have "occupied 0 (dview ht) ((?home (item_k it) + l) mod ?n) \<and> fst (dview ht ! ((?home (item_k it) + l) mod ?n)) \<noteq> item_k it"
    if "?c \<le> l" "l < ?c + 4" for l
  proof -
    have j: "l - ?c < 4" "?c + (l - ?c) = l" using that by linarith+
    from slots [rule_format, OF j(1)] show ?thesis unfolding item_slot(2) [OF known g j(1)] j(2) .
  qed
  ultimately have "passed 0 ?home (dview ht) (item_k it) (?c + 4)"
    unfolding passed_def len by (meson linorder_not_less)
  moreover have "item_ok ht (it\<lparr>item_idx := next_bucket ht (item_idx it), item_visit_count := item_visit_count it + 4\<rparr>)"
    using ok c c4 next_bucket_nat [OF g ok] g by (simp add: item_ok_def geometry_ok_def pow2_pos)
  ultimately show ?thesis using known c4 next_idx by (simp add: item_known_def)
qed

lemma item_gives_up:
  assumes "item_known crc args ht it" and g: "geometry_ok ht" and "unat (ht_len ht) \<le> unat (item_visit_count it) + 4"
  shows "gives_up crc ht (item_k it)"
proof -
  have len: "length (dview ht) = unat (ht_len ht)" using g by (simp add: geometry_ok_def)
  show ?thesis using assms(1,3) unfolding gives_up_passed item_known_def passed_def len by auto
qed

lemma dramblast_look_known:
  assumes "item_known crc args ht it" and "geometry_ok ht"
  obtains (Match) offset where "dramblast_look ht it = Some (Match offset)" and "offset \<in> {0, 2, 4, 6}"
      and "fst (dview ht ! (unat (item_idx it) + offset div 2)) = item_k it"
    | (Answer) r where "dramblast_look ht it = Some (Answer r)" and "res_id r = item_id it" and "result_known crc args ht r"
    | (Onward) idx cnt where "dramblast_look ht it = Some (Onward idx cnt)"
      and "item_known crc args ht (it\<lparr>item_idx := idx, item_visit_count := cnt\<rparr>)"
      and "(unat (ht_len ht) - unat cnt) div 4 < (unat (ht_len ht) - unat (item_visit_count it)) div 4"
proof -
  let ?n = "unat (ht_len ht)" and ?c = "item_visit_count it"
  have it: "item_ok ht it" using assms(1) by (simp add: item_known_def)
  have d: "4 dvd ?n" by (rule geometry_dvd [OF assms(2)])
  have len: "length (ht_table ht) = ?n" using assms(2) by (simp add: geometry_ok_def)
  have i4: "unat (item_idx it) + 4 \<le> length (ht_table ht)" and c4: "unat ?c + 4 \<le> ?n"
    using it d len by (auto simp: item_ok_def intro: four_step)
  have c: "unat (?c + 4) = unat ?c + 4" by (rule unat_add_4 [OF c4])
  have full: "ht_len ht \<le> ?c + 4 \<longleftrightarrow> ?n \<le> unat ?c + 4" using c by (simp add: word_le_nat_alt)
  have id: "unat (item_id it) < length args" "arg_k (args ! unat (item_id it)) = item_k it"
    using assms(1) by (simp_all add: item_known_def)
  have "4 dvd unat (item_idx it)" using it by (simp add: item_ok_def)
  note look = dramblast_look_bucket [OF this i4]
  show thesis
  proof (cases "find (\<lambda>j. fst (dview ht ! (unat (item_idx it) + j)) = item_k it) [0..<4]")
    case (Some j)
    then have j: "j < 4" "fst (dview ht ! (unat (item_idx it) + j)) = item_k it" by (auto simp: find_Some_iff)
    from j(1) have "2 * j \<in> {0, 2, 4, 6}" by auto
    then show thesis using Some j(2) by (intro that(1) [of "2 * j"]) (simp_all add: look)
  next
    case None
    show thesis
    proof (cases "?n \<le> unat ?c + 4")
      case True
      then show thesis
        using None full item_gives_up [OF assms True] id
        by (intro that(2) [of "\<lparr>res_v = 0, res_id = item_id it, res_status = DRAMBLAST_TABLE_FULL\<rparr>"])
          (simp_all add: look result_known_def)
    next
      case False
      show thesis
      proof (cases "bucket_has_empty (dview ht) (unat (item_idx it))")
        case True
        then show thesis
          using None full False id
          by (intro that(2) [of "\<lparr>res_v = 0, res_id = item_id it, res_status = DRAMBLAST_ABSENT\<rparr>"])
            (simp_all add: look result_known_def)
      next
        case no_empty: False
        have "\<forall>j<4. occupied 0 (dview ht) (unat (item_idx it) + j) \<and> fst (dview ht ! (unat (item_idx it) + j)) \<noteq> item_k it"
          using None no_empty by (auto simp: find_None_iff bucket_has_empty_iff occupied_def)
        from item_known_next [OF assms _ this] False
        have "item_known crc args ht (it\<lparr>item_idx := next_bucket ht (item_idx it), item_visit_count := ?c + 4\<rparr>)" by simp
        moreover have "(?n - unat (?c + 4)) div 4 < (?n - unat ?c) div 4" using c4 unfolding c by linarith
        ultimately show thesis using None full False no_empty by (intro that(3)) (simp_all add: look)
      qed
    qed
  qed
qed

lemma bucket_lane_known:
  assumes "dram_inv crc ht" and "geometry_ok ht" and "item_known crc args ht it" and "item_k it \<noteq> 0"
    and "offset \<in> {0, 2, 4, 6}" and "fst (dview ht ! (unat (item_idx it) + offset div 2)) = item_k it"
  shows "\<exists>v. bucket_lane ht (item_idx it) (offset + 1) = Some v \<and> dram_map ht (item_k it) = Some v"
proof -
  let ?p = "unat (item_idx it) + offset div 2"
  have p: "?p < length (ht_table ht)" using item_slot(1) [OF assms(3,2), of "offset div 2"] assms(5) by auto
  have "occupied 0 (dview ht) ?p" using assms(4,6) by (simp add: occupied_def)
  then have "dram_map ht (item_k it) = Some (snd (dview ht ! ?p))"
    using tab_map_slot [OF dram_inv_facts(5) [OF assms(1)], of ?p] p assms(6) by (simp add: dram_map_def)
  moreover have "odd (offset + 1)" "(offset + 1) div 2 = offset div 2" using assms(5) by auto
  ultimately show ?thesis using p by (simp add: bucket_lane_def)
qed

section \<open>One step\<close>

text \<open>The backends stored are those of the lookup table.\<close>

definition tracks :: "(u64 \<Rightarrow> u64 \<Rightarrow> u64) \<Rightarrow> LookUpTable \<Rightarrow> dramblast_ht \<Rightarrow> bool" where
  "tracks crc lut ht \<longleftrightarrow>
     dram_inv crc ht \<and> 4 \<le> unat (ht_len ht) \<and> (\<forall>k \<in> dom (dram_map ht). dram_map ht k = Some (backend_of lut k))"

definition batch_turn ::
  "(u64 \<Rightarrow> u64 \<Rightarrow> u64) \<Rightarrow> LookUpTable \<Rightarrow> dramblast_ht \<Rightarrow> batch_core \<Rightarrow> dramblast_ht \<Rightarrow> batch_core \<Rightarrow> bool" where
  "batch_turn crc lut ht w ht' w' \<longleftrightarrow>
     tracks crc lut ht' \<and> table_grows ht ht' \<and> batch_known crc lut ht' w' \<and>
     batch_rank (unat (ht_len ht)) w' < batch_rank (unat (ht_len ht)) w"

lemma tracks_geometry:
  assumes "tracks crc lut ht"
  shows "geometry_ok ht" and "geometry_ok (own ht w)"
  using assms by (auto simp: tracks_def dram_inv_def geometry_ok_def own_def)

lemma own_same:
  assumes "same_but_queue 0 (own ht w) ht2" and "bt_queue w' = ht_queues ht2 ! 0"
  shows "own ht w' = ht2"
proof -
  have l: "length (ht_queues ht2) = 1" and e: "ht_table ht2 = ht_table ht" "ht_len ht2 = ht_len ht"
    using assms(1) by (simp_all add: same_but_queue_def own_def)
  obtain q where "ht_queues ht2 = [q]" using l by (auto simp: length_Suc_conv)
  then show ?thesis using e assms(2) by (simp add: own_def)
qed

lemma bucket_work_todo:
  "bucket_work n w = sum_list (List.map (\<lambda>it. (n - unat (item_visit_count it)) div 4)
     (todo crc (own ht w) (bt_args w) (bt_head w) 0))"
proof -
  have "List.map ((\<lambda>it. (n - unat (item_visit_count it)) div 4) \<circ> arg_item crc (own ht w)) xs = replicate (length xs) (n div 4)" for xs
    by (induction xs) (simp_all add: arg_item_def)
  then show ?thesis by (simp add: bucket_work_def todo_def pending_def own_def sum_list_replicate)
qed

lemma arg_item_known:
  assumes "batch_args args" and "a \<in> set args" and "geometry_ok ht"
  shows "item_known crc args ht (arg_item crc (own ht w) a)"
proof -
  obtain i where i: "i < length args" "a = args ! i" using assms(2) by (auto simp: in_set_conv_nth)
  have p: "pow2_u64 (ht_len ht)" using assms(3) by (simp add: geometry_ok_def)
  have "arg_item crc (own ht w) a = arg_item crc ht a" by (simp add: arg_item_def own_def dramblast_hash_def)
  moreover have "item_ok ht (arg_item crc ht a)" by (rule arg_item_ok(1) [OF assms(3)])
  ultimately show ?thesis
    using i batch_args_id(1) [OF assms(1) i(1)] dhome_less [OF p]
    by (simp add: item_known_def) (simp add: arg_item_def dramblast_hash_home)
qed

lemma todo_known:
  assumes "batch_known crc lut ht w" and "lookups_known crc ht w" and "geometry_ok ht"
  shows "\<forall>it \<in> set (todo crc (own ht w) (bt_args w) (bt_head w) 0). item_known crc (bt_args w) ht it"
proof -
  have "batch_args (bt_args w)" using assms(1) by (simp add: batch_known_def)
  then show ?thesis
    using assms(2,3) arg_item_known by (auto simp: todo_def lookups_known_def dest: in_set_dropD)
qed

text \<open>The requests are taken, and the oldest one is popped.\<close>

lemma look_up_pops:
  assumes known: "batch_known crc lut ht w" "bt_pc w = Look_up" and t: "tracks crc lut ht"
    and more: "length (bt_results w) < length (bt_args w)"
  obtains h1 ht1 it ht2 where "dramblast_fill crc (own ht w) (bt_args w) (bt_head w) 0 = Some (ht1, h1)"
    and "dramblast_pop_queue ht1 0 = Some (it, ht2)" and "same_but_queue 0 (own ht w) ht2"
    and "queue_ok ht2 0" and "queue_cap ht2 0 = 64" and "length (pending ht2 0) < 63"
    and "h1 \<le> length (bt_args w)" and "length (bt_results w) + Suc (length (pending ht2 0)) = h1"
    and "todo crc (own ht w) (bt_args w) (bt_head w) 0 = it # todo crc ht2 (bt_args w) h1 0"
proof -
  let ?args = "bt_args w"
  have l: "lookups_known crc ht w" and tk: "taken w = bt_results w"
    using known by (simp_all add: batch_known_def taken_def)
  have inv: "batch_inv (own ht w) ?args (bt_head w) (bt_results w) 0" using l tk by (simp add: lookups_known_def)
  obtain ht1 h1 where f: "dramblast_fill crc (own ht w) ?args (bt_head w) 0 = Some (ht1, h1)"
    "batch_inv ht1 ?args h1 (bt_results w) 0" "same_but_queue 0 (own ht w) ht1"
    "todo crc ht1 ?args h1 0 = todo crc (own ht w) ?args (bt_head w) 0"
    "h1 = length ?args \<or> length (pending ht1 0) = 63"
    using dramblast_fill_spec [OF inv, of crc] by blast
  then obtain it Q where Q: "pending ht1 0 = it # Q"
    using more by (cases "pending ht1 0") (auto simp: batch_inv_def)
  have q: "queue_ok ht1 0" "queue_cap ht1 0 = 64" and h1: "h1 \<le> length ?args" "length (bt_results w) + length (pending ht1 0) = h1"
    using f(2) by (simp_all add: batch_inv_def)
  have bound: "length Q < 63" using dram_rings.items_bound [OF q(1)] q(2) Q by simp
  obtain ht2 where p: "dramblast_pop_queue ht1 0 = Some (it, ht2)" "queue_ok ht2 0" "pending ht2 0 = Q" "queue_cap ht2 0 = 64"
    using dram_rings.pop_items [OF q(1) Q] q(2) by auto
  have s: "same_but_queue 0 ht1 ht2" by (rule pop_queue_same [OF p(1)])
  have "todo crc (own ht w) ?args (bt_head w) 0 = it # todo crc ht2 ?args h1 0"
    using f(4) Q p(3) same_but_queue_cong(3) [OF s] by (simp add: todo_def)
  then show thesis
    using that [OF f(1) p(1) same_but_queue_trans [OF f(3) s] p(2,4)] p(3) bound h1 Q by simp
qed

lemma taken_simps [simp]:
  "bt_pc w \<noteq> Read_value \<Longrightarrow> taken w = bt_results w"
  by (simp add: taken_def)

text \<open>A turn of the lookup loop keeps the state, given what became of the popped request.\<close>

lemma lookups_knownI:
  assumes "own ht w' = ht2" and "bt_args w' = args" and "bt_head w' = m"
    and "geometry_ok ht2" and "queue_ok ht2 0" and "queue_cap ht2 0 = 64" and "m \<le> length args"
    and "length (taken w') + length (pending ht2 0) = m"
    and "\<forall>it \<in> set (pending ht2 0). item_known crc args ht it" and "ht_len ht2 = ht_len ht"
    and "mset (List.map res_id (taken w')) + mset (List.map item_id (todo crc ht2 args m 0)) = mset (List.map arg_id args)"
  shows "lookups_known crc ht w'"
  using assms by (auto simp: lookups_known_def batch_inv_def item_known_def item_ok_def)

lemma turn_Look_up:
  assumes known: "batch_known crc lut ht w" and pc: "bt_pc w = Look_up" and t: "tracks crc lut ht"
    and more: "length (bt_results w) < length (bt_args w)"
  shows "\<exists>w'. look_up_step crc ht w = Some w' \<and> batch_turn crc lut ht w ht w'"
proof -
  let ?args = "bt_args w" and ?n = "unat (ht_len ht)"
  have l: "lookups_known crc ht w" and i0: "bt_i w = 0" and args: "batch_args ?args"
    and res: "\<forall>r \<in> set (bt_results w). result_known crc ?args ht r" and ret: "length (bt_ret w) = length ?args"
    using known pc by (simp_all add: batch_known_def)
  note geo = tracks_geometry [OF t]
  from look_up_pops [OF known pc t more] obtain h1 ht1 it ht2 where
    f: "dramblast_fill crc (own ht w) ?args (bt_head w) 0 = Some (ht1, h1)"
    and p: "dramblast_pop_queue ht1 0 = Some (it, ht2)" and s: "same_but_queue 0 (own ht w) ht2"
    and q: "queue_ok ht2 0" "queue_cap ht2 0 = 64" "length (pending ht2 0) < 63"
    and h: "h1 \<le> length ?args" "length (bt_results w) + Suc (length (pending ht2 0)) = h1"
    and td: "todo crc (own ht w) ?args (bt_head w) 0 = it # todo crc ht2 ?args h1 0" .
  have e: "ht_table ht2 = ht_table ht" "ht_len ht2 = ht_len ht" using s by (simp_all add: same_but_queue_def own_def)
  have g2: "geometry_ok ht2" using geo(1) by (simp add: geometry_ok_def e)
  have tk: "\<forall>it \<in> set (it # todo crc ht2 ?args h1 0). item_known crc ?args ht it"
    using todo_known [OF known l geo(1)] unfolding td .
  then have it: "item_known crc ?args ht it" and pend: "\<forall>it \<in> set (pending ht2 0). item_known crc ?args ht it"
    by (simp_all add: todo_def)
  have ids: "mset (List.map res_id (bt_results w)) +
      add_mset (item_id it) (mset (List.map item_id (todo crc ht2 ?args h1 0))) = mset (List.map arg_id ?args)"
    using l pc td by (simp add: lookups_known_def)
  have work: "bucket_work ?n w = (?n - unat (item_visit_count it)) div 4 +
      sum_list (List.map (\<lambda>it. (?n - unat (item_visit_count it)) div 4) (todo crc ht2 ?args h1 0))"
    unfolding bucket_work_todo [of ?n w crc ht] td by simp
  have pos: "0 < (?n - unat (item_visit_count it)) div 4"
    using buckets_left_pos [OF geo(1), of it] it by (simp add: item_known_def buckets_left_def)
  have look: "dramblast_look ht2 it = dramblast_look ht it" unfolding dramblast_look_def e ..
  show ?thesis
    using it geo(1)
  proof (cases rule: dramblast_look_known)
    case (Match offset)
    let ?w = "w\<lparr>bt_pc := Read_value, bt_queue := ht_queues ht2 ! 0, bt_head := h1, bt_item := it, bt_offset := offset\<rparr>"
    have o: "own ht ?w = ht2" by (rule own_same [OF s]) simp
    have "lookups_known crc ht ?w"
      by (rule lookups_knownI [OF o _ _ g2 q(1,2) h(1) _ pend e(2)]) (use h(2) ids in \<open>simp_all add: taken_def\<close>)
    moreover have "bucket_work ?n ?w < bucket_work ?n w"
      using pos unfolding work bucket_work_todo [of ?n ?w crc ht] o by simp
    ultimately have "batch_turn crc lut ht w ht ?w"
      using t args ret res i0 it Match(2,3) pc
      by (simp add: batch_turn_def batch_known_def batch_rank_def bucket_work_def)
    then show ?thesis using more f p look Match(1) by (simp add: look_up_step_def)
  next
    case (Answer r)
    let ?w = "w\<lparr>bt_queue := ht_queues ht2 ! 0, bt_head := h1, bt_results := bt_results w @ [r]\<rparr>"
    have o: "own ht ?w = ht2" by (rule own_same [OF s]) simp
    have "lookups_known crc ht ?w"
      by (rule lookups_knownI [OF o _ _ g2 q(1,2) h(1) _ pend e(2)]) (use h(2) ids pc Answer(2) in simp_all)
    moreover have "bucket_work ?n ?w < bucket_work ?n w"
      using pos unfolding work bucket_work_todo [of ?n ?w crc ht] o by simp
    ultimately have "batch_turn crc lut ht w ht ?w"
      using t args ret res i0 Answer(3) pc
      by (simp add: batch_turn_def batch_known_def batch_rank_def)
    then show ?thesis using more f p look Answer(1) by (simp add: look_up_step_def)
  next
    case (Onward idx cnt)
    let ?it = "it\<lparr>item_idx := idx, item_visit_count := cnt\<rparr>"
    obtain ht3 where p3: "push_item ht2 0 ?it = Some ht3" "queue_ok ht3 0"
      "pending ht3 0 = pending ht2 0 @ [?it]" "queue_cap ht3 0 = queue_cap ht2 0"
      using dram_rings.push_items [OF q(1), of ?it] q(2,3) by auto
    have s3: "same_but_queue 0 ht2 ht3" by (rule push_item_same [OF p3(1)])
    have e3: "ht_len ht3 = ht_len ht" using s3 e by (simp add: same_but_queue_def)
    have g3: "geometry_ok ht3" using g2 same_but_queue_cong(5) [OF s3] by simp
    let ?w = "w\<lparr>bt_queue := ht_queues ht3 ! 0, bt_head := h1\<rparr>"
    have o: "own ht ?w = ht3" by (rule own_same [OF same_but_queue_trans [OF s s3]]) simp
    have td3: "mset (todo crc ht3 ?args h1 0) = add_mset ?it (mset (todo crc ht2 ?args h1 0))"
      using p3(3) same_but_queue_cong(3) [OF s3] by (simp add: todo_def)
    then have ids3: "mset (List.map item_id (todo crc ht3 ?args h1 0)) =
        add_mset (item_id it) (mset (List.map item_id (todo crc ht2 ?args h1 0)))" by simp
    have sum3: "sum_list (List.map f (todo crc ht3 ?args h1 0)) = f ?it + sum_list (List.map f (todo crc ht2 ?args h1 0))"
      for f :: "dramblast_queue_item \<Rightarrow> nat"
      using td3 by (simp flip: sum_mset_sum_list)
    have "lookups_known crc ht ?w"
      by (rule lookups_knownI [OF o _ _ g3 p3(2) _ h(1) _ _ e3])
        (use h(2) ids ids3 pc p3(3,4) q(2) pend Onward(2) in simp_all)
    moreover have "bucket_work ?n ?w < bucket_work ?n w"
      using Onward(3) unfolding work bucket_work_todo [of ?n ?w crc ht] o by (simp add: sum3)
    ultimately have "batch_turn crc lut ht w ht ?w"
      using t args ret res i0 pc by (simp add: batch_turn_def batch_known_def batch_rank_def)
    moreover have "dramblast_push_queue ht2 idx (item_k it) cnt (item_id it) 0 = Some ht3"
      using p3(1) by (simp add: push_item_def)
    ultimately show ?thesis using more f p look Onward(1) by (simp add: look_up_step_def)
  qed
qed

text \<open>The lookups are complete when as many results as requests were written.\<close>

lemma turn_Look_up_end:
  assumes known: "batch_known crc lut ht w" and pc: "bt_pc w = Look_up" and t: "tracks crc lut ht"
    and none: "\<not> length (bt_results w) < length (bt_args w)"
  shows "\<exists>w'. look_up_step crc ht w = Some w' \<and> batch_turn crc lut ht w ht w'"
proof -
  have l: "lookups_known crc ht w" and i0: "bt_i w = 0" using known pc by (simp_all add: batch_known_def)
  have inv: "batch_inv (own ht w) (bt_args w) (bt_head w) (bt_results w) 0" using l pc by (simp add: lookups_known_def)
  then have "length (bt_results w) + length (pending (own ht w) 0) = bt_head w" "bt_head w \<le> length (bt_args w)"
    by (simp_all add: batch_inv_def)
  then have "length (pending (own ht w) 0) = 0" "bt_head w = length (bt_args w)" using none by linarith+
  then have "mset (List.map res_id (bt_results w)) = mset (List.map arg_id (bt_args w))"
    using l pc by (simp add: lookups_known_def todo_def)
  then have "reports_known crc ht (w\<lparr>bt_pc := Report\<rparr>)" by (simp add: reports_known_def i0)
  then have "batch_turn crc lut ht w ht (w\<lparr>bt_pc := Report\<rparr>)"
    using t known pc i0 by (simp add: batch_turn_def batch_known_def batch_rank_def)
  then show ?thesis using none by (simp add: look_up_step_def)
qed

lemma turn_Read_value:
  assumes known: "batch_known crc lut ht w" and pc: "bt_pc w = Read_value" and t: "tracks crc lut ht"
  shows "\<exists>ht' w'. batch_step crc lut ht w = Some (ht', w') \<and> batch_turn crc lut ht w ht' w'"
proof -
  let ?it = "bt_item w"
  have l: "lookups_known crc ht w" and i0: "bt_i w = 0" and it: "item_known crc (bt_args w) ht ?it"
    and o: "bt_offset w \<in> {0, 2, 4, 6}" "fst (dview ht ! (unat (item_idx ?it) + bt_offset w div 2)) = item_k ?it"
    and args: "batch_args (bt_args w)" using known pc by (simp_all add: batch_known_def)
  have k: "unat (item_id ?it) < length (bt_args w)" "arg_k (bt_args w ! unat (item_id ?it)) = item_k ?it"
    using it by (simp_all add: item_known_def)
  have "item_k ?it \<noteq> 0" using batch_args_id(2) [OF args k(1)] k(2) by simp
  from bucket_lane_known [OF _ tracks_geometry(1) [OF t] it this o] t obtain v where
    v: "bucket_lane ht (item_idx ?it) (bt_offset w + 1) = Some v" "dram_map ht (item_k ?it) = Some v"
    by (auto simp: tracks_def)
  let ?r = "\<lparr>res_v = v, res_id = item_id ?it, res_status = DRAMBLAST_FOUND\<rparr>"
  let ?w = "w\<lparr>bt_pc := Look_up, bt_results := bt_results w @ [?r]\<rparr>"
  have "own ht ?w = own ht w" by (simp add: own_def)
  moreover have "length (taken ?w) = length (taken w)" "List.map res_id (taken ?w) = List.map res_id (taken w)"
    using pc by (simp_all add: taken_def)
  ultimately have "lookups_known crc ht ?w" using l by (simp add: lookups_known_def batch_inv_def)
  moreover have "result_known crc (bt_args w) ht ?r" using k v(2) by (simp add: result_known_def)
  ultimately have "batch_turn crc lut ht w ht ?w"
    using t known pc i0 by (simp add: batch_turn_def batch_known_def batch_rank_def bucket_work_def)
  then show ?thesis using v(1) pc by (simp add: batch_step_def)
qed

section \<open>The reports\<close>

lemma results_distinct:
  assumes "reports_known crc ht w" and "batch_args (bt_args w)" and "i < j" and "j < length (bt_results w)"
  shows "res_id (bt_results w ! i) \<noteq> res_id (bt_results w ! j)"
proof -
  have "mset (List.map res_id (bt_results w)) = mset (List.map arg_id (bt_args w))"
    using assms(1) by (simp only: reports_known_def)
  then have "distinct (List.map res_id (bt_results w))"
    using batch_args_distinct [OF assms(2)] mset_eq_imp_distinct_iff by blast
  then show ?thesis using assms(3,4) nth_eq_iff_index_eq [of "List.map res_id (bt_results w)" i j] by simp
qed

lemma report_known:
  assumes rk: "reports_known crc ht w" and args: "batch_args (bt_args w)" and i: "bt_i w < length (bt_results w)"
    and len: "length (bt_ret w) = length (bt_args w)" and id: "unat (res_id (bt_results w ! bt_i w)) < length (bt_args w)"
    and b: "reported crc ht (arg_k (bt_args w ! unat (res_id (bt_results w ! bt_i w)))) b"
  shows "report w (bt_results w ! bt_i w) b = Some (w\<lparr>bt_pc := Report, bt_i := Suc (bt_i w),
      bt_ret := (bt_ret w)[unat (res_id (bt_results w ! bt_i w)) := b]\<rparr>)"
    and "reports_known crc ht (w\<lparr>bt_pc := Report, bt_i := Suc (bt_i w),
      bt_ret := (bt_ret w)[unat (res_id (bt_results w ! bt_i w)) := b]\<rparr>)"
proof -
  let ?r = "bt_results w ! bt_i w"
  show "report w ?r b = Some (w\<lparr>bt_pc := Report, bt_i := Suc (bt_i w), bt_ret := (bt_ret w)[unat (res_id ?r) := b]\<rparr>)"
    using id len by (simp add: report_def)
  have other: "unat (res_id r) \<noteq> unat (res_id ?r)" if r: "r \<in> set (take (bt_i w) (bt_results w))" for r
  proof -
    obtain j where "j < bt_i w" "r = bt_results w ! j" using r i by (auto simp: in_set_conv_nth)
    then show ?thesis using results_distinct [OF rk args _ i] by (simp add: word_unat_eq_iff)
  qed
  have "reported crc ht (arg_k (bt_args w ! unat (res_id r))) ((bt_ret w)[unat (res_id ?r) := b] ! unat (res_id r))"
    if "r \<in> set (take (Suc (bt_i w)) (bt_results w))" for r
    using that rk b id len other [of r] unfolding take_Suc_conv_app_nth [OF i] reports_known_def by auto
  then show "reports_known crc ht (w\<lparr>bt_pc := Report, bt_i := Suc (bt_i w), bt_ret := (bt_ret w)[unat (res_id ?r) := b]\<rparr>)"
    using rk by (simp add: reports_known_def)
qed

lemma turn_Report:
  assumes known: "batch_known crc lut ht w" and pc: "bt_pc w = Report" and t: "tracks crc lut ht" and lut: "length lut = TABLE_SIZE"
  shows "\<exists>w'. report_step lut w = Some w' \<and> batch_turn crc lut ht w ht w'"
proof (cases "bt_i w < length (bt_results w)")
  case False
  then have "batch_turn crc lut ht w ht (w\<lparr>bt_pc := Handled\<rparr>)"
    using t known pc by (simp add: batch_turn_def batch_known_def batch_rank_def reports_known_def)
  then show ?thesis using False by (simp add: report_step_def)
next
  case True
  let ?r = "bt_results w ! bt_i w"
  let ?k = "arg_k (bt_args w ! unat (res_id ?r))"
  have args: "batch_args (bt_args w)" and len: "length (bt_ret w) = length (bt_args w)" and rk: "reports_known crc ht w"
    and res: "\<forall>r \<in> set (bt_results w). result_known crc (bt_args w) ht r"
    using known pc by (simp_all add: batch_known_def)
  have r: "result_known crc (bt_args w) ht ?r" using res True by simp
  then have id: "unat (res_id ?r) < length (bt_args w)" by (simp add: result_known_def)
  have all: "length (bt_results w) = length (bt_args w)"
    using rk unfolding reports_known_def by (metis length_map size_mset)
  show ?thesis
  proof (cases "res_status ?r = DRAMBLAST_ABSENT")
    case absent: True
    let ?w = "w\<lparr>bt_pc := Insert, bt_insert := start_insert (?k, backend_of lut ?k)\<rparr>"
    have rd: "rd lut (unat ?k mod TABLE_SIZE) = Some (backend_of lut ?k)"
      using lut by (simp add: backend_of_def TABLE_SIZE_def)
    have "(length (bt_args w) - bt_i w) * (4 * unat (ht_len ht) + 3) =
        (length (bt_args w) - Suc (bt_i w)) * (4 * unat (ht_len ht) + 3) + (4 * unat (ht_len ht) + 3)"
      using True all by (cases "length (bt_args w) - bt_i w") (auto simp: Suc_diff_Suc diff_Suc)
    then have "batch_turn crc lut ht w ht ?w"
      using t known pc True args len res rk
      by (simp add: batch_turn_def batch_known_def batch_rank_def reports_known_def start_inserts(3) start_insert_def
          inserter_ok_def insert_rank_def)
    then show ?thesis using absent True id rd by (simp add: report_step_def Let_def)
  next
    case False
    let ?b = "if res_status ?r = DRAMBLAST_TABLE_FULL then 0 else res_v ?r"
    have "reported crc ht ?k ?b" using r False status_codes by (auto simp: result_known_def reported_def)
    note rp = report_known [OF rk args True len id this]
    have "(length (bt_args w) - Suc (bt_i w)) * (4 * unat (ht_len ht) + 3) < (length (bt_args w) - bt_i w) * (4 * unat (ht_len ht) + 3)"
      using True all by (intro mult_strict_right_mono) simp_all
    then have "batch_turn crc lut ht w ht
        (w\<lparr>bt_pc := Report, bt_i := Suc (bt_i w), bt_ret := (bt_ret w)[unat (res_id ?r) := ?b]\<rparr>)"
      using rp(2) t pc True args len res by (simp add: batch_turn_def batch_known_def batch_rank_def)
    then show ?thesis using rp(1) False True
      by (cases "res_status ?r = DRAMBLAST_TABLE_FULL") (simp_all add: report_step_def Let_def)
  qed
qed

section \<open>The insertions\<close>

lemma table_growsI:
  assumes "insert_turn crc ht w ht' w'" and "tracks crc lut ht" and "in_v w = backend_of lut (in_k w)"
  shows "table_grows ht ht'" and "tracks crc lut ht'"
proof -
  have i: "dram_inv crc ht'" "ht_len ht' = ht_len ht" "grows 0 (dview ht) (dview ht')"
    "if finished w' then insert_spec (unat (ht_len ht)) (in_k w, in_v w) (dram_map ht) = (insert_rc w', dram_map ht')
     else dram_map ht' = dram_map ht" using assms(1) by (simp_all add: insert_turn_def)
  have old: "\<forall>k \<in> dom (dram_map ht). dram_map ht k = Some (backend_of lut k)" using assms(2) by (simp add: tracks_def)
  from i(4) have m: "dram_map ht' = dram_map ht \<or> dram_map ht' = (dram_map ht)(in_k w \<mapsto> backend_of lut (in_k w))"
    using assms(3) by (auto simp: insert_spec_def split: if_splits)
  have "dram_map ht a = dram_map ht' a" if "a \<in> dom (dram_map ht)" for a
    using m bspec [OF old that] by (cases "a = in_k w") auto
  then have "dram_map ht \<subseteq>\<^sub>m dram_map ht'" by (simp add: map_le_def)
  then show "table_grows ht ht'" using i by (simp add: table_grows_def)
  have "dram_map ht' a = Some (backend_of lut a)" if "a \<in> dom (dram_map ht')" for a
    using m bspec [OF old, of a] that by (cases "a = in_k w") (auto simp: dom_def)
  then show "tracks crc lut ht'" using i assms(2) by (simp add: tracks_def)
qed

text \<open>An insertion that failed has seen a full table, in which every lookup of a new flow gives up.\<close>

lemma insert_reported:
  assumes t: "insert_turn crc ht w ht' w'" and "finished w'" and inv: "dram_inv crc ht" and k: "in_k w \<noteq> 0"
  shows "reported crc ht' (in_k w) (if insert_rc w' < 0 then 0 else in_v w)"
proof -
  have i: "dram_inv crc ht'" "ht_len ht' = ht_len ht" "grows 0 (dview ht) (dview ht')"
    and s: "insert_spec (unat (ht_len ht)) (in_k w, in_v w) (dram_map ht) = (insert_rc w', dram_map ht')"
    using t assms(2) by (simp_all add: insert_turn_def)
  show ?thesis
  proof (cases "in_k w \<in> dom (dram_map ht) \<or> card (dom (dram_map ht)) < unat (ht_len ht)")
    case True
    then have "insert_rc w' = 0" "dram_map ht' = (dram_map ht)(in_k w \<mapsto> in_v w)" using s k by (auto simp: insert_spec_def)
    then show ?thesis by (simp add: reported_def)
  next
    case False
    then have rc: "insert_rc w' = -1" using s by (auto simp: insert_spec_def)
    have all: "occupied 0 (dview ht) p" if "p < unat (ht_len ht)" for p
      using False dram_room [OF inv] that by blast
    have len: "length (dview ht') = unat (ht_len ht)" "length (dview ht) = unat (ht_len ht)"
      using dram_inv_facts(2) [OF inv] dram_inv_facts(2) [OF i(1)] i(2) by simp_all
    have "occupied 0 (dview ht') p" if "p < unat (ht_len ht)" for p
      by (rule grows_occupied [OF i(3)]) (use that all len in simp_all)
    moreover have "q mod unat (ht_len ht) < unat (ht_len ht)" for q
      using pow2_pos [OF dram_inv_facts(1) [OF inv]] by simp
    ultimately have "gives_up crc ht' (in_k w)" unfolding gives_up_passed len(1) by blast
    then show ?thesis using rc by (simp add: reported_def)
  qed
qed

lemma turn_Insert:
  assumes known: "batch_known crc lut ht w" and pc: "bt_pc w = Insert" and t: "tracks crc lut ht"
  shows "\<exists>ht' w'. batch_step crc lut ht w = Some (ht', w') \<and> batch_turn crc lut ht w ht' w'"
proof -
  let ?ins = "bt_insert w" and ?r = "bt_results w ! bt_i w" and ?n = "unat (ht_len ht)"
  have args: "batch_args (bt_args w)" and len: "length (bt_ret w) = length (bt_args w)" and rk: "reports_known crc ht w"
    and i: "bt_i w < length (bt_results w)" and res: "\<forall>r \<in> set (bt_results w). result_known crc (bt_args w) ht r"
    and ins: "in_k ?ins = arg_k (bt_args w ! unat (res_id ?r))" "in_v ?ins = backend_of lut (in_k ?ins)"
      "inserter_ok crc ht ?ins" "\<not> finished ?ins"
    using known pc by (simp_all add: batch_known_def)
  have inv: "dram_inv crc ht" using t by (simp add: tracks_def)
  have id: "unat (res_id ?r) < length (bt_args w)" using res i by (simp add: result_known_def)
  have k: "in_k ?ins \<noteq> 0" using batch_args_id(2) [OF args id] ins(1) by simp
  obtain ht' ins' where s: "insert_step crc ht ?ins = Some (ht', ins')" "insert_turn crc ht ?ins ht' ins'"
    using insert_step_turn [OF inv ins(3,4)] by blast
  note g = table_growsI [OF s(2) t ins(2)]
  have ok: "inserter_ok crc ht' ins'" "in_k ins' = in_k ?ins" "in_v ins' = in_v ?ins"
    "insert_rank ?n ins' < insert_rank ?n ?ins" using s(2) by (simp_all add: insert_turn_def)
  have rk': "reports_known crc ht' w" by (rule reports_known_grows [OF rk g(1)])
  have res': "\<forall>r \<in> set (bt_results w). result_known crc (bt_args w) ht' r"
    using res result_known_grows [OF _ g(1)] by blast
  show ?thesis
  proof (cases "finished ins'")
    case False
    let ?w = "w\<lparr>bt_insert := ins'\<rparr>"
    have "batch_turn crc lut ht w ht' ?w"
      using g args len rk' i res' ins ok False pc
      by (simp add: batch_turn_def batch_known_def batch_rank_def reports_known_def)
    then show ?thesis using s(1) False pc by (simp add: batch_step_def)
  next
    case True
    let ?b = "if insert_rc ins' < 0 then 0 else in_v ?ins"
    have "reported crc ht' (arg_k (bt_args w ! unat (res_id ?r))) ?b"
      using insert_reported [OF s(2) True inv k] unfolding ins(1) .
    note rp = report_known [OF rk' args i len id this]
    have "batch_turn crc lut ht w ht'
        (w\<lparr>bt_pc := Report, bt_i := Suc (bt_i w), bt_ret := (bt_ret w)[unat (res_id ?r) := ?b]\<rparr>)"
      using rp(2) g args len i res' pc by (simp add: batch_turn_def batch_known_def batch_rank_def)
    then show ?thesis using s(1) True pc rp(1) i ok(3) by (cases "insert_rc ins' < 0") (simp_all add: batch_step_def)
  qed
qed

lemma batch_step_turn:
  assumes "batch_known crc lut ht w" and "tracks crc lut ht" and "length lut = TABLE_SIZE" and "\<not> handled w"
  shows "\<exists>ht' w'. batch_step crc lut ht w = Some (ht', w') \<and> batch_turn crc lut ht w ht' w'"
proof (cases "bt_pc w")
  case Look_up
  then obtain w' where "look_up_step crc ht w = Some w'" "batch_turn crc lut ht w ht w'"
    using turn_Look_up [OF assms(1) _ assms(2)] turn_Look_up_end [OF assms(1) _ assms(2)] by blast
  then show ?thesis using Look_up by (simp add: batch_step_def)
next
  case Report
  then obtain w' where "report_step lut w = Some w'" "batch_turn crc lut ht w ht w'"
    using turn_Report [OF assms(1) _ assms(2,3)] by blast
  then show ?thesis using Report by (simp add: batch_step_def)
qed (use turn_Read_value [OF assms(1) _ assms(2)] turn_Insert [OF assms(1) _ assms(2)] assms(4) in \<open>simp_all add: handled_def\<close>)

interpretation dram_batches: shared_step "batch_step crc lut" handled
    "\<lambda>ht. tracks crc lut ht \<and> ht_len ht = len \<and> length lut = TABLE_SIZE \<and> m \<subseteq>\<^sub>m dram_map ht" "batch_known crc lut"
    table_grows "batch_rank (unat len)"
  for crc lut len m
proof unfold_locales
  fix ht w
  assume a: "tracks crc lut ht \<and> ht_len ht = len \<and> length lut = TABLE_SIZE \<and> m \<subseteq>\<^sub>m dram_map ht"
    "batch_known crc lut ht w" "\<not> handled w"
  then obtain ht' w' where s: "batch_step crc lut ht w = Some (ht', w')" "batch_turn crc lut ht w ht' w'"
    using batch_step_turn by blast
  then have "ht_len ht' = ht_len ht" "dram_map ht \<subseteq>\<^sub>m dram_map ht'" by (simp_all add: batch_turn_def table_grows_def)
  then show "\<exists>ht' w'. batch_step crc lut ht w = Some (ht', w') \<and>
      (tracks crc lut ht' \<and> ht_len ht' = len \<and> length lut = TABLE_SIZE \<and> m \<subseteq>\<^sub>m dram_map ht') \<and> batch_known crc lut ht' w' \<and>
      table_grows ht ht' \<and> batch_rank (unat len) w' < batch_rank (unat len) w"
    using s a(1) map_le_trans by (intro exI [of _ ht'] exI [of _ w']) (auto simp: batch_turn_def)
qed (rule batch_known_stable)

section \<open>All cores together\<close>

text \<open>A core before its batch: its ring is empty, wherever head and tail stand.\<close>

definition idle_ring :: "dramblast_queue \<Rightarrow> bool" where
  "idle_ring q \<longleftrightarrow> ring_ok q \<and> ring_items q = [] \<and> unat (find_queue_size q) = 64"

lemma start_batch_known:
  assumes "tracks crc lut ht" and "idle_ring (fst qa)" and "batch_args (snd qa)"
  shows "batch_known crc lut ht (start_batch qa)"
proof -
  let ?w = "start_batch qa"
  have pend: "pending (own ht ?w) 0 = []" using assms(2) by (simp add: idle_ring_def pending_def own_def start_batch_def)
  have "lookups_known crc ht ?w"
  proof (rule lookups_knownI [where m = 0 and args = "snd qa", OF refl _ _ tracks_geometry(2) [OF assms(1)]])
    show "queue_ok (own ht ?w) 0" "queue_cap (own ht ?w) 0 = 64"
      using assms(2) by (simp_all add: idle_ring_def queue_ok_def queue_cap_def own_def start_batch_def)
    have ids: "item_id \<circ> arg_item crc (own ht ?w) = arg_id" by (simp add: fun_eq_iff arg_item_def)
    have "todo crc (own ht ?w) (snd qa) 0 0 = List.map (arg_item crc (own ht ?w)) (snd qa)" "taken ?w = []"
      using pend by (simp_all add: todo_def taken_def start_batch_def)
    then show "mset (List.map res_id (taken ?w)) + mset (List.map item_id (todo crc (own ht ?w) (snd qa) 0 0)) =
        mset (List.map arg_id (snd qa))" by (simp only: List.map_map ids list.map mset.simps add_0)
  qed (use pend in \<open>simp_all add: start_batch_def taken_def own_def\<close>)
  then show ?thesis using assms(3) by (simp add: batch_known_def start_batch_def)
qed

lemma batch_step_args: "batch_step crc lut ht w = Some (ht', w') \<Longrightarrow> bt_args w' = bt_args w"
  by (auto simp: batch_step_def look_up_step_def report_step_def report_def Let_def
      split: batch_pc.splits if_splits Option.bind_splits bucket_look.splits)

lemma start_batch_rank:
  "idle_ring (fst qa) \<Longrightarrow>
   batch_rank n (start_batch qa) = length (snd qa) * (4 * n + 3) + 2 * (length (snd qa) * (n div 4)) + 2"
  by (simp add: batch_rank_def bucket_work_def start_batch_def idle_ring_def Let_def)

lemma handled_reports:
  assumes known: "batch_known crc lut ht w" and pc: "bt_pc w = Handled" and j: "j < length (bt_args w)"
  shows "length (bt_ret w) = length (bt_args w)" and "reported crc ht (arg_k (bt_args w ! j)) (bt_ret w ! j)"
proof -
  have args: "batch_args (bt_args w)" and rk: "reports_known crc ht w" and i: "bt_i w = length (bt_results w)"
    using known pc by (simp_all add: batch_known_def)
  show "length (bt_ret w) = length (bt_args w)" using known by (simp add: batch_known_def)
  have "set (List.map arg_id (bt_args w)) = set (List.map res_id (bt_results w))"
    using rk unfolding reports_known_def by (metis set_mset_mset)
  then have "arg_id (bt_args w ! j) \<in> res_id ` set (bt_results w)" using j by (metis image_set nth_mem nth_map length_map)
  then obtain r where r: "r \<in> set (bt_results w)" "res_id r = arg_id (bt_args w ! j)" by auto
  then have "unat (res_id r) = j" using batch_args_id(1) [OF args j] by simp
  then show "reported crc ht (arg_k (bt_args w ! j)) (bt_ret w ! j)" using rk r(1) by (auto simp: reports_known_def i)
qed

text \<open>
  C2: batches of several cores at the same time.  The table maps flows to the backends of the
  lookup table, as it does from its initialisation on.  Then in every interleaving of the cores'
  accesses, where lookups of one core run while others insert, no access is out of bounds and
  the table stays well formed; no flow loses its backend, and only backends of the lookup table
  are stored; a core that made the accesses its batch needs at most has returned, whatever the
  others do; and every entry a core returned is the backend its flow is mapped to, the same for
  all cores, or 0 when the table is so full that a lookup gives up.
\<close>

theorem dramblast_batches_agree:
  assumes "dram_inv crc ht" and "4 \<le> unat (ht_len ht)" and "length lut = TABLE_SIZE"
    and "\<forall>k \<in> dom (dram_map ht). dram_map ht k = Some (lut ! (unat k mod TABLE_SIZE))"
    and "\<forall>(q, args) \<in> set cores. idle_ring q \<and> batch_args args"
  shows "\<exists>log ht' ws'. run_cores (batch_step crc lut) handled sched ht (List.map start_batch cores) = Some (log, ht', ws') \<and>
    dram_inv crc ht' \<and> dram_map ht \<subseteq>\<^sub>m dram_map ht' \<and>
    (\<forall>k \<in> dom (dram_map ht'). dram_map ht' k = Some (lut ! (unat k mod TABLE_SIZE))) \<and>
    (\<forall>i<length cores. let m = length (snd (cores ! i)); n = unat (ht_len ht) in
       m * (4 * n + 3) + 2 * (m * (n div 4)) + 2 \<le> length (filter (\<lambda>j. j = i) sched) \<longrightarrow> bt_pc (ws' ! i) = Handled) \<and>
    (\<forall>i<length cores. bt_pc (ws' ! i) = Handled \<longrightarrow>
       (\<forall>j<length (snd (cores ! i)). let k = arg_k (snd (cores ! i) ! j); b = bt_ret (ws' ! i) ! j in
          dram_map ht' k = Some b \<or> b = 0 \<and> gives_up crc ht' k))"
proof -
  let ?need = "\<lambda>i. length (snd (cores ! i)) * (4 * unat (ht_len ht) + 3) + 2 * (length (snd (cores ! i)) * (unat (ht_len ht) div 4)) + 2"
  let ?ws = "List.map start_batch cores"
  have t: "tracks crc lut ht \<and> ht_len ht = ht_len ht \<and> length lut = TABLE_SIZE \<and> dram_map ht \<subseteq>\<^sub>m dram_map ht"
    using assms(1-4) by (simp add: tracks_def backend_of_def)
  have start: "\<forall>w \<in> set ?ws. batch_known crc lut ht w"
    using start_batch_known [of crc lut ht] t assms(5) by fastforce
  obtain log ht' ws' where
    r: "run_cores (batch_step crc lut) handled sched ht ?ws = Some (log, ht', ws')"
    and t': "tracks crc lut ht' \<and> ht_len ht' = ht_len ht \<and> length lut = TABLE_SIZE \<and> dram_map ht \<subseteq>\<^sub>m dram_map ht'"
    and ok: "\<forall>w \<in> set ws'. batch_known crc lut ht' w" and len: "length ws' = length ?ws"
    using dram_batches.run_returns [OF t start, of sched] by (elim exE conjE) (rule that, assumption, intro conjI, assumption+)
  have same: "List.map bt_args ws' = List.map bt_args ?ws" by (rule run_cores_keeps [OF batch_step_args r])
  have args: "bt_args (ws' ! i) = snd (cores ! i)" if "i < length cores" for i
    using arg_cong [OF same, of "\<lambda>xs. xs ! i"] that len by (simp add: start_batch_def)
  have a: "dram_inv crc ht'" "\<forall>k \<in> dom (dram_map ht'). dram_map ht' k = Some (lut ! (unat k mod TABLE_SIZE))"
    "dram_map ht \<subseteq>\<^sub>m dram_map ht'" using t' by (simp_all add: tracks_def backend_of_def)
  have fin: "bt_pc (ws' ! i) = Handled" if "i < length cores" "?need i \<le> length (filter (\<lambda>j. j = i) sched)" for i
  proof -
    have "idle_ring (fst (cores ! i))" using assms(5) nth_mem [OF that(1)] by auto
    then have "handled (ws' ! i)"
      using dram_batches.run_finishes [OF t start _ _ r, of i] that by (simp add: start_batch_rank)
    then show ?thesis by (simp add: handled_def)
  qed
  have rep: "dram_map ht' (arg_k (snd (cores ! i) ! j)) = Some (bt_ret (ws' ! i) ! j) \<or>
      bt_ret (ws' ! i) ! j = 0 \<and> gives_up crc ht' (arg_k (snd (cores ! i) ! j))"
    if "i < length cores" "bt_pc (ws' ! i) = Handled" "j < length (snd (cores ! i))" for i j
    using handled_reports(2) [OF bspec [OF ok] that(2), of j] len that by (simp add: args reported_def)
  show ?thesis
    unfolding Let_def
    by (intro exI [of _ log] exI [of _ ht'] exI [of _ ws'] conjI r a)
      (intro allI impI, erule fin, assumption, intro allI impI, erule rep, assumption, assumption)
qed

definition two_cores :: "(dramblast_queue \<times> dramblast_arg list) list" where
  "two_cores = [(fresh_ring 62, sample_args), (fresh_ring 0, sample_args)]"

theorem dramblast_batches_agree_witness:
  "\<exists>log ht' ws'. run_cores (batch_step (\<lambda>_ k. k) (replicate TABLE_SIZE 0xff)) handled (replicate 9 0 @ replicate 119 1)
      (fresh_ht 8 []) (List.map start_batch two_cores) = Some (log, ht', ws') \<and> bt_pc (ws' ! 1) = Handled"
proof -
  have q: "\<forall>(q, args) \<in> set two_cores. idle_ring q \<and> batch_args args"
    using fresh_ring_ok [of 62] fresh_ring_ok [of 0] sample_args_batch
    by (simp add: two_cores_def idle_ring_def) (simp add: fresh_ring_def DRAMBLAST_FIND_QUEUE_SIZE_def)
  have k: "\<forall>k \<in> dom (dram_map (fresh_ht 8 [])). dram_map (fresh_ht 8 []) k = Some (replicate TABLE_SIZE 0xff ! (unat k mod TABLE_SIZE))"
    by (simp add: fresh_ht_inv(2) [OF pow2_u64_8])
  have n: "unat (ht_len (fresh_ht 8 [])) = 8" by (simp add: fresh_ht_def)
  then have "4 \<le> unat (ht_len (fresh_ht 8 []))" by simp
  from dramblast_batches_agree [OF fresh_ht_inv(1) [OF pow2_u64_8] this _ k q, of "\<lambda>_ k. k" "replicate 9 0 @ replicate 119 1"]
  obtain log ht' ws' where
    r: "run_cores (batch_step (\<lambda>_ k. k) (replicate TABLE_SIZE 0xff)) handled (replicate 9 0 @ replicate 119 1)
      (fresh_ht 8 []) (List.map start_batch two_cores) = Some (log, ht', ws')"
    and f: "\<forall>i<length two_cores. let m = length (snd (two_cores ! i)); n = unat (ht_len (fresh_ht 8 [])) in
       m * (4 * n + 3) + 2 * (m * (n div 4)) + 2 \<le> length (filter (\<lambda>j. j = i) (replicate 9 0 @ replicate 119 1)) \<longrightarrow>
         bt_pc (ws' ! i) = Handled" by auto
  have "bt_pc (ws' ! 1) = Handled"
    using f [rule_format, of 1] by (simp add: two_cores_def n sample_args_batch(2) Let_def)
  then show ?thesis using r by blast
qed

end
