(* ===== verification/Casht.thy ===== *)
theory Casht
  imports Dram_Find
begin

text \<open>
  \<open>docs/cas_kht.hpp\<close>, the C++ hash table that \<open>dramblast.c\<close> was ported from and that its tests name
  as the reference for the expected behaviour.  The class template is modelled for 16-byte slots
  of a 64-bit key and value (\<open>KV = Item\<close>) as it is compiled with \<open>BUCKETIZATION\<close>, \<open>CAS_SIMD\<close>,
  \<open>AVX_SUPPORT\<close> and \<open>READ_BEFORE_CAS\<close>, without \<open>UNIFORM_HT_SUPPORT\<close>, \<open>LATENCY_COLLECTION\<close> and
  \<open>CALC_STATS\<close>.  The three variants of the batch operations (\<open>DRAMHiT_2023\<close>, \<open>DRAMHiT_2025\<close>,
  \<open>DRAMHiT_2025_INLINED\<close>) are three functions.  Prefetching has no effect on the state.

  The hasher and the methods of a slot are declared in headers the repository does not have; they
  are the fields of \<open>kv_methods\<close>, an argument of the functions that call them.  The records of
  those headers have the fields that the code uses.  The empty key is 0, which the
  compare-and-swap with 0 and the cleared memory of a new table need.
\<close>

section \<open>Data\<close>

text \<open>A queue item starts with the 16 bytes of key and value that are stored into a slot.\<close>

record kvq =
  q_key :: u64
  q_value :: u64
  q_idx :: u64
  q_key_id :: u32

record insert_find_argument =
  ia_key :: u64
  ia_value :: u64
  ia_id :: u32

record find_result =
  fr_id :: u32
  fr_value :: u64

record value_pairs =
  vp_first :: nat
  vp_second :: "find_result list"

record casht =
  hashtable :: "dramblast_kv list"
  capacity :: u64
  empty_slot :: u64
  empty_slot_exists :: bool
  find_ring :: "kvq request_ring"
  insert_ring :: "kvq request_ring"

record kv_methods =
  kv_hash :: "u64 \<Rightarrow> u64"
  kv_find_simd :: "dramblast_kv list \<Rightarrow> u64 \<Rightarrow> kvq \<Rightarrow> value_pairs \<Rightarrow> (bool \<times> value_pairs) option"
  kv_find :: "dramblast_kv \<Rightarrow> kvq \<Rightarrow> value_pairs \<Rightarrow> (bool \<times> value_pairs) option"
  kv_compare_key :: "dramblast_kv \<Rightarrow> u64 \<Rightarrow> bool"
  kv_update_cas :: "dramblast_kv \<Rightarrow> u64 \<Rightarrow> u64 \<Rightarrow> dramblast_kv"
  kv_is_empty :: "dramblast_kv \<Rightarrow> bool"
  kv_insert_cas :: "dramblast_kv \<Rightarrow> u64 \<Rightarrow> u64 \<Rightarrow> dramblast_kv option"
  kv_get_value :: "dramblast_kv \<Rightarrow> u64"

definition KV_IN_CACHELINE :: u64 where "KV_IN_CACHELINE = 4"
definition KEYS_IN_CACHELINE_MASK :: u64 where "KEYS_IN_CACHELINE_MASK = 3"
definition KEYMSK :: u8 where "KEYMSK = 0b01010101"

text \<open>The mask is computed in 64 bits and cut to 32.\<close>

definition HT_BUCKET_MASK :: "u64 \<Rightarrow> u64" where
  "HT_BUCKET_MASK cap = ucast (ucast ((cap - 1) AND NOT KEYS_IN_CACHELINE_MASK) :: u32)"

section \<open>Construction\<close>

text \<open>The static members: what all instances share, and how many instances there are.\<close>

record casht_class =
  cls_hashtable :: "dramblast_kv list option"
  cls_empty_slot :: u64
  cls_empty_slot_exists :: bool
  cls_ref_cnt :: u32

text \<open>
  The constructor calls \<open>abort\<close> for a capacity of no whole cache lines or an odd queue size; a
  failed assertion is \<open>None\<close>.  \<open>next_pow2\<close>, \<open>calloc_ht\<close> and \<open>aligned_alloc\<close> are arguments; the blocks of
  the queues have any contents.
\<close>

definition empty_ring :: "(u32 \<Rightarrow> kvq list) \<Rightarrow> u32 \<Rightarrow> kvq request_ring" where
  "empty_ring alloc queue_sz =
     \<lparr>find_queue = alloc queue_sz, find_queue_head = 0, find_queue_tail = 0, find_queue_size = queue_sz\<rparr>"

definition casht_new ::
  "(u64 \<Rightarrow> u64) \<Rightarrow> (u64 \<Rightarrow> dramblast_kv list) \<Rightarrow> (u32 \<Rightarrow> kvq list) \<Rightarrow> u64 \<Rightarrow> u32 \<Rightarrow> casht_class \<Rightarrow>
     (casht \<times> casht_class) outcome option" where
  "casht_new next_pow2 calloc_ht alloc c queue_sz cls =
     (let cap = next_pow2 c in
      if cap mod KV_IN_CACHELINE \<noteq> 0 then Some (Exit 134)
      else if queue_sz > 0 \<and> queue_sz mod 2 \<noteq> 0 then Some (Exit 134)
      else do {
        T \<leftarrow> (case cls_hashtable cls of
               None \<Rightarrow> if cls_ref_cnt cls = 0 then Some (calloc_ht cap) else None
             | Some T \<Rightarrow> Some T);
        let cls' = cls\<lparr>cls_hashtable := Some T, cls_ref_cnt := cls_ref_cnt cls + 1\<rparr>;
        Some (Return (\<lparr>hashtable = T, capacity = cap,
                       empty_slot = cls_empty_slot cls, empty_slot_exists = cls_empty_slot_exists cls,
                       find_ring = empty_ring alloc queue_sz, insert_ring = empty_ring alloc queue_sz\<rparr>, cls'))
      })"

text \<open>The destructor: the last instance releases the table.\<close>

definition casht_delete :: "casht_class \<Rightarrow> casht_class" where
  "casht_delete cls =
     (let ref_cnt = cls_ref_cnt cls - 1 in
      cls\<lparr>cls_hashtable := (if ref_cnt = 0 then None else cls_hashtable cls), cls_ref_cnt := ref_cnt\<rparr>)"

definition casht_clear :: "casht \<Rightarrow> casht" where
  "casht_clear st = st\<lparr>hashtable := replicate (unat (capacity st)) \<lparr>kv_k = 0, kv_v = 0\<rparr>\<rparr>"

section \<open>Queues\<close>

definition ring_sz :: "kvq request_ring \<Rightarrow> u32" where
  "ring_sz r = (find_queue_head r - find_queue_tail r) AND (find_queue_size r - 1)"

text \<open>Some fields of the slot at the head are written, then the head moves on.\<close>

definition ring_put :: "kvq request_ring \<Rightarrow> (kvq \<Rightarrow> kvq) \<Rightarrow> kvq request_ring option" where
  "ring_put r f = do {
     slot \<leftarrow> rd (find_queue r) (unat (find_queue_head r));
     Some (r\<lparr>find_queue := (find_queue r)[unat (find_queue_head r) := f slot],
             find_queue_head := (find_queue_head r + 1) AND (find_queue_size r - 1)\<rparr>)
   }"

definition ring_tail :: "kvq request_ring \<Rightarrow> kvq option" where
  "ring_tail r = rd (find_queue r) (unat (find_queue_tail r))"

definition ring_advance :: "kvq request_ring \<Rightarrow> kvq request_ring" where
  "ring_advance r = r\<lparr>find_queue_tail := (find_queue_tail r + 1) AND (find_queue_size r - 1)\<rparr>"

definition bucket_start :: "kv_methods \<Rightarrow> casht \<Rightarrow> u64 \<Rightarrow> u64" where
  "bucket_start M st key =
     (let hash = kv_hash M key; idx = hash AND (capacity st - 1) in idx - (idx AND KEYS_IN_CACHELINE_MASK))"

definition add_to_find_queue :: "kv_methods \<Rightarrow> casht \<Rightarrow> insert_find_argument \<Rightarrow> casht option" where
  "add_to_find_queue M st key_data = do {
     r \<leftarrow> ring_put (find_ring st)
       (\<lambda>slot. slot\<lparr>q_idx := bucket_start M st (ia_key key_data), q_key := ia_key key_data, q_key_id := ia_id key_data\<rparr>);
     Some (st\<lparr>find_ring := r\<rparr>)
   }"

definition add_to_insert_queue :: "kv_methods \<Rightarrow> casht \<Rightarrow> insert_find_argument \<Rightarrow> casht option" where
  "add_to_insert_queue M st key_data = do {
     r \<leftarrow> ring_put (insert_ring st)
       (\<lambda>slot. slot\<lparr>q_idx := bucket_start M st (ia_key key_data), q_key := ia_key key_data,
                    q_key_id := ia_id key_data, q_value := ia_value key_data\<rparr>);
     Some (st\<lparr>insert_ring := r\<rparr>)
   }"

section \<open>Lookup\<close>

definition vp_put :: "value_pairs \<Rightarrow> u32 \<Rightarrow> u64 \<Rightarrow> value_pairs option" where
  "vp_put vp i v = do {
     rs \<leftarrow> wr (vp_second vp) (vp_first vp) \<lparr>fr_id = i, fr_value = v\<rparr>;
     Some \<lparr>vp_first = Suc (vp_first vp), vp_second = rs\<rparr>
   }"

text \<open>The value is returned and taken for the retry flag by the caller.\<close>

definition find_empty :: "casht \<Rightarrow> kvq \<Rightarrow> value_pairs \<Rightarrow> (u64 \<times> value_pairs) option" where
  "find_empty st q vp = do {
     vp' \<leftarrow> (if empty_slot_exists st then vp_put vp (q_key_id q) (empty_slot st) else Some vp);
     Some (empty_slot st, vp')
   }"

text \<open>A request is queued again for the bucket at \<open>idx\<close>.\<close>

definition find_again :: "casht \<Rightarrow> kvq \<Rightarrow> u64 \<Rightarrow> casht option" where
  "find_again st q idx = do {
     r \<leftarrow> ring_put (find_ring st) (\<lambda>slot. slot\<lparr>q_key := q_key q, q_key_id := q_key_id q, q_idx := idx\<rparr>);
     Some (st\<lparr>find_ring := r\<rparr>)
   }"

definition find_simd :: "kv_methods \<Rightarrow> casht \<Rightarrow> kvq \<Rightarrow> value_pairs \<Rightarrow> (u64 \<times> casht \<times> value_pairs) option" where
  "find_simd M st q vp = do {
     (retry, vp') \<leftarrow> kv_find_simd M (hashtable st) (q_idx q) q vp;
     if retry then do {
       st' \<leftarrow> find_again st q ((q_idx q + KV_IN_CACHELINE) AND (capacity st - 1));
       Some (1, st', vp')
     }
     else Some (0, st, vp')
   }"

text \<open>The variant without vector instructions: slot by slot to the end of the cache line.\<close>

partial_function (option) find_branched_from ::
  "kv_methods \<Rightarrow> casht \<Rightarrow> kvq \<Rightarrow> u64 \<Rightarrow> value_pairs \<Rightarrow> (u64 \<times> casht \<times> value_pairs) option" where
  "find_branched_from M st q idx vp = do {
     curr \<leftarrow> rd (hashtable st) (unat idx);
     (retry, vp') \<leftarrow> kv_find M curr q vp;
     if retry then
       let idx = (idx + 1) AND (capacity st - 1) in
       if idx AND KEYS_IN_CACHELINE_MASK \<noteq> 0 then find_branched_from M st q idx vp'
       else do {
         st' \<leftarrow> find_again st q idx;
         Some (1, st', vp')
       }
     else Some (0, st, vp')
   }"

definition find_branched :: "kv_methods \<Rightarrow> casht \<Rightarrow> kvq \<Rightarrow> value_pairs \<Rightarrow> (u64 \<times> casht \<times> value_pairs) option" where
  "find_branched M st q vp = find_branched_from M st q (q_idx q) vp"

definition find_one :: "kv_methods \<Rightarrow> casht \<Rightarrow> kvq \<Rightarrow> value_pairs \<Rightarrow> (u64 \<times> casht \<times> value_pairs) option" where
  "find_one M st q vp =
     (if q_key q = 0 then do {
        (retry, vp') \<leftarrow> find_empty st q vp;
        Some (retry, st, vp')
      }
      else find_simd M st q vp)"

partial_function (option) pop_find_queue ::
  "kv_methods \<Rightarrow> casht \<Rightarrow> value_pairs \<Rightarrow> (casht \<times> value_pairs) option" where
  "pop_find_queue M st vp = do {
     q \<leftarrow> ring_tail (find_ring st);
     (retry, st1, vp1) \<leftarrow> find_one M st q vp;
     let st2 = st1\<lparr>find_ring := ring_advance (find_ring st1)\<rparr>;
     if retry \<noteq> 0 then pop_find_queue M st2 vp1 else Some (st2, vp1)
   }"

text \<open>\<open>find_batch\<close> of \<open>DRAMHiT_2025\<close>, also the slow path of \<open>DRAMHiT_2025_INLINED\<close>.\<close>

fun find_batch_2025 ::
  "kv_methods \<Rightarrow> casht \<Rightarrow> insert_find_argument list \<Rightarrow> value_pairs \<Rightarrow> (casht \<times> value_pairs) option" where
  "find_batch_2025 M st [] vp = Some (st, vp)"
| "find_batch_2025 M st (key_data # kp) vp = do {
     (st1, vp1) \<leftarrow> (if ring_sz (find_ring st) \<ge> find_queue_size (find_ring st) - 1
                    then pop_find_queue M st vp else Some (st, vp));
     st2 \<leftarrow> add_to_find_queue M st1 key_data;
     find_batch_2025 M st2 kp vp1
   }"

text \<open>With \<open>FAST_PATH\<close> the loop over a batch is split as that of \<open>insert_batch\<close> is.\<close>

fun find_all_popping ::
  "kv_methods \<Rightarrow> casht \<Rightarrow> insert_find_argument list \<Rightarrow> value_pairs \<Rightarrow> (casht \<times> value_pairs) option" where
  "find_all_popping M st [] vp = Some (st, vp)"
| "find_all_popping M st (key_data # kp) vp = do {
     (st1, vp1) \<leftarrow> pop_find_queue M st vp;
     st2 \<leftarrow> add_to_find_queue M st1 key_data;
     find_all_popping M st2 kp vp1
   }"

definition find_batch_fast ::
  "kv_methods \<Rightarrow> casht \<Rightarrow> insert_find_argument list \<Rightarrow> value_pairs \<Rightarrow> (casht \<times> value_pairs) option" where
  "find_batch_fast M st kp vp =
     (if ring_sz (find_ring st) \<ge> find_queue_size (find_ring st) - 1
      then find_all_popping M st kp vp else find_batch_2025 M st kp vp)"

fun flush_find_loop ::
  "kv_methods \<Rightarrow> nat \<Rightarrow> nat \<Rightarrow> casht \<Rightarrow> value_pairs \<Rightarrow> (nat \<times> casht \<times> value_pairs) option" where
  "flush_find_loop M batch_len 0 st vp = Some (0, st, vp)"
| "flush_find_loop M batch_len (Suc n) st vp =
     (if vp_first vp < batch_len then do {
        (st', vp') \<leftarrow> pop_find_queue M st vp;
        flush_find_loop M batch_len n st' vp'
      }
      else Some (Suc n, st, vp))"

definition flush_find_queue ::
  "kv_methods \<Rightarrow> nat \<Rightarrow> casht \<Rightarrow> value_pairs \<Rightarrow> (nat \<times> casht \<times> value_pairs) option" where
  "flush_find_queue M batch_len st vp = flush_find_loop M batch_len (unat (ring_sz (find_ring st))) st vp"

text \<open>\<open>find_batch\<close> of \<open>DRAMHiT_2023\<close>: the queue is kept below a threshold.\<close>

partial_function (option) flush_find_if_needed ::
  "kv_methods \<Rightarrow> u32 \<Rightarrow> nat \<Rightarrow> casht \<Rightarrow> value_pairs \<Rightarrow> (casht \<times> value_pairs) option" where
  "flush_find_if_needed M FLUSH_THRESHOLD batch_len st vp =
     (if ring_sz (find_ring st) > FLUSH_THRESHOLD \<and> vp_first vp < batch_len then do {
        q \<leftarrow> ring_tail (find_ring st);
        (retry, st1, vp1) \<leftarrow> find_one M st q vp;
        flush_find_if_needed M FLUSH_THRESHOLD batch_len (st1\<lparr>find_ring := ring_advance (find_ring st1)\<rparr>) vp1
      }
      else Some (st, vp))"

fun add_all :: "('s \<Rightarrow> 'a \<Rightarrow> 's option) \<Rightarrow> 's \<Rightarrow> 'a list \<Rightarrow> 's option" where
  "add_all add st [] = Some st"
| "add_all add st (key_data # kp) = do { st' \<leftarrow> add st key_data; add_all add st' kp }"

definition find_batch_2023 ::
  "kv_methods \<Rightarrow> u32 \<Rightarrow> nat \<Rightarrow> casht \<Rightarrow> insert_find_argument list \<Rightarrow> value_pairs \<Rightarrow> (casht \<times> value_pairs) option" where
  "find_batch_2023 M FLUSH_THRESHOLD batch_len st kp vp = do {
     (st1, vp1) \<leftarrow> flush_find_if_needed M FLUSH_THRESHOLD batch_len st vp;
     st2 \<leftarrow> add_all (add_to_find_queue M) st1 kp;
     flush_find_if_needed M FLUSH_THRESHOLD batch_len st2 vp1
   }"

section \<open>The unrolled lookup\<close>

text \<open>
  The code between the label \<open>retry\<close> and the next request: items are popped, and queued again for
  the next bucket, until one is answered.  The index is a 32-bit variable here.  The result is
  \<open>None\<close> for a key that is not there.
\<close>

partial_function (option) find_inline_one ::
  "dramblast_kv list \<Rightarrow> u64 \<Rightarrow> kvq request_ring \<Rightarrow> (find_result option \<times> kvq request_ring) option" where
  "find_inline_one T bucket_mask r = do {
     q \<leftarrow> ring_tail r;
     let idx = (ucast (q_idx q) :: u32);
     let key = q_key q;
     cacheline \<leftarrow> mm512_load_bucket T (unat idx);
     let key_cmp = mm512_mask_cmpeq_epu64_mask KEYMSK cacheline (mm512_set1_epi64 key);
     let r1 = ring_advance r;
     if key_cmp > 0 then do {
       v \<leftarrow> rd cacheline (builtin_ctz key_cmp + 1);
       Some (Some \<lparr>fr_id = q_key_id q, fr_value = v\<rparr>, r1)
     }
     else do {
       let ept_cmp = mm512_mask_cmpeq_epu64_mask KEYMSK cacheline (mm512_set1_epi64 0);
       if ept_cmp = 0 then do {
         let idx = (ucast (ucast idx + KV_IN_CACHELINE) :: u32);
         let idx = (ucast (ucast idx AND bucket_mask) :: u32);
         r2 \<leftarrow> ring_put r1 (\<lambda>slot. slot\<lparr>q_key := key, q_key_id := q_key_id q, q_idx := ucast idx\<rparr>);
         find_inline_one T bucket_mask r2
       }
       else Some (None, r1)
     }
   }"

fun find_inline_all ::
  "(u64 \<Rightarrow> u64 \<Rightarrow> u64) \<Rightarrow> dramblast_kv list \<Rightarrow> u64 \<Rightarrow> kvq request_ring \<Rightarrow> insert_find_argument list \<Rightarrow>
     (find_result list \<times> kvq request_ring) option" where
  "find_inline_all crc T bucket_mask r [] = Some ([], r)"
| "find_inline_all crc T bucket_mask r (key_data # kp) = do {
     (res, r1) \<leftarrow> find_inline_one T bucket_mask r;
     let hash = crc 0xffffffff (ia_key key_data);
     let new_idx = (ucast (hash AND bucket_mask) :: u32);
     r2 \<leftarrow> ring_put r1 (\<lambda>slot. slot\<lparr>q_key := ia_key key_data, q_idx := ucast new_idx, q_key_id := ia_id key_data\<rparr>);
     (results, r3) \<leftarrow> find_inline_all crc T bucket_mask r2 kp;
     Some (case res of None \<Rightarrow> results | Some result \<Rightarrow> result # results, r3)
   }"

text \<open>
  The results are written from the start of the array, whatever its count was; the count grows by
  the number of requests less those not found.
\<close>

definition find_batch_inline ::
  "(u64 \<Rightarrow> u64 \<Rightarrow> u64) \<Rightarrow> kv_methods \<Rightarrow> casht \<Rightarrow> insert_find_argument list \<Rightarrow> value_pairs \<Rightarrow>
     (casht \<times> value_pairs) option" where
  "find_batch_inline crc M st kp vp =
     (if ring_sz (find_ring st) \<ge> find_queue_size (find_ring st) - 1 then do {
        (results, r) \<leftarrow> find_inline_all crc (hashtable st) (HT_BUCKET_MASK (capacity st)) (find_ring st) kp;
        rs \<leftarrow> wr_bytes (vp_second vp) 0 results;
        Some (st\<lparr>find_ring := r\<rparr>, \<lparr>vp_first = vp_first vp + length results, vp_second = rs\<rparr>)
      }
      else find_batch_2025 M st kp vp)"

section \<open>Insertion\<close>

text \<open>The next bucket for a request that found no room, in the queue of insertions.\<close>

definition insert_again :: "casht \<Rightarrow> kvq \<Rightarrow> u64 \<Rightarrow> casht option" where
  "insert_again st q idx = do {
     r \<leftarrow> ring_put (insert_ring st)
       (\<lambda>slot. slot\<lparr>q_key := q_key q, q_key_id := q_key_id q, q_value := q_value q, q_idx := idx\<rparr>);
     Some (st\<lparr>insert_ring := r\<rparr>)
   }"

partial_function (option) try_insert_from ::
  "kv_methods \<Rightarrow> casht \<Rightarrow> kvq \<Rightarrow> u64 \<Rightarrow> (u64 \<times> casht) option" where
  "try_insert_from M st q idx = do {
     curr \<leftarrow> rd (hashtable st) (unat idx);
     case (if kv_k curr = 0
           then dramblast_cas (hashtable st) (unat idx) \<lparr>kv_k = q_key q, kv_v = q_value q\<rparr> else None) of
       Some T \<Rightarrow> Some (0, st\<lparr>hashtable := T\<rparr>)
     | None \<Rightarrow>
         if kv_compare_key M curr (q_key q)
         then Some (0, st\<lparr>hashtable := (hashtable st)[unat idx := kv_update_cas M curr (q_key q) (q_value q)]\<rparr>)
         else
           let idx = (idx + 1) AND (capacity st - 1) in
           if idx AND KEYS_IN_CACHELINE_MASK \<noteq> 0 then try_insert_from M st q idx
           else do { st' \<leftarrow> insert_again st q idx; Some (1, st') }
   }"

text \<open>A store to \<open>bucket[lane]\<close>.\<close>

definition store_lane :: "dramblast_kv list \<Rightarrow> u64 \<Rightarrow> nat \<Rightarrow> u64 \<Rightarrow> dramblast_kv list option" where
  "store_lane T idx lane v = do {
     kv \<leftarrow> rd T (unat idx + lane div 2);
     Some (T[unat idx + lane div 2 := if even lane then kv\<lparr>kv_k := v\<rparr> else kv\<lparr>kv_v := v\<rparr>])
   }"

definition insert_branched :: "kv_methods \<Rightarrow> casht \<Rightarrow> kvq \<Rightarrow> (u64 \<times> casht) option" where
  "insert_branched M st q = do {
     let idx = q_idx q;
     cacheline \<leftarrow> mm512_load_bucket (hashtable st) (unat idx);
     let key_cmp = mm512_mask_cmpeq_epu64_mask KEYMSK cacheline (mm512_set1_epi64 (q_key q));
     if key_cmp > 0 then do {
       T \<leftarrow> store_lane (hashtable st) idx (builtin_ctz key_cmp + 1) (q_value q);
       Some (0, st\<lparr>hashtable := T\<rparr>)
     }
     else do {
       let ept_cmp = mm512_mask_cmpeq_epu64_mask KEYMSK cacheline (mm512_set1_epi64 0);
       if ept_cmp \<noteq> 0 then try_insert_from M st q (idx + of_nat (builtin_ctz ept_cmp div 2))
       else do {
         st' \<leftarrow> insert_again st q ((idx + 4) AND (capacity st - 1));
         Some (1, st')
       }
     }
   }"

definition insert_empty :: "bool \<Rightarrow> casht \<Rightarrow> kvq \<Rightarrow> casht" where
  "insert_empty aggr st q =
     st\<lparr>empty_slot := (if aggr then empty_slot st + q_value q else q_value q), empty_slot_exists := True\<rparr>"

definition insert_one :: "kv_methods \<Rightarrow> casht \<Rightarrow> kvq \<Rightarrow> (u64 \<times> casht) option" where
  "insert_one M st q =
     (if q_key q = 0 then Some (0, insert_empty False st q) else insert_branched M st q)"

partial_function (option) pop_insert_queue :: "kv_methods \<Rightarrow> casht \<Rightarrow> casht option" where
  "pop_insert_queue M st = do {
     q \<leftarrow> ring_tail (insert_ring st);
     (retry, st1) \<leftarrow> insert_one M st q;
     let st2 = st1\<lparr>insert_ring := ring_advance (insert_ring st1)\<rparr>;
     if retry \<noteq> 0 then pop_insert_queue M st2 else Some st2
   }"

fun insert_all_popping :: "kv_methods \<Rightarrow> casht \<Rightarrow> insert_find_argument list \<Rightarrow> casht option" where
  "insert_all_popping M st [] = Some st"
| "insert_all_popping M st (key_data # kp) = do {
     st1 \<leftarrow> pop_insert_queue M st;
     st2 \<leftarrow> add_to_insert_queue M st1 key_data;
     insert_all_popping M st2 kp
   }"

fun insert_all_room :: "kv_methods \<Rightarrow> casht \<Rightarrow> insert_find_argument list \<Rightarrow> casht option" where
  "insert_all_room M st [] = Some st"
| "insert_all_room M st (key_data # kp) = do {
     st1 \<leftarrow> (if ring_sz (insert_ring st) \<ge> find_queue_size (insert_ring st) - 1
             then pop_insert_queue M st else Some st);
     st2 \<leftarrow> add_to_insert_queue M st1 key_data;
     insert_all_room M st2 kp
   }"

definition insert_batch_2025 :: "kv_methods \<Rightarrow> casht \<Rightarrow> insert_find_argument list \<Rightarrow> casht option" where
  "insert_batch_2025 M st kp =
     (if ring_sz (insert_ring st) \<ge> find_queue_size (insert_ring st) - 1
      then insert_all_popping M st kp else insert_all_room M st kp)"

fun pop_insert_times :: "kv_methods \<Rightarrow> nat \<Rightarrow> casht \<Rightarrow> casht option" where
  "pop_insert_times M 0 st = Some st"
| "pop_insert_times M (Suc n) st = do { st' \<leftarrow> pop_insert_queue M st; pop_insert_times M n st' }"

definition flush_insert_queue :: "kv_methods \<Rightarrow> casht \<Rightarrow> casht option" where
  "flush_insert_queue M st = pop_insert_times M (unat (ring_sz (insert_ring st))) st"

partial_function (option) flush_insert_if_needed :: "kv_methods \<Rightarrow> u32 \<Rightarrow> casht \<Rightarrow> casht option" where
  "flush_insert_if_needed M INS_FLUSH_THRESHOLD st =
     (if ring_sz (insert_ring st) > INS_FLUSH_THRESHOLD then do {
        q \<leftarrow> ring_tail (insert_ring st);
        (retry, st1) \<leftarrow> insert_one M st q;
        flush_insert_if_needed M INS_FLUSH_THRESHOLD (st1\<lparr>insert_ring := ring_advance (insert_ring st1)\<rparr>)
      }
      else Some st)"

definition insert_batch_2023 ::
  "kv_methods \<Rightarrow> u32 \<Rightarrow> casht \<Rightarrow> insert_find_argument list \<Rightarrow> casht option" where
  "insert_batch_2023 M INS_FLUSH_THRESHOLD st kp = do {
     st1 \<leftarrow> flush_insert_if_needed M INS_FLUSH_THRESHOLD st;
     st2 \<leftarrow> add_all (add_to_insert_queue M) st1 kp;
     flush_insert_if_needed M INS_FLUSH_THRESHOLD st2
   }"

section \<open>The unrolled insertion\<close>

text \<open>
  \<open>idx\<close> is where a request is queued again; the code adds a bucket at \<open>retry_add_to_queue\<close>, also
  after the slots of a bucket were tried one by one and \<open>idx\<close> stands at the next bucket already.
\<close>

definition inline_again :: "casht \<Rightarrow> kvq \<Rightarrow> u64 \<Rightarrow> casht option" where
  "inline_again st q idx = insert_again st q ((idx + KV_IN_CACHELINE) AND (capacity st - 1))"

partial_function (option) try_insert_inline ::
  "kv_methods \<Rightarrow> casht \<Rightarrow> kvq \<Rightarrow> u64 \<Rightarrow> (bool \<times> casht) option" where
  "try_insert_inline M st q idx = do {
     curr \<leftarrow> rd (hashtable st) (unat idx);
     case (if kv_k curr = 0
           then dramblast_cas (hashtable st) (unat idx) \<lparr>kv_k = q_key q, kv_v = q_value q\<rparr> else None) of
       Some T \<Rightarrow> Some (False, st\<lparr>hashtable := T\<rparr>)
     | None \<Rightarrow>
         if kv_compare_key M curr (q_key q)
         then Some (False, st\<lparr>hashtable := (hashtable st)[unat idx := kv_update_cas M curr (q_key q) (q_value q)]\<rparr>)
         else
           let idx = (idx + 1) AND (capacity st - 1) in
           if idx AND KEYS_IN_CACHELINE_MASK \<noteq> 0 then try_insert_inline M st q idx
           else do { st' \<leftarrow> inline_again st q idx; Some (True, st') }
   }"

text \<open>The body of the loop: the item is popped before it is tried.\<close>

partial_function (option) insert_inline_one :: "kv_methods \<Rightarrow> casht \<Rightarrow> casht option" where
  "insert_inline_one M st = do {
     q \<leftarrow> ring_tail (insert_ring st);
     let st1 = st\<lparr>insert_ring := ring_advance (insert_ring st)\<rparr>;
     let idx = q_idx q;
     cacheline \<leftarrow> mm512_load_bucket (hashtable st1) (unat idx);
     let key_cmp = mm512_mask_cmpeq_epu64_mask KEYMSK cacheline (mm512_set1_epi64 (q_key q));
     if key_cmp > 0 then do {
       T \<leftarrow> store_lane (hashtable st1) idx (builtin_ctz key_cmp + 1) (q_value q);
       Some (st1\<lparr>hashtable := T\<rparr>)
     }
     else do {
       let ept_cmp = mm512_mask_cmpeq_epu64_mask KEYMSK cacheline (mm512_set1_epi64 0);
       (retry, st2) \<leftarrow> (if ept_cmp \<noteq> 0
         then try_insert_inline M st1 q (idx + of_nat (builtin_ctz ept_cmp div 2))
         else do { st2 \<leftarrow> inline_again st1 q idx; Some (True, st2) });
       if retry then insert_inline_one M st2 else Some st2
     }
   }"

fun insert_inline_all :: "kv_methods \<Rightarrow> casht \<Rightarrow> insert_find_argument list \<Rightarrow> casht option" where
  "insert_inline_all M st [] = Some st"
| "insert_inline_all M st (key_data # kp) = do {
     st1 \<leftarrow> insert_inline_one M st;
     st2 \<leftarrow> add_to_insert_queue M st1 key_data;
     insert_inline_all M st2 kp
   }"

definition insert_batch_inline :: "kv_methods \<Rightarrow> casht \<Rightarrow> insert_find_argument list \<Rightarrow> casht option" where
  "insert_batch_inline M st kp =
     (if ring_sz (insert_ring st) \<ge> find_queue_size (insert_ring st) - 1
      then insert_inline_all M st kp else insert_all_room M st kp)"

section \<open>Without the queues\<close>

text \<open>The counter of the loops is a 32-bit variable.\<close>

partial_function (option) insert_noprefetch_from ::
  "kv_methods \<Rightarrow> casht \<Rightarrow> u64 \<Rightarrow> u64 \<Rightarrow> u64 \<Rightarrow> u32 \<Rightarrow> casht option" where
  "insert_noprefetch_from M st key v idx i =
     (if ucast i < capacity st then do {
        curr \<leftarrow> rd (hashtable st) (unat idx);
        if kv_is_empty M curr then
          (case kv_insert_cas M curr key v of
             Some kv \<Rightarrow> Some (st\<lparr>hashtable := (hashtable st)[unat idx := kv]\<rparr>)
           | None \<Rightarrow> insert_noprefetch_from M st key v idx i)
        else if kv_compare_key M curr key
        then Some (st\<lparr>hashtable := (hashtable st)[unat idx := kv_update_cas M curr key v]\<rparr>)
        else insert_noprefetch_from M st key v ((idx + 1) AND (capacity st - 1)) (i + 1)
      }
      else Some st)"

definition insert_noprefetch :: "kv_methods \<Rightarrow> casht \<Rightarrow> u64 \<Rightarrow> u64 \<Rightarrow> casht option" where
  "insert_noprefetch M st key v =
     (let hash = kv_hash M key; idx = hash AND (capacity st - 1)
      in insert_noprefetch_from M st key v idx 0)"

partial_function (option) find_noprefetch_from ::
  "kv_methods \<Rightarrow> casht \<Rightarrow> u64 \<Rightarrow> u64 \<Rightarrow> u32 \<Rightarrow> dramblast_kv option option" where
  "find_noprefetch_from M st key idx i =
     (if ucast i < capacity st then do {
        let idx = idx AND (capacity st - 1);
        curr \<leftarrow> rd (hashtable st) (unat idx);
        if kv_is_empty M curr then Some None
        else if kv_compare_key M curr key then Some (Some curr)
        else find_noprefetch_from M st key (idx + 1) (i + 1)
      }
      else Some None)"

definition find_noprefetch :: "kv_methods \<Rightarrow> casht \<Rightarrow> u64 \<Rightarrow> dramblast_kv option option" where
  "find_noprefetch M st key = find_noprefetch_from M st key (kv_hash M key) 0"

definition get_fill :: "kv_methods \<Rightarrow> casht \<Rightarrow> nat" where
  "get_fill M st = length (filter (\<lambda>kv. \<not> kv_is_empty M kv) (hashtable st))"

definition get_max_count :: "kv_methods \<Rightarrow> casht \<Rightarrow> u64" where
  "get_max_count M st = fold (\<lambda>kv n. if kv_get_value M kv > n then kv_get_value M kv else n) (hashtable st) 0"

end
