(* ===== verification/Casht_Find.thy ===== *)
theory Casht_Find
  imports Casht Dram_Lookup
begin

text \<open>
  The lookups of \<open>docs/cas_kht.hpp\<close>: one bucket over a well-formed table, the queue of pending
  lookups as the list of its items, and what a batch delivers.  The unrolled batch is shown to do
  the same as the loop it unrolls, and \<open>dramblast.c\<close> to find what the reference finds.
\<close>

section \<open>The table\<close>

text \<open>The slots with the hasher, as a table of \<open>Dramblast\<close>, whose invariant and map are used.\<close>

definition as_dram :: "casht \<Rightarrow> dramblast_ht" where
  "as_dram st = \<lparr>ht_table = hashtable st, ht_len = capacity st, ht_queues = []\<rparr>"

definition casht_map :: "casht \<Rightarrow> u64 \<rightharpoonup> u64" where
  "casht_map st = dram_map (as_dram st)"

definition casht_ok :: "(u64 \<Rightarrow> u64) \<Rightarrow> casht \<Rightarrow> bool" where
  "casht_ok H st \<longleftrightarrow> dram_inv (\<lambda>_. H) (as_dram st) \<and> 4 \<le> unat (capacity st)"

abbreviation home_of :: "(u64 \<Rightarrow> u64) \<Rightarrow> casht \<Rightarrow> u64 \<Rightarrow> nat" where
  "home_of H st \<equiv> dhome (\<lambda>_. H) (capacity st)"

abbreviation slots :: "casht \<Rightarrow> (u64 \<times> u64) list" where
  "slots st \<equiv> dview (as_dram st)"

definition has_room :: "casht \<Rightarrow> bool" where
  "has_room st \<longleftrightarrow> (\<exists>kv \<in> set (hashtable st). kv_k kv = 0)"

lemma as_dram_simps [simp]:
  "ht_table (as_dram st) = hashtable st" "ht_len (as_dram st) = capacity st"
  by (simp_all add: as_dram_def)

lemma casht_facts:
  assumes "casht_ok H st"
  shows "pow2_u64 (capacity st)" and "length (hashtable st) = unat (capacity st)"
    and "wf_probe 0 (home_of H st) (slots st)" and "unique_keys 0 (slots st)"
    and "4 dvd unat (capacity st)" and "home_of H st k < unat (capacity st)" and "4 dvd home_of H st k"
proof -
  have i: "dram_inv (\<lambda>_. H) (as_dram st)" using assms by (simp add: casht_ok_def)
  show p: "pow2_u64 (capacity st)" and "length (hashtable st) = unat (capacity st)"
    and "wf_probe 0 (home_of H st) (slots st)" using i by (simp_all add: dram_inv_def)
  then show "unique_keys 0 (slots st)" by (simp add: wf_probe_def)
  show "4 dvd unat (capacity st)"
    using geometry_dvd [OF dram_inv_geometry [OF i]] assms by (simp add: casht_ok_def)
  show "home_of H st k < unat (capacity st)" "4 dvd home_of H st k" by (rule dhome_less [OF p], rule dhome_dvd [OF p])
qed

lemma has_room_slot:
  assumes "casht_ok H st" and "has_room st"
  obtains p where "p < unat (capacity st)" and "\<not> occupied 0 (slots st) p"
  using assms(2) casht_facts(2) [OF assms(1)] that by (auto simp: has_room_def in_set_conv_nth occupied_def)

text \<open>One bucket of a probe sequence: it decides the lookup, or the next bucket goes on.\<close>

lemma bucket_decides:
  assumes ok: "casht_ok H st" and k: "k \<noteq> 0" and m: "4 dvd m" "m < unat (capacity st)"
    and passed: "passed 0 (home_of H st) (slots st) k m"
  defines "b \<equiv> (home_of H st k + m) mod unat (capacity st)"
  shows "4 dvd b" and "b + 4 \<le> length (hashtable st)"
    and "bucket_hit (slots st) k b = Some v \<Longrightarrow> casht_map st k = Some v"
    and "bucket_hit (slots st) k b = None \<Longrightarrow> bucket_has_empty (slots st) b \<Longrightarrow> casht_map st k = None"
    and "bucket_hit (slots st) k b = None \<Longrightarrow> \<not> bucket_has_empty (slots st) b \<Longrightarrow>
      passed 0 (home_of H st) (slots st) k (m + 4)"
proof -
  let ?n = "unat (capacity st)" and ?T = "slots st" and ?home = "home_of H st"
  note f = casht_facts [OF ok]
  have len: "length ?T = ?n" using f(2) by simp
  show b4: "4 dvd b" unfolding b_def using f(5) f(7) [of k] m(1) by (simp add: dvd_mod)
  have bn: "b < ?n" using m(2) by (simp add: b_def)
  then show "b + 4 \<le> length (hashtable st)" using four_step [OF b4 f(5) bn] f(2) by simp
  have slot: "b + j = (?home k + (m + j)) mod ?n" if "j < 4" for j
    unfolding b_def by (rule bucket_slot [OF f(5) f(7) m(1) that]) (use m(2) in simp)
  have p: "b + j < length ?T" if "j < 4" for j
    unfolding slot [OF that] len using m(2) by simp
  show "casht_map st k = Some v" if hit: "bucket_hit ?T k b = Some v"
  proof -
    obtain j where j: "j < 4" "fst (?T ! (b + j)) = k" "v = snd (?T ! (b + j))"
      using hit by (auto simp: bucket_hit_def find_Some_iff)
    then have "occupied 0 ?T (b + j)" using k by (simp add: occupied_def)
    from tab_map_slot [OF f(4) p [OF j(1)] this] show ?thesis using j by (simp add: casht_map_def dram_map_def)
  qed
  have step: "passed 0 ?home ?T k (m + j)"
    if "bucket_hit ?T k b = None" "j \<le> 4" "\<forall>i<j. occupied 0 ?T (b + i)" for j
    using that(2,3)
  proof (induction j)
    case 0
    then show ?case using passed by simp
  next
    case (Suc j)
    then have "fst (?T ! (b + j)) \<noteq> k" using that(1) by (simp add: bucket_hit_None_iff)
    moreover have "occupied 0 ?T (b + j)" using Suc.prems(2) by simp
    ultimately show ?case using Suc slot [of j] by (simp add: passed_Suc f(2))
  qed
  show "casht_map st k = None" if none: "bucket_hit ?T k b = None" and e: "bucket_has_empty ?T b"
  proof -
    let ?P = "\<lambda>j. j < 4 \<and> fst (?T ! (b + j)) = 0"
    define j where "j = (LEAST j. ?P j)"
    obtain j' where j': "?P j'" using e by (auto simp: bucket_has_empty_iff)
    have j: "j < 4" "fst (?T ! (b + j)) = 0" using LeastI [of ?P, OF j'] by (simp_all add: j_def)
    have least: "\<forall>i<j. occupied 0 ?T (b + i)" using not_less_Least [of _ ?P] j(1) by (auto simp: j_def occupied_def)
    have ps: "passed 0 ?home ?T k (m + j)" using step [OF none _ least] j(1) by simp
    have mj: "m + j < length ?T"
    proof -
      have "m + 4 \<le> ?n" by (rule four_step [OF m(1) f(5) m(2)])
      then show ?thesis using j(1) len by simp
    qed
    have "fst (?T ! ((?home k + (m + j)) mod length ?T)) = 0" using j slot [OF j(1)] len by simp
    from passed_room [OF f(3) ps mj k this] show ?thesis by (simp add: room_at_def casht_map_def dram_map_def)
  qed
  show "passed 0 ?home ?T k (m + 4)" if "bucket_hit ?T k b = None" "\<not> bucket_has_empty ?T b"
    using step [OF that(1), of 4] that(2) by (auto simp: bucket_has_empty_iff occupied_def)
qed

lemma passed_less:
  assumes ok: "casht_ok H st" and room: "has_room st" and m: "4 dvd m" "m < unat (capacity st)" and k: "k \<noteq> 0"
    and passed: "passed 0 (home_of H st) (slots st) k (m + 4)"
  shows "m + 4 < unat (capacity st)"
proof (rule ccontr)
  note f = casht_facts [OF ok]
  assume "\<not> m + 4 < unat (capacity st)"
  moreover have "m + 4 \<le> unat (capacity st)" by (rule four_step [OF m(1) f(5) m(2)])
  ultimately have "passed 0 (home_of H st) (slots st) k (length (slots st))" using passed f(2) by simp
  from passed_all(2) [OF f(3) this k] show False
    using has_room_slot [OF ok room] f(2) by auto
qed

section \<open>Pending requests\<close>

text \<open>What a request asks for; the other fields of a queue item are means to that end.\<close>

definition request :: "kvq \<Rightarrow> u32 \<times> u64" where
  "request q = (q_key_id q, q_key q)"

definition arg_request :: "insert_find_argument \<Rightarrow> u32 \<times> u64" where
  "arg_request a = (ia_id a, ia_key a)"

definition reply :: "(u64 \<rightharpoonup> u64) \<Rightarrow> u32 \<times> u64 \<Rightarrow> find_result option" where
  "reply m r = map_option (\<lambda>v. \<lparr>fr_id = fst r, fr_value = v\<rparr>) (m (snd r))"

definition kvq_at :: "(u64 \<Rightarrow> u64) \<Rightarrow> casht \<Rightarrow> kvq \<Rightarrow> nat \<Rightarrow> bool" where
  "kvq_at H st q m \<longleftrightarrow>
     q_key q \<noteq> 0 \<and> 4 dvd m \<and> m < unat (capacity st) \<and>
     unat (q_idx q) = (home_of H st (q_key q) + m) mod unat (capacity st) \<and>
     passed 0 (home_of H st) (slots st) (q_key q) m"

definition kvq_known :: "(u64 \<Rightarrow> u64) \<Rightarrow> casht \<Rightarrow> kvq \<Rightarrow> bool" where
  "kvq_known H st q \<longleftrightarrow> (\<exists>m. kvq_at H st q m)"

text \<open>The slots a request has still before it.\<close>

definition kvq_rank :: "(u64 \<Rightarrow> u64) \<Rightarrow> casht \<Rightarrow> kvq \<Rightarrow> nat" where
  "kvq_rank H st q = unat (capacity st) - slot_dist (unat (capacity st)) (home_of H st (q_key q)) (unat (q_idx q))"

lemma kvq_rank_at:
  assumes "casht_ok H st" and "kvq_at H st q m"
  shows "kvq_rank H st q = unat (capacity st) - m"
  using slot_dist_unique [OF casht_facts(6) [OF assms(1), of "q_key q"], of m] assms(2)
  by (simp add: kvq_rank_def kvq_at_def)

text \<open>The rings.\<close>

lemma ring_put_push:
  assumes "ring_ok r"
  shows "ring_put r f = Some (push_ring r (f (find_queue r ! unat (find_queue_head r))))"
  using ring_nat [OF assms] by (simp add: ring_put_def push_ring_def)

lemma ring_advance_pop: "ring_advance r = pop_ring r"
  by (simp add: ring_advance_def pop_ring_def)

lemma ring_tail_items:
  assumes "ring_ok r" and "ring_items r = q # qs"
  shows "ring_tail r = Some q" and "ring_ok (ring_advance r)" and "ring_items (ring_advance r) = qs"
    and "find_queue_size (ring_advance r) = find_queue_size r"
  using pop_ring_items [OF assms] pop_ring_ok [OF assms(1)] ring_nat [OF assms(1)]
  by (simp_all add: ring_tail_def ring_advance_pop)

lemma ring_put_items:
  assumes "ring_ok r" and "Suc (length (ring_items r)) < unat (find_queue_size r)"
  obtains r' q where "ring_put r f = Some r'" and "q = f (find_queue r ! unat (find_queue_head r))" and "ring_ok r'"
    and "ring_items r' = ring_items r @ [q]" and "find_queue_size r' = find_queue_size r"
  using ring_put_push [OF assms(1), of f] push_ring_ok [OF assms(1)] push_ring_items [OF assms(1)] assms(2) that
  by simp

lemma ring_put_advance:
  "ring_put (ring_advance r) f = map_option ring_advance (ring_put r f)"
  by (simp add: ring_put_def ring_advance_def rd_def)

lemma ring_sz_items:
  assumes "ring_ok r"
  shows "unat (ring_sz r) = length (ring_items r)"
  using unat_diff_mod [OF ring_size_dvd [OF assms] ring_nat(3) [OF assms]]
  by (simp add: ring_sz_def ring_mask [OF assms] ring_len_def slot_dist_def)

lemma ring_full_iff:
  assumes "ring_ok r"
  shows "ring_sz r \<ge> find_queue_size r - 1 \<longleftrightarrow> Suc (length (ring_items r)) = unat (find_queue_size r)"
proof -
  have "0 < unat (find_queue_size r)" by (rule ring_nat(1) [OF assms])
  then have "unat (find_queue_size r - 1) = unat (find_queue_size r) - 1"
    by (simp add: unat_sub word_le_nat_alt)
  then show ?thesis
    using ring_len_less [OF assms] ring_sz_items [OF assms] by (auto simp: word_le_nat_alt)
qed

section \<open>Indices\<close>

lemma unat_ucast_32: "unat (ucast (x::u64) :: u32) = unat x mod 2 ^ 32"
  by (simp add: unsigned_ucast_eq unsigned_take_bit_eq take_bit_eq_mod)

lemma unat_ucast_64: "unat (ucast (x::u32) :: u64) = unat x"
proof -
  have "unat x < 2 ^ LENGTH(32)" by (rule unsigned_less)
  then show ?thesis by (simp add: unsigned_ucast_eq unsigned_take_bit_eq take_bit_eq_mod)
qed

lemma HT_BUCKET_MASK_eq:
  assumes "unat cap \<le> 2 ^ 32" and "pow2_u64 cap"
  shows "HT_BUCKET_MASK cap = (cap - 1) AND NOT 3"
proof -
  have "unat (cap - 1) = unat cap - 1" using pow2_pos [OF assms(2)] by (simp add: unat_sub word_le_nat_alt)
  then have "unat (cap - 1) < 2 ^ 32" using assms(1) pow2_pos [OF assms(2)] by simp
  moreover have "unat ((cap - 1) AND NOT 3) \<le> unat (cap - 1)" unfolding unat_and_not_3 by simp
  ultimately have "unat ((cap - 1) AND NOT 3) < 2 ^ 32" by simp
  then show ?thesis
    by (simp add: HT_BUCKET_MASK_def KEYS_IN_CACHELINE_MASK_def word_unat_eq_iff unat_ucast_32 unat_ucast_64)
qed

lemma and_bucket_mask:
  assumes "pow2_u64 cap"
  shows "unat (x AND ((cap - 1) AND NOT 3)) = 4 * (unat x mod unat cap div 4)"
proof -
  have "x AND ((cap - 1) AND NOT 3) = (x AND (cap - 1)) AND NOT 3" by (simp add: and.assoc)
  then show ?thesis by (simp only: unat_and_not_3 unat_and_mask [OF assms])
qed

lemma bucket_start_home:
  assumes "pow2_u64 (capacity st)"
  shows "unat (bucket_start M st k) = home_of (kv_hash M) st k"
proof -
  let ?c = "capacity st" and ?h = "kv_hash M k"
  have "unat (?h AND (?c - 1)) = unat ?h mod unat ?c" by (rule unat_and_mask [OF assms])
  moreover have "unat ((?h AND (?c - 1)) AND 3) = unat (?h AND (?c - 1)) mod 4"
    using and_mask_two_power [of "?h AND (?c - 1)" 2] by simp
  ultimately show ?thesis
    unfolding bucket_start_def dhome_eq [OF assms] Let_def KEYS_IN_CACHELINE_MASK_def
    by (simp add: unat_sub word_and_le2 minus_mod_eq_mult_div)
qed

lemma bucket_of_hash:
  assumes "pow2_u64 (capacity st)" and "unat (capacity st) \<le> 2 ^ 32"
  shows "ucast (ucast (kv_hash M k AND HT_BUCKET_MASK (capacity st)) :: u32) = bucket_start M st k"
proof -
  let ?c = "capacity st" and ?h = "kv_hash M k"
  have "unat (?h AND HT_BUCKET_MASK ?c) = home_of (kv_hash M) st k"
    unfolding HT_BUCKET_MASK_eq [OF assms(2,1)] and_bucket_mask [OF assms(1)] dhome_eq [OF assms(1)] ..
  moreover have "home_of (kv_hash M) st k < 2 ^ 32" using dhome_less [OF assms(1), of "\<lambda>_. kv_hash M" k] assms(2) by simp
  ultimately show ?thesis
    using bucket_start_home [OF assms(1), of M k] by (simp add: word_unat_eq_iff unat_ucast_32 unat_ucast_64)
qed

text \<open>The next bucket, in 64 bits and in 32.\<close>

definition next_idx :: "u64 \<Rightarrow> u64 \<Rightarrow> u64" where
  "next_idx cap idx = (idx + 4) AND (cap - 1)"

lemma unat_next_idx:
  assumes "pow2_u64 cap" and "unat idx + 4 \<le> unat cap"
  shows "unat (next_idx cap idx) = (unat idx + 4) mod unat cap"
  using assms by (simp add: next_idx_def unat_and_mask unat_add_4)

lemma next_idx_32:
  assumes p: "pow2_u64 cap" and small: "unat cap \<le> 2 ^ 32" and cap: "unat idx + 4 \<le> unat cap" and "4 dvd unat idx" and "4 dvd unat cap"
  shows "ucast (ucast (ucast (ucast (ucast (ucast idx :: u32) + KV_IN_CACHELINE) :: u32) AND HT_BUCKET_MASK cap) :: u32) = next_idx cap idx"
proof -
  have i: "unat (ucast idx :: u32) = unat idx" using small cap by (simp add: unat_ucast_32)
  have "unat (ucast (ucast idx :: u32) + (4::u64)) = unat (ucast (ucast idx :: u32) :: u64) + 4"
    using cap i by (intro unat_add_4 [of _ cap]) (simp add: unat_ucast_64)
  then have a: "unat (ucast (ucast (ucast idx :: u32) + (4::u64)) :: u32) = (unat idx + 4) mod 2 ^ 32"
    using i by (simp add: unat_ucast_32 unat_ucast_64)
  obtain d where d: "(2::nat) ^ 32 = unat cap * d"
  proof -
    obtain n where n: "unat cap = 2 ^ n" using p by (elim pow2_unat)
    have "n \<le> 32" by (rule power_le_imp_le_exp [of 2]) (use small n in simp_all)
    then have "unat cap dvd 2 ^ 32" unfolding n by (rule le_imp_power_dvd)
    then show thesis using that by (auto simp: dvd_def)
  qed
  have "(unat idx + 4) mod 2 ^ 32 mod unat cap = (unat idx + 4) mod unat cap" unfolding d by (simp add: mod_mult2_eq)
  moreover have "4 dvd (unat idx + 4) mod unat cap" using assms(4,5) by (simp add: dvd_mod)
  ultimately have b: "unat (ucast (ucast (ucast (ucast idx :: u32) + (4::u64)) :: u32) AND HT_BUCKET_MASK cap) = (unat idx + 4) mod unat cap"
    unfolding HT_BUCKET_MASK_eq [OF small p] and_bucket_mask [OF p] unat_ucast_64 a by simp
  have "(unat idx + 4) mod unat cap < 2 ^ 32" using pow2_pos [OF p] small by (meson mod_less_divisor order_less_le_trans)
  then show ?thesis
    using b unat_next_idx [OF p cap] by (simp add: word_unat_eq_iff unat_ucast_32 unat_ucast_64 KV_IN_CACHELINE_def)
qed

section \<open>One lookup\<close>

text \<open>The methods of a slot do what their unrolled copy in \<open>find_batch_inline\<close> does.\<close>

definition find_simd_contract :: "kv_methods \<Rightarrow> bool" where
  "find_simd_contract M \<longleftrightarrow>
     (\<forall>T idx q vp. unat idx + 4 \<le> length T \<longrightarrow> kv_find_simd M T idx q vp =
        (let B = List.map (\<lambda>kv. (kv_k kv, kv_v kv)) T in
         case bucket_hit B (q_key q) (unat idx) of
           Some v \<Rightarrow> map_option (Pair False) (vp_put vp (q_key_id q) v)
         | None \<Rightarrow> Some (\<not> bucket_has_empty B (unat idx), vp)))"

definition again :: "kvq \<Rightarrow> u64 \<Rightarrow> kvq \<Rightarrow> kvq" where
  "again q idx slot = slot\<lparr>q_key := q_key q, q_key_id := q_key_id q, q_idx := idx\<rparr>"

lemma again_eq: "again q idx = (\<lambda>slot. slot\<lparr>q_key := q_key q, q_key_id := q_key_id q, q_idx := idx\<rparr>)"
  by (simp add: fun_eq_iff again_def)

lemma KEYMSK_same: "KEYMSK = DRAMBLAST_SIMD_KEY_MASK"
  by (simp add: KEYMSK_def DRAMBLAST_SIMD_KEY_MASK_def)

lemma find_inline_step:
  assumes ok: "casht_ok H st" and small: "unat (capacity st) \<le> 2 ^ 32" and q: "kvq_at H st q m"
    and r: "ring_ok r" "ring_items r = q # qs"
  shows "find_inline_one (hashtable st) (HT_BUCKET_MASK (capacity st)) r =
    (case bucket_hit (slots st) (q_key q) (unat (q_idx q)) of
       Some v \<Rightarrow> Some (Some \<lparr>fr_id = q_key_id q, fr_value = v\<rparr>, ring_advance r)
     | None \<Rightarrow>
         if bucket_has_empty (slots st) (unat (q_idx q)) then Some (None, ring_advance r)
         else do {
           r2 \<leftarrow> ring_put (ring_advance r) (again q (next_idx (capacity st) (q_idx q)));
           find_inline_one (hashtable st) (HT_BUCKET_MASK (capacity st)) r2
         })"
proof -
  note f = casht_facts [OF ok]
  have at: "q_key q \<noteq> 0" "4 dvd m" "m < unat (capacity st)"
    and idx: "unat (q_idx q) = (home_of H st (q_key q) + m) mod unat (capacity st)"
    and ps: "passed 0 (home_of H st) (slots st) (q_key q) m" using q by (simp_all add: kvq_at_def)
  note b = bucket_decides(1,2) [OF ok at ps, folded idx]
  have i32: "unat (ucast (q_idx q) :: u32) = unat (q_idx q)" using b(2) f(2) small by (simp add: unat_ucast_32)
  have gt: "(0::u8) < x \<longleftrightarrow> x \<noteq> 0" for x by (simp add: word_gt_0)
  have "unat (q_idx q) + 4 \<le> unat (capacity st)" using b(2) f(2) by simp
  note nx = next_idx_32 [OF f(1) small this b(1) f(5)]
  show ?thesis
    apply (subst find_inline_one.simps)
    using b ring_tail_items(1) [OF r]
    by (simp add: at(1) i32 load_bucket_lanes cmpeq_key_lanes KEYMSK_same Let_def bucket_hit_def bucket_has_empty_def upt_4 gt
        nx again_eq cong: if_cong)
qed

lemma find_simd_bucket:
  assumes M: "find_simd_contract M" and ok: "casht_ok H st" and q: "kvq_at H st q m"
  shows "find_simd M st q vp =
    (case bucket_hit (slots st) (q_key q) (unat (q_idx q)) of
       Some v \<Rightarrow> map_option (\<lambda>vp'. (0, st, vp')) (vp_put vp (q_key_id q) v)
     | None \<Rightarrow>
         if bucket_has_empty (slots st) (unat (q_idx q)) then Some (0, st, vp)
         else map_option (\<lambda>st'. (1, st', vp)) (find_again st q (next_idx (capacity st) (q_idx q))))"
proof -
  have at: "q_key q \<noteq> 0" "4 dvd m" "m < unat (capacity st)"
    and idx: "unat (q_idx q) = (home_of H st (q_key q) + m) mod unat (capacity st)"
    and ps: "passed 0 (home_of H st) (slots st) (q_key q) m" using q by (simp_all add: kvq_at_def)
  note b = bucket_decides(1,2) [OF ok at ps, folded idx]
  have view: "List.map (\<lambda>kv. (kv_k kv, kv_v kv)) (hashtable st) = slots st" by (simp add: dview_def)
  have fs: "kv_find_simd M (hashtable st) (q_idx q) q vp = (case bucket_hit (slots st) (q_key q) (unat (q_idx q)) of
      Some v \<Rightarrow> map_option (Pair False) (vp_put vp (q_key_id q) v)
    | None \<Rightarrow> Some (\<not> bucket_has_empty (slots st) (unat (q_idx q)), vp))"
    using M b(2) unfolding find_simd_contract_def Let_def view [symmetric] by blast
  show ?thesis
    by (simp add: find_simd_def fs next_idx_def KV_IN_CACHELINE_def map_conv_bind_option comp_def
        split: option.split Option.bind_split)
qed

lemma find_one_bucket: "q_key q \<noteq> 0 \<Longrightarrow> find_one M st q vp = find_simd M st q vp"
  by (simp add: find_one_def)

lemma pop_find_step:
  assumes M: "find_simd_contract M" and ok: "casht_ok H st" and q: "kvq_at H st q m"
    and r: "ring_ok (find_ring st)" "ring_items (find_ring st) = q # qs"
  shows "pop_find_queue M st vp =
    (case bucket_hit (slots st) (q_key q) (unat (q_idx q)) of
       Some v \<Rightarrow> do { vp' \<leftarrow> vp_put vp (q_key_id q) v; Some (st\<lparr>find_ring := ring_advance (find_ring st)\<rparr>, vp') }
     | None \<Rightarrow>
         if bucket_has_empty (slots st) (unat (q_idx q)) then Some (st\<lparr>find_ring := ring_advance (find_ring st)\<rparr>, vp)
         else do {
           r2 \<leftarrow> ring_put (ring_advance (find_ring st)) (again q (next_idx (capacity st) (q_idx q)));
           pop_find_queue M (st\<lparr>find_ring := r2\<rparr>) vp
         })"
proof -
  obtain r2 where r2: "ring_put (find_ring st) (again q (next_idx (capacity st) (q_idx q))) = Some r2"
    using ring_put_push [OF r(1)] by blast
  have k: "q_key q \<noteq> 0" using q by (simp add: kvq_at_def)
  show ?thesis
    apply (subst pop_find_queue.simps)
    using r2 ring_tail_items(1) [OF r]
    by (simp add: find_one_bucket [OF k] find_simd_bucket [OF M ok q] find_again_def again_eq ring_put_advance map_conv_bind_option comp_def
        split: option.split Option.bind_split)
qed

text \<open>A result that was found is appended to the results.\<close>

definition deliver :: "value_pairs \<Rightarrow> find_result option \<Rightarrow> value_pairs option" where
  "deliver vp res = (case res of None \<Rightarrow> Some vp | Some x \<Rightarrow> vp_put vp (fr_id x) (fr_value x))"

lemma kvq_next:
  assumes ok: "casht_ok H st" and room: "has_room st" and q: "kvq_at H st q m"
    and none: "bucket_hit (slots st) (q_key q) (unat (q_idx q)) = None" "\<not> bucket_has_empty (slots st) (unat (q_idx q))"
    and q': "q_key q' = q_key q" "q_idx q' = next_idx (capacity st) (q_idx q)"
  shows "kvq_at H st q' (m + 4)"
proof -
  note f = casht_facts [OF ok]
  have at: "q_key q \<noteq> 0" "4 dvd m" "m < unat (capacity st)"
    and idx: "unat (q_idx q) = (home_of H st (q_key q) + m) mod unat (capacity st)"
    and ps: "passed 0 (home_of H st) (slots st) (q_key q) m" using q by (simp_all add: kvq_at_def)
  note b = bucket_decides [OF ok at ps, folded idx]
  note ps4 = b(5) [OF none]
  have "unat (q_idx q) + 4 \<le> unat (capacity st)" using b(2) f(2) by simp
  from unat_next_idx [OF f(1) this] have "unat (q_idx q') = (home_of H st (q_key q) + (m + 4)) mod unat (capacity st)"
    unfolding q' idx by (simp add: mod_add_left_eq add.assoc)
  then show ?thesis
    using at q' ps4 passed_less [OF ok room at(2,3,1) ps4] by (simp add: kvq_at_def)
qed

lemma find_one_reply:
  assumes ok: "casht_ok H st" and room: "has_room st" and small: "unat (capacity st) \<le> 2 ^ 32"
    and r: "ring_ok r" "ring_items r \<noteq> []" "\<forall>q \<in> set (ring_items r). kvq_known H st q"
  shows "\<exists>r' i. find_inline_one (hashtable st) (HT_BUCKET_MASK (capacity st)) r = Some (reply (casht_map st) i, r') \<and>
    (\<forall>M vp. find_simd_contract M \<longrightarrow> pop_find_queue M (st\<lparr>find_ring := r\<rparr>) vp =
       map_option (Pair (st\<lparr>find_ring := r'\<rparr>)) (deliver vp (reply (casht_map st) i))) \<and>
    ring_ok r' \<and> find_queue_size r' = find_queue_size r \<and> (\<forall>q \<in> set (ring_items r'). kvq_known H st q) \<and>
    mset (List.map request (ring_items r)) = add_mset i (mset (List.map request (ring_items r')))"
  using r
proof (induction "sum_list (List.map (kvq_rank H st) (ring_items r))" arbitrary: r rule: less_induct)
  case less
  obtain q qs where items: "ring_items r = q # qs" using less.prems(2) by (cases "ring_items r") auto
  then obtain m where q: "kvq_at H st q m" using less.prems(3) by (auto simp: kvq_known_def)
  note adv = ring_tail_items [OF less.prems(1) items]
  have ok': "casht_ok H (st\<lparr>find_ring := r\<rparr>)" and same: "slots (st\<lparr>find_ring := r\<rparr>) = slots st"
    and q': "kvq_at H (st\<lparr>find_ring := r\<rparr>) q m"
    using ok q by (simp_all add: casht_ok_def as_dram_def kvq_at_def)
  note fast = find_inline_step [OF ok small q less.prems(1) items]
  note slow = pop_find_step [OF _ ok' q', simplified, OF _ less.prems(1) items, unfolded same]
  let ?b = "unat (q_idx q)" and ?T = "slots st"
  have at: "q_key q \<noteq> 0" "4 dvd m" "m < unat (capacity st)"
    and idx: "?b = (home_of H st (q_key q) + m) mod unat (capacity st)"
    and ps: "passed 0 (home_of H st) ?T (q_key q) m" using q by (simp_all add: kvq_at_def)
  note b = bucket_decides [OF ok at ps, folded idx]
  show ?case
  proof (cases "bucket_hit ?T (q_key q) ?b = None \<and> \<not> bucket_has_empty ?T ?b")
    case False
    have rep: "reply (casht_map st) (request q) = map_option (\<lambda>v. \<lparr>fr_id = q_key_id q, fr_value = v\<rparr>) (bucket_hit ?T (q_key q) ?b)"
      using False b(3,4) by (cases "bucket_hit ?T (q_key q) ?b") (auto simp: reply_def request_def)
    have "find_inline_one (hashtable st) (HT_BUCKET_MASK (capacity st)) r = Some (reply (casht_map st) (request q), ring_advance r)"
      unfolding fast rep using False by (auto split: option.split)
    moreover have "pop_find_queue M (st\<lparr>find_ring := r\<rparr>) vp =
        map_option (Pair (st\<lparr>find_ring := ring_advance r\<rparr>)) (deliver vp (reply (casht_map st) (request q)))"
      if "find_simd_contract M" for M vp
      unfolding slow [OF that] rep using False
      by (auto simp: deliver_def map_conv_bind_option comp_def split: option.split Option.bind_split)
    ultimately show ?thesis
      using adv items less.prems(3) by (intro exI [of _ "ring_advance r"] exI [of _ "request q"]) simp
  next
    case True
    let ?f = "again q (next_idx (capacity st) (q_idx q))"
    have "Suc (length (ring_items (ring_advance r))) < unat (find_queue_size (ring_advance r))"
      using ring_len_less [OF less.prems(1)] items adv(3,4) length_ring_items [of r] by simp
    then obtain r2 q2 where r2: "ring_put (ring_advance r) ?f = Some r2" "q2 = ?f (find_queue (ring_advance r) ! unat (find_queue_head (ring_advance r)))"
      "ring_ok r2" "ring_items r2 = qs @ [q2]" "find_queue_size r2 = find_queue_size r"
      using ring_put_items [OF adv(2), of ?f] adv(3,4) by metis
    have q2: "q_key q2 = q_key q" "q_idx q2 = next_idx (capacity st) (q_idx q)" "request q2 = request q"
      using r2(2) by (simp_all add: again_def request_def)
    have at2: "kvq_at H st q2 (m + 4)" by (rule kvq_next [OF ok room q _ _ q2(1,2)]) (use True in simp_all)
    have "kvq_rank H st q2 < kvq_rank H st q"
      unfolding kvq_rank_at [OF ok at2] kvq_rank_at [OF ok q] using at(3) by simp
    then have "sum_list (List.map (kvq_rank H st) (ring_items r2)) < sum_list (List.map (kvq_rank H st) (ring_items r))"
      by (simp add: r2(4) items)
    moreover have "\<forall>q \<in> set (ring_items r2). kvq_known H st q"
      using less.prems(3) items r2(4) at2 by (auto simp: kvq_known_def)
    ultimately obtain r' i where ih:
      "find_inline_one (hashtable st) (HT_BUCKET_MASK (capacity st)) r2 = Some (reply (casht_map st) i, r')"
      "\<And>M vp. find_simd_contract M \<Longrightarrow> pop_find_queue M (st\<lparr>find_ring := r2\<rparr>) vp =
         map_option (Pair (st\<lparr>find_ring := r'\<rparr>)) (deliver vp (reply (casht_map st) i))"
      "ring_ok r'" "find_queue_size r' = find_queue_size r2" "\<forall>q \<in> set (ring_items r'). kvq_known H st q"
      "mset (List.map request (ring_items r2)) = add_mset i (mset (List.map request (ring_items r')))"
      using less.hyps [OF _ r2(3)] r2(4) by auto
    have "mset (List.map request (ring_items r)) = mset (List.map request (ring_items r2))" by (simp add: items r2(4) q2(3))
    then show ?thesis
      using fast slow True r2(1,5) ih by (intro exI [of _ r'] exI [of _ i]) simp
  qed
qed

section \<open>Batches\<close>

text \<open>The results found, written from the current count on.\<close>

definition delivered :: "value_pairs \<Rightarrow> find_result list \<Rightarrow> value_pairs" where
  "delivered vp xs = \<lparr>vp_first = vp_first vp + length xs,
     vp_second = take (vp_first vp) (vp_second vp) @ xs @ drop (vp_first vp + length xs) (vp_second vp)\<rparr>"

lemma delivered_Nil: "delivered vp [] = vp"
  by (cases vp) (simp add: delivered_def)

lemma deliver_delivered:
  assumes "vp_first vp < length (vp_second vp)"
  shows "deliver vp res = Some (delivered vp (case res of None \<Rightarrow> [] | Some x \<Rightarrow> [x]))"
  using assms delivered_Nil [of vp]
  by (cases vp) (simp add: deliver_def vp_put_def delivered_def upd_conv_take_nth_drop split: option.split)

lemma delivered_append:
  assumes "vp_first vp + length xs \<le> length (vp_second vp)"
  shows "delivered (delivered vp xs) ys = delivered vp (xs @ ys)"
  using assms by (simp add: delivered_def ac_simps)

lemma delivered_simps [simp]:
  "vp_first (delivered vp xs) = vp_first vp + length xs"
  "vp_first vp + length xs \<le> length (vp_second vp) \<Longrightarrow> length (vp_second (delivered vp xs)) = length (vp_second vp)"
  by (simp_all add: delivered_def)

lemma map_filter_Cons_append: "List.map_filter f (i # qs) = (case f i of None \<Rightarrow> [] | Some x \<Rightarrow> [x]) @ List.map_filter f qs"
  by (simp add: map_filter_simps split: option.split)

lemma map_filter_single: "List.map_filter f [i] = (case f i of None \<Rightarrow> [] | Some x \<Rightarrow> [x])"
  by (simp add: map_filter_simps split: option.split)

text \<open>A request just added stands at the home bucket of its key.\<close>

lemma kvq_fresh:
  assumes "casht_ok (kv_hash M) st" and "q_key q \<noteq> 0" and "q_idx q = bucket_start M st k" and "q_key q = k"
  shows "kvq_known (kv_hash M) st q"
proof -
  note f = casht_facts [OF assms(1)]
  have "kvq_at (kv_hash M) st q 0"
    using assms(2-4) bucket_start_home [OF f(1), of M k] f(6) pow2_pos [OF f(1)] by (simp add: kvq_at_def)
  then show ?thesis by (auto simp: kvq_known_def)
qed

text \<open>A ring with what its items may rely on.\<close>

definition finds_ok :: "(u64 \<Rightarrow> u64) \<Rightarrow> casht \<Rightarrow> kvq request_ring \<Rightarrow> bool" where
  "finds_ok H st r \<longleftrightarrow>
     casht_ok H st \<and> has_room st \<and> unat (capacity st) \<le> 2 ^ 32 \<and> ring_ok r \<and> 2 \<le> unat (find_queue_size r) \<and>
     (\<forall>q \<in> set (ring_items r). kvq_known H st q)"

lemma add_known:
  assumes ok: "finds_ok (kv_hash M) st r" and room: "Suc (length (ring_items r)) < unat (find_queue_size r)" and k: "ia_key a \<noteq> 0"
  obtains r' where "add_to_find_queue M (st\<lparr>find_ring := r\<rparr>) a = Some (st\<lparr>find_ring := r'\<rparr>)"
    and "finds_ok (kv_hash M) st r'" and "find_queue_size r' = find_queue_size r"
    and "List.map request (ring_items r') = List.map request (ring_items r) @ [arg_request a]"
    and "ring_put r (\<lambda>slot. slot\<lparr>q_key := ia_key a, q_idx := bucket_start M st (ia_key a), q_key_id := ia_id a\<rparr>) = Some r'"
proof -
  let ?f = "\<lambda>slot. slot\<lparr>q_key := ia_key a, q_idx := bucket_start M st (ia_key a), q_key_id := ia_id a\<rparr>"
  have c: "casht_ok (kv_hash M) st" "unat (capacity st) \<le> 2 ^ 32" "ring_ok r" using ok by (simp_all add: finds_ok_def)
  note f = casht_facts [OF c(1)]
  from ring_put_items [OF c(3) room, of ?f] obtain r' q where r': "ring_put r ?f = Some r'"
    "q = ?f (find_queue r ! unat (find_queue_head r))" "ring_ok r'" "ring_items r' = ring_items r @ [q]"
    "find_queue_size r' = find_queue_size r" by metis
  have q: "q_key q = ia_key a" "q_idx q = bucket_start M st (ia_key a)" "q_key_id q = ia_id a" by (simp_all add: r'(2))
  have "kvq_known (kv_hash M) st q" by (rule kvq_fresh [OF c(1) _ q(2)]) (use k q(1) in simp_all)
  then have "finds_ok (kv_hash M) st r'" using ok r' by (auto simp: finds_ok_def)
  moreover have bs: "bucket_start M (st\<lparr>find_ring := r\<rparr>) = bucket_start M st" by (simp add: bucket_start_def fun_eq_iff)
  moreover have swap: "?f = (\<lambda>slot. slot\<lparr>q_idx := bucket_start M st (ia_key a), q_key := ia_key a, q_key_id := ia_id a\<rparr>)"
    by (rule ext, rule kvq.equality) simp_all
  moreover have "add_to_find_queue M (st\<lparr>find_ring := r\<rparr>) a = Some (st\<lparr>find_ring := r'\<rparr>)"
    unfolding add_to_find_queue_def bs swap [symmetric] using r'(1) by simp
  ultimately show thesis
    using r'(1,4,5) q by (intro that [of r']) (simp_all add: request_def arg_request_def)
qed

lemma pop_known:
  assumes ok: "finds_ok H st r" and ne: "ring_items r \<noteq> []"
  obtains r' i where "find_inline_one (hashtable st) (HT_BUCKET_MASK (capacity st)) r = Some (reply (casht_map st) i, r')"
    and "\<And>M vp. find_simd_contract M \<Longrightarrow> pop_find_queue M (st\<lparr>find_ring := r\<rparr>) vp =
       map_option (Pair (st\<lparr>find_ring := r'\<rparr>)) (deliver vp (reply (casht_map st) i))"
    and "finds_ok H st r'" and "find_queue_size r' = find_queue_size r"
    and "mset (List.map request (ring_items r)) = add_mset i (mset (List.map request (ring_items r')))"
    and "length (ring_items r) = Suc (length (ring_items r'))"
proof -
  have c: "casht_ok H st" "has_room st" "unat (capacity st) \<le> 2 ^ 32" "ring_ok r" "\<forall>q \<in> set (ring_items r). kvq_known H st q"
    using ok by (simp_all add: finds_ok_def)
  from find_one_reply [OF c(1-4) ne c(5)] obtain r' i where r:
    "find_inline_one (hashtable st) (HT_BUCKET_MASK (capacity st)) r = Some (reply (casht_map st) i, r')"
    "\<forall>M vp. find_simd_contract M \<longrightarrow> pop_find_queue M (st\<lparr>find_ring := r\<rparr>) vp =
       map_option (Pair (st\<lparr>find_ring := r'\<rparr>)) (deliver vp (reply (casht_map st) i))"
    "ring_ok r'" "find_queue_size r' = find_queue_size r" "\<forall>q \<in> set (ring_items r'). kvq_known H st q"
    "mset (List.map request (ring_items r)) = add_mset i (mset (List.map request (ring_items r')))" by blast
  have "length (ring_items r) = Suc (length (ring_items r'))"
    using arg_cong [OF r(6), of size] by simp
  then show thesis using that [of i r'] r ok by (simp add: finds_ok_def)
qed

lemma find_2025_spec:
  assumes "find_simd_contract M" and "finds_ok (kv_hash M) st r" and "\<forall>a \<in> set kp. ia_key a \<noteq> 0"
    and "vp_first vp + length (ring_items r) + length kp \<le> length (vp_second vp)"
  shows "\<exists>qs r'. find_batch_2025 M (st\<lparr>find_ring := r\<rparr>) kp vp =
      Some (st\<lparr>find_ring := r'\<rparr>, delivered vp (List.map_filter (reply (casht_map st)) qs)) \<and>
    finds_ok (kv_hash M) st r' \<and> find_queue_size r' = find_queue_size r \<and>
    mset (List.map request (ring_items r)) + mset (List.map arg_request kp) = mset qs + mset (List.map request (ring_items r'))"
  using assms(2-)
proof (induction kp arbitrary: r vp)
  case Nil
  then show ?case by (intro exI [of _ "[]"] exI [of _ r]) (simp add: delivered_Nil map_filter_simps)
next
  case (Cons a kp)
  have rok: "ring_ok r" and sz: "2 \<le> unat (find_queue_size r)" using Cons.prems(1) by (simp_all add: finds_ok_def)
  have k: "ia_key a \<noteq> 0" "\<forall>a \<in> set kp. ia_key a \<noteq> 0" using Cons.prems(2) by simp_all
  obtain js r1 where first: "(if ring_sz r \<ge> find_queue_size r - 1 then pop_find_queue M (st\<lparr>find_ring := r\<rparr>) vp
        else Some (st\<lparr>find_ring := r\<rparr>, vp)) = Some (st\<lparr>find_ring := r1\<rparr>, delivered vp (List.map_filter (reply (casht_map st)) js))"
    "finds_ok (kv_hash M) st r1" "find_queue_size r1 = find_queue_size r" "Suc (length (ring_items r1)) < unat (find_queue_size r1)"
    "mset (List.map request (ring_items r)) = mset js + mset (List.map request (ring_items r1))"
  proof (cases "ring_sz r \<ge> find_queue_size r - 1")
    case True
    then have full: "Suc (length (ring_items r)) = unat (find_queue_size r)" using ring_full_iff [OF rok] by simp
    then have "length (ring_items r) \<noteq> 0" using sz by linarith
    then have "ring_items r \<noteq> []" by (metis length_0_conv)
    from pop_known [OF Cons.prems(1) this] obtain r1 i where p:
      "\<And>M vp. find_simd_contract M \<Longrightarrow> pop_find_queue M (st\<lparr>find_ring := r\<rparr>) vp =
         map_option (Pair (st\<lparr>find_ring := r1\<rparr>)) (deliver vp (reply (casht_map st) i))"
      "finds_ok (kv_hash M) st r1" "find_queue_size r1 = find_queue_size r"
      "mset (List.map request (ring_items r)) = add_mset i (mset (List.map request (ring_items r1)))"
      "length (ring_items r) = Suc (length (ring_items r1))" by metis
    have "vp_first vp < length (vp_second vp)" using Cons.prems(3) by simp
    then have "pop_find_queue M (st\<lparr>find_ring := r\<rparr>) vp =
        Some (st\<lparr>find_ring := r1\<rparr>, delivered vp (List.map_filter (reply (casht_map st)) [i]))"
      unfolding map_filter_single using p(1) [OF assms(1), of vp] deliver_delivered [of vp] by simp
    then show thesis
      using that [of r1 "[i]"] True full p by (simp del: map_filter_simps)
  next
    case False
    then have "Suc (length (ring_items r)) < unat (find_queue_size r)"
      using ring_full_iff [OF rok] ring_len_less [OF rok] by simp
    then show thesis using that [of r "[]"] False Cons.prems(1) by (simp add: delivered_Nil map_filter_simps)
  qed
  let ?vp = "delivered vp (List.map_filter (reply (casht_map st)) js)"
  from add_known [OF first(2,4) k(1)] obtain r2 where add:
    "add_to_find_queue M (st\<lparr>find_ring := r1\<rparr>) a = Some (st\<lparr>find_ring := r2\<rparr>)" "finds_ok (kv_hash M) st r2"
    "find_queue_size r2 = find_queue_size r1" "List.map request (ring_items r2) = List.map request (ring_items r1) @ [arg_request a]"
    by metis
  have l: "length (List.map_filter (reply (casht_map st)) js) \<le> length js"
    by (simp add: List.map_filter_def)
  have cnt: "length (ring_items r) = length js + length (ring_items r1)" "length (ring_items r2) = Suc (length (ring_items r1))"
    using arg_cong [OF first(5), of size] arg_cong [OF add(4), of length] by simp_all
  have "vp_first ?vp + length (ring_items r2) + length kp \<le> length (vp_second ?vp)"
    using Cons.prems(3) l cnt by simp
  from Cons.IH [OF add(2) k(2) this] obtain qs r' where rest:
    "find_batch_2025 M (st\<lparr>find_ring := r2\<rparr>) kp ?vp = Some (st\<lparr>find_ring := r'\<rparr>, delivered ?vp (List.map_filter (reply (casht_map st)) qs))"
    "finds_ok (kv_hash M) st r'" "find_queue_size r' = find_queue_size r2"
    "mset (List.map request (ring_items r2)) + mset (List.map arg_request kp) = mset qs + mset (List.map request (ring_items r'))" by blast
  have "vp_first vp + length (List.map_filter (reply (casht_map st)) js) \<le> length (vp_second vp)"
    using Cons.prems(3) l cnt by simp
  from delivered_append [OF this] have d: "delivered ?vp (List.map_filter (reply (casht_map st)) qs) =
      delivered vp (List.map_filter (reply (casht_map st)) (js @ qs))" by (simp add: List.map_filter_def)
  have "find_batch_2025 M (st\<lparr>find_ring := r\<rparr>) (a # kp) vp =
      Some (st\<lparr>find_ring := r'\<rparr>, delivered vp (List.map_filter (reply (casht_map st)) (js @ qs)))"
    using first(1) add(1) rest(1) d by (simp split: if_splits)
  moreover have "mset (List.map request (ring_items r)) + mset (List.map arg_request (a # kp)) =
      mset (js @ qs) + mset (List.map request (ring_items r'))"
    using first(5) rest(4) unfolding add(4) by (simp add: ac_simps)
  ultimately show ?case using rest(2,3) add(3) first(3) by (intro exI [of _ "js @ qs"] exI [of _ r']) simp
qed

lemma flush_spec:
  assumes "find_simd_contract M" and "finds_ok (kv_hash M) st r"
    and "vp_first vp + length (ring_items r) \<le> length (vp_second vp)" and "vp_first vp + length (ring_items r) \<le> batch_len"
  shows "\<exists>qs r'. flush_find_loop M batch_len (length (ring_items r)) (st\<lparr>find_ring := r\<rparr>) vp =
      Some (0, st\<lparr>find_ring := r'\<rparr>, delivered vp (List.map_filter (reply (casht_map st)) qs)) \<and>
    finds_ok (kv_hash M) st r' \<and> ring_items r' = [] \<and> mset (List.map request (ring_items r)) = mset qs"
  using assms(2-)
proof (induction "length (ring_items r)" arbitrary: r vp)
  case 0
  then have "ring_items r = []" by (metis length_0_conv)
  then show ?case using 0 by (intro exI [of _ "[]"] exI [of _ r]) (simp add: delivered_Nil map_filter_simps)
next
  case (Suc n)
  have "ring_items r \<noteq> []" using Suc.hyps(2) by (metis length_0_conv nat.distinct(1))
  from pop_known [OF Suc.prems(1) this] obtain r1 i where p:
    "\<And>M vp. find_simd_contract M \<Longrightarrow> pop_find_queue M (st\<lparr>find_ring := r\<rparr>) vp =
       map_option (Pair (st\<lparr>find_ring := r1\<rparr>)) (deliver vp (reply (casht_map st) i))"
    "finds_ok (kv_hash M) st r1" "mset (List.map request (ring_items r)) = add_mset i (mset (List.map request (ring_items r1)))"
    "length (ring_items r) = Suc (length (ring_items r1))" by metis
  let ?x = "case reply (casht_map st) i of None \<Rightarrow> [] | Some x \<Rightarrow> [x]"
  have room: "vp_first vp < length (vp_second vp)" "vp_first vp < batch_len" using Suc.prems(2,3) p(4) by simp_all
  have l: "length ?x \<le> 1" by (simp split: option.split)
  have n: "n = length (ring_items r1)" using Suc.hyps(2) p(4) by simp
  have v: "vp_first vp + length ?x \<le> length (vp_second vp)" using room l by simp
  have "vp_first (delivered vp ?x) + length (ring_items r1) \<le> length (vp_second (delivered vp ?x))"
    "vp_first (delivered vp ?x) + length (ring_items r1) \<le> batch_len"
    using Suc.prems(2,3) p(4) l v by simp_all
  from Suc.hyps(1) [OF n p(2) this] obtain qs r' where rest:
    "flush_find_loop M batch_len (length (ring_items r1)) (st\<lparr>find_ring := r1\<rparr>) (delivered vp ?x) =
       Some (0, st\<lparr>find_ring := r'\<rparr>, delivered (delivered vp ?x) (List.map_filter (reply (casht_map st)) qs))"
    "finds_ok (kv_hash M) st r'" "ring_items r' = []" "mset (List.map request (ring_items r1)) = mset qs" by blast
  have "flush_find_loop M batch_len (length (ring_items r)) (st\<lparr>find_ring := r\<rparr>) vp =
      Some (0, st\<lparr>find_ring := r'\<rparr>, delivered vp (List.map_filter (reply (casht_map st)) (i # qs)))"
    unfolding map_filter_Cons_append
    using rest(1) p(4) room(2) p(1) [OF assms(1), of vp] deliver_delivered [OF room(1)] delivered_append [OF v]
    by (simp del: map_filter_simps)
  then show ?case using rest(2-4) p(3) by (intro exI [of _ "i # qs"] exI [of _ r']) simp
qed

lemma mset_map_filter: "mset xs = mset ys \<Longrightarrow> mset (List.map_filter f xs) = mset (List.map_filter f ys)"
  by (simp add: List.map_filter_def mset_filter)

text \<open>A batch and a flush deliver what the table holds for the requests.\<close>

lemma flush_rest:
  assumes M: "find_simd_contract M" and ok: "finds_ok (kv_hash M) st r"
    and reqs: "mset (List.map arg_request kp) = mset qs + mset (List.map request (ring_items r))"
    and z: "vp_first vp = 0" and len: "length kp \<le> length (vp_second vp)" "length kp \<le> batch_len"
  shows "\<exists>st2 vp2. flush_find_queue M batch_len (st\<lparr>find_ring := r\<rparr>) (delivered vp (List.map_filter (reply (casht_map st)) qs)) = Some (0, st2, vp2) \<and>
    hashtable st2 = hashtable st \<and>
    mset (take (vp_first vp2) (vp_second vp2)) = mset (List.map_filter (reply (casht_map st)) (List.map arg_request kp))"
proof -
  let ?f = "List.map_filter (reply (casht_map st))"
  have l: "length (?f qs) \<le> length qs" by (simp add: List.map_filter_def)
  have cnt: "length kp = length qs + length (ring_items r)" using arg_cong [OF reqs, of size] by simp
  have v: "vp_first vp + length (?f qs) \<le> length (vp_second vp)" using l cnt z len by simp
  have "vp_first (delivered vp (?f qs)) + length (ring_items r) \<le> length (vp_second (delivered vp (?f qs)))"
    "vp_first (delivered vp (?f qs)) + length (ring_items r) \<le> batch_len"
    using l cnt v z len by simp_all
  from flush_spec [OF M ok this] obtain qs2 r2 where f:
    "flush_find_loop M batch_len (length (ring_items r)) (st\<lparr>find_ring := r\<rparr>) (delivered vp (?f qs)) =
       Some (0, st\<lparr>find_ring := r2\<rparr>, delivered (delivered vp (?f qs)) (?f qs2))"
    "mset (List.map request (ring_items r)) = mset qs2" by blast
  let ?vp = "delivered vp (?f (qs @ qs2))"
  have app: "?f (qs @ qs2) = ?f qs @ ?f qs2" by (simp add: List.map_filter_def)
  have "ring_ok r" using ok by (simp add: finds_ok_def)
  then have fl: "flush_find_queue M batch_len (st\<lparr>find_ring := r\<rparr>) (delivered vp (?f qs)) = Some (0, st\<lparr>find_ring := r2\<rparr>, ?vp)"
    using f(1) delivered_append [OF v] by (simp add: flush_find_queue_def ring_sz_items app)
  have "mset (qs @ qs2) = mset (List.map arg_request kp)" using reqs f(2) by simp
  from mset_map_filter [OF this] have "mset (take (vp_first ?vp) (vp_second ?vp)) = mset (?f (List.map arg_request kp))"
    by (simp add: delivered_def z)
  then show ?thesis using fl by (intro exI conjI) (assumption | simp)+
qed

lemma find_flush:
  assumes M: "find_simd_contract M" and ok: "finds_ok (kv_hash M) st (find_ring st)" and empty: "ring_items (find_ring st) = []"
    and k: "\<forall>a \<in> set kp. ia_key a \<noteq> 0" and z: "vp_first vp = 0" and len: "length kp \<le> length (vp_second vp)" "length kp \<le> batch_len"
  shows "\<exists>st1 vp1 st2 vp2. find_batch_2025 M st kp vp = Some (st1, vp1) \<and>
    flush_find_queue M batch_len st1 vp1 = Some (0, st2, vp2) \<and> hashtable st2 = hashtable st \<and>
    mset (take (vp_first vp2) (vp_second vp2)) = mset (List.map_filter (reply (casht_map st)) (List.map arg_request kp))"
proof -
  have room: "vp_first vp + length (ring_items (find_ring st)) + length kp \<le> length (vp_second vp)" using empty z len by simp
  obtain qs r where b: "find_batch_2025 M (st\<lparr>find_ring := find_ring st\<rparr>) kp vp =
      Some (st\<lparr>find_ring := r\<rparr>, delivered vp (List.map_filter (reply (casht_map st)) qs))"
    "finds_ok (kv_hash M) st r"
    "mset (List.map request (ring_items (find_ring st))) + mset (List.map arg_request kp) = mset qs + mset (List.map request (ring_items r))"
    using find_2025_spec [where r = "find_ring st" and st = st and M = M, OF M ok k room] by blast
  have "mset (List.map arg_request kp) = mset qs + mset (List.map request (ring_items r))" using b(3) empty by simp
  from flush_rest [OF M b(2) this z len] show ?thesis using b(1) by (simp del: mset_map)
qed

section \<open>The unrolled batch\<close>

lemma find_inline_all_2025:
  assumes "find_simd_contract M" and "kv_hash M = crc 0xffffffff" and "finds_ok (kv_hash M) st r"
    and "Suc (length (ring_items r)) = unat (find_queue_size r)" and "\<forall>a \<in> set kp. ia_key a \<noteq> 0"
    and "vp_first vp + length kp \<le> length (vp_second vp)"
  shows "\<exists>results r'. find_inline_all crc (hashtable st) (HT_BUCKET_MASK (capacity st)) r kp = Some (results, r') \<and>
    find_batch_2025 M (st\<lparr>find_ring := r\<rparr>) kp vp = Some (st\<lparr>find_ring := r'\<rparr>, delivered vp results) \<and>
    find_all_popping M (st\<lparr>find_ring := r\<rparr>) kp vp = Some (st\<lparr>find_ring := r'\<rparr>, delivered vp results) \<and> length results \<le> length kp"
  using assms(3-)
proof (induction kp arbitrary: r vp)
  case Nil
  then show ?case by (simp add: delivered_Nil)
next
  case (Cons a kp)
  have rok: "ring_ok r" and sz: "2 \<le> unat (find_queue_size r)" and small: "unat (capacity st) \<le> 2 ^ 32"
    and p2: "pow2_u64 (capacity st)" using Cons.prems(1) casht_facts(1) by (auto simp: finds_ok_def)
  have full: "find_queue_size r - 1 \<le> ring_sz r" using ring_full_iff [OF rok] Cons.prems(2) by simp
  have "length (ring_items r) \<noteq> 0" using Cons.prems(2) sz by linarith
  then have "ring_items r \<noteq> []" by (metis length_0_conv)
  from pop_known [OF Cons.prems(1) this] obtain r1 i where p:
    "find_inline_one (hashtable st) (HT_BUCKET_MASK (capacity st)) r = Some (reply (casht_map st) i, r1)"
    "\<And>M vp. find_simd_contract M \<Longrightarrow> pop_find_queue M (st\<lparr>find_ring := r\<rparr>) vp =
       map_option (Pair (st\<lparr>find_ring := r1\<rparr>)) (deliver vp (reply (casht_map st) i))"
    "finds_ok (kv_hash M) st r1" "find_queue_size r1 = find_queue_size r" "length (ring_items r) = Suc (length (ring_items r1))"
    by metis
  let ?x = "case reply (casht_map st) i of None \<Rightarrow> [] | Some x \<Rightarrow> [x]"
  have "Suc (length (ring_items r1)) < unat (find_queue_size r1)" using p(4,5) Cons.prems(2) by simp
  moreover have "ia_key a \<noteq> 0" and k: "\<forall>a \<in> set kp. ia_key a \<noteq> 0" using Cons.prems(3) by simp_all
  ultimately obtain r2 where add:
    "add_to_find_queue M (st\<lparr>find_ring := r1\<rparr>) a = Some (st\<lparr>find_ring := r2\<rparr>)" "finds_ok (kv_hash M) st r2"
    "find_queue_size r2 = find_queue_size r1" "List.map request (ring_items r2) = List.map request (ring_items r1) @ [arg_request a]"
    "ring_put r1 (\<lambda>slot. slot\<lparr>q_key := ia_key a, q_idx := bucket_start M st (ia_key a), q_key_id := ia_id a\<rparr>) = Some r2"
    using add_known [OF p(3)] by metis
  have full2: "Suc (length (ring_items r2)) = unat (find_queue_size r2)"
    using arg_cong [OF add(4), of length] p(4,5) add(3) Cons.prems(2) by simp
  have room: "vp_first vp < length (vp_second vp)" using Cons.prems(4) by simp
  have l: "length ?x \<le> 1" by (simp split: option.split)
  have v: "vp_first vp + length ?x \<le> length (vp_second vp)" using room l by simp
  have "vp_first (delivered vp ?x) + length kp \<le> length (vp_second (delivered vp ?x))"
    using Cons.prems(4) l v by simp
  from Cons.IH [OF add(2) full2 k this] obtain results r' where rest:
    "find_inline_all crc (hashtable st) (HT_BUCKET_MASK (capacity st)) r2 kp = Some (results, r')"
    "find_batch_2025 M (st\<lparr>find_ring := r2\<rparr>) kp (delivered vp ?x) = Some (st\<lparr>find_ring := r'\<rparr>, delivered (delivered vp ?x) results)"
    "find_all_popping M (st\<lparr>find_ring := r2\<rparr>) kp (delivered vp ?x) = Some (st\<lparr>find_ring := r'\<rparr>, delivered (delivered vp ?x) results)"
    "length results \<le> length kp" by blast
  have idx: "ucast (ucast (crc 0xffffffff (ia_key a) AND HT_BUCKET_MASK (capacity st)) :: u32) = bucket_start M st (ia_key a)"
    using bucket_of_hash [OF p2 small, of M "ia_key a"] assms(2) by simp
  have "find_inline_all crc (hashtable st) (HT_BUCKET_MASK (capacity st)) r (a # kp) = Some (?x @ results, r')"
    using p(1) add(5) rest(1) by (simp add: Let_def idx split: option.split)
  moreover have "find_batch_2025 M (st\<lparr>find_ring := r\<rparr>) (a # kp) vp = Some (st\<lparr>find_ring := r'\<rparr>, delivered vp (?x @ results))"
    "find_all_popping M (st\<lparr>find_ring := r\<rparr>) (a # kp) vp = Some (st\<lparr>find_ring := r'\<rparr>, delivered vp (?x @ results))"
    using full p(2) [OF assms(1), of vp] deliver_delivered [OF room] add(1) rest(2,3) delivered_append [OF v] by simp_all
  ultimately show ?case using rest(4) l by (intro exI [of _ "?x @ results"] exI [of _ r']) simp
qed


definition sample_methods :: kv_methods where
  "sample_methods = \<lparr>kv_hash = (\<lambda>k. k),
     kv_find_simd = (\<lambda>T idx q vp. let B = List.map (\<lambda>kv. (kv_k kv, kv_v kv)) T in
       case bucket_hit B (q_key q) (unat idx) of
         Some v \<Rightarrow> map_option (Pair False) (vp_put vp (q_key_id q) v)
       | None \<Rightarrow> Some (\<not> bucket_has_empty B (unat idx), vp)),
     kv_find = (\<lambda>kv q vp. if kv_k kv = q_key q then map_option (Pair False) (vp_put vp (q_key_id q) (kv_v kv))
       else Some (kv_k kv \<noteq> 0, vp)),
     kv_compare_key = (\<lambda>kv k. kv_k kv = k), kv_update_cas = (\<lambda>kv k v. kv\<lparr>kv_v := v\<rparr>),
     kv_is_empty = (\<lambda>kv. kv_k kv = 0), kv_insert_cas = (\<lambda>kv k v. Some \<lparr>kv_k = k, kv_v = v\<rparr>),
     kv_get_value = kv_v\<rparr>"

text \<open>A table of eight empty slots with queues of two.\<close>

definition blank_kvq :: kvq where
  "blank_kvq = \<lparr>q_key = 0, q_value = 0, q_idx = 0, q_key_id = 0\<rparr>"

definition sample_ring :: "kvq request_ring" where
  "sample_ring = \<lparr>find_queue = [blank_kvq, blank_kvq], find_queue_head = 0, find_queue_tail = 0, find_queue_size = 2\<rparr>"

definition sample_casht :: casht where
  "sample_casht = \<lparr>hashtable = replicate 8 \<lparr>kv_k = 0, kv_v = 0\<rparr>, capacity = 8, empty_slot = 0, empty_slot_exists = False,
     find_ring = sample_ring, insert_ring = sample_ring\<rparr>"

lemma sample_methods_contract: "find_simd_contract sample_methods"
  by (simp add: find_simd_contract_def sample_methods_def)

lemma sample_ring_ok: "ring_ok sample_ring" "ring_items sample_ring = []" "unat (find_queue_size sample_ring) = 2"
proof -
  have "(2::u32) = 2 ^ 1" by simp
  then show "ring_ok sample_ring" unfolding ring_ok_def sample_ring_def by (intro conjI exI [of _ 1]) simp_all
  show "ring_items sample_ring = []" by (simp add: ring_items_def ring_len_def sample_ring_def slot_dist_def)
  show "unat (find_queue_size sample_ring) = 2" by (simp add: sample_ring_def)
qed

lemma sample_casht_ok: "casht_ok H sample_casht" "casht_map sample_casht = Map.empty" "has_room sample_casht"
proof -
  have e: "as_dram sample_casht = fresh_ht 8 []" by (simp add: as_dram_def sample_casht_def fresh_ht_def)
  show "casht_ok H sample_casht" using fresh_ht_inv(1) [OF pow2_u64_8] by (simp add: casht_ok_def e) (simp add: sample_casht_def)
  show "casht_map sample_casht = Map.empty" using fresh_ht_inv(2) [OF pow2_u64_8] by (simp add: casht_map_def e)
  show "has_room sample_casht" by (simp add: has_room_def sample_casht_def)
qed

lemma sample_finds_ok: "finds_ok H sample_casht sample_ring"
  using sample_casht_ok sample_ring_ok by (simp add: finds_ok_def) (simp add: sample_casht_def)


section \<open>The port finds what the reference finds\<close>

definition to_request :: "dramblast_arg \<Rightarrow> insert_find_argument" where
  "to_request a = \<lparr>ia_key = arg_k a, ia_value = 0, ia_id = arg_id a\<rparr>"

definition to_found :: "dramblast_result \<Rightarrow> find_result" where
  "to_found r = \<lparr>fr_id = res_id r, fr_value = res_v r\<rparr>"

definition found :: "dramblast_result list \<Rightarrow> find_result list" where
  "found rs = List.map to_found (filter (\<lambda>r. res_status r = DRAMBLAST_FOUND) rs)"

lemma found_answers:
  assumes "\<forall>a \<in> set args. arg_k a \<noteq> 0"
  shows "found (List.map (dram_result crc ht) args) = List.map_filter (reply (dram_map ht)) (List.map (arg_request \<circ> to_request) args)"
  using assms
proof (induction args)
  case (Cons a args)
  have k: "arg_k a \<noteq> 0" using Cons.prems by simp
  have "dram_map ht (arg_k a) = None \<Longrightarrow> res_status (dram_result crc ht a) \<noteq> DRAMBLAST_FOUND"
    "dram_map ht (arg_k a) = Some v \<Longrightarrow> res_status (dram_result crc ht a) = DRAMBLAST_FOUND \<and> res_v (dram_result crc ht a) = v"
    "res_id (dram_result crc ht a) = arg_id a" for v
    using k by (auto simp: dram_result_def dram_answer_def Let_def DRAMBLAST_FOUND_def DRAMBLAST_ABSENT_def DRAMBLAST_TABLE_FULL_def
        split: if_splits prod.splits option.splits)
  then show ?case
    using Cons by (cases "dram_map ht (arg_k a)")
      (simp_all add: found_def to_found_def reply_def arg_request_def to_request_def)
qed (simp add: found_def)



end
