(* ===== verification/Casht_Insert.thy ===== *)
theory Casht_Insert
  imports Casht_Find
begin

text \<open>
  The insertions of \<open>docs/cas_kht.hpp\<close>, by one thread: a popped request is stored in the first
  bucket that has its key or an empty slot, or is queued again for the next bucket.  A batch and
  a flush store exactly the requests, and the lookups of \<open>Casht_Find\<close> then find them.
\<close>

section \<open>One bucket\<close>

text \<open>The slot of a bucket that takes the key: the one that has it, else the first empty one.\<close>

definition bucket_place :: "(u64 \<times> u64) list \<Rightarrow> u64 \<Rightarrow> nat \<Rightarrow> nat option" where
  "bucket_place T k b =
     (case find (\<lambda>j. fst (T ! (b + j)) = k) [0..<4] of
        Some j \<Rightarrow> Some (b + j)
      | None \<Rightarrow> map_option ((+) b) (find (\<lambda>j. fst (T ! (b + j)) = 0) [0..<4]))"

definition put :: "casht \<Rightarrow> nat \<Rightarrow> kvq \<Rightarrow> casht" where
  "put st p q = st\<lparr>hashtable := (hashtable st)[p := \<lparr>kv_k = q_key q, kv_v = q_value q\<rparr>]\<rparr>"

lemma put_as_dram: "as_dram (put st p q) = dstore (as_dram st) p (q_key q) (q_value q)"
  by (simp add: put_def as_dram_def dstore_def)

lemma put_simps [simp]:
  "capacity (put st p q) = capacity st" "insert_ring (put st p q) = insert_ring st" "find_ring (put st p q) = find_ring st"
  "slots (put st p q) = (slots st)[p := (q_key q, q_value q)]"
  by (simp_all add: put_as_dram) (simp_all add: put_def)

lemma try_insert_empty:
  assumes "unat idx < length (hashtable st)" and "hashtable st ! unat idx = \<lparr>kv_k = 0, kv_v = 0\<rparr>"
  shows "try_insert_from M st q idx = Some (0, put st (unat idx) q)"
    and "try_insert_inline M st q idx = Some (False, put st (unat idx) q)"
  using assms by (subst try_insert_from.simps try_insert_inline.simps; simp add: dramblast_cas_def put_def)+

lemma insert_branched_bucket:
  assumes ok: "casht_ok H st" and q: "kvq_at H st q m"
  shows "insert_branched M st q =
    (case bucket_place (slots st) (q_key q) (unat (q_idx q)) of
       Some p \<Rightarrow> Some (0, put st p q)
     | None \<Rightarrow> map_option (Pair 1) (insert_again st q (next_idx (capacity st) (q_idx q))))"
proof -
  note f = casht_facts [OF ok]
  have at: "q_key q \<noteq> 0" "4 dvd m" "m < unat (capacity st)"
    and idx: "unat (q_idx q) = (home_of H st (q_key q) + m) mod unat (capacity st)"
    and ps: "passed 0 (home_of H st) (slots st) (q_key q) m" using q by (simp_all add: kvq_at_def)
  note b = bucket_decides(1,2) [OF ok at ps, folded idx]
  let ?i = "q_idx q" and ?T = "hashtable st"
  have gt: "(0::u8) < x \<longleftrightarrow> x \<noteq> 0" for x by (simp add: word_gt_0)
  have clean: "?T ! p = \<lparr>kv_k = 0, kv_v = 0\<rparr>" if "p < length ?T" "kv_k (?T ! p) = 0" for p
    using ok that by (auto simp: casht_ok_def dram_inv_def intro!: dramblast_kv.equality)
  have off: "unat (?i + of_nat j) = unat ?i + j" if "j < 4" for j
  proof -
    have "unat (capacity st) < 2 ^ LENGTH(64)" by (rule unsigned_less)
    then show ?thesis using that b(2) f(2) by (simp add: unat_word_ariths unat_of_nat)
  qed
  have store: "store_lane ?T ?i (Suc (2 * j)) (q_value q) = Some (hashtable (put st (unat ?i + j) q))"
    if "j < 4" "fst (slots st ! (unat ?i + j)) = q_key q" for j
    using that b(2) by (simp add: store_lane_def put_def dram_kv_update)
  have swap: "try_insert_from M st q (?i + of_nat j) = Some (0, put st (unat ?i + j) q)"
    if "j < 4" "fst (slots st ! (unat ?i + j)) = 0" for j
    using try_insert_empty(1) [of "?i + of_nat j" st M q] clean [of "unat ?i + j"] that b(2) off [OF that(1)] by simp
  have put: "st\<lparr>hashtable := hashtable (put st p q)\<rparr> = put st p q" for p by (simp add: put_def)
  show ?thesis
    using b store [of 0] store [of 1] store [of 2] store [of 3] swap [of 0] swap [of 1] swap [of 2] swap [of 3]
    by (simp add: insert_branched_def load_bucket_lanes cmpeq_key_lanes KEYMSK_same Let_def bucket_place_def upt_4 gt
        next_idx_def put split: Option.bind_split)
qed

lemma insert_inline_bucket:
  assumes ok: "casht_ok H st" and q: "kvq_at H st q m" and r: "ring_ok (insert_ring st)" "ring_items (insert_ring st) = q # qs"
  shows "insert_inline_one M st =
    (let st1 = st\<lparr>insert_ring := ring_advance (insert_ring st)\<rparr> in
     case bucket_place (slots st) (q_key q) (unat (q_idx q)) of
       Some p \<Rightarrow> Some (put st1 p q)
     | None \<Rightarrow> do { st2 \<leftarrow> insert_again st1 q (next_idx (capacity st) (q_idx q)); insert_inline_one M st2 })"
proof -
  let ?st1 = "st\<lparr>insert_ring := ring_advance (insert_ring st)\<rparr>"
  note f = casht_facts [OF ok]
  have at: "q_key q \<noteq> 0" "4 dvd m" "m < unat (capacity st)"
    and idx: "unat (q_idx q) = (home_of H st (q_key q) + m) mod unat (capacity st)"
    and ps: "passed 0 (home_of H st) (slots st) (q_key q) m" using q by (simp_all add: kvq_at_def)
  note b = bucket_decides(1,2) [OF ok at ps, folded idx]
  let ?i = "q_idx q" and ?T = "hashtable st"
  have gt: "(0::u8) < x \<longleftrightarrow> x \<noteq> 0" for x by (simp add: word_gt_0)
  have clean: "?T ! p = \<lparr>kv_k = 0, kv_v = 0\<rparr>" if "p < length ?T" "kv_k (?T ! p) = 0" for p
    using ok that by (auto simp: casht_ok_def dram_inv_def intro!: dramblast_kv.equality)
  have off: "unat (?i + of_nat j) = unat ?i + j" if "j < 4" for j
  proof -
    have "unat (capacity st) < 2 ^ LENGTH(64)" by (rule unsigned_less)
    then show ?thesis using that b(2) f(2) by (simp add: unat_word_ariths unat_of_nat)
  qed
  have store: "store_lane ?T ?i (Suc (2 * j)) (q_value q) = Some (hashtable (put ?st1 (unat ?i + j) q))"
    if "j < 4" "fst (slots st ! (unat ?i + j)) = q_key q" for j
    using that b(2) by (simp add: store_lane_def put_def dram_kv_update)
  have swap: "try_insert_inline M ?st1 q (?i + of_nat j) = Some (False, put ?st1 (unat ?i + j) q)"
    if "j < 4" "fst (slots st ! (unat ?i + j)) = 0" for j
    using try_insert_empty(2) [of "?i + of_nat j" ?st1 M q] clean [of "unat ?i + j"] that b(2) off [OF that(1)] by simp
  have put: "?st1\<lparr>hashtable := hashtable (put ?st1 p q)\<rparr> = put ?st1 p q" for p by (simp add: put_def)
  note tl = ring_tail_items(1) [OF r]
  show ?thesis
    apply (subst insert_inline_one.simps)
    using b tl store [of 0] store [of 1] store [of 2] store [of 3] swap [of 0] swap [of 1] swap [of 2] swap [of 3]
    by (simp add: load_bucket_lanes cmpeq_key_lanes KEYMSK_same Let_def bucket_place_def upt_4 gt inline_again_def
        KV_IN_CACHELINE_def next_idx_def put split: Option.bind_split)
qed

lemma pop_insert_bucket:
  assumes ok: "casht_ok H st" and q: "kvq_at H st q m" and r: "ring_ok (insert_ring st)" "ring_items (insert_ring st) = q # qs"
  shows "pop_insert_queue M st =
    (let st1 = st\<lparr>insert_ring := ring_advance (insert_ring st)\<rparr> in
     case bucket_place (slots st) (q_key q) (unat (q_idx q)) of
       Some p \<Rightarrow> Some (put st1 p q)
     | None \<Rightarrow> do { st2 \<leftarrow> insert_again st1 q (next_idx (capacity st) (q_idx q)); pop_insert_queue M st2 })"
proof -
  have k: "q_key q \<noteq> 0" using q by (simp add: kvq_at_def)
  obtain r2 where r2: "ring_put (insert_ring st) (\<lambda>slot. slot\<lparr>q_key := q_key q, q_key_id := q_key_id q, q_value := q_value q,
      q_idx := next_idx (capacity st) (q_idx q)\<rparr>) = Some r2" using ring_put_push [OF r(1)] by blast
  have put: "(put st p q)\<lparr>insert_ring := ring_advance (insert_ring st)\<rparr> = put (st\<lparr>insert_ring := ring_advance (insert_ring st)\<rparr>) p q" for p
    by (simp add: put_def)
  show ?thesis
    apply (subst pop_insert_queue.simps)
    using k r2 ring_tail_items(1) [OF r]
    by (simp add: insert_one_def insert_branched_bucket [OF ok q] insert_again_def ring_put_advance Let_def put split: option.split)
qed

text \<open>The slot taken is right: the table stays well formed and maps the key to the value.\<close>

lemma put_place:
  assumes ok: "casht_ok H st" and q: "kvq_at H st q m" and p: "bucket_place (slots st) (q_key q) (unat (q_idx q)) = Some p"
  shows "casht_ok H (put st p q)" and "casht_map (put st p q) = (casht_map st)(q_key q \<mapsto> q_value q)"
    and "grows 0 (slots st) (slots (put st p q))"
proof -
  let ?T = "slots st" and ?k = "q_key q" and ?home = "home_of H st" and ?n = "unat (capacity st)" and ?b = "unat (q_idx q)"
  note f = casht_facts [OF ok]
  have at: "?k \<noteq> 0" "4 dvd m" "m < ?n" and idx: "?b = (?home ?k + m) mod ?n" and ps: "passed 0 ?home ?T ?k m"
    using q by (simp_all add: kvq_at_def)
  note b = bucket_decides(1,2) [OF ok at ps, folded idx]
  have len: "length ?T = ?n" using f(2) by simp
  have slot: "?b + j = (?home ?k + (m + j)) mod ?n" if "j < 4" for j
    unfolding idx by (rule bucket_slot [OF f(5) f(7) at(2) that]) (use at(3) in simp)
  have inv: "dram_inv (\<lambda>_. H) (as_dram st)" using ok by (simp add: casht_ok_def)
  have res: "casht_ok H (put st p q) \<and> casht_map (put st p q) = (casht_map st)(?k \<mapsto> q_value q) \<and> (fst (?T ! p) = 0 \<or> fst (?T ! p) = ?k)"
  proof (cases "find (\<lambda>j. fst (?T ! (?b + j)) = ?k) [0..<4]")
    case (Some j)
    then have pj: "p = ?b + j" using p by (simp add: bucket_place_def)
    then have j: "j < 4" "p = ?b + j" "fst (?T ! p) = ?k" using Some by (auto simp: find_Some_iff)
    have pl: "p < length ?T" using j(1,2) b(2) by simp
    note u = wf_probe_update [OF f(3) pl j(3), of "q_value q"] tab_map_update [OF f(3) pl j(3) at(1), of "q_value q"]
    have "dram_inv (\<lambda>_. H) (dstore (as_dram st) p ?k (q_value q))"
      by (rule dram_inv_dstore [OF inv _ at(1)]) (use u(1) in simp)
    then show ?thesis using ok u(2) j(3) by (simp add: casht_ok_def casht_map_def dram_map_def put_as_dram)
  next
    case None
    then obtain j where fj: "find (\<lambda>j. fst (?T ! (?b + j)) = 0) [0..<4] = Some j" and pj: "p = ?b + j"
      using p by (auto simp: bucket_place_def)
    have j: "j < 4" "fst (?T ! p) = 0" "\<forall>i<j. fst (?T ! (?b + i)) \<noteq> 0" using fj pj by (auto simp: find_Some_iff)
    have nk: "fst (?T ! (?b + i)) \<noteq> ?k" if "i < 4" for i using None that by (auto simp: find_None_iff)
    have psj: "passed 0 ?home ?T ?k (m + i)" if "i \<le> j" for i
      using that
    proof (induction i)
      case (Suc i)
      then have "i < 4" "fst (?T ! (?b + i)) \<noteq> 0" using j(1,3) by simp_all
      then show ?case using Suc nk [of i] slot [of i] by (simp add: passed_Suc f(2) occupied_def)
    qed (use ps in simp)
    have "m + 4 \<le> ?n" by (rule four_step [OF at(2) f(5) at(3)])
    then have mj: "m + j < length ?T" using j(1) len by simp
    have e: "p = (?home ?k + (m + j)) mod length ?T" using slot [OF j(1)] pj len by simp
    have room: "room_at 0 ?home ?T ?k p"
      unfolding e by (rule passed_room [OF f(3) psj mj at(1)]) (use j(2) e in simp_all)
    note u = wf_probe_store [OF f(3) room, of "q_value q"] tab_map_store [OF f(3) room, of "q_value q"]
    have "dram_inv (\<lambda>_. H) (dstore (as_dram st) p ?k (q_value q))"
      by (rule dram_inv_dstore [OF inv _ at(1)]) (use u(1) in simp)
    then show ?thesis using ok u(2) j(2) by (simp add: casht_ok_def casht_map_def dram_map_def put_as_dram)
  qed
  then show "casht_ok H (put st p q)" "casht_map (put st p q) = (casht_map st)(?k \<mapsto> q_value q)" by simp_all
  show "grows 0 ?T (slots (put st p q))" using res grows_update [of ?T p 0 ?k "q_value q"] by simp
qed

section \<open>One insertion\<close>

definition store_request :: "kvq \<Rightarrow> u64 \<times> u64" where
  "store_request q = (q_key q, q_value q)"

definition arg_store :: "insert_find_argument \<Rightarrow> u64 \<times> u64" where
  "arg_store a = (ia_key a, ia_value a)"

text \<open>The requests pending in the queue of insertions, and slots for all of them and \<open>n\<close> more.\<close>

definition inserts_ok :: "(u64 \<Rightarrow> u64) \<Rightarrow> casht \<Rightarrow> nat \<Rightarrow> bool" where
  "inserts_ok H st n \<longleftrightarrow>
     casht_ok H st \<and> ring_ok (insert_ring st) \<and> 2 \<le> unat (find_queue_size (insert_ring st)) \<and>
     (\<forall>q \<in> set (ring_items (insert_ring st)). kvq_known H st q) \<and>
     card (dom (casht_map st)) + length (ring_items (insert_ring st)) + n < unat (capacity st)"

lemma card_has_room:
  assumes "casht_ok H st" and "card (dom (casht_map st)) < unat (capacity st)"
  shows "has_room st"
proof -
  have "card (dom (tab_map 0 (slots st))) < length (slots st)"
    using assms casht_facts(2) [OF assms(1)] by (simp add: casht_map_def dram_map_def)
  then obtain p where p: "p < length (slots st)" "\<not> occupied 0 (slots st) p"
    unfolding card_dom_full [OF casht_facts(4) [OF assms(1)]] by blast
  then have "hashtable st ! p \<in> set (hashtable st)" "kv_k (hashtable st ! p) = 0" by (simp_all add: occupied_def)
  then show ?thesis unfolding has_room_def by blast
qed

lemma kvq_known_grows:
  assumes "kvq_known H st q" and "grows 0 (slots st) (slots st')" and "capacity st' = capacity st" and "casht_ok H st"
  shows "kvq_known H st' q"
proof -
  have "slots st \<noteq> []" using casht_facts(2) [OF assms(4)] pow2_pos [OF casht_facts(1) [OF assms(4)]] by (auto simp: dview_def)
  then show ?thesis using assms(1,3) passed_grows [OF _ assms(2)] unfolding kvq_known_def kvq_at_def by metis
qed

lemma insert_again_ring:
  assumes "ring_ok r" and "Suc (length (ring_items r)) < unat (find_queue_size r)"
  obtains r' q' where "insert_again (st\<lparr>insert_ring := r\<rparr>) q idx = Some (st\<lparr>insert_ring := r'\<rparr>)"
    and "ring_ok r'" and "ring_items r' = ring_items r @ [q']" and "find_queue_size r' = find_queue_size r"
    and "store_request q' = store_request q" and "q_key q' = q_key q" and "q_idx q' = idx"
proof -
  let ?f = "\<lambda>slot. slot\<lparr>q_key := q_key q, q_key_id := q_key_id q, q_value := q_value q, q_idx := idx\<rparr>"
  from ring_put_items [OF assms, of ?f] obtain r' q' where "ring_put r ?f = Some r'"
    "q' = ?f (find_queue r ! unat (find_queue_head r))" "ring_ok r'" "ring_items r' = ring_items r @ [q']"
    "find_queue_size r' = find_queue_size r" by metis
  then show thesis by (intro that [of r' q']) (simp_all add: insert_again_def store_request_def)
qed

lemma insert_done:
  assumes ok: "casht_ok H st" and room: "has_room st"
    and r: "ring_ok r" "ring_items r \<noteq> []" "\<forall>q \<in> set (ring_items r). kvq_known H st q"
  shows "\<exists>st' r' i. pop_insert_queue M (st\<lparr>insert_ring := r\<rparr>) = Some (st'\<lparr>insert_ring := r'\<rparr>) \<and>
    insert_inline_one M (st\<lparr>insert_ring := r\<rparr>) = Some (st'\<lparr>insert_ring := r'\<rparr>) \<and>
    casht_ok H st' \<and> casht_map st' = (casht_map st)(fst i \<mapsto> snd i) \<and> grows 0 (slots st) (slots st') \<and>
    capacity st' = capacity st \<and> find_ring st' = find_ring st \<and>
    ring_ok r' \<and> find_queue_size r' = find_queue_size r \<and> (\<forall>q \<in> set (ring_items r'). kvq_known H st q) \<and>
    mset (List.map store_request (ring_items r)) = add_mset i (mset (List.map store_request (ring_items r')))"
  using r
proof (induction "sum_list (List.map (kvq_rank H st) (ring_items r))" arbitrary: r rule: less_induct)
  case less
  obtain q qs where items: "ring_items r = q # qs" using less.prems(2) by (cases "ring_items r") auto
  then obtain m where q: "kvq_at H st q m" using less.prems(3) by (auto simp: kvq_known_def)
  let ?st = "st\<lparr>insert_ring := r\<rparr>" and ?b = "unat (q_idx q)" and ?T = "slots st"
  note adv = ring_tail_items [OF less.prems(1) items]
  have ok': "casht_ok H ?st" and same: "slots ?st = ?T" and q': "kvq_at H ?st q m"
    using ok q by (simp_all add: casht_ok_def as_dram_def kvq_at_def)
  note slow = pop_insert_bucket [OF ok' q', of qs M, simplified, OF less.prems(1) items, unfolded same Let_def]
    and fast = insert_inline_bucket [OF ok' q', of qs M, simplified, OF less.prems(1) items, unfolded same Let_def]
  show ?case
  proof (cases "bucket_place ?T (q_key q) ?b")
    case (Some p)
    have "put (st\<lparr>insert_ring := ring_advance r\<rparr>) p q = (put st p q)\<lparr>insert_ring := ring_advance r\<rparr>" by (simp add: put_def)
    then have "pop_insert_queue M ?st = Some ((put st p q)\<lparr>insert_ring := ring_advance r\<rparr>)"
      "insert_inline_one M ?st = Some ((put st p q)\<lparr>insert_ring := ring_advance r\<rparr>)"
      using slow fast Some by simp_all
    then show ?thesis
      using put_place [OF ok q Some] adv items less.prems(3)
      by (intro exI [of _ "put st p q"] exI [of _ "ring_advance r"] exI [of _ "store_request q"]) (simp add: store_request_def)
  next
    case None
    have "Suc (length (ring_items (ring_advance r))) < unat (find_queue_size (ring_advance r))"
      using ring_len_less [OF less.prems(1)] items adv(3,4) length_ring_items [of r] by simp
    then obtain r2 q2 where r2: "insert_again (st\<lparr>insert_ring := ring_advance r\<rparr>) q (next_idx (capacity st) (q_idx q)) = Some (st\<lparr>insert_ring := r2\<rparr>)"
      "ring_ok r2" "ring_items r2 = qs @ [q2]" "find_queue_size r2 = find_queue_size r"
      "store_request q2 = store_request q" "q_key q2 = q_key q" "q_idx q2 = next_idx (capacity st) (q_idx q)"
      using insert_again_ring [OF adv(2), of st q "next_idx (capacity st) (q_idx q)"] adv(3,4) by metis
    have none: "bucket_hit ?T (q_key q) ?b = None" "\<not> bucket_has_empty ?T ?b"
      using None by (auto simp: bucket_place_def bucket_hit_def bucket_has_empty_def find_None_iff split: option.splits)
    have at2: "kvq_at H st q2 (m + 4)" by (rule kvq_next [OF ok room q none r2(6,7)])
    have "kvq_rank H st q2 < kvq_rank H st q"
      unfolding kvq_rank_at [OF ok at2] kvq_rank_at [OF ok q] using q unfolding kvq_at_def by linarith
    then have "sum_list (List.map (kvq_rank H st) (ring_items r2)) < sum_list (List.map (kvq_rank H st) (ring_items r))"
      by (simp add: r2(3) items)
    moreover have "\<forall>q \<in> set (ring_items r2). kvq_known H st q"
      using less.prems(3) items r2(3) at2 by (auto simp: kvq_known_def)
    moreover have "ring_items r2 \<noteq> []" using r2(3) by simp
    ultimately obtain st' r' i where ih:
      "pop_insert_queue M (st\<lparr>insert_ring := r2\<rparr>) = Some (st'\<lparr>insert_ring := r'\<rparr>)"
      "insert_inline_one M (st\<lparr>insert_ring := r2\<rparr>) = Some (st'\<lparr>insert_ring := r'\<rparr>)"
      "casht_ok H st'" "casht_map st' = (casht_map st)(fst i \<mapsto> snd i)" "grows 0 (slots st) (slots st')"
      "capacity st' = capacity st" "find_ring st' = find_ring st"
      "ring_ok r'" "find_queue_size r' = find_queue_size r2" "\<forall>q \<in> set (ring_items r'). kvq_known H st q"
      "mset (List.map store_request (ring_items r2)) = add_mset i (mset (List.map store_request (ring_items r')))"
      using less.hyps [OF _ r2(2)] by blast
    have "mset (List.map store_request (ring_items r)) = mset (List.map store_request (ring_items r2))"
      by (simp add: items r2(3,5))
    then show ?thesis
      using slow fast None r2(1,4) ih by (intro exI [of _ st'] exI [of _ r'] exI [of _ i]) simp
  qed
qed

lemma pop_inserts:
  assumes ok: "inserts_ok H st n" and ne: "ring_items (insert_ring st) \<noteq> []"
  obtains st' i where "pop_insert_queue M st = Some st'" and "insert_inline_one M st = Some st'"
    and "inserts_ok H st' n" and "casht_map st' = (casht_map st)(fst i \<mapsto> snd i)"
    and "capacity st' = capacity st" and "find_ring st' = find_ring st"
    and "find_queue_size (insert_ring st') = find_queue_size (insert_ring st)"
    and "mset (List.map store_request (ring_items (insert_ring st))) = add_mset i (mset (List.map store_request (ring_items (insert_ring st'))))"
    and "length (ring_items (insert_ring st)) = Suc (length (ring_items (insert_ring st')))"
proof -
  let ?r = "insert_ring st"
  have c: "casht_ok H st" "ring_ok ?r" "\<forall>q \<in> set (ring_items ?r). kvq_known H st q" and sz: "2 \<le> unat (find_queue_size ?r)"
    and card: "card (dom (casht_map st)) + length (ring_items ?r) + n < unat (capacity st)"
    using ok by (simp_all add: inserts_ok_def)
  have "has_room st" using card by (intro card_has_room [OF c(1)]) simp
  from insert_done [OF c(1) this c(2) ne c(3), of M] obtain st' r' i where d:
    "pop_insert_queue M (st\<lparr>insert_ring := ?r\<rparr>) = Some (st'\<lparr>insert_ring := r'\<rparr>)"
    "insert_inline_one M (st\<lparr>insert_ring := ?r\<rparr>) = Some (st'\<lparr>insert_ring := r'\<rparr>)"
    "casht_ok H st'" "casht_map st' = (casht_map st)(fst i \<mapsto> snd i)" "grows 0 (slots st) (slots st')"
    "capacity st' = capacity st" "find_ring st' = find_ring st"
    "ring_ok r'" "find_queue_size r' = find_queue_size ?r" "\<forall>q \<in> set (ring_items r'). kvq_known H st q"
    "mset (List.map store_request (ring_items ?r)) = add_mset i (mset (List.map store_request (ring_items r')))" by blast
  let ?st = "st'\<lparr>insert_ring := r'\<rparr>"
  have same: "as_dram ?st = as_dram st'" by (simp add: as_dram_def)
  have len: "length (ring_items ?r) = Suc (length (ring_items r'))" using arg_cong [OF d(11), of size] by simp
  have "card (dom (casht_map st')) \<le> Suc (card (dom (casht_map st)))"
    unfolding d(4) by (simp add: card_insert_le_m1 card_insert_if)
  moreover have "\<forall>q \<in> set (ring_items r'). kvq_known H ?st q"
    using d(6,10) kvq_known_grows [OF _ d(5,6) c(1)] by (simp add: kvq_known_def kvq_at_def same)
  ultimately have "inserts_ok H ?st n"
    using d(3,6,8,9) sz card len by (simp add: inserts_ok_def casht_ok_def casht_map_def same)
  then show thesis
    using d len by (intro that [of ?st i]) (simp_all add: casht_map_def same)
qed

text \<open>Adding a request keeps the table and takes one of the slots that are to spare.\<close>

lemma add_insert:
  assumes ok: "inserts_ok (kv_hash M) st (Suc n)" and room: "Suc (length (ring_items (insert_ring st))) < unat (find_queue_size (insert_ring st))"
    and k: "ia_key a \<noteq> 0"
  obtains st' where "add_to_insert_queue M st a = Some st'" and "inserts_ok (kv_hash M) st' n"
    and "casht_map st' = casht_map st" and "capacity st' = capacity st" and "find_ring st' = find_ring st"
    and "find_queue_size (insert_ring st') = find_queue_size (insert_ring st)"
    and "List.map store_request (ring_items (insert_ring st')) = List.map store_request (ring_items (insert_ring st)) @ [arg_store a]"
proof -
  let ?r = "insert_ring st" and ?f = "\<lambda>slot. slot\<lparr>q_idx := bucket_start M st (ia_key a), q_key := ia_key a,
    q_key_id := ia_id a, q_value := ia_value a\<rparr>"
  have c: "casht_ok (kv_hash M) st" "ring_ok ?r" "\<forall>q \<in> set (ring_items ?r). kvq_known (kv_hash M) st q"
    using ok by (simp_all add: inserts_ok_def)
  from ring_put_items [OF c(2) room, of ?f] obtain r' q where r': "ring_put ?r ?f = Some r'"
    "q = ?f (find_queue ?r ! unat (find_queue_head ?r))" "ring_ok r'" "ring_items r' = ring_items ?r @ [q]"
    "find_queue_size r' = find_queue_size ?r" by metis
  have q: "q_key q = ia_key a" "q_idx q = bucket_start M st (ia_key a)" "q_value q = ia_value a" by (simp_all add: r'(2))
  let ?st = "st\<lparr>insert_ring := r'\<rparr>"
  have same: "as_dram ?st = as_dram st" by (simp add: as_dram_def)
  have "kvq_known (kv_hash M) st q" by (rule kvq_fresh [OF c(1) _ q(2)]) (use k q(1) in simp_all)
  then have "\<forall>q \<in> set (ring_items r'). kvq_known (kv_hash M) st q" using c(3) r'(4) by auto
  then have "inserts_ok (kv_hash M) ?st n"
    using ok r'(3-5) by (simp add: inserts_ok_def casht_ok_def casht_map_def same kvq_known_def kvq_at_def)
  then show thesis
    using r'(1,4,5) q by (intro that [of ?st]) (simp_all add: add_to_insert_queue_def casht_map_def same store_request_def arg_store_def)
qed

section \<open>Batches\<close>

lemma insert_ring_full:
  assumes "inserts_ok H st n"
  shows "ring_sz (insert_ring st) \<ge> find_queue_size (insert_ring st) - 1 \<longleftrightarrow>
      Suc (length (ring_items (insert_ring st))) = unat (find_queue_size (insert_ring st))"
    and "Suc (length (ring_items (insert_ring st))) = unat (find_queue_size (insert_ring st)) \<Longrightarrow> ring_items (insert_ring st) \<noteq> []"
proof -
  have r: "ring_ok (insert_ring st)" and sz: "2 \<le> unat (find_queue_size (insert_ring st))" using assms by (simp_all add: inserts_ok_def)
  show "ring_sz (insert_ring st) \<ge> find_queue_size (insert_ring st) - 1 \<longleftrightarrow>
      Suc (length (ring_items (insert_ring st))) = unat (find_queue_size (insert_ring st))" by (rule ring_full_iff [OF r])
  show "ring_items (insert_ring st) \<noteq> []" if "Suc (length (ring_items (insert_ring st))) = unat (find_queue_size (insert_ring st))"
    using that sz by (cases "ring_items (insert_ring st)") auto
qed

text \<open>With a full queue, the three loops over a batch do the same.\<close>

lemma insert_all_full:
  assumes "inserts_ok (kv_hash M) st (length kp)" and "\<forall>a \<in> set kp. ia_key a \<noteq> 0"
    and "Suc (length (ring_items (insert_ring st))) = unat (find_queue_size (insert_ring st))"
  shows "\<exists>st'. insert_inline_all M st kp = Some st' \<and> insert_all_popping M st kp = Some st' \<and> insert_all_room M st kp = Some st'"
  using assms
proof (induction kp arbitrary: st)
  case (Cons a kp)
  note full = insert_ring_full [OF Cons.prems(1)]
  from pop_inserts [OF Cons.prems(1) full(2) [OF Cons.prems(3)], of M] obtain st1 where p:
    "pop_insert_queue M st = Some st1" "insert_inline_one M st = Some st1" "inserts_ok (kv_hash M) st1 (Suc (length kp))"
    "find_queue_size (insert_ring st1) = find_queue_size (insert_ring st)"
    "length (ring_items (insert_ring st)) = Suc (length (ring_items (insert_ring st1)))" by (metis length_Cons)
  have "Suc (length (ring_items (insert_ring st1))) < unat (find_queue_size (insert_ring st1))" using p(4,5) Cons.prems(3) by simp
  from add_insert [OF p(3) this, of a] Cons.prems(2) obtain st2 where a:
    "add_to_insert_queue M st1 a = Some st2" "inserts_ok (kv_hash M) st2 (length kp)"
    "find_queue_size (insert_ring st2) = find_queue_size (insert_ring st1)"
    "List.map store_request (ring_items (insert_ring st2)) = List.map store_request (ring_items (insert_ring st1)) @ [arg_store a]"
    by (metis list.set_intros(1))
  have "length (ring_items (insert_ring st2)) = Suc (length (ring_items (insert_ring st1)))" using arg_cong [OF a(4), of length] by simp
  then have "Suc (length (ring_items (insert_ring st2))) = unat (find_queue_size (insert_ring st2))" using p(4,5) a(3) Cons.prems(3) by simp
  moreover have "\<forall>a \<in> set kp. ia_key a \<noteq> 0" using Cons.prems(2) by simp
  ultimately obtain st' where "insert_inline_all M st2 kp = Some st'" "insert_all_popping M st2 kp = Some st'" "insert_all_room M st2 kp = Some st'"
    using Cons.IH [OF a(2)] by blast
  then show ?case using p(1,2) a(1) full(1) Cons.prems(3) by simp
qed simp

text \<open>The stores of a list of requests, the last one first in the map.\<close>

definition stores :: "(u64 \<times> u64) list \<Rightarrow> (u64 \<rightharpoonup> u64) \<Rightarrow> (u64 \<rightharpoonup> u64)" where
  "stores xs m = m ++ map_of (rev xs)"

lemma stores_simps [simp]:
  "stores [] m = m"
  "stores (i # xs) m = stores xs (m(fst i \<mapsto> snd i))"
  "stores (xs @ ys) m = stores ys (stores xs m)"
  by (cases i) (simp_all add: stores_def map_add_assoc flip: map_add_upd_left)

lemma stores_distinct:
  assumes "mset xs = mset ys" and "distinct (List.map fst ys)"
  shows "stores xs m = m ++ map_of ys"
proof -
  have "mset (rev xs) = mset ys" using assms(1) by simp
  then have "set (rev xs) = set ys" "mset (List.map fst (rev xs)) = mset (List.map fst ys)"
    by (metis set_mset_mset, metis mset_map)
  moreover from this have "distinct (List.map fst (rev xs))" using mset_eq_imp_distinct_iff assms(2) by metis
  ultimately have "map_of (rev xs) = map_of ys"
    using assms(2) by (intro map_of_inject_set [THEN iffD2])
  then show ?thesis by (simp add: stores_def)
qed

lemma insert_room_spec:
  assumes "inserts_ok (kv_hash M) st (length kp)" and "\<forall>a \<in> set kp. ia_key a \<noteq> 0"
  shows "\<exists>xs st'. insert_all_room M st kp = Some st' \<and> inserts_ok (kv_hash M) st' 0 \<and> casht_map st' = stores xs (casht_map st) \<and>
    capacity st' = capacity st \<and> find_ring st' = find_ring st \<and>
    mset (List.map store_request (ring_items (insert_ring st))) + mset (List.map arg_store kp) =
      mset xs + mset (List.map store_request (ring_items (insert_ring st')))"
  using assms
proof (induction kp arbitrary: st)
  case (Cons a kp)
  note full = insert_ring_full [OF Cons.prems(1)]
  obtain js st1 where p: "(if ring_sz (insert_ring st) \<ge> find_queue_size (insert_ring st) - 1 then pop_insert_queue M st else Some st) = Some st1"
    "inserts_ok (kv_hash M) st1 (Suc (length kp))" "casht_map st1 = stores js (casht_map st)"
    "capacity st1 = capacity st" "find_ring st1 = find_ring st"
    "Suc (length (ring_items (insert_ring st1))) < unat (find_queue_size (insert_ring st1))"
    "mset (List.map store_request (ring_items (insert_ring st))) = mset js + mset (List.map store_request (ring_items (insert_ring st1)))"
  proof (cases "ring_sz (insert_ring st) \<ge> find_queue_size (insert_ring st) - 1")
    case True
    note f = True [unfolded full(1)]
    from pop_inserts [OF Cons.prems(1) full(2) [OF f], of M] obtain st1 i where
      "pop_insert_queue M st = Some st1" "inserts_ok (kv_hash M) st1 (Suc (length kp))" "casht_map st1 = (casht_map st)(fst i \<mapsto> snd i)"
      "capacity st1 = capacity st" "find_ring st1 = find_ring st" "find_queue_size (insert_ring st1) = find_queue_size (insert_ring st)"
      "mset (List.map store_request (ring_items (insert_ring st))) = add_mset i (mset (List.map store_request (ring_items (insert_ring st1))))"
      "length (ring_items (insert_ring st)) = Suc (length (ring_items (insert_ring st1)))" by (metis length_Cons)
    then show thesis using True f by (intro that [of st1 "[i]"]) simp_all
  next
    case False
    have "ring_ok (insert_ring st)" using Cons.prems(1) by (simp add: inserts_ok_def)
    from ring_len_less [OF this] False show thesis using Cons.prems(1) by (intro that [of st "[]"]) (simp_all add: full(1))
  qed
  from add_insert [OF p(2,6), of a] Cons.prems(2) obtain st2 where a:
    "add_to_insert_queue M st1 a = Some st2" "inserts_ok (kv_hash M) st2 (length kp)" "casht_map st2 = casht_map st1"
    "capacity st2 = capacity st1" "find_ring st2 = find_ring st1"
    "List.map store_request (ring_items (insert_ring st2)) = List.map store_request (ring_items (insert_ring st1)) @ [arg_store a]"
    by (metis list.set_intros(1))
  have "\<forall>a \<in> set kp. ia_key a \<noteq> 0" using Cons.prems(2) by simp
  from Cons.IH [OF a(2) this] obtain xs st' where r:
    "insert_all_room M st2 kp = Some st'" "inserts_ok (kv_hash M) st' 0" "casht_map st' = stores xs (casht_map st2)"
    "capacity st' = capacity st2" "find_ring st' = find_ring st2"
    "mset (List.map store_request (ring_items (insert_ring st2))) + mset (List.map arg_store kp) =
       mset xs + mset (List.map store_request (ring_items (insert_ring st')))" by blast
  have "insert_all_room M st (a # kp) = Some st'" using p(1) a(1) r(1) by (simp split: if_splits)
  moreover have "mset (List.map store_request (ring_items (insert_ring st))) + mset (List.map arg_store (a # kp)) =
      mset (js @ xs) + mset (List.map store_request (ring_items (insert_ring st')))"
    using p(7) r(6) unfolding a(6) by (simp add: ac_simps)
  ultimately show ?case
    using r(2-5) a(3-5) p(3-5) by (intro exI [of _ "js @ xs"] exI [of _ st']) simp
qed (intro exI [of _ "[]"], simp)

lemma pop_insert_times_spec:
  assumes "inserts_ok H st 0" and "n = length (ring_items (insert_ring st))"
  shows "\<exists>xs st'. pop_insert_times M n st = Some st' \<and> inserts_ok H st' 0 \<and> ring_items (insert_ring st') = [] \<and>
    casht_map st' = stores xs (casht_map st) \<and> capacity st' = capacity st \<and> find_ring st' = find_ring st \<and>
    mset (List.map store_request (ring_items (insert_ring st))) = mset xs"
  using assms
proof (induction n arbitrary: st)
  case 0
  then have "ring_items (insert_ring st) = []" by (metis length_0_conv)
  then show ?case using 0 by (intro exI [of _ "[]"] exI [of _ st]) simp
next
  case (Suc n)
  then have "ring_items (insert_ring st) \<noteq> []" by (metis length_0_conv nat.distinct(1))
  from pop_inserts [OF Suc.prems(1) this, of M] obtain st1 i where p:
    "pop_insert_queue M st = Some st1" "inserts_ok H st1 0" "casht_map st1 = (casht_map st)(fst i \<mapsto> snd i)"
    "capacity st1 = capacity st" "find_ring st1 = find_ring st"
    "mset (List.map store_request (ring_items (insert_ring st))) = add_mset i (mset (List.map store_request (ring_items (insert_ring st1))))"
    "length (ring_items (insert_ring st)) = Suc (length (ring_items (insert_ring st1)))" by metis
  have "n = length (ring_items (insert_ring st1))" using p(7) Suc.prems(2) by simp
  from Suc.IH [OF p(2) this] obtain xs st' where
    "pop_insert_times M n st1 = Some st'" "inserts_ok H st' 0" "ring_items (insert_ring st') = []"
    "casht_map st' = stores xs (casht_map st1)" "capacity st' = capacity st1" "find_ring st' = find_ring st1"
    "mset (List.map store_request (ring_items (insert_ring st1))) = mset xs" by blast
  then show ?case using p by (intro exI [of _ "i # xs"] exI [of _ st']) simp
qed

lemma insert_flush:
  assumes "inserts_ok (kv_hash M) st (length kp)" and "\<forall>a \<in> set kp. ia_key a \<noteq> 0" and "ring_items (insert_ring st) = []"
  shows "\<exists>xs st1 st2. insert_batch_2025 M st kp = Some st1 \<and> flush_insert_queue M st1 = Some st2 \<and> inserts_ok (kv_hash M) st2 0 \<and>
    casht_map st2 = stores xs (casht_map st) \<and> capacity st2 = capacity st \<and> find_ring st2 = find_ring st \<and>
    mset (List.map arg_store kp) = mset xs"
proof -
  from insert_room_spec [OF assms(1,2)] obtain xs st1 where b:
    "insert_all_room M st kp = Some st1" "inserts_ok (kv_hash M) st1 0" "casht_map st1 = stores xs (casht_map st)"
    "capacity st1 = capacity st" "find_ring st1 = find_ring st"
    "mset (List.map arg_store kp) = mset xs + mset (List.map store_request (ring_items (insert_ring st1)))" using assms(3) by auto
  have "insert_batch_2025 M st kp = insert_all_room M st kp"
    using insert_all_full [OF assms(1,2)] insert_ring_full(1) [OF assms(1)] by (auto simp: insert_batch_2025_def)
  moreover from pop_insert_times_spec [OF b(2) refl] obtain ys st2 where f:
    "pop_insert_times M (length (ring_items (insert_ring st1))) st1 = Some st2" "inserts_ok (kv_hash M) st2 0"
    "casht_map st2 = stores ys (casht_map st1)" "capacity st2 = capacity st1" "find_ring st2 = find_ring st1"
    "mset (List.map store_request (ring_items (insert_ring st1))) = mset ys" by blast
  moreover have "ring_ok (insert_ring st1)" using b(2) by (simp add: inserts_ok_def)
  ultimately show ?thesis
    using b by (intro exI [of _ "xs @ ys"] exI [of _ st1] exI [of _ st2]) (simp add: flush_insert_queue_def ring_sz_items)
qed

text \<open>
  C29: the unrolled insertion of the reference table (\<open>DRAMHiT_2025_INLINED\<close>) does exactly what the
  loop it unrolls does (\<open>DRAMHiT_2025\<close>): with a full queue of pending insertions, requests without
  the zero key and slots to spare for all of them, both return, with the same table and the same
  queues.
\<close>

theorem casht_unrolled_insert:
  assumes "inserts_ok (kv_hash M) st (length kp)" and "\<forall>a \<in> set kp. ia_key a \<noteq> 0"
    and "ring_sz (insert_ring st) = find_queue_size (insert_ring st) - 1"
  shows "\<exists>st'. insert_batch_inline M st kp = Some st' \<and> insert_batch_2025 M st kp = Some st'"
proof -
  have "Suc (length (ring_items (insert_ring st))) = unat (find_queue_size (insert_ring st))"
    using insert_ring_full(1) [OF assms(1)] assms(3) by simp
  then show ?thesis
    using insert_all_full [OF assms(1,2)] assms(3) by (auto simp: insert_batch_inline_def insert_batch_2025_def)
qed

lemma sample_inserts_ok: "inserts_ok H sample_casht 7"
proof -
  have "insert_ring sample_casht = sample_ring" "capacity sample_casht = 8" by (simp_all add: sample_casht_def)
  then show ?thesis using sample_casht_ok sample_ring_ok by (simp add: inserts_ok_def del: length_ring_items)
qed

lemma inserts_ok_mono: "inserts_ok H st n \<Longrightarrow> n' \<le> n \<Longrightarrow> inserts_ok H st n'"
  by (auto simp: inserts_ok_def)

theorem casht_unrolled_insert_witness:
  "\<exists>st1 st2. add_to_insert_queue sample_methods sample_casht \<lparr>ia_key = 5, ia_value = 50, ia_id = 1\<rparr> = Some st1 \<and>
    insert_batch_inline sample_methods st1 [\<lparr>ia_key = 6, ia_value = 60, ia_id = 2\<rparr>] = Some st2"
proof -
  let ?a = "\<lparr>ia_key = 5, ia_value = 50, ia_id = 1\<rparr>" and ?b = "\<lparr>ia_key = 6, ia_value = 60, ia_id = 2\<rparr> :: insert_find_argument"
  have ring: "insert_ring sample_casht = sample_ring" by (simp add: sample_casht_def)
  have ok: "inserts_ok (kv_hash sample_methods) sample_casht (Suc (length [?b]))"
    by (rule inserts_ok_mono [OF sample_inserts_ok]) simp
  have "Suc (length (ring_items (insert_ring sample_casht))) < unat (find_queue_size (insert_ring sample_casht))"
    using sample_ring_ok ring by simp
  from add_insert [OF ok this, of ?a] obtain st1 where a: "add_to_insert_queue sample_methods sample_casht ?a = Some st1"
    "inserts_ok (kv_hash sample_methods) st1 (length [?b])" "find_queue_size (insert_ring st1) = find_queue_size (insert_ring sample_casht)"
    "List.map store_request (ring_items (insert_ring st1)) = List.map store_request (ring_items (insert_ring sample_casht)) @ [arg_store ?a]" by auto
  have "length (ring_items (insert_ring st1)) = 1" using arg_cong [OF a(4), of length] sample_ring_ok(2) ring by simp
  then have "Suc (length (ring_items (insert_ring st1))) = unat (find_queue_size (insert_ring st1))" using a(3) sample_ring_ok(3) ring by simp
  then have "ring_sz (insert_ring st1) \<ge> find_queue_size (insert_ring st1) - 1" unfolding insert_ring_full(1) [OF a(2)] .
  moreover have "ring_sz (insert_ring st1) \<le> find_queue_size (insert_ring st1) - 1" unfolding ring_sz_def by (rule word_and_le1)
  ultimately have "ring_sz (insert_ring st1) = find_queue_size (insert_ring st1) - 1" by simp
  from casht_unrolled_insert [OF a(2) _ this] a(1) show ?thesis by auto
qed

section \<open>The life of a table\<close>

text \<open>The table exists exactly while an instance does; a first instance starts with an empty table.\<close>

definition casht_class_ok :: "casht_class \<Rightarrow> bool" where
  "casht_class_ok cls \<longleftrightarrow> (cls_hashtable cls = None \<longleftrightarrow> cls_ref_cnt cls = 0)"

lemma casht_class_kept:
  assumes "casht_class_ok cls"
  shows "cls_ref_cnt cls + 1 \<noteq> 0 \<Longrightarrow> casht_new next_pow2 calloc_ht alloc c queue_sz cls = Some (Return (st, cls')) \<Longrightarrow> casht_class_ok cls'"
    and "casht_new next_pow2 calloc_ht alloc c queue_sz cls \<noteq> None"
    and "cls_ref_cnt cls \<noteq> 0 \<Longrightarrow> casht_class_ok (casht_delete cls)"
  using assms by (auto simp: casht_class_ok_def casht_new_def casht_delete_def Let_def split: if_splits option.splits)

lemma casht_new_ready:
  assumes cap: "next_pow2 c = cap" "pow2_u64 cap" "4 \<le> unat cap"
    and calloc: "calloc_ht cap = replicate (unat cap) \<lparr>kv_k = 0, kv_v = 0\<rparr>"
    and sz: "queue_sz = 2 ^ n" "0 < n" "n < 32" "length (alloc queue_sz) = unat queue_sz"
    and cls: "cls_hashtable cls = None" "cls_ref_cnt cls = 0" and room: "m < unat cap"
  obtains st cls' where "casht_new next_pow2 calloc_ht alloc c queue_sz cls = Some (Return (st, cls'))"
    and "inserts_ok H st m" and "casht_map st = Map.empty" and "capacity st = cap"
    and "ring_ok (insert_ring st)" and "ring_items (insert_ring st) = []" and "insert_ring st = find_ring st"
    and "2 \<le> unat (find_queue_size (find_ring st))"
proof -
  let ?r = "empty_ring alloc queue_sz"
  let ?st = "\<lparr>hashtable = calloc_ht cap, capacity = cap, empty_slot = cls_empty_slot cls,
    empty_slot_exists = cls_empty_slot_exists cls, find_ring = ?r, insert_ring = ?r\<rparr>"
  have e: "as_dram ?st = fresh_ht cap []" by (simp add: as_dram_def fresh_ht_def calloc)
  have q: "unat queue_sz = 2 ^ n" unfolding sz(1) by (rule unat_two_power32 [OF sz(3)])
  then have "2 \<le> unat queue_sz" "even (unat queue_sz)" using sz(2) by (cases n; simp)+
  then have two: "2 \<le> unat queue_sz" "queue_sz mod 2 = 0" by (simp_all add: word_unat_eq_iff unat_mod_distrib)
  have "4 dvd unat cap" using geometry_dvd [OF dram_inv_geometry [OF fresh_ht_inv(1) [OF cap(2), of "\<lambda>_. H" "[]"]]] cap(3)
    by (simp add: fresh_ht_def)
  then have "cap mod KV_IN_CACHELINE = 0" by (simp add: KV_IN_CACHELINE_def word_unat_eq_iff unat_mod_distrib)
  then have new: "casht_new next_pow2 calloc_ht alloc c queue_sz cls =
      Some (Return (?st, cls\<lparr>cls_hashtable := Some (calloc_ht cap), cls_ref_cnt := cls_ref_cnt cls + 1\<rparr>))"
    using cap(1) two cls by (simp add: casht_new_def Let_def)
  have "0 < queue_sz" using two(1) by (simp add: word_less_nat_alt)
  then have rok: "ring_ok ?r" unfolding ring_ok_def empty_ring_def using sz by auto
  have items: "ring_items ?r = []" by (simp add: ring_items_def ring_len_def empty_ring_def slot_dist_def)
  have "casht_ok H ?st" "casht_map ?st = Map.empty"
    using fresh_ht_inv [OF cap(2)] cap(3) by (simp_all add: casht_ok_def casht_map_def e)
  moreover from this have "inserts_ok H ?st m"
    using rok items two(1) room by (simp add: inserts_ok_def del: length_ring_items) (simp add: empty_ring_def)
  moreover have "2 \<le> unat (find_queue_size ?r)" using two(1) by (simp add: empty_ring_def)
  ultimately show thesis
    using new rok items by (intro that [of ?st "cls\<lparr>cls_hashtable := Some (calloc_ht cap), cls_ref_cnt := cls_ref_cnt cls + 1\<rparr>"]) simp_all
qed

section \<open>Round trip\<close>

lemma inserts_finds:
  assumes "inserts_ok H st n" and "ring_ok (find_ring st)" and "2 \<le> unat (find_queue_size (find_ring st))"
    and "ring_items (find_ring st) = []" and "unat (capacity st) \<le> 2 ^ 32"
  shows "finds_ok H st (find_ring st)"
proof -
  have "has_room st" using assms(1) by (intro card_has_room [of H]) (simp_all add: inserts_ok_def)
  then show ?thesis using assms by (simp add: finds_ok_def inserts_ok_def)
qed

text \<open>The map after the insertion of distinct keys, and what it replies to requests for them.\<close>

lemma found_after_insert:
  assumes xs: "mset (List.map arg_store kp) = mset xs" and dist: "distinct (List.map ia_key kp)" and m: "m' = stores xs m"
  shows "m' = m ++ map_of (List.map arg_store kp)"
    and "List.map_filter (reply m') (List.map arg_request kp) = List.map (\<lambda>a. \<lparr>fr_id = ia_id a, fr_value = ia_value a\<rparr>) kp"
proof -
  have keys: "List.map fst (List.map arg_store kp) = List.map ia_key kp" by (simp add: arg_store_def)
  have d: "distinct (List.map fst (List.map arg_store kp))" unfolding keys by (rule dist)
  show e: "m' = m ++ map_of (List.map arg_store kp)" unfolding m by (rule stores_distinct [OF xs [symmetric] d])
  have "reply m' (arg_request a) = Some \<lparr>fr_id = ia_id a, fr_value = ia_value a\<rparr>" if "a \<in> set kp" for a
  proof -
    have "map_of (List.map arg_store kp) (ia_key a) = Some (ia_value a)"
      by (rule map_of_is_SomeI [OF d]) (use that in \<open>auto simp: arg_store_def\<close>)
    then show ?thesis by (simp add: reply_def arg_request_def e)
  qed
  then show "List.map_filter (reply m') (List.map arg_request kp) = List.map (\<lambda>a. \<lparr>fr_id = ia_id a, fr_value = ia_value a\<rparr>) kp"
    by (induction kp) (simp_all add: map_filter_simps)
qed



end
