(* ===== verification/Casht_Variants.thy ===== *)
theory Casht_Variants
  imports Casht_Insert
begin

text \<open>
  The other operations of \<open>docs/cas_kht.hpp\<close>: those that use no queue, the lookup without vector
  instructions, and the batches of \<open>DRAMHiT_2023\<close>, which keep the queues below a threshold.
\<close>

section \<open>The methods of a slot\<close>

definition kv_contract :: "kv_methods \<Rightarrow> bool" where
  "kv_contract M \<longleftrightarrow>
     (\<forall>kv q vp. kv_find M kv q vp =
        (if kv_k kv = q_key q then map_option (Pair False) (vp_put vp (q_key_id q) (kv_v kv)) else Some (kv_k kv \<noteq> 0, vp))) \<and>
     (\<forall>kv k. kv_compare_key M kv k \<longleftrightarrow> kv_k kv = k) \<and> (\<forall>kv. kv_is_empty M kv \<longleftrightarrow> kv_k kv = 0) \<and>
     (\<forall>kv k v. kv_update_cas M kv k v = kv\<lparr>kv_v := v\<rparr>) \<and>
     (\<forall>k v. kv_insert_cas M \<lparr>kv_k = 0, kv_v = 0\<rparr> k v = Some \<lparr>kv_k = k, kv_v = v\<rparr>)"

lemma kv_contract_simps:
  assumes "kv_contract M"
  shows "kv_find M kv q vp =
      (if kv_k kv = q_key q then map_option (Pair False) (vp_put vp (q_key_id q) (kv_v kv)) else Some (kv_k kv \<noteq> 0, vp))"
    and "kv_compare_key M kv k \<longleftrightarrow> kv_k kv = k" and "kv_is_empty M kv \<longleftrightarrow> kv_k kv = 0"
    and "kv_update_cas M kv k v = kv\<lparr>kv_v := v\<rparr>" and "kv_insert_cas M \<lparr>kv_k = 0, kv_v = 0\<rparr> k v = Some \<lparr>kv_k = k, kv_v = v\<rparr>"
  using assms by (simp_all add: kv_contract_def)

lemma sample_kv_contract: "kv_contract sample_methods"
  by (simp add: kv_contract_def sample_methods_def)

section \<open>Without the queues\<close>

text \<open>
  The probes start at the slot of the hash.  The counter of their loops has 32 bits, so that
  the table must be smaller than 2^32 slots for them to end when it is full.
\<close>

definition np_home :: "(u64 \<Rightarrow> u64) \<Rightarrow> u64 \<Rightarrow> u64 \<Rightarrow> nat" where
  "np_home H cap k = unat (H k) mod unat cap"

definition np_ok :: "(u64 \<Rightarrow> u64) \<Rightarrow> casht \<Rightarrow> bool" where
  "np_ok H st \<longleftrightarrow>
     pow2_u64 (capacity st) \<and> unat (capacity st) < 2 ^ 32 \<and> length (hashtable st) = unat (capacity st) \<and>
     wf_probe 0 (np_home H (capacity st)) (slots st) \<and> (\<forall>kv \<in> set (hashtable st). kv_k kv = 0 \<longrightarrow> kv_v kv = 0)"

definition np_put :: "casht \<Rightarrow> nat \<Rightarrow> u64 \<Rightarrow> u64 \<Rightarrow> casht" where
  "np_put st p k v = st\<lparr>hashtable := (hashtable st)[p := \<lparr>kv_k = k, kv_v = v\<rparr>]\<rparr>"

lemma np_put_simps [simp]: "slots (np_put st p k v) = (slots st)[p := (k, v)]" "capacity (np_put st p k v) = capacity st"
  by (simp_all add: np_put_def dview_def map_update)

lemma counter_32:
  assumes "unat (cap :: u64) < 2 ^ 32"
  shows "ucast (i::u32) < cap \<longleftrightarrow> unat i < unat cap" and "unat i < unat cap \<Longrightarrow> unat (i + 1) = Suc (unat i)"
proof -
  show "ucast i < cap \<longleftrightarrow> unat i < unat cap" by (simp add: word_less_nat_alt unat_ucast_64)
  show "unat (i + 1) = Suc (unat i)" if "unat i < unat cap"
    using that assms by (simp add: unat_word_ariths)
qed

lemma insert_noprefetch_probe:
  assumes M: "kv_contract M" and p2: "pow2_u64 (capacity st)" and small: "unat (capacity st) < 2 ^ 32"
    and len: "length (hashtable st) = unat (capacity st)" and clean: "\<forall>kv \<in> set (hashtable st). kv_k kv = 0 \<longrightarrow> kv_v kv = 0"
    and k: "k \<noteq> 0" and "unat i \<le> unat (capacity st)" and "unat idx < unat (capacity st)"
  shows "insert_noprefetch_from M st k v idx i =
    Some (case probe 0 (slots st) k (unat idx) (unat (capacity st) - unat i) of
        Hit p \<Rightarrow> np_put st p k v | Free p \<Rightarrow> np_put st p k v | Exhausted \<Rightarrow> st)"
  using assms(7,8)
proof (induction "unat (capacity st) - unat i" arbitrary: i idx)
  case 0
  then show ?case by (subst insert_noprefetch_from.simps) (simp add: counter_32 [OF small])
next
  case (Suc n)
  let ?curr = "hashtable st ! unat idx" and ?idx = "(idx + 1) AND (capacity st - 1)"
  have i: "unat i < unat (capacity st)" using Suc.hyps(2) by simp
  note c = counter_32 [OF small] counter_32(2) [OF small i]
  have "n = unat (capacity st) - unat (i + 1)" "unat (i + 1) \<le> unat (capacity st)" using Suc.hyps(2) c(3) i by simp_all
  moreover have next_slot: "unat ?idx = Suc (unat idx) mod length (slots st)" using p2 len by (simp add: pow2_simps)
  moreover have "unat ?idx < unat (capacity st)" using pow2_pos [OF p2] p2 by (simp add: pow2_simps)
  ultimately have ih: "insert_noprefetch_from M st k v ?idx (i + 1) =
      Some (case probe 0 (slots st) k (Suc (unat idx) mod length (slots st)) n of
        Hit p \<Rightarrow> np_put st p k v | Free p \<Rightarrow> np_put st p k v | Exhausted \<Rightarrow> st)"
    using Suc.hyps(1) [of "i + 1" ?idx] by simp
  have p: "unat idx < length (hashtable st)" using Suc.prems(2) len by simp
  have e: "?curr = \<lparr>kv_k = 0, kv_v = 0\<rparr>" if "kv_k ?curr = 0"
    using clean p that by (intro dramblast_kv.equality) auto
  show ?case
    unfolding Suc.hyps(2) [symmetric]
    apply (subst insert_noprefetch_from.simps)
    using p i k ih e by (auto simp: c kv_contract_simps [OF M] np_put_def dram_kv_update Let_def)
qed

lemma find_noprefetch_probe:
  assumes M: "kv_contract M" and p2: "pow2_u64 (capacity st)" and small: "unat (capacity st) < 2 ^ 32"
    and len: "length (hashtable st) = unat (capacity st)" and k: "k \<noteq> 0" and "unat i \<le> unat (capacity st)"
  shows "find_noprefetch_from M st k idx i =
    Some (case probe 0 (slots st) k (unat idx mod unat (capacity st)) (unat (capacity st) - unat i) of
        Hit p \<Rightarrow> Some (hashtable st ! p) | Free p \<Rightarrow> None | Exhausted \<Rightarrow> None)"
  using assms(6)
proof (induction "unat (capacity st) - unat i" arbitrary: i idx)
  case 0
  then show ?case by (subst find_noprefetch_from.simps) (simp add: counter_32 [OF small])
next
  case (Suc n)
  let ?idx = "idx AND (capacity st - 1)"
  have i: "unat i < unat (capacity st)" using Suc.hyps(2) by simp
  note c = counter_32 [OF small] counter_32(2) [OF small i]
  have "n = unat (capacity st) - unat (i + 1)" "unat (i + 1) \<le> unat (capacity st)" using Suc.hyps(2) c(3) i by simp_all
  moreover have "unat (?idx + 1) mod unat (capacity st) = Suc (unat idx mod unat (capacity st)) mod length (slots st)"
    using p2 len by (simp add: pow2_simps)
  ultimately have ih: "find_noprefetch_from M st k (?idx + 1) (i + 1) =
      Some (case probe 0 (slots st) k (Suc (unat idx mod unat (capacity st)) mod length (slots st)) n of
        Hit p \<Rightarrow> Some (hashtable st ! p) | Free p \<Rightarrow> None | Exhausted \<Rightarrow> None)"
    using Suc.hyps(1) [of "i + 1" "?idx + 1"] by simp
  have p: "unat idx mod unat (capacity st) < length (hashtable st)" using pow2_pos [OF p2] len by simp
  show ?case
    unfolding Suc.hyps(2) [symmetric]
    apply (subst find_noprefetch_from.simps)
    using p i k ih p2 by (auto simp: c kv_contract_simps [OF M] Let_def pow2_simps)
qed

text \<open>
  An insertion binds the key, or leaves a table that is full and does not have it as it was; a
  lookup returns the slot of the key.
\<close>

lemma np_ok_put:
  assumes "np_ok H st" and "wf_probe 0 (np_home H (capacity st)) ((slots st)[p := (k, v)])" and "k \<noteq> 0"
  shows "np_ok H (np_put st p k v)"
proof -
  have "\<forall>kv \<in> set (hashtable (np_put st p k v)). kv_k kv = 0 \<longrightarrow> kv_v kv = 0"
    using assms(1,3) by (auto simp: np_ok_def np_put_def dest!: subsetD [OF set_update_subset_insert])
  moreover have "length (hashtable (np_put st p k v)) = length (hashtable st)" by (simp add: np_put_def)
  ultimately show ?thesis using assms(1,2) by (simp add: np_ok_def)
qed

lemma casht_insert_noprefetch:
  assumes M: "kv_contract M" and ok: "np_ok (kv_hash M) st" and k: "k \<noteq> 0"
  shows "\<exists>st'. insert_noprefetch M st k v = Some st' \<and> np_ok (kv_hash M) st' \<and>
    (casht_map st' = (casht_map st)(k \<mapsto> v) \<or> st' = st \<and> casht_map st k = None \<and> \<not> has_room st)"
proof -
  have c: "pow2_u64 (capacity st)" "unat (capacity st) < 2 ^ 32" "length (hashtable st) = unat (capacity st)"
    "wf_probe 0 (np_home (kv_hash M) (capacity st)) (slots st)" "\<forall>kv \<in> set (hashtable st). kv_k kv = 0 \<longrightarrow> kv_v kv = 0"
    using ok by (simp_all add: np_ok_def)
  let ?home = "np_home (kv_hash M) (capacity st)"
  have ins: "insert_noprefetch M st k v = Some (case probe 0 (slots st) k (?home k) (length (slots st)) of
      Hit p \<Rightarrow> np_put st p k v | Free p \<Rightarrow> np_put st p k v | Exhausted \<Rightarrow> st)"
    using insert_noprefetch_probe [OF M c(1-3,5) k, of 0 "kv_hash M k AND (capacity st - 1)" v] pow2_pos [OF c(1)] c(1,3)
    by (simp add: insert_noprefetch_def np_home_def pow2_simps)
  have m: "casht_map st' = tab_map 0 (slots st')" for st' by (simp add: casht_map_def dram_map_def)
  from c(4) k show ?thesis
  proof (cases rule: probe_home_cases)
    case (Hit p)
    then show ?thesis
      using ins np_ok_put [OF ok wf_probe_update [OF c(4) Hit(2,3)] k] tab_map_update [OF c(4) Hit(2,3) k] by (simp add: m)
  next
    case (Free p)
    note room = probe_Free_room [OF c(4) k Free(1)]
    show ?thesis
      using ins Free np_ok_put [OF ok wf_probe_store [OF c(4) room] k] tab_map_store [OF c(4) room] by (simp add: m)
  next
    case Exhausted
    then have "\<not> has_room st" by (auto simp: has_room_def in_set_conv_nth occupied_def)
    then show ?thesis using ins Exhausted ok by (simp add: m)
  qed
qed

lemma casht_find_noprefetch:
  assumes M: "kv_contract M" and ok: "np_ok (kv_hash M) st" and k: "k \<noteq> 0"
  shows "find_noprefetch M st k = Some (map_option (\<lambda>v. \<lparr>kv_k = k, kv_v = v\<rparr>) (casht_map st k))"
proof -
  have c: "pow2_u64 (capacity st)" "unat (capacity st) < 2 ^ 32" "length (hashtable st) = unat (capacity st)"
    "wf_probe 0 (np_home (kv_hash M) (capacity st)) (slots st)" using ok by (simp_all add: np_ok_def)
  let ?home = "np_home (kv_hash M) (capacity st)"
  have fd: "find_noprefetch M st k = Some (case probe 0 (slots st) k (?home k) (length (slots st)) of
      Hit p \<Rightarrow> Some (hashtable st ! p) | Free p \<Rightarrow> None | Exhausted \<Rightarrow> None)"
    using find_noprefetch_probe [OF M c(1-3) k, of 0 "kv_hash M k"] c(3) by (simp add: find_noprefetch_def np_home_def)
  from c(4) k show ?thesis
  proof (cases rule: probe_home_cases)
    case (Hit p)
    then have "hashtable st ! p = \<lparr>kv_k = k, kv_v = kv_v (hashtable st ! p)\<rparr>" by (cases "hashtable st ! p") simp
    then show ?thesis using fd Hit by (simp add: casht_map_def dram_map_def)
  qed (use fd in \<open>simp_all add: casht_map_def dram_map_def\<close>)
qed

text \<open>
  The batches probe from the start of a bucket: a key that a batch stored before the slot of its
  hash is not found without the queues.
\<close>

lemma find_noprefetch_misses:
  "\<exists>st. insert_one sample_methods sample_casht \<lparr>q_key = 2, q_value = 20, q_idx = 0, q_key_id = 1\<rparr> = Some (0, st) \<and>
    casht_map st 2 = Some 20 \<and> find_noprefetch sample_methods st 2 = Some None"
proof -
  let ?q = "\<lparr>q_key = 2, q_value = 20, q_idx = 0, q_key_id = 1\<rparr> :: kvq" and ?st = "put sample_casht 0 \<lparr>q_key = 2, q_value = 20, q_idx = 0, q_key_id = 1\<rparr>"
  have ok: "casht_ok (\<lambda>k. k) sample_casht" by (rule sample_casht_ok)
  have cap: "capacity sample_casht = 8" and T: "slots sample_casht = replicate 8 (0, 0)" by (simp_all add: sample_casht_def as_dram_def dview_def)
  have "home_of (\<lambda>k. k) sample_casht 2 = 0" unfolding cap dhome_eq [OF pow2_u64_8] by simp
  then have q: "kvq_at (\<lambda>k. k) sample_casht ?q 0" by (simp add: kvq_at_def cap)
  have "bucket_place (slots sample_casht) 2 0 = Some 0" unfolding T by (simp add: bucket_place_def upt_4)
  then have one: "insert_one sample_methods sample_casht ?q = Some (0, ?st)"
    and map: "casht_map ?st = (casht_map sample_casht)(2 \<mapsto> 20)"
    using insert_branched_bucket [OF ok q, of sample_methods] put_place(2) [OF ok q, of 0] by (simp_all add: insert_one_def)
  have "find_noprefetch sample_methods ?st 2 = Some None"
    unfolding find_noprefetch_def by (subst find_noprefetch_from.simps) (simp add: sample_methods_def sample_casht_def put_def rd_def)
  then show ?thesis using one map by (intro exI [of _ ?st]) simp
qed

section \<open>The whole table\<close>

lemma casht_clear_empty:
  assumes "pow2_u64 (capacity st)" and "4 \<le> unat (capacity st)"
  shows "casht_ok H (casht_clear st)" and "casht_map (casht_clear st) = Map.empty"
proof -
  have e: "as_dram (casht_clear st) = fresh_ht (capacity st) []" by (simp add: as_dram_def fresh_ht_def casht_clear_def)
  show "casht_ok H (casht_clear st)" using fresh_ht_inv(1) [OF assms(1)] assms(2) by (simp add: casht_ok_def e) (simp add: casht_clear_def)
  show "casht_map (casht_clear st) = Map.empty" using fresh_ht_inv(2) [OF assms(1)] by (simp add: casht_map_def e)
qed

lemma casht_get_fill:
  assumes "kv_contract M" and "casht_ok H st"
  shows "get_fill M st = card (dom (casht_map st))"
proof -
  have "get_fill M st = card {p. p < length (slots st) \<and> occupied 0 (slots st) p}"
    unfolding get_fill_def length_filter_conv_card
    by (rule arg_cong [of _ _ card]) (auto simp: kv_contract_simps [OF assms(1)] occupied_def)
  then show ?thesis using card_dom_tab_map [OF casht_facts(4) [OF assms(2)]] by (simp add: casht_map_def dram_map_def)
qed

lemma casht_get_max_count:
  "(\<forall>kv \<in> set (hashtable st). kv_get_value M kv \<le> get_max_count M st) \<and>
   (get_max_count M st = 0 \<or> (\<exists>kv \<in> set (hashtable st). get_max_count M st = kv_get_value M kv))"
proof -
  let ?f = "\<lambda>kv n. if kv_get_value M kv > n then kv_get_value M kv else n"
  have "n \<le> fold ?f T n \<and> (\<forall>kv \<in> set T. kv_get_value M kv \<le> fold ?f T n) \<and>
      (fold ?f T n = n \<or> (\<exists>kv \<in> set T. fold ?f T n = kv_get_value M kv))" for T n
  proof (induction T arbitrary: n)
    case (Cons kv T)
    show ?case using Cons.IH [of "?f kv n"] by (auto split: if_splits intro: order_trans)
  qed simp
  then show ?thesis unfolding get_max_count_def by blast
qed

section \<open>Without vector instructions\<close>

lemma find_branched_step:
  assumes M: "kv_contract M" and ok: "casht_ok H st" and q: "kvq_at H st q m" and j: "j < 4"
  shows "find_branched_from M st q (q_idx q + of_nat j) vp =
    (let kv = slots st ! (unat (q_idx q) + j) in
     if fst kv = q_key q then map_option (\<lambda>vp'. (0, st, vp')) (vp_put vp (q_key_id q) (snd kv))
     else if fst kv = 0 then Some (0, st, vp)
     else if j < 3 then find_branched_from M st q (q_idx q + of_nat (Suc j)) vp
     else map_option (\<lambda>st'. (1, st', vp)) (find_again st q (next_idx (capacity st) (q_idx q))))"
proof -
  note f = casht_facts [OF ok]
  have at: "q_key q \<noteq> 0" "4 dvd m" "m < unat (capacity st)"
    and idx: "unat (q_idx q) = (home_of H st (q_key q) + m) mod unat (capacity st)"
    and ps: "passed 0 (home_of H st) (slots st) (q_key q) m" using q by (simp_all add: kvq_at_def)
  note b = bucket_decides(1,2) [OF ok at ps, folded idx]
  let ?b = "unat (q_idx q)" and ?i = "q_idx q + of_nat j" and ?n = "unat (capacity st)"
  have cap: "?b + 4 \<le> ?n" using b(2) f(2) by simp
  have small: "?n < 2 ^ LENGTH(64)" by (rule unsigned_less)
  have off: "unat (q_idx q + of_nat i) = ?b + i" if "i < 4" for i
    using that cap small by (simp add: unat_word_ariths unat_of_nat)
  have p: "?b + j < length (hashtable st)" using j b(2) by simp
  let ?next = "(?i + 1) AND (capacity st - 1)"
  have next_val: "unat ?next = (?b + Suc j) mod ?n" using off [OF j] f(1) by (simp add: pow2_simps)
  have three: "unat (x AND 3) = unat x mod 4" for x :: u64 using and_mask_two_power [of x 2] by simp
  have inside: "?next = q_idx q + of_nat (Suc j) \<and> ?next AND 3 \<noteq> 0" if "j < 3"
  proof -
    have u: "unat ?next = ?b + Suc j" using next_val cap that by simp
    moreover have "unat (?next AND 3) = Suc j" unfolding three u using b(1) that by (auto simp: dvd_def)
    ultimately show ?thesis using off [of "Suc j"] that by (auto simp: word_unat_eq_iff simp del: of_nat_Suc)
  qed
  have last: "?next = next_idx (capacity st) (q_idx q) \<and> ?next AND 3 = 0" if "\<not> j < 3"
  proof -
    have "j = 3" using that j by simp
    then have "unat ?next = (?b + 4) mod ?n" using next_val by simp
    moreover have "4 dvd (?b + 4) mod ?n" using b(1) f(5) by (simp add: dvd_mod)
    ultimately show ?thesis
      using unat_next_idx [OF f(1) cap] three [of ?next] by (simp add: word_unat_eq_iff dvd_eq_mod_eq_0)
  qed
  show ?thesis
    apply (subst find_branched_from.simps)
    using p off [OF j] inside last
    by (auto simp: kv_contract_simps [OF M] KEYS_IN_CACHELINE_MASK_def Let_def map_conv_bind_option comp_def split: Option.bind_split)
qed

text \<open>A key is not stored behind an empty slot of a bucket that its probes come to.\<close>

lemma no_key_behind_empty:
  assumes ok: "casht_ok H st" and q: "kvq_at H st q m" and ij: "i < j" "j < 4" and e: "fst (slots st ! (unat (q_idx q) + i)) = 0"
  shows "fst (slots st ! (unat (q_idx q) + j)) \<noteq> q_key q"
proof
  assume hit: "fst (slots st ! (unat (q_idx q) + j)) = q_key q"
  note f = casht_facts [OF ok]
  let ?n = "unat (capacity st)" and ?home = "home_of H st (q_key q)"
  have at: "q_key q \<noteq> 0" "4 dvd m" "m < ?n" and idx: "unat (q_idx q) = (?home + m) mod ?n"
    using q by (simp_all add: kvq_at_def)
  have slot: "unat (q_idx q) + l = (?home + (m + l)) mod ?n" if "l < 4" for l
    unfolding idx by (rule bucket_slot [OF f(5) f(7) at(2) that]) (use at(3) in simp)
  have len: "length (slots st) = ?n" using f(2) by simp
  have mj: "m + j < ?n" using four_step [OF at(2) f(5) at(3)] ij(2) by simp
  have "(?home + (m + j)) mod ?n < length (slots st)" using at(3) len by simp
  from wf_probe_reach [OF f(3) this _ at(1)] hit slot [OF ij(2)] obtain l where
    l: "l < length (slots st)" "(?home + (m + j)) mod ?n = (?home + l) mod length (slots st)"
      "\<forall>i<l. occupied 0 (slots st) ((?home + i) mod length (slots st))" by metis
  have "l = m + j"
    using slot_dist_unique [OF f(6) [of "q_key q"] mj] slot_dist_unique [OF f(6) [of "q_key q"], of l] l(1,2) len by metis
  then show False using l(3) ij e slot [of i] len by (auto simp: occupied_def)
qed

text \<open>The lookup slot by slot is the lookup with one comparison of the bucket.\<close>

lemma find_branched_simd:
  assumes M: "kv_contract M" "find_simd_contract M" and ok: "casht_ok H st" and q: "kvq_at H st q m"
  shows "find_branched M st q vp = find_simd M st q vp"
proof -
  note step = find_branched_step [OF M(1) ok q, of _ vp]
  have s: "find_branched_from M st q (q_idx q) vp = find_branched_from M st q (q_idx q + of_nat 0) vp" by simp
  note behind = no_key_behind_empty [OF ok q]
  show ?thesis
    unfolding find_branched_def find_simd_bucket [OF M(2) ok q] s
    using step [of 0] step [of 1] step [of 2] step [of 3] behind [of 0 1] behind [of 0 2] behind [of 0 3]
      behind [of 1 2] behind [of 1 3] behind [of 2 3]
    by (simp add: bucket_hit_def bucket_has_empty_def upt_4 Let_def numeral_2_eq_2 numeral_3_eq_3 del: of_nat_Suc of_nat_0) 
qed

section \<open>Queues below a threshold\<close>

text \<open>One turn of the loops of \<open>flush_if_needed\<close>: the item at the tail is tried once.\<close>

lemma find_turn:
  assumes M: "find_simd_contract M" and ok: "finds_ok H st r" and items: "ring_items r = q # qs"
    and room: "vp_first vp < length (vp_second vp)"
  obtains rt r' js where "find_one M (st\<lparr>find_ring := r\<rparr>) q vp = Some (rt, st\<lparr>find_ring := r'\<rparr>, delivered vp (List.map_filter (reply (casht_map st)) js))"
    and "finds_ok H st (ring_advance r')" and "find_queue_size r' = find_queue_size r"
    and "mset (List.map request (ring_items r)) = mset js + mset (List.map request (ring_items (ring_advance r')))"
    and "sum_list (List.map (kvq_rank H st) (ring_items (ring_advance r'))) < sum_list (List.map (kvq_rank H st) (ring_items r))"
    and "length js \<le> 1"
proof -
  have c: "casht_ok H st" "has_room st" "ring_ok r" "\<forall>q \<in> set (ring_items r). kvq_known H st q" using ok by (simp_all add: finds_ok_def)
  then obtain m where q: "kvq_at H st q m" using items by (auto simp: kvq_known_def)
  note adv = ring_tail_items [OF c(3) items]
  have ok': "casht_ok H (st\<lparr>find_ring := r\<rparr>)" and same: "slots (st\<lparr>find_ring := r\<rparr>) = slots st" and q': "kvq_at H (st\<lparr>find_ring := r\<rparr>) q m"
    using c(1) q by (simp_all add: casht_ok_def as_dram_def kvq_at_def)
  let ?b = "unat (q_idx q)" and ?T = "slots st"
  have at: "q_key q \<noteq> 0" "4 dvd m" "m < unat (capacity st)"
    and idx: "?b = (home_of H st (q_key q) + m) mod unat (capacity st)"
    and ps: "passed 0 (home_of H st) ?T (q_key q) m" using q by (simp_all add: kvq_at_def)
  note b = bucket_decides [OF c(1) at ps, folded idx]
  have one: "find_one M (st\<lparr>find_ring := r\<rparr>) q vp = (case bucket_hit ?T (q_key q) ?b of
       Some v \<Rightarrow> map_option (\<lambda>vp'. (0, st\<lparr>find_ring := r\<rparr>, vp')) (vp_put vp (q_key_id q) v)
     | None \<Rightarrow>
         if bucket_has_empty ?T ?b then Some (0, st\<lparr>find_ring := r\<rparr>, vp)
         else map_option (\<lambda>st'. (1, st', vp)) (find_again (st\<lparr>find_ring := r\<rparr>) q (next_idx (capacity st) (q_idx q))))"
    unfolding find_one_bucket [OF at(1)] using find_simd_bucket [OF M ok' q', unfolded same] by (simp split: option.split)
  show thesis
  proof (cases "bucket_hit ?T (q_key q) ?b = None \<and> \<not> bucket_has_empty ?T ?b")
    case False
    have "reply (casht_map st) (request q) = map_option (\<lambda>v. \<lparr>fr_id = q_key_id q, fr_value = v\<rparr>) (bucket_hit ?T (q_key q) ?b)"
      using False b(3,4) by (cases "bucket_hit ?T (q_key q) ?b") (auto simp: reply_def request_def)
    then have "find_one M (st\<lparr>find_ring := r\<rparr>) q vp =
        Some (0, st\<lparr>find_ring := r\<rparr>, delivered vp (List.map_filter (reply (casht_map st)) [request q]))"
      unfolding one map_filter_single using False deliver_delivered [OF room, of "reply (casht_map st) (request q)"]
      by (auto simp: deliver_def delivered_Nil split: option.splits)
    moreover have "0 < kvq_rank H st q" using kvq_rank_at [OF c(1) q] at(3) by simp
    ultimately show thesis
      using that [of 0 r "[request q]"] adv items ok by (simp add: finds_ok_def del: map_filter_simps)
  next
    case True
    let ?f = "again q (next_idx (capacity st) (q_idx q))"
    have "Suc (length (ring_items (ring_advance r))) < unat (find_queue_size (ring_advance r))"
      using ring_len_less [OF c(3)] items adv(3,4) length_ring_items [of r] by simp
    then obtain r2 q2 where r2: "ring_put (ring_advance r) ?f = Some r2" "q2 = ?f (find_queue (ring_advance r) ! unat (find_queue_head (ring_advance r)))"
      "ring_ok r2" "ring_items r2 = qs @ [q2]" "find_queue_size r2 = find_queue_size r"
      using ring_put_items [OF adv(2), of ?f] adv(3,4) by metis
    obtain r' where r': "ring_put r ?f = Some r'" "r2 = ring_advance r'" using r2(1) by (auto simp: ring_put_advance)
    have size: "find_queue_size r' = find_queue_size r" using r2(5) r'(2) by (simp add: ring_advance_def)
    have q2: "q_key q2 = q_key q" "q_idx q2 = next_idx (capacity st) (q_idx q)" "request q2 = request q"
      using r2(2) by (simp_all add: again_def request_def)
    have at2: "kvq_at H st q2 (m + 4)" by (rule kvq_next [OF c(1,2) q _ _ q2(1,2)]) (use True in simp_all)
    have "kvq_rank H st q2 < kvq_rank H st q"
      unfolding kvq_rank_at [OF c(1) at2] kvq_rank_at [OF c(1) q] using at(3) by simp
    moreover have "\<forall>q \<in> set (ring_items r2). kvq_known H st q" using c(4) items r2(4) at2 by (auto simp: kvq_known_def)
    moreover have "find_one M (st\<lparr>find_ring := r\<rparr>) q vp = Some (1, st\<lparr>find_ring := r'\<rparr>, delivered vp (List.map_filter (reply (casht_map st)) []))"
      unfolding one using True r'(1) by (simp add: find_again_def again_eq delivered_Nil map_filter_simps)
    ultimately show thesis
      using that [of 1 r' "[]"] r2(3-5) r'(2) size ok items q2(3) by (simp add: finds_ok_def)
  qed
qed

lemma flush_find_spec:
  assumes M: "find_simd_contract M" and "finds_ok H st r" and len: "batch_len \<le> length (vp_second vp)"
  shows "\<exists>js r'. flush_find_if_needed M T batch_len (st\<lparr>find_ring := r\<rparr>) vp =
      Some (st\<lparr>find_ring := r'\<rparr>, delivered vp (List.map_filter (reply (casht_map st)) js)) \<and>
    finds_ok H st r' \<and> find_queue_size r' = find_queue_size r \<and>
    mset (List.map request (ring_items r)) = mset js + mset (List.map request (ring_items r')) \<and>
    (length (ring_items r') \<le> unat T \<or> batch_len \<le> vp_first vp + length (List.map_filter (reply (casht_map st)) js))"
  using assms(2,3)
proof (induction "sum_list (List.map (kvq_rank H st) (ring_items r))" arbitrary: r vp rule: less_induct)
  case less
  have rok: "ring_ok r" using less.prems(1) by (simp add: finds_ok_def)
  have more: "ring_sz r > T \<longleftrightarrow> unat T < length (ring_items r)" using ring_sz_items [OF rok] by (simp add: word_less_nat_alt)
  show ?case
  proof (cases "unat T < length (ring_items r) \<and> vp_first vp < batch_len")
    case False
    then show ?thesis
      using less.prems more by (subst flush_find_if_needed.simps) (intro exI [of _ "[]"] exI [of _ r], auto simp: delivered_Nil map_filter_simps)
  next
    case True
    then obtain q qs where items: "ring_items r = q # qs" by (cases "ring_items r") auto
    have room: "vp_first vp < length (vp_second vp)" using True less.prems(2) by simp
    from find_turn [OF M less.prems(1) items room] obtain rt r1 js where t:
      "find_one M (st\<lparr>find_ring := r\<rparr>) q vp = Some (rt, st\<lparr>find_ring := r1\<rparr>, delivered vp (List.map_filter (reply (casht_map st)) js))"
      "finds_ok H st (ring_advance r1)" "find_queue_size r1 = find_queue_size r"
      "mset (List.map request (ring_items r)) = mset js + mset (List.map request (ring_items (ring_advance r1)))"
      "sum_list (List.map (kvq_rank H st) (ring_items (ring_advance r1))) < sum_list (List.map (kvq_rank H st) (ring_items r))" "length js \<le> 1" by metis
    let ?f = "List.map_filter (reply (casht_map st))"
    have l: "length (?f js) \<le> length js" by (simp add: List.map_filter_def)
    have v: "vp_first vp + length (?f js) \<le> length (vp_second vp)" using room t(6) l by simp
    then have "batch_len \<le> length (vp_second (delivered vp (?f js)))" using less.prems(2) by simp
    from less.hyps [OF t(5,2) this] obtain js' r' where rest:
      "flush_find_if_needed M T batch_len (st\<lparr>find_ring := ring_advance r1\<rparr>) (delivered vp (?f js)) =
         Some (st\<lparr>find_ring := r'\<rparr>, delivered (delivered vp (?f js)) (?f js'))"
      "finds_ok H st r'" "find_queue_size r' = find_queue_size (ring_advance r1)"
      "mset (List.map request (ring_items (ring_advance r1))) = mset js' + mset (List.map request (ring_items r'))"
      "length (ring_items r') \<le> unat T \<or> batch_len \<le> vp_first (delivered vp (?f js)) + length (?f js')" by metis
    have app: "?f (js @ js') = ?f js @ ?f js'" by (simp add: List.map_filter_def)
    have "flush_find_if_needed M T batch_len (st\<lparr>find_ring := r\<rparr>) vp = Some (st\<lparr>find_ring := r'\<rparr>, delivered vp (?f (js @ js')))"
      unfolding app using True more ring_tail_items(1) [OF rok items] t(1) rest(1) delivered_append [OF v]
      by (subst flush_find_if_needed.simps) simp
    moreover have "length (ring_items r') \<le> unat T \<or> batch_len \<le> vp_first vp + length (?f (js @ js'))"
      unfolding app using rest(5) by auto
    moreover have "find_queue_size r' = find_queue_size r" using rest(3) t(3) by (simp add: ring_advance_def)
    ultimately show ?thesis using rest(2,4) t(4) by (intro exI [of _ "js @ js'"] exI [of _ r']) simp
  qed
qed

lemma add_finds:
  assumes "finds_ok (kv_hash M) st r" and "length (ring_items r) + length kp < unat (find_queue_size r)" and "\<forall>a \<in> set kp. ia_key a \<noteq> 0"
  obtains r' where "add_all (add_to_find_queue M) (st\<lparr>find_ring := r\<rparr>) kp = Some (st\<lparr>find_ring := r'\<rparr>)"
    and "finds_ok (kv_hash M) st r'" and "find_queue_size r' = find_queue_size r"
    and "List.map request (ring_items r') = List.map request (ring_items r) @ List.map arg_request kp"
  using assms
proof (induction kp arbitrary: r thesis)
  case (Cons a kp)
  have "Suc (length (ring_items r)) < unat (find_queue_size r)" "ia_key a \<noteq> 0" using Cons.prems(3,4) by simp_all
  from add_known [OF Cons.prems(2) this] obtain r1 where a: "add_to_find_queue M (st\<lparr>find_ring := r\<rparr>) a = Some (st\<lparr>find_ring := r1\<rparr>)"
    "finds_ok (kv_hash M) st r1" "find_queue_size r1 = find_queue_size r"
    "List.map request (ring_items r1) = List.map request (ring_items r) @ [arg_request a]" by metis
  have "length (ring_items r1) = Suc (length (ring_items r))" using arg_cong [OF a(4), of length] by simp
  then have "length (ring_items r1) + length kp < unat (find_queue_size r1)" using Cons.prems(3) a(3) by simp
  from Cons.IH [OF _ a(2) this] Cons.prems(4) obtain r' where
    "add_all (add_to_find_queue M) (st\<lparr>find_ring := r1\<rparr>) kp = Some (st\<lparr>find_ring := r'\<rparr>)"
    "finds_ok (kv_hash M) st r'" "find_queue_size r' = find_queue_size r1"
    "List.map request (ring_items r') = List.map request (ring_items r1) @ List.map arg_request kp" by auto
  then show ?case using Cons.prems(1) a by simp
qed simp

text \<open>A batch into an empty queue that is long enough, and a flush.\<close>

lemma find_flush_2023:
  assumes M: "find_simd_contract M" and ok: "finds_ok (kv_hash M) st (find_ring st)" and empty: "ring_items (find_ring st) = []"
    and k: "\<forall>a \<in> set kp. ia_key a \<noteq> 0" and z: "vp_first vp = 0" and len: "length kp \<le> batch_len" "batch_len \<le> length (vp_second vp)"
    and fits: "length kp < unat (find_queue_size (find_ring st))"
  shows "\<exists>st1 vp1 st2 vp2. find_batch_2023 M T batch_len st kp vp = Some (st1, vp1) \<and>
    flush_find_queue M batch_len st1 vp1 = Some (0, st2, vp2) \<and> hashtable st2 = hashtable st \<and>
    mset (take (vp_first vp2) (vp_second vp2)) = mset (List.map_filter (reply (casht_map st)) (List.map arg_request kp))"
proof -
  have rok: "ring_ok (find_ring st)" using ok by (simp add: finds_ok_def)
  have "flush_find_if_needed M T batch_len st vp = Some (st, vp)"
    using ring_sz_items [OF rok] empty by (subst flush_find_if_needed.simps) (simp add: word_less_nat_alt del: length_ring_items)
  moreover obtain r1 where a: "add_all (add_to_find_queue M) (st\<lparr>find_ring := find_ring st\<rparr>) kp = Some (st\<lparr>find_ring := r1\<rparr>)"
    "finds_ok (kv_hash M) st r1" "List.map request (ring_items r1) = List.map request (ring_items (find_ring st)) @ List.map arg_request kp"
    using add_finds [OF ok _ k] fits empty by (metis add_0 list.size(3))
  moreover obtain js r2 where f: "flush_find_if_needed M T batch_len (st\<lparr>find_ring := r1\<rparr>) vp =
      Some (st\<lparr>find_ring := r2\<rparr>, delivered vp (List.map_filter (reply (casht_map st)) js))" "finds_ok (kv_hash M) st r2"
    "mset (List.map request (ring_items r1)) = mset js + mset (List.map request (ring_items r2))"
    using flush_find_spec [OF M a(2) len(2)] by blast
  ultimately have b: "find_batch_2023 M T batch_len st kp vp = Some (st\<lparr>find_ring := r2\<rparr>, delivered vp (List.map_filter (reply (casht_map st)) js))"
    by (simp add: find_batch_2023_def)
  have "mset (List.map arg_request kp) = mset js + mset (List.map request (ring_items r2))" using f(3) empty unfolding a(3) by simp
  from flush_rest [OF M f(2) this z _ len(1)] len show ?thesis using b by (simp del: mset_map)
qed

text \<open>The same for insertions.\<close>

definition insert_work :: "(u64 \<Rightarrow> u64) \<Rightarrow> casht \<Rightarrow> nat" where
  "insert_work H st = sum_list (List.map (kvq_rank H st) (ring_items (insert_ring st)))"

lemma insert_turn:
  assumes ok: "inserts_ok H st n" and items: "ring_items (insert_ring st) = q # qs"
  obtains rt st1 st' js where "insert_one M st q = Some (rt, st1)" and "st' = st1\<lparr>insert_ring := ring_advance (insert_ring st1)\<rparr>"
    and "inserts_ok H st' n" and "casht_map st' = stores js (casht_map st)" and "capacity st' = capacity st" and "find_ring st' = find_ring st"
    and "find_queue_size (insert_ring st') = find_queue_size (insert_ring st)"
    and "mset (List.map store_request (ring_items (insert_ring st))) = mset js + mset (List.map store_request (ring_items (insert_ring st')))"
    and "insert_work H st' < insert_work H st"
proof -
  let ?r = "insert_ring st"
  have c: "casht_ok H st" "ring_ok ?r" "\<forall>q \<in> set (ring_items ?r). kvq_known H st q" and sz: "2 \<le> unat (find_queue_size ?r)"
    and card: "card (dom (casht_map st)) + length (ring_items ?r) + n < unat (capacity st)"
    using ok by (simp_all add: inserts_ok_def)
  have room: "has_room st" using card by (intro card_has_room [OF c(1)]) simp
  obtain m where q: "kvq_at H st q m" using c(3) items by (auto simp: kvq_known_def)
  have k: "q_key q \<noteq> 0" and m: "m < unat (capacity st)" using q by (simp_all add: kvq_at_def)
  note adv = ring_tail_items [OF c(2) items]
  have one: "insert_one M st q = (case bucket_place (slots st) (q_key q) (unat (q_idx q)) of
       Some p \<Rightarrow> Some (0, put st p q)
     | None \<Rightarrow> map_option (Pair 1) (insert_again st q (next_idx (capacity st) (q_idx q))))"
    using k insert_branched_bucket [OF c(1) q] by (simp add: insert_one_def)
  show thesis
  proof (cases "bucket_place (slots st) (q_key q) (unat (q_idx q))")
    case (Some p)
    note pl = put_place [OF c(1) q Some]
    let ?st = "(put st p q)\<lparr>insert_ring := ring_advance ?r\<rparr>"
    have same: "as_dram ?st = as_dram (put st p q)" by (simp add: as_dram_def)
    have "\<forall>q \<in> set qs. kvq_known H ?st q"
      using c(3) items kvq_known_grows [OF _ pl(3) _ c(1)] by (simp add: kvq_known_def kvq_at_def same)
    moreover have "card (dom (casht_map (put st p q))) \<le> Suc (card (dom (casht_map st)))"
      unfolding pl(2) by (simp add: card_insert_le_m1 card_insert_if)
    ultimately have "inserts_ok H ?st n"
      using pl(1) adv sz card items by (simp add: inserts_ok_def casht_ok_def casht_map_def same del: length_ring_items)
    moreover have "kvq_rank H ?st = kvq_rank H st" by (simp add: kvq_rank_def fun_eq_iff)
    moreover have "0 < kvq_rank H st q" using kvq_rank_at [OF c(1) q] m by simp
    ultimately show thesis
      using one Some adv(3,4) items pl(2)
      by (intro that [of 0 "put st p q" ?st "[store_request q]"])
        (simp_all add: casht_map_def same store_request_def insert_work_def)
  next
    case None
    have "Suc (length (ring_items (ring_advance ?r))) < unat (find_queue_size (ring_advance ?r))"
      using ring_len_less [OF c(2)] items adv(3,4) length_ring_items [of ?r] by simp
    from insert_again_ring [OF adv(2) this, of st q "next_idx (capacity st) (q_idx q)"] adv(3,4) obtain r2 q2 where
      again: "insert_again (st\<lparr>insert_ring := ring_advance ?r\<rparr>) q (next_idx (capacity st) (q_idx q)) = Some (st\<lparr>insert_ring := r2\<rparr>)"
      and r2: "ring_ok r2" "ring_items r2 = qs @ [q2]" "find_queue_size r2 = find_queue_size ?r"
        "store_request q2 = store_request q" "q_key q2 = q_key q" "q_idx q2 = next_idx (capacity st) (q_idx q)" by metis
    define r' where "r' = push_ring ?r ((find_queue ?r ! unat (find_queue_head ?r))
      \<lparr>q_key := q_key q, q_key_id := q_key_id q, q_value := q_value q, q_idx := next_idx (capacity st) (q_idx q)\<rparr>)"
    have r': "insert_again st q (next_idx (capacity st) (q_idx q)) = Some (st\<lparr>insert_ring := r'\<rparr>)"
      and "Some (st\<lparr>insert_ring := ring_advance r'\<rparr>) = Some (st\<lparr>insert_ring := r2\<rparr>)"
      using again ring_put_push [OF c(2)] by (simp_all add: insert_again_def ring_put_advance r'_def)
    from arg_cong [OF this(2), of "\<lambda>x. insert_ring (the x)"] have r2': "r2 = ring_advance r'" by simp
    have none: "bucket_hit (slots st) (q_key q) (unat (q_idx q)) = None" "\<not> bucket_has_empty (slots st) (unat (q_idx q))"
      using None by (auto simp: bucket_place_def bucket_hit_def bucket_has_empty_def find_None_iff split: option.splits)
    have at2: "kvq_at H st q2 (m + 4)" by (rule kvq_next [OF c(1) room q none r2(5,6)])
    have less: "kvq_rank H st q2 < kvq_rank H st q"
      unfolding kvq_rank_at [OF c(1) at2] kvq_rank_at [OF c(1) q] using m by linarith
    let ?st = "st\<lparr>insert_ring := r2\<rparr>"
    have same: "as_dram ?st = as_dram st" and rank: "kvq_rank H ?st = kvq_rank H st" by (simp_all add: as_dram_def kvq_rank_def fun_eq_iff)
    have "kvq_known H st q2" using at2 by (auto simp: kvq_known_def)
    then have "\<forall>q \<in> set (ring_items r2). kvq_known H st q" using c(3) items r2(2) by auto
    moreover have "kvq_known H ?st = kvq_known H st" by (simp add: kvq_known_def kvq_at_def same fun_eq_iff)
    ultimately have "inserts_ok H ?st n"
      using c(1) r2(1-3) sz card items by (simp add: inserts_ok_def casht_ok_def casht_map_def same del: length_ring_items)
    then show thesis
      using one None r' r2' r2(2-4) items less
      by (intro that [of 1 "st\<lparr>insert_ring := r'\<rparr>" ?st "[]"]) (simp_all add: casht_map_def same [unfolded r2'] insert_work_def rank [unfolded r2'])
  qed
qed

lemma flush_insert_spec:
  assumes "inserts_ok H st n"
  shows "\<exists>js st'. flush_insert_if_needed M T st = Some st' \<and> inserts_ok H st' n \<and> casht_map st' = stores js (casht_map st) \<and>
    capacity st' = capacity st \<and> find_ring st' = find_ring st \<and>
    find_queue_size (insert_ring st') = find_queue_size (insert_ring st) \<and>
    mset (List.map store_request (ring_items (insert_ring st))) = mset js + mset (List.map store_request (ring_items (insert_ring st'))) \<and>
    length (ring_items (insert_ring st')) \<le> unat T"
  using assms
proof (induction "insert_work H st" arbitrary: st rule: less_induct)
  case less
  have rok: "ring_ok (insert_ring st)" using less.prems by (simp add: inserts_ok_def)
  have more: "ring_sz (insert_ring st) > T \<longleftrightarrow> unat T < length (ring_items (insert_ring st))"
    using ring_sz_items [OF rok] by (simp add: word_less_nat_alt)
  show ?case
  proof (cases "unat T < length (ring_items (insert_ring st))")
    case False
    then show ?thesis
      using less.prems more by (subst flush_insert_if_needed.simps) (intro exI [of _ "[]"] exI [of _ st], simp)
  next
    case True
    then obtain q qs where items: "ring_items (insert_ring st) = q # qs" by (cases "ring_items (insert_ring st)") auto
    from insert_turn [OF less.prems items, of M] obtain rt st1 st2 js where t:
      "insert_one M st q = Some (rt, st1)" "st2 = st1\<lparr>insert_ring := ring_advance (insert_ring st1)\<rparr>"
      "inserts_ok H st2 n" "casht_map st2 = stores js (casht_map st)" "capacity st2 = capacity st" "find_ring st2 = find_ring st"
      "find_queue_size (insert_ring st2) = find_queue_size (insert_ring st)"
      "mset (List.map store_request (ring_items (insert_ring st))) = mset js + mset (List.map store_request (ring_items (insert_ring st2)))"
      "insert_work H st2 < insert_work H st" by metis
    from less.hyps [OF t(9,3)] obtain js' st' where rest:
      "flush_insert_if_needed M T st2 = Some st'" "inserts_ok H st' n" "casht_map st' = stores js' (casht_map st2)"
      "capacity st' = capacity st2" "find_ring st' = find_ring st2" "find_queue_size (insert_ring st') = find_queue_size (insert_ring st2)"
      "mset (List.map store_request (ring_items (insert_ring st2))) = mset js' + mset (List.map store_request (ring_items (insert_ring st')))"
      "length (ring_items (insert_ring st')) \<le> unat T" by blast
    have "flush_insert_if_needed M T st = Some st'"
      using True more ring_tail_items(1) [OF rok items] t(1,2) rest(1) by (subst flush_insert_if_needed.simps) simp
    then show ?thesis using rest(2-) t(4-8) by (intro exI [of _ "js @ js'"] exI [of _ st']) simp
  qed
qed

lemma add_inserts:
  assumes "inserts_ok (kv_hash M) st (length kp)" and "length (ring_items (insert_ring st)) + length kp < unat (find_queue_size (insert_ring st))"
    and "\<forall>a \<in> set kp. ia_key a \<noteq> 0"
  obtains st' where "add_all (add_to_insert_queue M) st kp = Some st'" and "inserts_ok (kv_hash M) st' 0"
    and "casht_map st' = casht_map st" and "capacity st' = capacity st" and "find_ring st' = find_ring st"
    and "List.map store_request (ring_items (insert_ring st')) = List.map store_request (ring_items (insert_ring st)) @ List.map arg_store kp"
  using assms
proof (induction kp arbitrary: st thesis)
  case (Cons a kp)
  have ok: "inserts_ok (kv_hash M) st (Suc (length kp))" using Cons.prems(2) by simp
  have "Suc (length (ring_items (insert_ring st))) < unat (find_queue_size (insert_ring st))" "ia_key a \<noteq> 0" using Cons.prems(3,4) by simp_all
  from add_insert [OF ok this] obtain st1 where a: "add_to_insert_queue M st a = Some st1" "inserts_ok (kv_hash M) st1 (length kp)"
    "casht_map st1 = casht_map st" "capacity st1 = capacity st" "find_ring st1 = find_ring st"
    "find_queue_size (insert_ring st1) = find_queue_size (insert_ring st)"
    "List.map store_request (ring_items (insert_ring st1)) = List.map store_request (ring_items (insert_ring st)) @ [arg_store a]" by metis
  have "length (ring_items (insert_ring st1)) = Suc (length (ring_items (insert_ring st)))" using arg_cong [OF a(7), of length] by simp
  then have "length (ring_items (insert_ring st1)) + length kp < unat (find_queue_size (insert_ring st1))" using Cons.prems(3) a(6) by simp
  from Cons.IH [OF _ a(2) this] Cons.prems(4) obtain st' where
    "add_all (add_to_insert_queue M) st1 kp = Some st'" "inserts_ok (kv_hash M) st' 0" "casht_map st' = casht_map st1"
    "capacity st' = capacity st1" "find_ring st' = find_ring st1"
    "List.map store_request (ring_items (insert_ring st')) = List.map store_request (ring_items (insert_ring st1)) @ List.map arg_store kp" by auto
  then show ?case using Cons.prems(1) a by simp
qed simp

text \<open>
  What is inserted with the batches of \<open>DRAMHiT_2023\<close> is found by them, as it is with those of
  \<open>DRAMHiT_2025\<close>, if the queues have room for a batch; whatever the two thresholds are.
\<close>

lemma casht_2023_insert_then_find:
  assumes ok: "inserts_ok (kv_hash M) st (length kp)" and empty: "ring_items (insert_ring st) = []"
    and fits: "length kp < unat (find_queue_size (insert_ring st))" "length kp < unat (find_queue_size (find_ring st))"
    and r: "ring_ok (find_ring st)" "2 \<le> unat (find_queue_size (find_ring st))" "ring_items (find_ring st) = []"
    and M: "find_simd_contract M" and small: "unat (capacity st) \<le> 2 ^ 32"
    and k: "\<forall>a \<in> set kp. ia_key a \<noteq> 0" and dist: "distinct (List.map ia_key kp)"
    and vp: "vp_first vp = 0" "length kp \<le> batch_len" "batch_len \<le> length (vp_second vp)"
  shows "\<exists>st1 st2 st3 vp3 st4 vp4. insert_batch_2023 M T1 st kp = Some st1 \<and> flush_insert_queue M st1 = Some st2 \<and>
    casht_map st2 = casht_map st ++ map_of (List.map arg_store kp) \<and>
    find_batch_2023 M T2 batch_len st2 kp vp = Some (st3, vp3) \<and> flush_find_queue M batch_len st3 vp3 = Some (0, st4, vp4) \<and>
    mset (take (vp_first vp4) (vp_second vp4)) = mset (List.map (\<lambda>a. \<lparr>fr_id = ia_id a, fr_value = ia_value a\<rparr>) kp)"
proof -
  have rok: "ring_ok (insert_ring st)" using ok by (simp add: inserts_ok_def)
  have start: "flush_insert_if_needed M T1 st = Some st"
    using ring_sz_items [OF rok] empty by (subst flush_insert_if_needed.simps) (simp add: word_less_nat_alt del: length_ring_items)
  from add_inserts [OF ok _ k] fits(1) empty obtain st0 where a: "add_all (add_to_insert_queue M) st kp = Some st0"
    "inserts_ok (kv_hash M) st0 0" "casht_map st0 = casht_map st" "capacity st0 = capacity st" "find_ring st0 = find_ring st"
    "List.map store_request (ring_items (insert_ring st0)) = List.map arg_store kp" by (metis add_0 append_Nil list.map(1) list.size(3))
  from flush_insert_spec [OF a(2), of M T1] obtain js st1 where f: "flush_insert_if_needed M T1 st0 = Some st1"
    "inserts_ok (kv_hash M) st1 0" "casht_map st1 = stores js (casht_map st0)" "capacity st1 = capacity st0" "find_ring st1 = find_ring st0"
    "mset (List.map store_request (ring_items (insert_ring st0))) = mset js + mset (List.map store_request (ring_items (insert_ring st1)))" by blast
  from pop_insert_times_spec [OF f(2) refl, of M] obtain xs st2 where p:
    "pop_insert_times M (length (ring_items (insert_ring st1))) st1 = Some st2" "inserts_ok (kv_hash M) st2 0"
    "casht_map st2 = stores xs (casht_map st1)" "capacity st2 = capacity st1" "find_ring st2 = find_ring st1"
    "mset (List.map store_request (ring_items (insert_ring st1))) = mset xs" by blast
  have "ring_ok (insert_ring st1)" using f(2) by (simp add: inserts_ok_def)
  then have i: "insert_batch_2023 M T1 st kp = Some st1" "flush_insert_queue M st1 = Some st2"
    using start a(1) f(1) p(1) by (simp_all add: insert_batch_2023_def flush_insert_queue_def ring_sz_items)
  have "mset (List.map arg_store kp) = mset (js @ xs)" using f(6) p(6) unfolding a(6) by simp
  note after = found_after_insert [OF this dist, of "casht_map st2" "casht_map st"]
  have m: "casht_map st2 = stores (js @ xs) (casht_map st)" using p(3) f(3) a(3) by simp
  have ring: "find_ring st2 = find_ring st" "capacity st2 = capacity st" using p(4,5) f(4,5) a(4,5) by simp_all
  have fo: "finds_ok (kv_hash M) st2 (find_ring st2)"
    by (rule inserts_finds [OF p(2)]) (use ring r small in simp_all)
  from find_flush_2023 [OF M fo _ k vp, of T2] r(3) fits(2) ring obtain st3 vp3 st4 vp4 where g:
    "find_batch_2023 M T2 batch_len st2 kp vp = Some (st3, vp3)" "flush_find_queue M batch_len st3 vp3 = Some (0, st4, vp4)"
    "mset (take (vp_first vp4) (vp_second vp4)) = mset (List.map_filter (reply (casht_map st2)) (List.map arg_request kp))" by auto
  show ?thesis using i after [OF m] g by (intro exI conjI) (assumption | simp)+
qed

end
