(* ===== verification/Eisenbud.thy ===== *)
theory Eisenbud
  imports Conshash
begin

text \<open>
  \<open>l2fwd/libsashstore/conshash.c\<close>, the table of backends after Eisenbud et al. (Maglev, 3.4):
  every node has a permutation of the slots, and the nodes take turns in claiming the next slot
  of their permutation that is free.  In \<open>populate_lut\<close> this code stands behind the \<open>return\<close> that
  leaves the table constant; it is translated as it is written, as what the function does when
  that \<open>return\<close> is taken out.  The number of slots is a prime, so that every step width but zero
  gives a permutation; the lemmas show that the loops end and that the shares of the nodes
  differ by at most one slot.
\<close>

section \<open>Permutations\<close>

type_synonym Node = u32

definition node_bytes :: "Node \<Rightarrow> u8 list" where
  "node_bytes node = [ucast node, ucast (drop_bit 8 node), ucast (drop_bit 16 node), ucast (drop_bit 24 node)]"

definition get_offset_skip :: "Node \<Rightarrow> u64 \<times> u64" where
  "get_offset_skip node =
     (fnv_1 (node_bytes node) mod (of_nat TABLE_SIZE - 1) + 1, fnv_1a (node_bytes node) mod of_nat TABLE_SIZE)"

definition get_permutation :: "Node \<Rightarrow> u64 \<Rightarrow> u64" where
  "get_permutation node j =
     (let (offset, skip) = get_offset_skip node in (offset + j * skip) mod of_nat TABLE_SIZE)"

section \<open>The loops\<close>

text \<open>The inner loop: the next slot of the permutation that is free; an entry of -1 is free.\<close>

partial_function (option) next_free :: "Node \<Rightarrow> LookUpTable \<Rightarrow> u64 \<Rightarrow> (u64 \<times> u64) option" where
  "next_free node lut nx =
     (let c = get_permutation node nx in
      case rd lut (unat c) of
        None \<Rightarrow> None
      | Some entry \<Rightarrow> if sint entry \<ge> 0 then next_free node lut (nx + 1) else Some (c, nx))"

record lut_state =
  ls_lut :: LookUpTable
  ls_next :: "u64 list"
  ls_n :: u64

text \<open>One pass over the nodes; it tells whether the table is full, in which case the function returns.\<close>

fun claim_round :: "Node list \<Rightarrow> nat \<Rightarrow> lut_state \<Rightarrow> (bool \<times> lut_state) option" where
  "claim_round [] i st = Some (False, st)"
| "claim_round (node # nodes) i st = do {
     nx \<leftarrow> rd (ls_next st) i;
     (c, nx') \<leftarrow> next_free node (ls_lut st) nx;
     lut' \<leftarrow> wr (ls_lut st) (unat c) (of_nat i);
     next' \<leftarrow> wr (ls_next st) i (nx' + 1);
     let st' = \<lparr>ls_lut = lut', ls_next = next', ls_n = ls_n st + 1\<rparr>;
     if ls_n st' = of_nat TABLE_SIZE then Some (True, st') else claim_round nodes (Suc i) st'
   }"

partial_function (option) claim_loop :: "Node list \<Rightarrow> lut_state \<Rightarrow> lut_state option" where
  "claim_loop nodes st =
     (case claim_round nodes 0 st of
        None \<Rightarrow> None
      | Some (full, st') \<Rightarrow> if full then Some st' else claim_loop nodes st')"

definition the_nodes :: "Node list" where
  "the_nodes = [800, 273, 8255]"

definition populate_lut_nodes :: "LookUpTable \<Rightarrow> LookUpTable option" where
  "populate_lut_nodes lut = do {
     lut \<leftarrow> fill_lut (-1) lut 0;
     st \<leftarrow> claim_loop the_nodes \<lparr>ls_lut = lut, ls_next = [0, 0, 0], ls_n = 0\<rparr>;
     Some (ls_lut st)
   }"

section \<open>The slots of a permutation\<close>

lemma no_small_divisor:
  assumes "2 \<le> d" and "d < 257"
  shows "\<not> d dvd (65537::nat)"
proof -
  have "list_all (\<lambda>d. 65537 mod d \<noteq> (0::nat)) [2..<257]" by (simp add: upt_rec_numeral)
  moreover have "d \<in> set [2..<257]" using assms by (simp only: set_upt atLeastLessThan_iff)
  ultimately show ?thesis by (simp only: list_all_iff dvd_eq_mod_eq_0) blast
qed

lemma coprime_TABLE_SIZE:
  assumes "0 < s" and "s < TABLE_SIZE"
  shows "coprime s TABLE_SIZE"
proof -
  let ?g = "gcd s 65537"
  have g: "?g dvd 65537" "?g \<le> s" "0 < ?g" using assms(1) by (simp_all add: gcd_le1_nat)
  obtain q where q: "65537 = ?g * q" using g(1) by (rule dvdE)
  have "?g = 1"
  proof (rule ccontr)
    assume "?g \<noteq> 1"
    then have g2: "2 \<le> ?g" using g(3) by linarith
    have "?g < 65537" using g(2) assms(2) by (simp add: TABLE_SIZE_def)
    then have "q \<noteq> 1" using q by (metis less_irrefl nat_mult_1_right)
    moreover have "q \<noteq> 0" using q by (metis mult_0_right zero_neq_numeral)
    ultimately have q2: "2 \<le> q" by linarith
    show False
    proof (cases "?g < 257")
      case True
      then show False using no_small_divisor [OF g2 True] g(1) by blast
    next
      case big: False
      have q257: "q < 257"
      proof (rule ccontr)
        assume "\<not> q < 257"
        then have "257 * 257 \<le> ?g * q" using big by (intro mult_le_mono) simp_all
        then show False using q by simp
      qed
      have "q dvd 65537" using q by (metis dvd_triv_right)
      then show False using no_small_divisor [OF q2 q257] by blast
    qed
  qed
  then show ?thesis by (simp add: TABLE_SIZE_def coprime_iff_gcd_eq_1)
qed

lemma permutation_onto:
  assumes "coprime s T" and "p < T"
  shows "\<exists>j<T. (a + j * s) mod T = (p::nat)"
proof -
  let ?f = "\<lambda>j. (a + j * s) mod T"
  have le: "i = j" if "?f i = ?f j" "i \<le> j" "j < T" for i j
  proof -
    have "a + i * s \<le> a + j * s" using that(2) by simp
    then have "T dvd (a + j * s) - (a + i * s)" using that(1) by (metis mod_eq_dvd_iff_nat)
    then have "T dvd (j - i) * s" by (simp add: diff_mult_distrib)
    then have "T dvd j - i" using assms(1) by (simp add: coprime_dvd_mult_left_iff coprime_commute)
    then show ?thesis using that(2,3) by (auto dest: dvd_imp_le)
  qed
  have "inj_on ?f {..<T}"
  proof (rule inj_onI)
    fix i j assume "i \<in> {..<T}" "j \<in> {..<T}" "?f i = ?f j"
    then show "i = j" using le [of i j] le [of j i] by (cases "i \<le> j") auto
  qed
  moreover have "?f ` {..<T} \<subseteq> {..<T}" using assms(2) by auto
  ultimately have "?f ` {..<T} = {..<T}" by (intro endo_inj_surj) auto
  then show ?thesis using assms(2) by (metis (no_types, lifting) image_iff lessThan_iff)
qed

section \<open>The next free slot\<close>

definition node_skip :: "Node \<Rightarrow> nat" where
  "node_skip node = unat (snd (get_offset_skip node))"

definition node_slot :: "Node \<Rightarrow> nat \<Rightarrow> nat" where
  "node_slot node j = (unat (fst (get_offset_skip node)) + j * node_skip node) mod TABLE_SIZE"

lemma node_slot_less [simp]: "node_slot node j < TABLE_SIZE"
  by (simp add: node_slot_def TABLE_SIZE_def)

lemma offset_skip_bounds:
  "unat (fst (get_offset_skip node)) \<le> 65536" "node_skip node < TABLE_SIZE"
proof -
  let ?o = "fnv_1 (node_bytes node) mod 65536"
  have "unat ?o < 65536" by (simp add: unat_mod)
  then have "unat (?o + 1) \<le> 65536" by (simp add: unat_word_ariths)
  then show "unat (fst (get_offset_skip node)) \<le> 65536" by (simp add: get_offset_skip_def TABLE_SIZE_def)
  show "node_skip node < TABLE_SIZE" by (simp add: node_skip_def get_offset_skip_def TABLE_SIZE_def unat_mod)
qed

lemma get_permutation_slot:
  assumes "unat j \<le> TABLE_SIZE"
  shows "unat (get_permutation node j) = node_slot node (unat j)"
proof -
  obtain a b where ab: "get_offset_skip node = (a, b)" by force
  have "unat a \<le> 65536" "unat b \<le> 65536"
    using offset_skip_bounds [of node] by (simp_all add: ab node_skip_def TABLE_SIZE_def)
  moreover have "unat j * unat b \<le> 65537 * 65536"
    using assms calculation(2) by (intro mult_le_mono) (simp_all add: TABLE_SIZE_def)
  ultimately have lt: "unat a + unat j * unat b < 2 ^ 64" by simp
  have "a + j * b = of_nat (unat a + unat j * unat b)" by simp
  then have "unat (a + j * b) = unat a + unat j * unat b"
    using lt by (simp only: unat_of_nat) simp
  then show ?thesis by (simp add: get_permutation_def ab node_slot_def node_skip_def TABLE_SIZE_def unat_mod)
qed

lemma next_free_slot:
  assumes "length lut = TABLE_SIZE" and "sint (lut ! node_slot node j0) < 0" and "unat nx \<le> j0" and "j0 < TABLE_SIZE"
    and "\<forall>j<unat nx. 0 \<le> sint (lut ! node_slot node j)"
  shows "\<exists>c nx'. next_free node lut nx = Some (c, nx') \<and> unat nx' < TABLE_SIZE \<and> unat c = node_slot node (unat nx') \<and>
    sint (lut ! unat c) < 0 \<and> (\<forall>j<unat nx'. 0 \<le> sint (lut ! node_slot node j))"
  using assms(3,5)
proof (induction "j0 - unat nx" arbitrary: nx rule: less_induct)
  case less
  have p: "unat (get_permutation node nx) = node_slot node (unat nx)"
    using less.prems(1) assms(4) by (intro get_permutation_slot) simp
  show ?case
  proof (cases "0 \<le> sint (lut ! node_slot node (unat nx))")
    case False
    then show ?thesis using less.prems assms(1,4) p by (subst next_free.simps) auto
  next
    case True
    then have "unat nx \<noteq> j0" using assms(2) by auto
    then have lt: "unat nx < j0" using less.prems(1) by simp
    then have u: "unat (nx + 1) = Suc (unat nx)"
      using assms(4) by (simp add: unat_word_ariths TABLE_SIZE_def)
    have "\<exists>c nx'. next_free node lut (nx + 1) = Some (c, nx') \<and> unat nx' < TABLE_SIZE \<and>
        unat c = node_slot node (unat nx') \<and> sint (lut ! unat c) < 0 \<and> (\<forall>j<unat nx'. 0 \<le> sint (lut ! node_slot node j))"
      using less.prems lt True u by (intro less.hyps) (auto simp: less_Suc_eq)
    then show ?thesis using True assms(1) p by (subst next_free.simps) simp
  qed
qed

section \<open>The invariant of the loop\<close>

definition slots_with :: "LookUpTable \<Rightarrow> u64 \<Rightarrow> nat set" where
  "slots_with lut x = {p. p < TABLE_SIZE \<and> lut ! p = x}"

definition lut_inv :: "Node list \<Rightarrow> lut_state \<Rightarrow> bool" where
  "lut_inv nodes st \<longleftrightarrow>
     length (ls_lut st) = TABLE_SIZE \<and> length (ls_next st) = 3 \<and> unat (ls_n st) \<le> TABLE_SIZE \<and>
     (\<forall>p<TABLE_SIZE. ls_lut st ! p \<in> {-1, 0, 1, 2}) \<and>
     card (slots_with (ls_lut st) (-1)) = TABLE_SIZE - unat (ls_n st) \<and>
     (\<forall>i<3. card (slots_with (ls_lut st) (of_nat i)) = (unat (ls_n st) + 2 - i) div 3) \<and>
     (\<forall>i<3. unat (ls_next st ! i) \<le> TABLE_SIZE \<and>
        (\<forall>j<unat (ls_next st ! i). ls_lut st ! node_slot (nodes ! i) j \<noteq> -1))"

lemma entry_free:
  "x \<in> {-1, 0, 1, 2} \<Longrightarrow> sint (x::u64) < 0 \<longleftrightarrow> x = -1"
  by auto

lemma finite_slots [simp]: "finite (slots_with lut x)"
  by (simp add: slots_with_def)

lemma slots_with_update:
  assumes "length lut = TABLE_SIZE" and "c < TABLE_SIZE" and "lut ! c \<noteq> v"
  shows "card (slots_with (lut[c := v]) v) = Suc (card (slots_with lut v))"
    and "card (slots_with (lut[c := v]) (lut ! c)) = card (slots_with lut (lut ! c)) - 1"
    and "x \<noteq> v \<Longrightarrow> x \<noteq> lut ! c \<Longrightarrow> slots_with (lut[c := v]) x = slots_with lut x"
proof -
  have "slots_with (lut[c := v]) v = insert c (slots_with lut v)" "c \<notin> slots_with lut v"
    using assms by (auto simp: slots_with_def nth_list_update)
  then show "card (slots_with (lut[c := v]) v) = Suc (card (slots_with lut v))" by simp
  have "slots_with (lut[c := v]) (lut ! c) = slots_with lut (lut ! c) - {c}" "c \<in> slots_with lut (lut ! c)"
    using assms by (auto simp: slots_with_def nth_list_update)
  then show "card (slots_with (lut[c := v]) (lut ! c)) = card (slots_with lut (lut ! c)) - 1" by simp
  show "x \<noteq> v \<Longrightarrow> x \<noteq> lut ! c \<Longrightarrow> slots_with (lut[c := v]) x = slots_with lut x"
    using assms by (auto simp: slots_with_def nth_list_update)
qed

text \<open>The share of node \<open>i\<close> when it is its turn, and of the others.\<close>

lemma share_turn:
  fixes n i k :: nat
  assumes "n mod 3 = i" and "k < 3"
  shows "(n + 1 + 2 - k) div 3 = (if k = i then Suc ((n + 2 - k) div 3) else (n + 2 - k) div 3)"
proof -
  obtain r where n: "n = 3 * r + i" and i: "i < 3" using assms(1) by (metis mod_less_divisor mult_div_mod_eq zero_less_numeral)
  have e: "n + 1 + 2 - k = i + 3 - k + 3 * r" "n + 2 - k = i + 2 - k + 3 * r" using n assms(2) by linarith+
  have d: "(c + 3 * r) div 3 = c div 3 + r" for c by simp
  have s: "(i + 3 - k) div 3 = (if k = i then Suc ((i + 2 - k) div 3) else (i + 2 - k) div 3)"
  proof -
    have "i = 0 \<or> i = 1 \<or> i = 2" "k = 0 \<or> k = 1 \<or> k = 2" using i assms(2) by linarith+
    then show ?thesis by (elim disjE) simp_all
  qed
  show ?thesis unfolding e d s by simp
qed

lemma of_nat_node:
  "i < 3 \<Longrightarrow> (of_nat i :: u64) \<in> {-1, 0, 1, 2}" "i < 3 \<Longrightarrow> (of_nat i :: u64) \<noteq> -1"
  "i < 3 \<Longrightarrow> k < 3 \<Longrightarrow> (of_nat i :: u64) = of_nat k \<longleftrightarrow> i = k"
proof -
  have c: "i = 0 \<or> i = 1 \<or> i = 2" if "i < 3" for i :: nat using that by linarith
  show "(of_nat i :: u64) \<in> {-1, 0, 1, 2}" "(of_nat i :: u64) \<noteq> -1" if "i < 3"
    using c [OF that] by (elim disjE; simp)+
  show "(of_nat i :: u64) = of_nat k \<longleftrightarrow> i = k" if "i < 3" "k < 3"
    using c [OF that(1)] c [OF that(2)] by (elim disjE) simp_all
qed

lemma claim_next:
  assumes "lut_inv nodes st" and "i < 3" and "unat (ls_n st) < TABLE_SIZE" and "0 < node_skip (nodes ! i)"
  shows "\<exists>c nx'. next_free (nodes ! i) (ls_lut st) (ls_next st ! i) = Some (c, nx') \<and> unat nx' < TABLE_SIZE \<and>
    unat c = node_slot (nodes ! i) (unat nx') \<and> ls_lut st ! unat c = -1 \<and>
    (\<forall>j<unat nx'. ls_lut st ! node_slot (nodes ! i) j \<noteq> -1)"
proof -
  let ?lut = "ls_lut st" and ?slot = "node_slot (nodes ! i)" and ?nx = "ls_next st ! i"
  have inv: "length ?lut = TABLE_SIZE" "\<forall>p<TABLE_SIZE. ?lut ! p \<in> {-1, 0, 1, 2}"
    "card (slots_with ?lut (-1)) = TABLE_SIZE - unat (ls_n st)" "\<forall>j<unat ?nx. ?lut ! ?slot j \<noteq> -1"
    using assms(1,2) by (simp_all add: lut_inv_def)
  have free: "sint (?lut ! ?slot j) < 0 \<longleftrightarrow> ?lut ! ?slot j = -1" for j
    using inv(2) by (intro entry_free) simp
  have "card (slots_with ?lut (-1)) \<noteq> 0" using inv(3) assms(3) by simp
  then obtain p where "p \<in> slots_with ?lut (-1)" by (metis card.empty ex_in_conv)
  then have p: "p < TABLE_SIZE" "?lut ! p = -1" by (simp_all add: slots_with_def)
  have "coprime (node_skip (nodes ! i)) TABLE_SIZE"
    using assms(4) offset_skip_bounds(2) by (rule coprime_TABLE_SIZE)
  from permutation_onto [OF this p(1)] obtain j0 where j0: "j0 < TABLE_SIZE" "?slot j0 = p"
    by (auto simp: node_slot_def)
  have "unat ?nx \<le> j0" using inv(4) j0(2) p(2) by (meson not_le)
  moreover have "\<forall>j<unat ?nx. 0 \<le> sint (?lut ! ?slot j)" using inv(4) free by (meson not_le)
  moreover have "sint (?lut ! ?slot j0) < 0" using free j0(2) p(2) by simp
  ultimately obtain c nx' where r: "next_free (nodes ! i) ?lut ?nx = Some (c, nx')" "unat nx' < TABLE_SIZE"
    "unat c = ?slot (unat nx')" "sint (?lut ! unat c) < 0" "\<forall>j<unat nx'. 0 \<le> sint (?lut ! ?slot j)"
    using next_free_slot [OF inv(1) _ _ j0(1)] by blast
  have "?lut ! unat c = -1" using r(3,4) free by simp
  moreover have "\<forall>j<unat nx'. ?lut ! ?slot j \<noteq> -1" using r(5) free by (meson not_le)
  ultimately show ?thesis using r(1,2,3) by blast
qed

lemma claim_inv:
  assumes "lut_inv nodes st" and "unat (ls_n st) mod 3 = i" and "unat (ls_n st) < TABLE_SIZE"
    and "unat nx' < TABLE_SIZE" and "unat c = node_slot (nodes ! i) (unat nx')" and "ls_lut st ! unat c = -1"
    and "\<forall>j<unat nx'. ls_lut st ! node_slot (nodes ! i) j \<noteq> -1"
  shows "lut_inv nodes \<lparr>ls_lut = (ls_lut st)[unat c := of_nat i], ls_next = (ls_next st)[i := nx' + 1], ls_n = ls_n st + 1\<rparr>"
    and "unat (ls_n st + 1) = unat (ls_n st) + 1"
proof -
  let ?lut = "ls_lut st" and ?c = "unat c" and ?n = "unat (ls_n st)"
  let ?new = "?lut[?c := of_nat i]"
  have i: "i < 3" using assms(2) by auto
  have c: "?c < TABLE_SIZE" using assms(5) by simp
  have inv: "length ?lut = TABLE_SIZE" "length (ls_next st) = 3" "\<forall>p<TABLE_SIZE. ?lut ! p \<in> {-1, 0, 1, 2}"
    "card (slots_with ?lut (-1)) = TABLE_SIZE - ?n"
    "\<forall>k<3. card (slots_with ?lut (of_nat k)) = (?n + 2 - k) div 3"
    "\<forall>k<3. unat (ls_next st ! k) \<le> TABLE_SIZE \<and> (\<forall>j<unat (ls_next st ! k). ?lut ! node_slot (nodes ! k) j \<noteq> -1)"
    using assms(1) by (simp_all add: lut_inv_def)
  show n: "unat (ls_n st + 1) = ?n + 1" using assms(3) by (simp add: unat_word_ariths TABLE_SIZE_def)
  have nx: "unat (nx' + 1) = unat nx' + 1" using assms(4) by (simp add: unat_word_ariths TABLE_SIZE_def)
  have ne: "?lut ! ?c \<noteq> of_nat i" using assms(6) of_nat_node(2) [OF i] by metis
  note upd = slots_with_update [OF inv(1) c ne]
  have "\<forall>p<TABLE_SIZE. ?new ! p \<in> {-1, 0, 1, 2}"
    using inv(1,3) of_nat_node(1) [OF i] by (metis nth_list_update_eq nth_list_update_neq)
  moreover have "card (slots_with ?new (-1)) = TABLE_SIZE - (?n + 1)"
    using upd(2) inv(4) assms(6) by simp
  moreover have "card (slots_with ?new (of_nat k)) = (?n + 1 + 2 - k) div 3" if k: "k < 3" for k
  proof (cases "k = i")
    case True
    then show ?thesis using upd(1) inv(5) k share_turn [OF assms(2) k] by simp
  next
    case False
    then have "slots_with ?new (of_nat k) = slots_with ?lut (of_nat k)"
      using upd(3) [of "of_nat k"] of_nat_node(2) [OF k] of_nat_node(3) [OF k i] assms(6) by metis
    then show ?thesis using inv(5) k share_turn [OF assms(2) k] False by simp
  qed
  moreover have kept: "?new ! p \<noteq> -1" if "?lut ! p \<noteq> -1 \<or> p = ?c" "p < TABLE_SIZE" for p
    using that inv(1) of_nat_node(2) [OF i] by (cases "p = ?c") auto
  have "unat ((ls_next st)[i := nx' + 1] ! k) \<le> TABLE_SIZE \<and>
      (\<forall>j<unat ((ls_next st)[i := nx' + 1] ! k). ?new ! node_slot (nodes ! k) j \<noteq> -1)" if k: "k < 3" for k
  proof (cases "k = i")
    case True
    have "?new ! node_slot (nodes ! i) j \<noteq> -1" if "j < unat nx' + 1" for j
      using that assms(5,7) by (intro kept) (auto simp: less_Suc_eq)
    then show ?thesis using True k inv(2) nx assms(4) by simp
  next
    case False
    have "?new ! node_slot (nodes ! k) j \<noteq> -1" if "j < unat (ls_next st ! k)" for j
      using inv(6) k that by (intro kept) auto
    then show ?thesis using False inv(6) k by simp
  qed
  ultimately show "lut_inv nodes \<lparr>ls_lut = ?new, ls_next = (ls_next st)[i := nx' + 1], ls_n = ls_n st + 1\<rparr>"
    using inv(1,2) assms(3) by (simp add: lut_inv_def n)
qed

section \<open>The loops end\<close>

lemma full_iff: "ls_n st = of_nat TABLE_SIZE \<longleftrightarrow> unat (ls_n st) = TABLE_SIZE"
  by (simp add: word_unat_eq_iff TABLE_SIZE_def)

lemma claim_round_inv:
  assumes "lut_inv nodes st" and "length nodes = 3" and "\<forall>i<3. 0 < node_skip (nodes ! i)" and "i \<le> 3"
    and "unat (ls_n st) mod 3 = i mod 3" and "unat (ls_n st) < TABLE_SIZE"
  shows "\<exists>full st'. claim_round (drop i nodes) i st = Some (full, st') \<and> lut_inv nodes st' \<and>
    (if full then unat (ls_n st') = TABLE_SIZE
     else unat (ls_n st') < TABLE_SIZE \<and> unat (ls_n st') = unat (ls_n st) + (3 - i))"
  using assms(1,4-6)
proof (induction "3 - i" arbitrary: i st)
  case 0
  then have "claim_round (drop i nodes) i st = Some (False, st)" using assms(2) by simp
  then show ?case using 0 by (intro exI [of _ False] exI [of _ st]) simp
next
  case (Suc m)
  then have i: "i < 3" and mod: "unat (ls_n st) mod 3 = i" by simp_all
  obtain c nx' where nx: "next_free (nodes ! i) (ls_lut st) (ls_next st ! i) = Some (c, nx')" "unat nx' < TABLE_SIZE"
    "unat c = node_slot (nodes ! i) (unat nx')" "ls_lut st ! unat c = -1"
    "\<forall>j<unat nx'. ls_lut st ! node_slot (nodes ! i) j \<noteq> -1"
    using claim_next [OF Suc.prems(1) i Suc.prems(4) assms(3) [rule_format, OF i]] by blast
  let ?st = "\<lparr>ls_lut = (ls_lut st)[unat c := of_nat i], ls_next = (ls_next st)[i := nx' + 1], ls_n = ls_n st + 1\<rparr>"
  note inv = claim_inv [OF Suc.prems(1) mod Suc.prems(4) nx(2-5)]
  have len: "length (ls_lut st) = TABLE_SIZE" "length (ls_next st) = 3" using Suc.prems(1) by (simp_all add: lut_inv_def)
  have "drop i nodes = nodes ! i # drop (Suc i) nodes" using i assms(2) by (simp add: Cons_nth_drop_Suc)
  then have r: "claim_round (drop i nodes) i st =
      (if ls_n ?st = of_nat TABLE_SIZE then Some (True, ?st) else claim_round (drop (Suc i) nodes) (Suc i) ?st)"
    using nx(1,3) len i by simp
  show ?case
  proof (cases "unat (ls_n ?st) = TABLE_SIZE")
    case True
    then show ?thesis using inv(1) unfolding r full_iff by (intro exI [of _ True] exI [of _ ?st]) simp
  next
    case False
    have n: "unat (ls_n ?st) = unat (ls_n st) + 1" using inv(2) by simp
    have "unat (ls_n ?st) mod 3 = Suc i mod 3" unfolding n using mod mod_Suc_eq [of "unat (ls_n st)" 3] by simp
    moreover have "unat (ls_n ?st) < TABLE_SIZE" using False n Suc.prems(4) by simp
    ultimately have "\<exists>full st'. claim_round (drop (Suc i) nodes) (Suc i) ?st = Some (full, st') \<and> lut_inv nodes st' \<and>
      (if full then unat (ls_n st') = TABLE_SIZE
       else unat (ls_n st') < TABLE_SIZE \<and> unat (ls_n st') = unat (ls_n ?st) + (3 - Suc i))"
      using i inv(1) Suc.hyps(2) by (intro Suc.hyps(1)) simp_all
    moreover have "unat (ls_n ?st) + (3 - Suc i) = unat (ls_n st) + (3 - i)" unfolding n using i by simp
    ultimately obtain full st' where "claim_round (drop (Suc i) nodes) (Suc i) ?st = Some (full, st')" "lut_inv nodes st'"
      "if full then unat (ls_n st') = TABLE_SIZE
       else unat (ls_n st') < TABLE_SIZE \<and> unat (ls_n st') = unat (ls_n st) + (3 - i)" by metis
    then show ?thesis using False unfolding r full_iff by (intro exI [of _ full] exI [of _ st']) simp
  qed
qed

lemma claim_loop_ends:
  assumes "lut_inv nodes st" and "length nodes = 3" and "\<forall>i<3. 0 < node_skip (nodes ! i)"
    and "unat (ls_n st) mod 3 = 0" and "unat (ls_n st) < TABLE_SIZE"
  shows "\<exists>st'. claim_loop nodes st = Some st' \<and> lut_inv nodes st' \<and> unat (ls_n st') = TABLE_SIZE"
  using assms(1,4,5)
proof (induction "TABLE_SIZE - unat (ls_n st)" arbitrary: st rule: less_induct)
  case less
  have "\<exists>full st'. claim_round (drop 0 nodes) 0 st = Some (full, st') \<and> lut_inv nodes st' \<and>
    (if full then unat (ls_n st') = TABLE_SIZE
     else unat (ls_n st') < TABLE_SIZE \<and> unat (ls_n st') = unat (ls_n st) + (3 - 0))"
    using less.prems(2,3) by (intro claim_round_inv [OF less.prems(1) assms(2,3)]) simp_all
  then obtain full st' where
    r: "claim_round nodes 0 st = Some (full, st')" "lut_inv nodes st'"
    "if full then unat (ls_n st') = TABLE_SIZE else unat (ls_n st') < TABLE_SIZE \<and> unat (ls_n st') = unat (ls_n st) + 3"
    unfolding drop_0 diff_zero by blast
  show ?case
  proof (cases full)
    case True
    then show ?thesis using r by (subst claim_loop.simps) simp
  next
    case False
    then have n: "unat (ls_n st') < TABLE_SIZE" "unat (ls_n st') = unat (ls_n st) + 3" using r(3) by simp_all
    have "TABLE_SIZE - unat (ls_n st') < TABLE_SIZE - unat (ls_n st)" using n by linarith
    moreover have "unat (ls_n st') mod 3 = 0" unfolding n(2) using less.prems(2) by simp
    ultimately have "\<exists>st''. claim_loop nodes st' = Some st'' \<and> lut_inv nodes st'' \<and> unat (ls_n st'') = TABLE_SIZE"
      using r(2) n(1) by (intro less.hyps)
    then show ?thesis using r(1) False by (subst claim_loop.simps) simp
  qed
qed

lemma lut_inv_start: "lut_inv nodes \<lparr>ls_lut = replicate TABLE_SIZE (-1), ls_next = [0, 0, 0], ls_n = 0\<rparr>"
proof -
  have nth: "[0, 0, 0] ! i = (0::u64)" if "i < 3" for i
    using that by (auto simp: less_Suc_eq numeral_3_eq_3)
  have "slots_with (replicate TABLE_SIZE (-1)) (-1) = {..<TABLE_SIZE}" by (auto simp: slots_with_def)
  moreover have "slots_with (replicate TABLE_SIZE (-1)) (of_nat i) = {}" if "i < 3" for i
    using of_nat_node(2) [OF that] by (auto simp: slots_with_def)
  ultimately show ?thesis by (simp add: lut_inv_def nth)
qed

lemma the_nodes_skip: "length the_nodes = 3" "\<forall>i<3. 0 < node_skip (the_nodes ! i)"
proof -
  have s: "0 < node_skip 800" "0 < node_skip 273" "0 < node_skip 8255"
    by (simp_all add: node_skip_def get_offset_skip_def fnv_1a_def node_bytes_def FNV_BASIS_def FNV_PRIME_def
        TABLE_SIZE_def char_to_u64_def)
  show "length the_nodes = 3" by (simp add: the_nodes_def)
  show "\<forall>i<3. 0 < node_skip (the_nodes ! i)"
    using s by (simp add: the_nodes_def less_Suc_eq numeral_3_eq_3 all_simps)
qed

text \<open>
  C36: the table of backends by permutations, behind the early return of \<open>populate_lut\<close>, would be
  filled completely and evenly: the search for a free slot always ends, the loop ends after
  65537 claims, every slot belongs to one of the three nodes, and the first two nodes get 21846
  slots, the third 21845.
\<close>

theorem populate_lut_nodes_shares:
  assumes "length lut = TABLE_SIZE"
  shows "\<exists>lut'. populate_lut_nodes lut = Some lut' \<and> length lut' = TABLE_SIZE \<and>
    (\<forall>p<TABLE_SIZE. lut' ! p \<in> {0, 1, 2}) \<and>
    card {p. p < TABLE_SIZE \<and> lut' ! p = 0} = 21846 \<and> card {p. p < TABLE_SIZE \<and> lut' ! p = 1} = 21846 \<and>
    card {p. p < TABLE_SIZE \<and> lut' ! p = 2} = 21845"
proof -
  have "fill_lut (-1) lut 0 = Some (replicate TABLE_SIZE (-1))" using assms by (simp add: fill_lut_eq)
  moreover from claim_loop_ends [OF lut_inv_start the_nodes_skip] obtain st where
    r: "claim_loop the_nodes \<lparr>ls_lut = replicate TABLE_SIZE (-1), ls_next = [0, 0, 0], ls_n = 0\<rparr> = Some st"
      "lut_inv the_nodes st" "unat (ls_n st) = TABLE_SIZE" by (auto simp: TABLE_SIZE_def)
  ultimately have p: "populate_lut_nodes lut = Some (ls_lut st)" by (simp add: populate_lut_nodes_def)
  have "slots_with (ls_lut st) (-1) = {}" using r(2,3) by (simp add: lut_inv_def)
  then have "\<forall>p<TABLE_SIZE. ls_lut st ! p \<in> {0, 1, 2}" using r(2) by (auto simp: lut_inv_def slots_with_def)
  moreover have c: "card (slots_with (ls_lut st) (of_nat i)) = (TABLE_SIZE + 2 - i) div 3" if "i < 3" for i
    using r(2,3) that by (simp add: lut_inv_def)
  ultimately show ?thesis using p r(2) c [of 0] c [of 1] c [of 2]
    by (intro exI [of _ "ls_lut st"]) (simp add: lut_inv_def slots_with_def TABLE_SIZE_def)
qed

theorem populate_lut_nodes_shares_witness:
  "\<exists>lut'. populate_lut_nodes (replicate TABLE_SIZE 0) = Some lut' \<and> card {p. p < TABLE_SIZE \<and> lut' ! p = 2} = 21845"
  using populate_lut_nodes_shares [of "replicate TABLE_SIZE 0"] by auto

end
