(* ===== verification/Spec2Isabelle.thy ===== *)
theory Spec2Isabelle
  imports Packettool Hashmap Sash_Table Sashstore Maglev Dram_Lookup Dram_Frames Dram_Memory
    Forwarding Options Ports Statistics Devices Startup L2fwd_Program Pktgen_Frame Pktgen_Workers Pktgen_Main
    Pktgen_Roles Pktgen_Stats Pktgen_Whole Netblast Dram_Cores Maglev_Cores
    Dram_Batches Casht_Variants Eisenbud
begin

text \<open>
  NetBlast is two DPDK programs.  \<open>l2fwd/main.c\<close> receives bursts of packets on the queues of its
  cores, computes a flow hash for every packet, asks the connection table of the selected mode
  which backend the flow belongs to, rewrites the Ethernet addresses and sends the packet on the
  port it came from.  \<open>pktgen/pktgen.c\<close> generates that traffic and measures what comes back.  The
  tables and request handlers are in \<open>l2fwd/libsashstore\<close>; paths of \<open>.c\<close> and \<open>.h\<close> files below are
  relative to it unless a directory is given.

  \<^bold>\<open>The model.\<close>  A machine integer is a word of its width, so every addition wraps as in C and
  \<open>unat\<close> reads the number.  Memory is a list of bytes or of slots; an access out of bounds is
  \<open>None\<close> of an \<open>option\<close>, so that a result \<open>Some\<close> says that the function returned and stayed inside its
  arrays.  \<open>exit\<close> and \<open>rte_exit\<close> are the value \<open>Exit\<close> of the type \<open>outcome\<close> in \<open>Prelude\<close>.  State is passed
  explicitly, in records with the fields of the structs.  What DPDK, the C library and the
  processor supply is an argument: the CRC32 instruction, the packets of a burst, how many packets
  the driver took, the clock, whether an allocation is granted, the options \<open>getopt\<close> reports, what
  a driver call returns.  Loops that run until \<open>force_quit\<close> is set are functions of the list of
  the inputs of their turns, and the theorems hold for every list.  Probing loops are \<open>function\<close>s with
  a measure where the code bounds them, and \<open>partial_function (option)\<close> where it does not
  (\<open>try_insert\<close>, \<open>dramblast_find_loop\<close>, \<open>next_free\<close>, \<open>claim_loop\<close>, the loops of \<open>Casht\<close>); for these it is proved
  that they return, for \<open>Casht\<close> with keys that are not zero and slots to spare.
  No fuel is used.

  \<^bold>\<open>The theories.\<close>
  \<^item> \<open>Prelude\<close>: types, reading and writing of bytes and slots, lemmas on words that are powers of
    two; \<open>Flow_Table\<close>: the locales \<open>table_insert\<close> and \<open>table_store\<close>, what a caller of a table may rely
    on; \<open>Probing\<close>: linear probing as such, with the fact that a well-formed table stays so.
  \<^item> \<open>Fnv\<close> (\<open>hash.c\<close>) and \<open>Packettool\<close> (\<open>packettool.c\<close>): the FNV hash, \<open>flowhash\<close> and
    \<open>get_udp_payload\<close>.  \<open>flowhash\<close> is characterised for every frame, with the exact condition under
    which it reads only inside the frame, and separates flows that differ in a byte.
  \<^item> \<open>Hashmap\<close> and \<open>Sash_Table\<close> (\<open>hashmap.c\<close>): the two open-addressing tables.  Both interpret the
    locales of \<open>Flow_Table\<close>; insert and lookup agree with a finite map.
  \<^item> \<open>Conshash\<close> and \<open>Eisenbud\<close> (\<open>conshash.c\<close>), \<open>Maglev\<close> (\<open>maglev.c\<close>): the table of backends and the
    handler of a frame; a flow keeps its backend for ever.  \<open>Eisenbud\<close> has the permutation code that
    stands behind the early return of \<open>populate_lut\<close>: it would end, with even shares.
  \<^item> \<open>Sashstore\<close> (\<open>sashstore.c\<close>): the key-value requests, parsed and answered in place in the frame.
  \<^item> \<open>Dram_Queue\<close>, \<open>Dramblast\<close>, \<open>Dram_Find\<close>, \<open>Dram_Lookup\<close>, \<open>Dram_Frames\<close>, \<open>Dram_Memory\<close>
    (\<open>dramblast.c\<close>): the ring of pending requests, a refinement of a bounded FIFO queue; insertion;
    the batched lookup with its AVX-512 comparison lane by lane, equivalent to one lookup after
    the other; the handling of a batch of frames; the memory of the table, from \<open>dramblast_init\<close> to
    \<open>dramblast_destroy\<close>.
  \<^item> \<open>Cores\<close>, \<open>Dram_Cores\<close>, \<open>Dram_Batches\<close>, \<open>Maglev_Cores\<close>: several cores on one table.  \<open>Cores\<close> has schedules and the locales
    \<open>shared_step\<close> and \<open>atomic_step\<close>, what a step must guarantee for every interleaving; \<open>Dram_Cores\<close> cuts
    \<open>dramblast_insert_one\<close> into its accesses to memory, shows that a core alone does what the routine
    of \<open>Dramblast\<close> does, and that insertions are linearizable, wait-free and agree on backends.
    \<open>Dram_Batches\<close> cuts whole batches of frames into accesses, with the lookups of one core running
    while others insert: every reported backend is the one its flow is mapped to.
    \<open>Maglev_Cores\<close> does the same for whole frames of the Maglev mode, their lookups included: in
    every interleaving the answers are those of \<open>maglev_process_frame\<close> on the frames one after the
    other.
  \<^item> \<open>Casht\<close>, \<open>Casht_Find\<close>, \<open>Casht_Insert\<close>, \<open>Casht_Variants\<close> (\<open>docs/cas_kht.hpp\<close>): the C++ table that \<open>dramblast.c\<close> was
    ported from and is compared with, used by one thread.  Its table and queues are abstracted
    by the functions used for \<open>dramblast.c\<close>, so that the two can be compared: the port finds what
    the reference finds, the unrolled batches of the reference do what its loops do, and what
    is inserted is found.  \<open>Casht_Variants\<close> has the older batches that keep the queues below a
    threshold, the lookup without vector instructions and the operations without queues.
  \<^item> \<open>Forwarding\<close> (\<open>l2fwd_main_loop\<close> and what it calls): one turn per queue, in the three modes, with
    the counters of \<open>port_statistics\<close>.  \<open>Options\<close>, \<open>Ports\<close>, \<open>Statistics\<close>: the other parts of
    \<open>l2fwd/main.c\<close>, in the order of the file.  \<open>Devices\<close> states the protocol of DPDK's driver calls
    once for both programs, and \<open>Startup\<close> shows that \<open>main\<close> follows it and brings up tables on which
    the loop of \<open>Forwarding\<close> is safe.
  \<^item> \<open>L2fwd_Run\<close>, \<open>L2fwd_Main\<close>, \<open>L2fwd_Program\<close>: the whole of \<open>l2fwd/main.c\<close>.  \<open>L2fwd_Run\<close> interleaves the
    loops of all workers, the loop of the main core and the signal handler, burst by burst, on the
    shared tables and counters; \<open>L2fwd_Main\<close> is \<open>main\<close>, over an environment with every answer of DPDK
    and the devices; \<open>L2fwd_Program\<close> proves exactly when \<open>main\<close> gives up, that it returns once it is
    interrupted or its time is over, and what holds then.
  \<^item> \<open>Pktgen_Frame\<close>, \<open>Pktgen_Workers\<close>, \<open>Pktgen_Main\<close>, \<open>Pktgen_Roles\<close>, \<open>Pktgen_Stats\<close>, \<open>Pktgen_Program\<close>
    (\<open>pktgen/pktgen.c\<close>): the packets, the loops of the workers, the options, the roles and ports,
    the statistics of the main core, and the workers one after the other.  \<open>Pktgen_Run\<close> interleaves
    workers, main core and signals, and shows that each worker does what its own loop does alone;
    \<open>Pktgen_Whole\<close> is \<open>main\<close>, with when it gives up, that it ends, and what holds then.
  \<^item> \<open>Netblast\<close>: both programs, connected by links that may lose and reorder packets.

  \<^bold>\<open>How the parts meet.\<close>  \<open>maglev_process_frame\<close> and \<open>dramblast_process_frames\<close> call \<open>flowhash\<close> and a table; their
  proofs use the laws of \<open>Flow_Table\<close> through the interpretations in \<open>Hashmap\<close> and \<open>Dramblast\<close>.  The
  packets of \<open>Pktgen_Frame\<close> are frames for \<open>flowhash\<close> and for \<open>l2fwd_mac_updating\<close>: it is proved how
  many flows the forwarder sees, and that the time stamps survive the rewriting.  \<open>Netblast\<close> follows
  the packets from the cores of the generator through the cores of the forwarder and back: those
  that return are packets that were sent, and the latencies and counts are theirs.

  \<^bold>\<open>Bounds.\<close>  Capacities are powers of two of at most \<open>2 ^ 32\<close> slots, as the option parser accepts;
  for DRAMBlast at least 4, the slots of a bucket.  Cores are below 128, \<open>MAX_CPU\<close>.  A frame is any
  list of bytes of the length the caller states.

  \<^bold>\<open>Not modelled.\<close>  Printing (\<open>hexdump\<close>, \<open>print_port_stats\<close>, the usage text, the rates in floating point)
  and prefetching, which have no effect on the state; interleavings of
  several cores in the table of \<open>sashstore.c\<close>, which has no atomic operations; the load of a bucket
  by several smaller loads (a 64-byte load of an aligned cache line is taken as one access) and the weaker orders of memory accesses that the processor allows;
  of \<open>docs/cas_kht.hpp\<close>, which is not built, the configurations
  other than the one \<open>Casht\<close> names and the use by several threads (the methods of its slots are in
  headers that are not here, and are arguments); the host tests.
\<close>

end
